(* ===== verification/Prelude.thy ===== *)
theory Prelude
  imports Main "HOL-Library.Word" "HOL-Library.Code_Target_Nat"
begin

text \<open>
  Shared vocabulary of the development: the machine integer types of the Rust sources, the
  result monad behind the question-mark operator, the checked and saturating arithmetic of
  \<open>usize\<close> and \<open>u64\<close>, slice access by range, and the generic lemmas about them.

  Unsigned integers of fixed width are words. \<open>usize\<close> is a \<open>nat\<close>: every
  supported target of the crate (x86-64 and AArch64 Linux) has a 64-bit \<open>usize\<close>, and the
  sources use only checked or saturating arithmetic on it, so the bound \<open>2 ^ 64\<close> is
  written out in those operations. \<open>i64\<close> and \<open>i128\<close> values are \<open>int\<close> with
  their ranges written out where the sources check or saturate them.
\<close>

section \<open>Machine integers\<close>

type_synonym u8 = "8 word"
type_synonym u16 = "16 word"
type_synonym u32 = "32 word"
type_synonym u64 = "64 word"
type_synonym bytes = "8 word list"

named_theorems ok_simps \<open>rewriting of results that are a success\<close>
named_theorems enc_simps \<open>what the encoder operations append\<close>

section \<open>The result monad\<close>

text \<open>\<open>let_ok m f\<close> is \<open>f(m?)\<close>: it returns the error of \<open>m\<close> early, and otherwise goes on
  with its value.\<close>

definition let_ok :: "'e + 'a \<Rightarrow> ('a \<Rightarrow> 'e + 'b) \<Rightarrow> 'e + 'b" where
  "let_ok m f = (case m of Inl e \<Rightarrow> Inl e | Inr x \<Rightarrow> f x)"

lemma let_ok_Inl [simp]: "let_ok (Inl e) f = Inl e"
  by (simp add: let_ok_def)

lemma let_ok_Inr [simp]: "let_ok (Inr x) f = f x"
  by (simp add: let_ok_def)

lemma let_ok_cong [fundef_cong]:
  "m = m' \<Longrightarrow> (\<And>x. m' = Inr x \<Longrightarrow> f x = f' x) \<Longrightarrow> let_ok m f = let_ok m' f'"
  by (cases m') (auto simp: let_ok_def)

text \<open>With this congruence the simplifier evaluates concrete inputs step by step: it leaves the rest
  of a computation alone until the value it continues with is there.\<close>

lemma let_ok_weak_cong: "m = m' \<Longrightarrow> let_ok m f = let_ok m' f"
  by simp

lemma let_ok_eq_Inr [ok_simps]: "let_ok m f = Inr y \<longleftrightarrow> (\<exists>x. m = Inr x \<and> f x = Inr y)"
  by (cases m) auto

lemma let_ok_eq_Inl: "let_ok m f = Inl e \<longleftrightarrow> m = Inl e \<or> (\<exists>x. m = Inr x \<and> f x = Inl e)"
  by (cases m) auto

lemma let_ok_InrE [elim!]:
  assumes "let_ok m f = Inr y"
  obtains x where "m = Inr x" and "f x = Inr y"
  using assms by (cases m) auto

lemma let_ok_assoc: "let_ok (let_ok m f) g = let_ok m (\<lambda>x. let_ok (f x) g)"
  by (cases m) auto

definition ok_or :: "'a option \<Rightarrow> 'e \<Rightarrow> 'e + 'a" where
  "ok_or v e = (case v of None \<Rightarrow> Inl e | Some x \<Rightarrow> Inr x)"

lemma ok_or_None [simp]: "ok_or None e = Inl e"
  by (simp add: ok_or_def)

lemma ok_or_Some [simp]: "ok_or (Some x) e = Inr x"
  by (simp add: ok_or_def)

lemma ok_or_eq_Inr [ok_simps]: "ok_or v e = Inr x \<longleftrightarrow> v = Some x"
  by (cases v) auto

definition map_err :: "('e \<Rightarrow> 'e) \<Rightarrow> 'e + 'a \<Rightarrow> 'e + 'a" where
  "map_err f r = (case r of Inl e \<Rightarrow> Inl (f e) | Inr x \<Rightarrow> Inr x)"

lemma map_err_simps [simp]: "map_err f (Inl e) = Inl (f e)" "map_err f (Inr x) = Inr x"
  by (simp_all add: map_err_def)

lemma map_err_eq_Inr [ok_simps]: "map_err f r = Inr x \<longleftrightarrow> r = Inr x"
  by (cases r) auto

text \<open>\<open>collect::<Result<Vec<_>>>()\<close> and \<open>for\<close> loops whose body may fail: the first error
  ends the traversal. \<open>fold_ok\<close> threads a state, \<open>map_ok\<close> collects the results.\<close>

fun fold_ok :: "('a \<Rightarrow> 's \<Rightarrow> 'e + 's) \<Rightarrow> 'a list \<Rightarrow> 's \<Rightarrow> 'e + 's" where
  "fold_ok f [] s = Inr s"
| "fold_ok f (x # xs) s = let_ok (f x s) (fold_ok f xs)"

fun map_ok :: "('a \<Rightarrow> 'e + 'b) \<Rightarrow> 'a list \<Rightarrow> 'e + 'b list" where
  "map_ok f [] = Inr []"
| "map_ok f (x # xs) = let_ok (f x) (\<lambda>y. let_ok (map_ok f xs) (\<lambda>ys. Inr (y # ys)))"

lemma fold_ok_cong [fundef_cong]:
  "xs = ys \<Longrightarrow> s = t \<Longrightarrow> (\<And>x u. x \<in> set ys \<Longrightarrow> f x u = g x u) \<Longrightarrow> fold_ok f xs s = fold_ok g ys t"
proof (induction xs arbitrary: ys s t)
  case (Cons x xs)
  then show ?case by (cases "g x t") auto
qed simp

lemma map_ok_cong [fundef_cong]:
  "xs = ys \<Longrightarrow> (\<And>x. x \<in> set ys \<Longrightarrow> f x = g x) \<Longrightarrow> map_ok f xs = map_ok g ys"
  by (induction xs arbitrary: ys) auto

lemma fold_ok_append: "fold_ok f (xs @ ys) s = let_ok (fold_ok f xs s) (fold_ok f ys)"
proof (induction xs arbitrary: s)
  case (Cons x xs)
  then show ?case by (cases "f x s") auto
qed simp

lemma fold_ok_invariant:
  "fold_ok f xs s = Inr t \<Longrightarrow> I s \<Longrightarrow> (\<And>x u v. x \<in> set xs \<Longrightarrow> I u \<Longrightarrow> f x u = Inr v \<Longrightarrow> I v) \<Longrightarrow> I t"
proof (induction xs arbitrary: s)
  case (Cons x xs)
  then obtain u where u: "f x s = Inr u" "fold_ok f xs u = Inr t" by auto
  have "I u" using Cons.prems(2,3) u(1) by auto
  then show ?case using Cons.IH[OF u(2)] Cons.prems(3) by auto
qed simp

lemma map_ok_length: "map_ok f xs = Inr ys \<Longrightarrow> length ys = length xs"
  by (induction xs arbitrary: ys) auto

lemma map_ok_nth: "map_ok f xs = Inr ys \<Longrightarrow> i < length xs \<Longrightarrow> f (xs ! i) = Inr (ys ! i)"
proof (induction xs arbitrary: ys i)
  case (Cons x xs)
  then show ?case by (cases i) auto
qed simp

lemma map_ok_Inr_iff: "map_ok f xs = Inr ys \<longleftrightarrow> list_all2 (\<lambda>x y. f x = Inr y) xs ys"
proof (induction xs arbitrary: ys)
  case (Cons x xs)
  then show ?case by (cases ys) (auto simp: ok_simps)
qed auto

lemma map_ok_append: "map_ok f (xs @ ys) = let_ok (map_ok f xs) (\<lambda>as. let_ok (map_ok f ys) (\<lambda>bs. Inr (as @ bs)))"
proof (induction xs)
  case Nil
  then show ?case by (cases "map_ok f ys") auto
next
  case (Cons x xs)
  then show ?case by (cases "f x"; cases "map_ok f xs"; cases "map_ok f ys") auto
qed

lemma map_ok_map: "map_ok f (map h xs) = map_ok (\<lambda>x. f (h x)) xs"
  by (induction xs) auto

lemma fold_ok_collect: "fold_ok (\<lambda>x s. let_ok (h x) (\<lambda>y. Inr (s @ [y]))) xs s0 = let_ok (map_ok h xs) (\<lambda>ys. Inr (s0 @ ys))"
proof (induction xs arbitrary: s0)
  case (Cons x xs)
  then show ?case by (cases "h x"; cases "map_ok h xs") auto
qed simp

section \<open>Checked and saturating arithmetic\<close>

text \<open>On \<open>usize\<close>.\<close>

definition checked_add :: "nat \<Rightarrow> nat \<Rightarrow> nat option" where
  "checked_add a b = (if a + b < 2 ^ 64 then Some (a + b) else None)"

definition checked_mul :: "nat \<Rightarrow> nat \<Rightarrow> nat option" where
  "checked_mul a b = (if a * b < 2 ^ 64 then Some (a * b) else None)"

definition checked_sub :: "nat \<Rightarrow> nat \<Rightarrow> nat option" where
  "checked_sub a b = (if b \<le> a then Some (a - b) else None)"

definition saturating_add :: "nat \<Rightarrow> nat \<Rightarrow> nat" where
  "saturating_add a b = min (a + b) (2 ^ 64 - 1)"

definition saturating_mul :: "nat \<Rightarrow> nat \<Rightarrow> nat" where
  "saturating_mul a b = min (a * b) (2 ^ 64 - 1)"

lemma checked_add_eq_Some [ok_simps]: "checked_add a b = Some c \<longleftrightarrow> c = a + b \<and> a + b < 2 ^ 64"
  by (auto simp: checked_add_def)

lemma checked_mul_eq_Some [ok_simps]: "checked_mul a b = Some c \<longleftrightarrow> c = a * b \<and> a * b < 2 ^ 64"
  by (auto simp: checked_mul_def)

lemma checked_sub_eq_Some [ok_simps]: "checked_sub a b = Some c \<longleftrightarrow> c = a - b \<and> b \<le> a"
  by (auto simp: checked_sub_def)

lemma saturating_add_small: "a + b < 2 ^ 64 \<Longrightarrow> saturating_add a b = a + b"
  by (simp add: saturating_add_def)

text \<open>On \<open>u64\<close>.\<close>

definition checked_add_u64 :: "u64 \<Rightarrow> u64 \<Rightarrow> u64 option" where
  "checked_add_u64 a b = (if unat a + unat b < 2 ^ 64 then Some (a + b) else None)"

definition checked_mul_u64 :: "u64 \<Rightarrow> u64 \<Rightarrow> u64 option" where
  "checked_mul_u64 a b = (if unat a * unat b < 2 ^ 64 then Some (a * b) else None)"

definition checked_sub_u64 :: "u64 \<Rightarrow> u64 \<Rightarrow> u64 option" where
  "checked_sub_u64 a b = (if b \<le> a then Some (a - b) else None)"

definition saturating_add_u64 :: "u64 \<Rightarrow> u64 \<Rightarrow> u64" where
  "saturating_add_u64 a b = (if unat a + unat b < 2 ^ 64 then a + b else - 1)"

definition saturating_sub_u64 :: "u64 \<Rightarrow> u64 \<Rightarrow> u64" where
  "saturating_sub_u64 a b = (if b \<le> a then a - b else 0)"

lemma unat_add_u64: "unat a + unat b < 2 ^ 64 \<Longrightarrow> unat (a + b :: u64) = unat a + unat b"
  by (simp add: unat_word_ariths)

lemma unat_sub_u64: "b \<le> a \<Longrightarrow> unat (a - b :: u64) = unat a - unat b"
  by (rule unat_sub)

lemma checked_add_u64_Some:
  "checked_add_u64 a b = Some c \<Longrightarrow> unat c = unat a + unat b \<and> c = a + b \<and> a \<le> c"
  by (auto simp: checked_add_u64_def unat_add_u64 word_le_nat_alt split: if_splits)

lemma checked_add_u64_le: "checked_add_u64 a b = Some c \<Longrightarrow> a \<le> c"
  using checked_add_u64_Some by blast

lemma checked_add_u64_sub:
  "a \<le> b \<Longrightarrow> checked_add_u64 a (b - a) = Some b"
  using unsigned_less[of b] by (simp add: checked_add_u64_def unat_sub_u64 word_le_nat_alt)

lemma unat_u64_lt [simp]: "unat (x :: u64) < 18446744073709551616"
  using unsigned_less[of x] by simp

lemma unat_u32_lt [simp]: "unat (x :: u32) < 4294967296"
  using unsigned_less[of x] by simp

lemma uint_u32_lt: "uint (x :: u32) < 4294967296"
proof -
  have "int (unat x) < 4294967296" by (simp only: of_nat_less_numeral_iff unat_u32_lt)
  then show ?thesis by (simp only: of_nat_unat)
qed

lemma unat_u16_lt [simp]: "unat (x :: u16) < 65536"
  using unsigned_less[of x] by simp

lemma unat_u8_lt [simp]: "unat (x :: u8) < 256"
  using unsigned_less[of x] by simp

lemma unat_eqI: "unat v = unat w \<Longrightarrow> v = w"
  by (rule unsigned_word_eqI)

text \<open>Widening casts keep the value.\<close>

lemma unat_ucast_u8 [simp]: "unat (ucast (x :: u8) :: u64) = unat x"
  by (simp add: unsigned_ucast_eq take_bit_nat_eq_self_iff less_trans[OF unsigned_less])

lemma unat_ucast_u32 [simp]: "unat (ucast (x :: u32) :: u64) = unat x"
  by (simp add: unsigned_ucast_eq take_bit_nat_eq_self_iff less_trans[OF unsigned_less])

section \<open>Slices\<close>

text \<open>\<open>data.get(a..b)\<close>.\<close>

definition slice_get :: "'a list \<Rightarrow> nat \<Rightarrow> nat \<Rightarrow> 'a list option" where
  "slice_get xs a b = (if a \<le> b \<and> b \<le> length xs then Some (take (b - a) (drop a xs)) else None)"

text \<open>\<open>data.get(i)\<close>.\<close>

definition nth_get :: "'a list \<Rightarrow> nat \<Rightarrow> 'a option" where
  "nth_get xs i = (if i < length xs then Some (xs ! i) else None)"

lemma slice_get_eq_Some [ok_simps]:
  "slice_get xs a b = Some ys \<longleftrightarrow> a \<le> b \<and> b \<le> length xs \<and> ys = take (b - a) (drop a xs)"
  by (auto simp: slice_get_def)

lemma nth_get_eq_Some [ok_simps]: "nth_get xs i = Some x \<longleftrightarrow> i < length xs \<and> x = xs ! i"
  by (auto simp: nth_get_def)

text \<open>\<open>slice::partition_point\<close>: the length of the prefix on which the predicate holds. The
  standard library documents it for slices partitioned by the predicate and computes it by
  halving; this is that search.\<close>

function bisect :: "(nat \<Rightarrow> bool) \<Rightarrow> nat \<Rightarrow> nat \<Rightarrow> nat" where
  "bisect p low high =
     (if low < high
      then let middle = low + (high - low) div 2
           in if p middle then bisect p (Suc middle) high else bisect p low middle
      else low)"
  by pat_completeness auto
termination
  by (relation "measure (\<lambda>(p, low, high). high - low)") auto

declare bisect.simps [simp del]

definition partition_point :: "('a \<Rightarrow> bool) \<Rightarrow> 'a list \<Rightarrow> nat" where
  "partition_point p xs = bisect (\<lambda>i. p (xs ! i)) 0 (length xs)"

lemma bisect_bounds: "low \<le> high \<Longrightarrow> low \<le> bisect p low high \<and> bisect p low high \<le> high"
proof (induction p low high rule: bisect.induct)
  case (1 p low high)
  show ?case
  proof (cases "low < high")
    case True
    define m where "m = low + (high - low) div 2"
    have m: "low \<le> m" "m < high" using True by (auto simp: m_def)
    then show ?thesis
      using "1.IH"[OF True m_def] True by (auto simp: bisect.simps[of p low high] m_def[symmetric])
  next
    case False
    then have "bisect p low high = low" by (simp add: bisect.simps[of p low high])
    with 1 show ?thesis by simp
  qed
qed

lemma bisect_partition:
  assumes "low \<le> high" and "\<And>i j. low \<le> i \<Longrightarrow> i \<le> j \<Longrightarrow> j < high \<Longrightarrow> p j \<Longrightarrow> p i"
  shows "(\<forall>i. low \<le> i \<and> i < bisect p low high \<longrightarrow> p i)
    \<and> (\<forall>i. bisect p low high \<le> i \<and> i < high \<longrightarrow> \<not> p i)"
  using assms
proof (induction p low high rule: bisect.induct)
  case (1 p low high)
  show ?case
  proof (cases "low < high")
    case False
    then have "bisect p low high = low" by (simp add: bisect.simps[of p low high])
    then show ?thesis using False by auto
  next
    case True
    define m where "m = low + (high - low) div 2"
    have m: "low \<le> m" "m < high" using True by (auto simp: m_def)
    show ?thesis
    proof (cases "p m")
      case pm: True
      have IH: "(\<forall>i. Suc m \<le> i \<and> i < bisect p (Suc m) high \<longrightarrow> p i)
          \<and> (\<forall>i. bisect p (Suc m) high \<le> i \<and> i < high \<longrightarrow> \<not> p i)"
        using "1.IH"(1)[OF True m_def pm] m "1.prems"(2) by auto
      have "bisect p low high = bisect p (Suc m) high"
        using True pm by (simp add: bisect.simps[of p low high] m_def[symmetric])
      moreover have "p i" if "low \<le> i" "i \<le> m" for i
        using "1.prems"(2)[OF that m(2) pm] .
      ultimately show ?thesis using IH by (metis not_less_eq_eq)
    next
      case pm: False
      have IH: "(\<forall>i. low \<le> i \<and> i < bisect p low m \<longrightarrow> p i)
          \<and> (\<forall>i. bisect p low m \<le> i \<and> i < m \<longrightarrow> \<not> p i)"
        using "1.IH"(2)[OF True m_def pm] m "1.prems"(2) by auto
      have "bisect p low high = bisect p low m"
        using True pm by (simp add: bisect.simps[of p low high] m_def[symmetric])
      moreover have "\<not> p i" if "m \<le> i" "i < high" for i
        using "1.prems"(2)[of m i] m that pm by blast
      ultimately show ?thesis using IH by (metis not_less)
    qed
  qed
qed

section \<open>Lists\<close>

lemma drop_eq_append_take: "drop n xs = ys @ zs \<Longrightarrow> take (length ys) (drop n xs) = ys"
  by simp

lemma drop_eq_append_drop: "drop n xs = ys @ zs \<Longrightarrow> drop (n + length ys) xs = zs"
  by (metis add.commute append_eq_conv_conj drop_drop)

lemma drop_eq_append_length:
  assumes "drop n xs = ys @ zs" and "ys \<noteq> []"
  shows "n + length ys \<le> length xs"
proof -
  have "length xs - n = length ys + length zs" using arg_cong[OF assms(1), of length] by simp
  then show ?thesis using assms(2) by (cases ys) auto
qed

end
