(* ===== verification/Errors.thy ===== *)
theory Errors
  imports Prelude
begin

text \<open>
  The error type of \<open>src/error.rs\<close>, with the constructors of the source in their order.
  Message fragments and field names are \<open>string\<close>s. A wrapped source error of another crate
  or of the operating system is opaque to the sources; it is carried as its rendered message.
  \<open>decimal\<close> and \<open>decimal_int\<close> are the \<open>Display\<close> forms of integers, for the one
  diagnostic that formats numbers into its text.
\<close>

datatype elf_input_kind =
    Image | Debug | Symbols | Supplementary | Dwp | Dwo | EmbeddedDebugData

datatype companion_mismatch = Architecture | BuildId

datatype error =
    UnexpectedEof nat nat nat \<comment> \<open>offset, needed, remaining\<close>
  | Overflow string
  | OutOfRange string u64 u64 \<comment> \<open>field, value, max\<close>
  | FunctionIndexOutOfBounds nat nat \<comment> \<open>index, count\<close>
  | InvalidMagic u32
  | UnsupportedVersion u16
  | InvalidAddressOffsetSize u16 u8 \<comment> \<open>version, size\<close>
  | UnsupportedStringTableEncoding u8
  | InvalidUuidSize nat
  | V1BuildIdTooLong nat
  | MissingSection u32
  | DuplicateSection u32
  | ZeroSizedSection u32
  | SectionOutOfBounds u32 u64 u64 nat \<comment> \<open>section type, offset, size, input length\<close>
  | InvalidOffset u64 nat \<comment> \<open>offset, input length\<close>
  | InvalidAlignment nat
  | MalformedUleb nat string \<comment> \<open>offset, reason\<close>
  | MalformedSleb nat string \<comment> \<open>offset, reason\<close>
  | UnsupportedInfoType u32
  | ZeroNameOffset
  | InvalidFormat string
  | InvalidModel string
  | Limit string u64 u64 \<comment> \<open>context, value, limit\<close>
  | Malformed string string \<comment> \<open>context, detail\<close>
  | ElfParse elf_input_kind string
  | Dwarf string
  | NotElf elf_input_kind
  | CompanionMismatch elf_input_kind companion_mismatch
  | IoAtPath string string string \<comment> \<open>operation, path, source\<close>
  | V1LimitExceeded string u64 \<comment> \<open>field, value\<close>
  | Io string

type_synonym 'a result = "error + 'a"

text \<open>\<open>matches!(error, Error::UnexpectedEof { .. })\<close>\<close>

fun is_unexpected_eof :: "error \<Rightarrow> bool" where
  "is_unexpected_eof (UnexpectedEof _ _ _) = True"
| "is_unexpected_eof _ = False"

text \<open>\<open>Error::malformed\<close>\<close>

definition malformed :: "string \<Rightarrow> string \<Rightarrow> error" where
  "malformed ctx detail = Malformed ctx detail"

text \<open>Decimal rendering of an integer, as \<open>to_string\<close> and \<open>format!\<close> produce it.\<close>

definition digit_char :: "nat \<Rightarrow> char" where
  "digit_char d = char_of (48 + d)"

fun decimal :: "nat \<Rightarrow> string" where
  "decimal n = (if n < 10 then [digit_char n] else decimal (n div 10) @ [digit_char (n mod 10)])"

declare decimal.simps [simp del]

definition decimal_int :: "int \<Rightarrow> string" where
  "decimal_int i = (if i < 0 then CHR ''-'' # decimal (nat (- i)) else decimal (nat i))"

text \<open>Narrowing conversions that fail with an error of the caller's choice: \<open>try_from\<close>.\<close>

definition u32_try_from :: "nat \<Rightarrow> u32 option" where
  "u32_try_from n = (if n < 2 ^ 32 then Some (word_of_nat n) else None)"

definition u8_try_from :: "int \<Rightarrow> u8 option" where
  "u8_try_from i = (if 0 \<le> i \<and> i < 256 then Some (word_of_int i) else None)"

lemma unat_word_of_nat_u32: "n < 2 ^ 32 \<Longrightarrow> unat (word_of_nat n :: u32) = n"
  by (simp add: unsigned_of_nat take_bit_nat_eq_self_iff)

lemma unat_word_of_nat_u64: "n < 2 ^ 64 \<Longrightarrow> unat (word_of_nat n :: u64) = n"
  by (simp add: unsigned_of_nat take_bit_nat_eq_self_iff)

lemma unat_word_of_nat_u8: "unat (word_of_nat n :: u8) = n mod 256"
  by (simp add: unsigned_of_nat take_bit_eq_mod)

lemma u32_try_from_unat [simp]: "u32_try_from (unat (x :: u32)) = Some x"
  by (simp add: u32_try_from_def)

lemma u32_try_from_eq_Some [ok_simps]:
  "u32_try_from n = Some x \<longleftrightarrow> n < 2 ^ 32 \<and> x = word_of_nat n"
  by (auto simp: u32_try_from_def)

end
