(* ===== verification/Endian.thy ===== *)
theory Endian
  imports Errors
begin

text \<open>
  \<open>src/endian.rs\<close>: byte orders, the bounds-checked \<open>Cursor\<close> every decoder reads from, and
  the \<open>Encoder\<close> every writer appends to. A cursor operation returns the value read and the
  moved cursor; after an error the source never looks at the cursor again, so an error carries
  no cursor. The second half gives the wire-format interface as a locale, \<open>codec\<close>: what a
  writer puts is what the matching reader gets, wherever in the input it stands.
\<close>

section \<open>Byte orders\<close>

datatype endian = Little | Big

text \<open>\<open>to_le_bytes\<close> of the low \<open>k\<close> bytes, and \<open>from_le_bytes\<close>.\<close>

primrec le_bytes :: "nat \<Rightarrow> nat \<Rightarrow> bytes" where
  "le_bytes 0 v = []"
| "le_bytes (Suc k) v = word_of_nat v # le_bytes k (v div 256)"

primrec le_nat :: "bytes \<Rightarrow> nat" where
  "le_nat [] = 0"
| "le_nat (b # bs) = unat b + 256 * le_nat bs"

definition to_bytes :: "endian \<Rightarrow> nat \<Rightarrow> nat \<Rightarrow> bytes" where
  "to_bytes e k v = (case e of Little \<Rightarrow> le_bytes k v | Big \<Rightarrow> rev (le_bytes k v))"

definition from_bytes :: "endian \<Rightarrow> bytes \<Rightarrow> nat" where
  "from_bytes e bs = (case e of Little \<Rightarrow> le_nat bs | Big \<Rightarrow> le_nat (rev bs))"

lemma length_le_bytes [simp]: "length (le_bytes k v) = k"
  by (induction k arbitrary: v) auto

lemma length_to_bytes [simp]: "length (to_bytes e k v) = k"
  by (simp add: to_bytes_def split: endian.split)

lemma le_nat_le_bytes: "le_nat (le_bytes k v) = v mod 256 ^ k"
proof (induction k arbitrary: v)
  case (Suc k)
  then show ?case
    using mod_mult2_eq[of v 256 "256 ^ k"] by (simp add: unat_word_of_nat_u8)
qed simp

lemma le_bytes_le_nat: "le_bytes (length bs) (le_nat bs) = bs"
proof (induction bs)
  case (Cons b bs)
  have "unat (word_of_nat (unat b + 256 * le_nat bs) :: u8) = unat b"
    by (simp add: unat_word_of_nat_u8 del: of_nat_add of_nat_mult)
  then have "word_of_nat (unat b + 256 * le_nat bs) = (b :: u8)"
    by (rule unsigned_word_eqI)
  moreover have "(unat b + 256 * le_nat bs) div 256 = le_nat bs"
    by simp
  ultimately show ?case using Cons by simp
qed simp

lemma le_nat_bound: "le_nat bs < 256 ^ length bs"
proof (induction bs)
  case (Cons b bs)
  have "unat b < 256" by simp
  moreover have "le_nat bs + 1 \<le> 256 ^ length bs" using Cons by simp
  ultimately have "unat b + 256 * le_nat bs < 256 * 256 ^ length bs" by linarith
  then show ?case by simp
qed simp

lemma from_to_bytes: "from_bytes e (to_bytes e k v) = v mod 256 ^ k"
  by (simp add: from_bytes_def to_bytes_def le_nat_le_bytes split: endian.split)

lemma to_from_bytes: "to_bytes e (length bs) (from_bytes e bs) = bs"
  using le_bytes_le_nat[of bs] le_bytes_le_nat[of "rev bs"]
  by (simp add: from_bytes_def to_bytes_def split: endian.split)

lemma from_bytes_bound: "from_bytes e bs < 256 ^ length bs"
  using le_nat_bound[of bs] le_nat_bound[of "rev bs"]
  by (simp add: from_bytes_def split: endian.split)

lemma take_le_bytes: "k \<le> n \<Longrightarrow> take k (le_bytes n v) = le_bytes k v"
proof (induction k arbitrary: n v)
  case (Suc k)
  then show ?case by (cases n) auto
qed simp

lemma le_nat_append_zeros: "le_nat (bs @ replicate n 0) = le_nat bs"
proof -
  have "le_nat (replicate n 0) = 0" by (induction n) auto
  then show ?thesis by (induction bs) auto
qed

section \<open>The cursor\<close>

record cursor =
  cbytes :: bytes
  position :: nat
  cendian :: endian

definition cursor_new :: "bytes \<Rightarrow> endian \<Rightarrow> cursor" where
  "cursor_new bs e = \<lparr>cbytes = bs, position = 0, cendian = e\<rparr>"

definition cursor_at :: "bytes \<Rightarrow> endian \<Rightarrow> nat \<Rightarrow> cursor result" where
  "cursor_at bs e pos =
     (if pos > length bs then Inl (InvalidOffset (word_of_nat pos) (length bs))
      else Inr \<lparr>cbytes = bs, position = pos, cendian = e\<rparr>)"

definition remaining :: "cursor \<Rightarrow> nat" where
  "remaining c = length (cbytes c) - position c"

definition cursor_is_empty :: "cursor \<Rightarrow> bool" where
  "cursor_is_empty c \<longleftrightarrow> remaining c = 0"

definition cursor_take :: "nat \<Rightarrow> cursor \<Rightarrow> (bytes \<times> cursor) result" where
  "cursor_take count c =
     let_ok (ok_or (checked_add (position c) count) (Overflow ''cursor end offset'')) (\<lambda>stop.
     case slice_get (cbytes c) (position c) stop of
       None \<Rightarrow> Inl (UnexpectedEof (position c) count (remaining c))
     | Some bs \<Rightarrow> Inr (bs, c\<lparr>position := stop\<rparr>))"

text \<open>The source moves to \<open>offset.saturating_add(N)\<close>. The branch has checked that
  \<open>offset + N\<close> is at most the length of a slice, so the addition cannot saturate.\<close>

definition take_array :: "nat \<Rightarrow> cursor \<Rightarrow> (bytes \<times> cursor) result" where
  "take_array n c =
     (let offset = position c in
      if offset \<le> length (cbytes c) \<and> n \<le> length (drop offset (cbytes c))
      then Inr (take n (drop offset (cbytes c)), c\<lparr>position := offset + n\<rparr>)
      else Inl (UnexpectedEof offset n (remaining c)))"

definition read_u8 :: "cursor \<Rightarrow> (u8 \<times> cursor) result" where
  "read_u8 c = let_ok (take_array 1 c) (\<lambda>(bs, c). Inr (hd bs, c))"

definition read_u16 :: "cursor \<Rightarrow> (u16 \<times> cursor) result" where
  "read_u16 c = let_ok (take_array 2 c) (\<lambda>(bs, c). Inr (word_of_nat (from_bytes (cendian c) bs), c))"

definition read_u32 :: "cursor \<Rightarrow> (u32 \<times> cursor) result" where
  "read_u32 c = let_ok (take_array 4 c) (\<lambda>(bs, c). Inr (word_of_nat (from_bytes (cendian c) bs), c))"

definition read_u64 :: "cursor \<Rightarrow> (u64 \<times> cursor) result" where
  "read_u64 c = let_ok (take_array 8 c) (\<lambda>(bs, c). Inr (word_of_nat (from_bytes (cendian c) bs), c))"

definition read_uint :: "u8 \<Rightarrow> cursor \<Rightarrow> (u64 \<times> cursor) result" where
  "read_uint width c =
     (if width = 1 then let_ok (read_u8 c) (\<lambda>(v, c). Inr (ucast v, c))
      else if width = 2 then let_ok (read_u16 c) (\<lambda>(v, c). Inr (ucast v, c))
      else if width = 4 then let_ok (read_u32 c) (\<lambda>(v, c). Inr (ucast v, c))
      else if width = 8 then read_u64 c
      else if width = 3 \<or> 5 \<le> width \<and> width \<le> 7 then
        let count = unat width in
        let_ok (cursor_take count c) (\<lambda>(bs, c).
        let buffer = (case cendian c of
            Little \<Rightarrow> bs @ replicate (8 - count) 0
          | Big \<Rightarrow> replicate (8 - count) 0 @ bs) in
        Inr (word_of_nat (from_bytes (cendian c) buffer), c))
      else Inl (OutOfRange ''integer width'' (ucast width) 8))"

text \<open>\<open>for _ in 0..count { items.push(read(cursor)?) }\<close>\<close>

fun read_many :: "(cursor \<Rightarrow> ('a \<times> cursor) result) \<Rightarrow> nat \<Rightarrow> cursor \<Rightarrow> ('a list \<times> cursor) result" where
  "read_many get 0 c = Inr ([], c)"
| "read_many get (Suc n) c =
     let_ok (get c) (\<lambda>(x, c). let_ok (read_many get n c) (\<lambda>(xs, c). Inr (x # xs, c)))"

section \<open>The encoder\<close>

record encoder =
  ebytes :: bytes
  eendian :: endian

definition encoder_new :: "endian \<Rightarrow> encoder" where
  "encoder_new e = \<lparr>ebytes = [], eendian = e\<rparr>"

definition encoder_len :: "encoder \<Rightarrow> nat" where
  "encoder_len out = length (ebytes out)"

definition write_bytes :: "bytes \<Rightarrow> encoder \<Rightarrow> encoder" where
  "write_bytes bs out = out\<lparr>ebytes := ebytes out @ bs\<rparr>"

definition write_u8 :: "u8 \<Rightarrow> encoder \<Rightarrow> encoder" where
  "write_u8 v out = out\<lparr>ebytes := ebytes out @ [v]\<rparr>"

definition write_u16 :: "u16 \<Rightarrow> encoder \<Rightarrow> encoder" where
  "write_u16 v out = out\<lparr>ebytes := ebytes out @ to_bytes (eendian out) 2 (unat v)\<rparr>"

definition write_u32 :: "u32 \<Rightarrow> encoder \<Rightarrow> encoder" where
  "write_u32 v out = out\<lparr>ebytes := ebytes out @ to_bytes (eendian out) 4 (unat v)\<rparr>"

definition write_u64 :: "u64 \<Rightarrow> encoder \<Rightarrow> encoder" where
  "write_u64 v out = out\<lparr>ebytes := ebytes out @ to_bytes (eendian out) 8 (unat v)\<rparr>"

definition write_uint :: "u64 \<Rightarrow> u8 \<Rightarrow> encoder \<Rightarrow> encoder result" where
  "write_uint v width out =
     (if width = 4 then
        (case u32_try_from (unat v) of
           None \<Rightarrow> Inl (OutOfRange ''fixed-width integer'' v 0xFFFFFFFF)
         | Some v \<Rightarrow> Inr (write_u32 v out))
      else if width = 8 then Inr (write_u64 v out)
      else if \<not> (1 \<le> width \<and> width \<le> 8) then
        Inl (OutOfRange ''integer width'' (ucast width) 8)
      else
        let count = unat width;
            maxv = drop_bit ((8 - unat width) * 8) (- 1 :: u64) in
        if width < 8 \<and> v > maxv then Inl (OutOfRange ''fixed-width integer'' v maxv)
        else
          let bs = to_bytes (eendian out) 8 (unat v);
              window = (case eendian out of Little \<Rightarrow> take count bs | Big \<Rightarrow> drop (8 - count) bs) in
          Inr (out\<lparr>ebytes := ebytes out @ window\<rparr>))"

definition align_to :: "nat \<Rightarrow> encoder \<Rightarrow> encoder result" where
  "align_to alignment out =
     (if alignment = 0 then Inl (InvalidAlignment alignment)
      else
        let remainder = length (ebytes out) mod alignment in
        if remainder \<noteq> 0 then
          let padding = alignment - remainder in
          let_ok (ok_or (checked_add (length (ebytes out)) padding) (Overflow ''aligned output length''))
            (\<lambda>new_len. Inr (out\<lparr>ebytes := ebytes out @ replicate (new_len - length (ebytes out)) 0\<rparr>))
        else Inr out)"

definition patch_u32 :: "nat \<Rightarrow> u32 \<Rightarrow> encoder \<Rightarrow> encoder result" where
  "patch_u32 offset v out =
     (let bs = to_bytes (eendian out) 4 (unat v) in
      let_ok (ok_or (checked_add offset (length bs)) (Overflow ''patch end offset'')) (\<lambda>stop.
      if offset \<le> stop \<and> stop \<le> length (ebytes out)
      then Inr (out\<lparr>ebytes := take offset (ebytes out) @ bs @ drop stop (ebytes out)\<rparr>)
      else Inl (UnexpectedEof offset (length bs) (length (ebytes out) - offset))))"

section \<open>What stands ahead of a cursor\<close>

text \<open>\<open>ahead c xs\<close>: the input goes on with \<open>xs\<close> at the cursor. An input slice is shorter than
  \<open>2 ^ 64\<close> bytes, as every Rust slice is.\<close>

definition ahead :: "cursor \<Rightarrow> bytes \<Rightarrow> bool" where
  "ahead c xs \<longleftrightarrow> length (cbytes c) < 2 ^ 64 \<and> position c \<le> length (cbytes c)
     \<and> (\<exists>rest. drop (position c) (cbytes c) = xs @ rest)"

definition advance :: "nat \<Rightarrow> cursor \<Rightarrow> cursor" where
  "advance n c = c\<lparr>position := position c + n\<rparr>"

lemma advance_simps [simp]:
  "cbytes (advance n c) = cbytes c" "cendian (advance n c) = cendian c"
  "position (advance n c) = position c + n" "advance 0 c = c"
  "advance m (advance n c) = advance (n + m) c"
  by (simp_all add: advance_def)

lemma ahead_append: "ahead c (xs @ ys) \<longleftrightarrow> ahead c xs \<and> ahead (advance (length xs) c) ys"
proof
  assume "ahead c (xs @ ys)"
  then obtain rest where r: "drop (position c) (cbytes c) = (xs @ ys) @ rest"
    and b: "length (cbytes c) < 2 ^ 64" "position c \<le> length (cbytes c)"
    by (auto simp: ahead_def)
  have "position c + length xs \<le> length (cbytes c)"
    using arg_cong[OF r, of length] b by simp
  moreover have "drop (position c + length xs) (cbytes c) = ys @ rest"
    using r by (simp add: drop_eq_append_drop)
  ultimately show "ahead c xs \<and> ahead (advance (length xs) c) ys"
    using r b by (auto simp: ahead_def)
next
  assume a: "ahead c xs \<and> ahead (advance (length xs) c) ys"
  then obtain rest1 rest2 where r: "drop (position c) (cbytes c) = xs @ rest1"
    "drop (position c + length xs) (cbytes c) = ys @ rest2"
    by (auto simp: ahead_def)
  then have "rest1 = ys @ rest2" by (simp add: drop_eq_append_drop)
  then show "ahead c (xs @ ys)" using a r by (auto simp: ahead_def)
qed

lemma ahead_Nil [simp]:
  "ahead c [] \<longleftrightarrow> length (cbytes c) < 2 ^ 64 \<and> position c \<le> length (cbytes c)"
  by (simp add: ahead_def)

lemma aheadD: "ahead c xs \<Longrightarrow> position c + length xs \<le> length (cbytes c)"
  by (auto simp: ahead_def dest: arg_cong[of _ _ length])

lemma ahead_length: "ahead c xs \<Longrightarrow> length (cbytes c) < 2 ^ 64"
  by (simp add: ahead_def)

lemma ahead_remaining: "ahead c xs \<Longrightarrow> length xs \<le> remaining c"
  by (auto simp: remaining_def dest: aheadD)

lemma ahead_take: "ahead c xs \<Longrightarrow> take (length xs) (drop (position c) (cbytes c)) = xs"
  by (auto simp: ahead_def)

lemma ahead_all: "length bs < 2 ^ 64 \<Longrightarrow> ahead (cursor_new bs e) bs"
  by (simp add: ahead_def cursor_new_def)

lemma ahead_prefix: "length (xs @ ys) < 2 ^ 64 \<Longrightarrow> ahead (cursor_new (xs @ ys) e) xs"
  by (auto simp: ahead_def cursor_new_def)

lemma take_array_ahead: "ahead c xs \<Longrightarrow> take_array (length xs) c = Inr (xs, advance (length xs) c)"
  using aheadD[of c xs] ahead_take[of c xs] ahead_length[of c xs]
  by (auto simp: take_array_def Let_def advance_def)

lemma cursor_take_ahead: "ahead c xs \<Longrightarrow> cursor_take (length xs) c = Inr (xs, advance (length xs) c)"
  using aheadD[of c xs] ahead_take[of c xs] ahead_length[of c xs]
  by (auto simp: cursor_take_def checked_add_def slice_get_def advance_def)

text \<open>A read that succeeds moves the cursor forward over the bytes it returns, and keeps the input.\<close>

definition moved :: "nat \<Rightarrow> cursor \<Rightarrow> cursor \<Rightarrow> bool" where
  "moved n c c' \<longleftrightarrow> cbytes c' = cbytes c \<and> cendian c' = cendian c
     \<and> position c + n \<le> position c' \<and> position c' \<le> length (cbytes c)"

lemma moved_trans: "moved m c c' \<Longrightarrow> moved n c' c'' \<Longrightarrow> moved (m + n) c c''"
  by (auto simp: moved_def)

lemma moved_weaken: "moved m c c' \<Longrightarrow> n \<le> m \<Longrightarrow> moved n c c'"
  by (auto simp: moved_def)

lemma take_array_moved: "take_array n c = Inr (bs, c') \<Longrightarrow> moved n c c' \<and> length bs = n"
  by (auto simp: take_array_def Let_def moved_def split: if_splits)

lemma cursor_take_moved: "cursor_take n c = Inr (bs, c') \<Longrightarrow> moved n c c' \<and> length bs = n"
  by (auto simp: cursor_take_def moved_def ok_simps split: option.splits)

lemma read_u8_moved: "read_u8 c = Inr (v, c') \<Longrightarrow> moved 1 c c'"
  by (auto simp: read_u8_def dest: take_array_moved)

lemma read_u16_moved: "read_u16 c = Inr (v, c') \<Longrightarrow> moved 2 c c'"
  by (auto simp: read_u16_def dest: take_array_moved)

lemma read_u32_moved: "read_u32 c = Inr (v, c') \<Longrightarrow> moved 4 c c'"
  by (auto simp: read_u32_def dest: take_array_moved)

lemma read_u64_moved: "read_u64 c = Inr (v, c') \<Longrightarrow> moved 8 c c'"
  by (auto simp: read_u64_def dest: take_array_moved)

lemma read_uint_moved:
  assumes "read_uint width c = Inr (v, c')"
  shows "moved (unat width) c c' \<and> 1 \<le> unat width \<and> unat width \<le> 8"
proof -
  consider "width = 1" | "width = 2" | "width = 4" | "width = 8" | "width = 3 \<or> 5 \<le> width \<and> width \<le> 7"
    using assms by (auto simp: read_uint_def split: if_splits)
  then show ?thesis
    using assms
    by cases (auto simp: read_uint_def Let_def word_le_nat_alt
        dest: read_u8_moved read_u16_moved read_u32_moved read_u64_moved cursor_take_moved split: if_splits)
qed

lemma read_many_moved:
  assumes "read_many get n c = Inr (xs, c')" "position c \<le> length (cbytes c)"
    and "\<And>c x c'. get c = Inr (x, c') \<Longrightarrow> moved k c c'"
  shows "moved (n * k) c c' \<and> length xs = n"
  using assms(1,2)
proof (induction n arbitrary: c xs)
  case 0
  then show ?case by (auto simp: moved_def)
next
  case (Suc n)
  then obtain x c1 ys where 1: "get c = Inr (x, c1)" "read_many get n c1 = Inr (ys, c')" "xs = x # ys"
    by auto
  have "moved k c c1" using assms(3) 1(1) .
  then have "moved (n * k) c1 c' \<and> length ys = n" using Suc.IH[OF 1(2)] by (auto simp: moved_def)
  with \<open>moved k c c1\<close> show ?case using 1(3) by (auto intro: moved_trans)
qed

section \<open>The wire-format interface\<close>

text \<open>A codec is a writer \<open>put\<close>, given as the bytes it appends, and a reader \<open>get\<close> that gets
  back every admissible value the writer put, and moves over exactly its bytes.\<close>

locale codec =
  fixes put :: "endian \<Rightarrow> 'a \<Rightarrow> bytes"
    and get :: "cursor \<Rightarrow> ('a \<times> cursor) result"
    and admissible :: "'a \<Rightarrow> bool"
  assumes get_put: "admissible x \<Longrightarrow> ahead c (put (cendian c) x)
    \<Longrightarrow> get c = Inr (x, advance (length (put (cendian c) x)) c)"
begin

lemma get_put_append:
  assumes "admissible x" and "ahead c (put (cendian c) x @ ys)"
  shows "get c = Inr (x, advance (length (put (cendian c) x)) c)
    \<and> ahead (advance (length (put (cendian c) x)) c) ys"
  using assms by (auto simp: ahead_append intro: get_put)

lemma read_many_put:
  "list_all admissible xs \<Longrightarrow> ahead c (concat (map (put (cendian c)) xs))
    \<Longrightarrow> read_many get (length xs) c = Inr (xs, advance (length (concat (map (put (cendian c)) xs))) c)"
proof (induction xs arbitrary: c)
  case (Cons x xs)
  let ?c = "advance (length (put (cendian c) x)) c"
  have "get c = Inr (x, ?c)" and "ahead ?c (concat (map (put (cendian c)) xs))"
    using get_put_append[of x c "concat (map (put (cendian c)) xs)"] Cons.prems by auto
  then show ?case using Cons.IH[of ?c] Cons.prems by simp
qed simp

end

text \<open>A codec whose values all occupy the same number of bytes.\<close>

locale fixed_codec = codec +
  fixes width :: nat
  assumes width: "length (put e x) = width"
begin

lemma length_concat_put: "length (concat (map (put e) xs)) = width * length xs"
  by (induction xs) (auto simp: width)

lemma get_put_width:
  "admissible x \<Longrightarrow> ahead c (put (cendian c) x) \<Longrightarrow> get c = Inr (x, advance width c)"
  using get_put width by simp

end

lemma read_u8_ahead: "ahead c [v] \<Longrightarrow> read_u8 c = Inr (v, advance 1 c)"
  using take_array_ahead[of c "[v]"] by (simp add: read_u8_def)

lemma read_u16_ahead:
  "ahead c (to_bytes (cendian c) 2 (unat v)) \<Longrightarrow> read_u16 c = Inr (v, advance 2 c)"
  using take_array_ahead[of c "to_bytes (cendian c) 2 (unat v)"] unat_u16_lt[of v]
  by (simp add: read_u16_def from_to_bytes)

lemma read_u32_ahead:
  "ahead c (to_bytes (cendian c) 4 (unat v)) \<Longrightarrow> read_u32 c = Inr (v, advance 4 c)"
  using take_array_ahead[of c "to_bytes (cendian c) 4 (unat v)"] unat_u32_lt[of v]
  by (simp add: read_u32_def from_to_bytes)

lemma read_u64_ahead:
  "ahead c (to_bytes (cendian c) 8 (unat v)) \<Longrightarrow> read_u64 c = Inr (v, advance 8 c)"
  using take_array_ahead[of c "to_bytes (cendian c) 8 (unat v)"] unat_u64_lt[of v]
  by (simp add: read_u64_def from_to_bytes)

interpretation u8_codec: fixed_codec "\<lambda>_ v. [v]" read_u8 "\<lambda>_. True" 1
  by unfold_locales (simp_all add: read_u8_ahead)

interpretation u16_codec: fixed_codec "\<lambda>e v. to_bytes e 2 (unat v)" read_u16 "\<lambda>_. True" 2
  by unfold_locales (auto intro: read_u16_ahead)

interpretation u32_codec: fixed_codec "\<lambda>e v. to_bytes e 4 (unat v)" read_u32 "\<lambda>_. True" 4
  by unfold_locales (auto intro: read_u32_ahead)

interpretation u64_codec: fixed_codec "\<lambda>e v. to_bytes e 8 (unat v)" read_u64 "\<lambda>_. True" 8
  by unfold_locales (auto intro: read_u64_ahead)

text \<open>\<open>read_uint\<close> against \<open>write_uint\<close>: the value fits in \<open>width\<close> bytes, \<open>1\<close> to \<open>8\<close> of them.\<close>

definition uint_put :: "u8 \<Rightarrow> endian \<Rightarrow> u64 \<Rightarrow> bytes" where
  "uint_put width e v = to_bytes e (unat width) (unat v)"

definition uint_fits :: "u8 \<Rightarrow> u64 \<Rightarrow> bool" where
  "uint_fits width v \<longleftrightarrow> 1 \<le> width \<and> width \<le> 8 \<and> unat v < 256 ^ unat width"

lemma length_uint_put [simp]: "length (uint_put width e v) = unat width"
  by (simp add: uint_put_def)

lemma width_cases:
  assumes "1 \<le> (width :: u8)" "width \<le> 8"
  obtains "width = 1" | "width = 2" | "width = 3" | "width = 4" | "width = 5" | "width = 6" | "width = 7" | "width = 8"
proof -
  have "unat width \<in> {1, 2, 3, 4, 5, 6, 7, 8}"
    using assms by (auto simp: word_le_nat_alt)
  then have "width \<in> {1, 2, 3, 4, 5, 6, 7, 8}"
    by (auto intro!: unat_eqI)
  then show thesis using that by auto
qed

lemma from_bytes_padded:
  "from_bytes e (case e of Little \<Rightarrow> bs @ replicate n 0 | Big \<Rightarrow> replicate n 0 @ bs) = from_bytes e bs"
  by (simp add: from_bytes_def le_nat_append_zeros split: endian.split)

lemma read_uint_ahead:
  assumes "uint_fits width v" and "ahead c (uint_put width (cendian c) v)"
  shows "read_uint width c = Inr (v, advance (unat width) c)"
proof -
  let ?bs = "to_bytes (cendian c) (unat width) (unat v)"
  have a: "ahead c ?bs" using assms(2) by (simp add: uint_put_def)
  have fits: "unat v < 256 ^ unat width" using assms(1) by (simp add: uint_fits_def)
  have from_: "from_bytes (cendian c) ?bs = unat v" using fits by (simp add: from_to_bytes)
  have t: "take_array (unat width) c = Inr (?bs, advance (unat width) c)"
    using take_array_ahead[OF a] by simp
  have t': "cursor_take (unat width) c = Inr (?bs, advance (unat width) c)"
    using cursor_take_ahead[OF a] by simp
  have small: "ucast (hd ?bs) = v" if "unat width = 1"
  proof (rule unat_eqI)
    have "hd ?bs = word_of_nat (unat v)" using that by (simp add: to_bytes_def split: endian.split)
    then show "unat (ucast (hd ?bs) :: u64) = unat v"
      using fits that by (simp only: unat_ucast_u8 unat_word_of_nat_u8) simp
  qed
  have vw: "unat v < 2 ^ 16 \<Longrightarrow> ucast (word_of_nat (unat v) :: u16) = v"
    "unat v < 2 ^ 32 \<Longrightarrow> ucast (word_of_nat (unat v) :: u32) = v"
    by (auto intro!: unat_eqI simp: unsigned_ucast_eq unsigned_take_bit_eq take_bit_nat_eq_self_iff)
  have pad: "from_bytes (cendian c) (case cendian c of
      Little \<Rightarrow> to_bytes (cendian c) k (unat v) @ replicate (8 - k) 0
    | Big \<Rightarrow> replicate (8 - k) 0 @ to_bytes (cendian c) k (unat v)) = unat v" if "k = unat width" for k
    unfolding that by (simp only: from_bytes_padded from_)
  note facts = t t' from_ small
  note defs = read_uint_def read_u8_def read_u16_def read_u32_def read_u64_def Let_def
  from assms(1) have w: "1 \<le> width" "width \<le> 8" by (auto simp: uint_fits_def)
  then show ?thesis
  proof (cases rule: width_cases)
    case 1 then show ?thesis using facts by (simp add: defs)
  next
    case 2 then show ?thesis using facts fits vw by (simp add: defs)
  next
    case 4 then show ?thesis using facts fits vw by (simp add: defs)
  next
    case 8 then show ?thesis using facts by (simp add: defs)
  next
    case 3 then show ?thesis using facts by (simp add: defs pad)
  next
    case 5 then show ?thesis using facts by (simp add: defs pad)
  next
    case 6 then show ?thesis using facts by (simp add: defs pad)
  next
    case 7 then show ?thesis using facts by (simp add: defs pad)
  qed
qed

lemma write_uint_eq:
  "write_uint v width out = Inr out' \<longleftrightarrow>
     uint_fits width v \<and> out' = write_bytes (uint_put width (eendian out) v) out"
proof (cases "1 \<le> width \<and> width \<le> 8")
  case False
  then have "width \<noteq> 4" "width \<noteq> 8" by auto
  with False show ?thesis by (auto simp: write_uint_def uint_fits_def)
next
  case True
  have window: "(case eendian out of Little \<Rightarrow> take k (to_bytes (eendian out) 8 n)
      | Big \<Rightarrow> drop (8 - k) (to_bytes (eendian out) 8 n)) = to_bytes (eendian out) k n" if "k \<le> 8" for k n
    using that by (simp add: to_bytes_def drop_rev take_le_bytes split: endian.split)
  note defs = write_uint_def uint_fits_def uint_put_def write_bytes_def Let_def window word_less_nat_alt mask_eq_exp_minus_1
  from True have w: "1 \<le> width" "width \<le> 8" by auto
  then show ?thesis
  proof (cases rule: width_cases)
    case 4 then show ?thesis by (auto simp: uint_fits_def uint_put_def write_uint_def write_u32_def
          write_bytes_def u32_try_from_def unsigned_ucast_eq take_bit_nat_eq_self)
  next
    case 8 then show ?thesis by (auto simp: write_u64_def defs)
  next
    case 1 then show ?thesis by (auto simp: defs)
  next
    case 2 then show ?thesis by (auto simp: defs)
  next
    case 3 then show ?thesis by (auto simp: defs)
  next
    case 5 then show ?thesis by (auto simp: defs)
  next
    case 6 then show ?thesis by (auto simp: defs)
  next
    case 7 then show ?thesis by (auto simp: defs)
  qed
qed

interpretation uint_codec: fixed_codec "uint_put width" "read_uint width" "uint_fits width" "unat width"
  for width
  by unfold_locales (auto intro: read_uint_ahead)

section \<open>What the encoder operations append\<close>

lemma write_bytes_simps [simp]:
  "ebytes (write_bytes bs out) = ebytes out @ bs"
  "eendian (write_bytes bs out) = eendian out"
  "write_bytes ys (write_bytes xs out) = write_bytes (xs @ ys) out"
  "write_bytes [] out = out"
  by (simp_all add: write_bytes_def)

lemma write_fixed [enc_simps]:
  "write_u8 b out = write_bytes [b] out"
  "write_u16 v16 out = write_bytes (to_bytes (eendian out) 2 (unat v16)) out"
  "write_u32 v32 out = write_bytes (to_bytes (eendian out) 4 (unat v32)) out"
  "write_u64 v64 out = write_bytes (to_bytes (eendian out) 8 (unat v64)) out"
  by (simp_all add: write_u8_def write_u16_def write_u32_def write_u64_def write_bytes_def)

lemma write_uint_fits [enc_simps]:
  "uint_fits width v \<Longrightarrow> write_uint v width out = Inr (write_bytes (uint_put width (eendian out) v) out)"
  by (simp add: write_uint_eq)

text \<open>Zero padding up to the next multiple.\<close>

definition pad_len :: "nat \<Rightarrow> nat \<Rightarrow> nat" where
  "pad_len alignment n = (if n mod alignment = 0 then 0 else alignment - n mod alignment)"

lemma pad_len_mod:
  assumes "0 < alignment"
  shows "(n + pad_len alignment n) mod alignment = 0"
proof (cases "n mod alignment = 0")
  case False
  have "n mod alignment < alignment" using assms by simp
  then have "n + (alignment - n mod alignment) = alignment * Suc (n div alignment)"
    using mult_div_mod_eq[of alignment n] unfolding mult_Suc_right by linarith
  then show ?thesis using False by (simp add: pad_len_def)
qed (simp add: pad_len_def)

lemma align_to_eq:
  "align_to alignment out = Inr out' \<longleftrightarrow>
     0 < alignment \<and> out' = write_bytes (replicate (pad_len alignment (length (ebytes out))) 0) out
     \<and> (length (ebytes out) mod alignment = 0
          \<or> length (ebytes out) + pad_len alignment (length (ebytes out)) < 2 ^ 64)"
  by (auto simp: align_to_def pad_len_def Let_def write_bytes_def ok_simps)

lemma patch_u32_placeholder:
  assumes "length ph = 4" and "length (ebytes out) + 4 < 2 ^ 64"
  shows "patch_u32 (length (ebytes out)) v (write_bytes (ph @ ys) out)
    = Inr (write_bytes (to_bytes (eendian out) 4 (unat v) @ ys) out)"
  using assms by (simp add: patch_u32_def Let_def checked_add_def write_bytes_def)

lemma patch_u32_eq_Inr:
  assumes "patch_u32 (length (ebytes out)) v (write_bytes (ph @ ys) out) = Inr out'" and "length ph = 4"
  shows "out' = write_bytes (to_bytes (eendian out) 4 (unat v) @ ys) out"
  using assms by (auto simp: patch_u32_def Let_def ok_simps write_bytes_def split: if_splits)

end
