(* ===== verification/Leb.thy ===== *)
theory Leb
  imports Endian
begin

text \<open>
  \<open>src/format/leb.rs\<close>: the LEB128 readers and writers. The readers keep their fast path for
  a single byte and their loop over at most \<open>bits.div_ceil(7)\<close> bytes; the writers are the
  loops of the source. \<open>uleb_bytes\<close> and \<open>sleb_bytes\<close> are the encodings as plain functions of
  the number; the lemmas show that the writers append them and that the readers invert them.
\<close>

unbundle bit_operations_syntax

section \<open>Readers and writers\<close>

definition MAXIMUM_BITS :: u8 where
  "MAXIMUM_BITS = 64"

definition map_uleb_eof :: "nat \<Rightarrow> error \<Rightarrow> error" where
  "map_uleb_eof offset err =
     (if is_unexpected_eof err then MalformedUleb offset ''unterminated sequence'' else err)"

definition map_sleb_eof :: "nat \<Rightarrow> error \<Rightarrow> error" where
  "map_sleb_eof offset err =
     (if is_unexpected_eof err then MalformedSleb offset ''unterminated sequence'' else err)"

definition check_uleb_width :: "u64 \<Rightarrow> u8 \<Rightarrow> nat \<Rightarrow> u64 result" where
  "check_uleb_width v bits start =
     (let maximum = drop_bit (64 - unat bits) (- 1 :: u64) in
      if v > maximum then Inl (MalformedUleb start ''value exceeds requested bit width'')
      else Inr v)"

definition checked_shl_u64 :: "u64 \<Rightarrow> nat \<Rightarrow> u64 option" where
  "checked_shl_u64 v s = (if s < 64 then Some (push_bit s v) else None)"

definition checked_shr_u64 :: "u64 \<Rightarrow> nat \<Rightarrow> u64 option" where
  "checked_shr_u64 v s = (if s < 64 then Some (drop_bit s v) else None)"

definition checked_shl_i128 :: "int \<Rightarrow> nat \<Rightarrow> int option" where
  "checked_shl_i128 v s = (if s < 128 then Some (signed_take_bit 127 (push_bit s v)) else None)"

function read_uleb_rest :: "u8 \<Rightarrow> nat \<Rightarrow> nat \<Rightarrow> nat \<Rightarrow> u64 \<Rightarrow> cursor \<Rightarrow> (u64 \<times> cursor) result" where
  "read_uleb_rest bits start limit index v c =
     (if index < limit then
        let_ok (map_err (map_uleb_eof start) (read_u8 c)) (\<lambda>(byte, c).
        let shift = index * 7;
            payload = ucast (byte AND 0x7f) in
        let_ok (ok_or (checked_shl_u64 payload shift) (MalformedUleb start ''value exceeds u64'')) (\<lambda>shifted.
        if case_option 0 id (checked_shr_u64 shifted shift) \<noteq> payload
        then Inl (MalformedUleb start ''value exceeds u64'')
        else
          let v = v OR shifted in
          if byte AND 0x80 = 0
          then let_ok (check_uleb_width v bits start) (\<lambda>v. Inr (v, c))
          else read_uleb_rest bits start limit (Suc index) v c))
      else Inl (MalformedUleb start ''sequence is too long''))"
  by pat_completeness auto
termination
  by (relation "measure (\<lambda>(bits, start, limit, index, v, c). limit - index)") auto

definition read_uleb_bounded :: "u8 \<Rightarrow> cursor \<Rightarrow> (u64 \<times> cursor) result" where
  "read_uleb_bounded bits c =
     (if bits = 0 \<or> bits > MAXIMUM_BITS
      then Inl (OutOfRange ''ULEB128 bit width'' (ucast bits) (ucast MAXIMUM_BITS))
      else
        let start = position c in
        let_ok (map_err (map_uleb_eof start) (read_u8 c)) (\<lambda>(first, c).
        if first AND 0x80 = 0
        then let_ok (check_uleb_width (ucast first) bits start) (\<lambda>v. Inr (v, c))
        else read_uleb_rest bits start ((unat bits + 6) div 7) 1 (ucast (first AND 0x7f)) c))"

definition read_uleb :: "cursor \<Rightarrow> (u64 \<times> cursor) result" where
  "read_uleb c = read_uleb_bounded MAXIMUM_BITS c"

text \<open>\<open>i64::try_from(value)\<close> of an \<open>i128\<close>, and the bounded check before it.\<close>

definition i64_try_from :: "int \<Rightarrow> int option" where
  "i64_try_from v = (if - (2 ^ 63) \<le> v \<and> v < 2 ^ 63 then Some v else None)"

definition check_sleb_width :: "int \<Rightarrow> u8 \<Rightarrow> nat \<Rightarrow> int result" where
  "check_sleb_width v bits start =
     (let magnitude = push_bit (unat bits - 1) (1 :: int) in
      if bits < MAXIMUM_BITS \<and> (v < - magnitude \<or> v > magnitude - 1)
      then Inl (MalformedSleb start ''value exceeds requested bit width'')
      else ok_or (i64_try_from v) (MalformedSleb start ''value exceeds i64''))"

function read_sleb_rest :: "u8 \<Rightarrow> nat \<Rightarrow> nat \<Rightarrow> nat \<Rightarrow> int \<Rightarrow> cursor \<Rightarrow> (int \<times> cursor) result" where
  "read_sleb_rest bits start limit index v c =
     (if index < limit then
        let_ok (map_err (map_sleb_eof start) (read_u8 c)) (\<lambda>(byte, c).
        let shift = index * 7 in
        let_ok (ok_or (checked_shl_i128 (uint (byte AND 0x7f)) shift)
                 (MalformedSleb start ''value exceeds i64'')) (\<lambda>shifted.
        let v = v OR shifted in
        if byte AND 0x80 = 0 then
          let encoded_bits = shift + 7;
              v = (if byte AND 0x40 \<noteq> 0
                   then v OR case_option 0 id (checked_shl_i128 (- 1) encoded_bits) else v) in
          let_ok (check_sleb_width v bits start) (\<lambda>v. Inr (v, c))
        else read_sleb_rest bits start limit (Suc index) v c))
      else Inl (MalformedSleb start ''sequence is too long''))"
  by pat_completeness auto
termination
  by (relation "measure (\<lambda>(bits, start, limit, index, v, c). limit - index)") auto

definition read_sleb_bounded :: "u8 \<Rightarrow> cursor \<Rightarrow> (int \<times> cursor) result" where
  "read_sleb_bounded bits c =
     (if bits = 0 \<or> bits > MAXIMUM_BITS
      then Inl (OutOfRange ''SLEB128 bit width'' (ucast bits) (ucast MAXIMUM_BITS))
      else
        let start = position c in
        let_ok (map_err (map_sleb_eof start) (read_u8 c)) (\<lambda>(first, c).
        if first AND 0x80 = 0 then
          let v = (if first AND 0x40 = 0 then uint first else uint (first OR 0x80) - 0x100) in
          let_ok (check_sleb_width v bits start) (\<lambda>v. Inr (v, c))
        else read_sleb_rest bits start ((unat bits + 6) div 7) 1 (uint (first AND 0x7f)) c))"

definition read_sleb :: "cursor \<Rightarrow> (int \<times> cursor) result" where
  "read_sleb c = read_sleb_bounded MAXIMUM_BITS c"

lemma unat_drop_bit_7: "unat (drop_bit 7 (v :: u64)) = unat v div 128"
  by (subst unsigned_drop_bit_eq) (simp add: drop_bit_eq_div take_bit_nat_eq_self)

lemma drop_bit_7_less: "drop_bit 7 v \<noteq> 0 \<Longrightarrow> unat (drop_bit 7 (v :: u64)) < unat v"
proof -
  assume "drop_bit 7 v \<noteq> 0"
  then have "unat (drop_bit 7 v) \<noteq> 0" by (simp only: unsigned_eq_0_iff not_False_eq_True)
  then show ?thesis unfolding unat_drop_bit_7 by simp
qed

function write_uleb :: "u64 \<Rightarrow> encoder \<Rightarrow> encoder" where
  "write_uleb v out =
     (let byte = (ucast (v AND 0x7f) :: u8);
          v = drop_bit 7 v;
          byte = (if v \<noteq> 0 then byte OR 0x80 else byte);
          out = write_u8 byte out in
      if v = 0 then out else write_uleb v out)"
  by pat_completeness auto
termination
  by (relation "measure (\<lambda>(v, out). unat v)") (auto intro: drop_bit_7_less)

text \<open>The termination measure of the signed writer: the arithmetic shift moves towards \<open>0\<close> or \<open>-1\<close>.\<close>

definition sleb_rank :: "int \<Rightarrow> nat" where
  "sleb_rank v = nat (if v < 0 then - v - 1 else v)"

lemma even_div_64_int: "even (x div 64) \<longleftrightarrow> x mod 128 < 64" for x :: int
proof -
  define m r where mr: "m = x div 64 mod 2" "r = x mod 64"
  have "x mod 128 = 64 * m + r" unfolding mr using zmod_zmult2_eq[of 2 x 64] by simp
  moreover have "0 \<le> r" "r < 64" unfolding mr by simp_all
  moreover have "m = 0 \<or> m = 1" unfolding mr by (rule mod2_eq_if[THEN ssubst]) simp
  moreover have "even (x div 64) \<longleftrightarrow> m = 0" unfolding mr by (rule even_iff_mod_2_eq_zero)
  ultimately show ?thesis by auto
qed

lemma even_div_64_nat: "even (x div 64) \<longleftrightarrow> x mod 128 < 64" for x :: nat
proof -
  define m r where mr: "m = x div 64 mod 2" "r = x mod 64"
  have "x mod 128 = 64 * m + r" unfolding mr using mod_mult2_eq[of x 64 2] by simp
  moreover have "r < 64" unfolding mr by simp
  moreover have "m = 0 \<or> m = 1" unfolding mr by (rule mod2_eq_if[THEN ssubst]) simp
  moreover have "even (x div 64) \<longleftrightarrow> m = 0" unfolding mr by (rule even_iff_mod_2_eq_zero)
  ultimately show ?thesis by auto
qed

lemma sign_bit_iff: "(word_of_int v :: u8) AND 0x40 = 0 \<longleftrightarrow> v mod 128 < 64"
proof -
  have "(word_of_int v :: u8) AND 2 ^ 6 = 0 \<longleftrightarrow> \<not> odd (v div 64)"
    by (simp only: and_exp_eq_0_iff_not_bit bit_word_of_int_iff) (simp add: bit_iff_odd)
  also have "\<dots> \<longleftrightarrow> v mod 128 < 64" by (simp add: even_div_64_int)
  finally show ?thesis by simp
qed

lemma sleb_rank_less:
  "v div 128 \<noteq> 0 \<or> 64 \<le> v mod 128 \<Longrightarrow> v div 128 \<noteq> - 1 \<or> v mod 128 < 64
    \<Longrightarrow> sleb_rank (v div 128) < sleb_rank v"
proof -
  assume a: "v div 128 \<noteq> 0 \<or> 64 \<le> v mod 128" "v div 128 \<noteq> - 1 \<or> v mod 128 < 64"
  define q r where qr: "q = v div 128" "r = v mod 128"
  have v: "v = 128 * q + r" "0 \<le> r" "r < 128" by (simp_all add: qr)
  show ?thesis
  proof (cases "v < 0")
    case True
    then have "q < 0" using v by linarith
    with True a v show ?thesis unfolding sleb_rank_def qr[symmetric] by auto
  next
    case False
    then have "0 \<le> q" using v by linarith
    with False a v show ?thesis unfolding sleb_rank_def qr[symmetric] by auto
  qed
qed

function write_sleb :: "int \<Rightarrow> encoder \<Rightarrow> encoder" where
  "write_sleb v out =
     (let byte = (word_of_int v :: u8) AND 0x7f;
          sign_set = (byte AND 0x40 \<noteq> 0);
          v = drop_bit 7 v;
          finished = (v = 0 \<and> \<not> sign_set \<or> v = - 1 \<and> sign_set);
          out = write_u8 (if finished then byte else byte OR 0x80) out in
      if finished then out else write_sleb v out)"
  by pat_completeness auto
termination
  by (relation "measure (\<lambda>(v, out). sleb_rank v)")
     (auto simp: and.assoc sign_bit_iff drop_bit_eq_div intro!: sleb_rank_less)

declare read_uleb_rest.simps [simp del] read_sleb_rest.simps [simp del]
declare write_uleb.simps [simp del] write_sleb.simps [simp del]

section \<open>The bits of a byte\<close>

lemma byte_low7: "unat ((b :: u8) AND 0x7f) = unat b mod 128"
proof -
  have "b AND 0x7f = take_bit 7 b" by (simp add: take_bit_eq_mask mask_eq_exp_minus_1)
  then show ?thesis by (simp only: unsigned_take_bit_eq) (simp add: take_bit_eq_mod)
qed

lemma byte_continues_iff: "(b :: u8) AND 0x80 = 0 \<longleftrightarrow> unat b < 128"
proof -
  have "b AND 2 ^ 7 = 0 \<longleftrightarrow> \<not> bit (unat b) 7"
    by (simp only: and_exp_eq_0_iff_not_bit) (simp add: bit_unsigned_iff)
  also have "\<dots> \<longleftrightarrow> even (unat b div 128)" by (simp add: bit_iff_odd)
  also have "\<dots> \<longleftrightarrow> unat b < 128" 
  proof -
    have "unat b div 128 < 2" using unat_u8_lt[of b] by (simp only: div_less_iff_less_mult)
    then have "even (unat b div 128) \<longleftrightarrow> unat b div 128 = 0" by (auto simp: less_2_cases_iff)
    also have "\<dots> \<longleftrightarrow> unat b < 128" by (simp only: div_eq_0_iff) simp
    finally show ?thesis .
  qed
  finally show ?thesis by simp
qed

lemma byte_sign_iff: "(b :: u8) AND 0x40 = 0 \<longleftrightarrow> unat b mod 128 < 64"
proof -
  have "b AND 2 ^ 6 = 0 \<longleftrightarrow> \<not> bit (unat b) 6"
    by (simp only: and_exp_eq_0_iff_not_bit) (simp add: bit_unsigned_iff)
  also have "\<dots> \<longleftrightarrow> even (unat b div 64)" by (simp add: bit_iff_odd)
  also have "\<dots> \<longleftrightarrow> unat b mod 128 < 64" by (rule even_div_64_nat)
  finally show ?thesis by simp
qed

lemma byte_sign_iff_int: "(b :: u8) AND 0x40 = 0 \<longleftrightarrow> uint b mod 128 < 64"
proof -
  have "uint b mod 128 = int (unat b mod 128)" by (simp add: zmod_int)
  then show ?thesis unfolding byte_sign_iff by linarith
qed

text \<open>Joining a low part and a shifted high part with \<open>OR\<close> is addition.\<close>

lemma or_push_bit: "take_bit s a = a \<Longrightarrow> a OR push_bit s b = a + push_bit s b"
  for a b :: "'a :: semiring_bit_operations"
proof (rule disjunctive_add_eq_or[symmetric])
  assume a: "take_bit s a = a"
  have "bit a n \<Longrightarrow> n < s" for n using arg_cong[OF a, of "\<lambda>x. bit x n"] by (simp add: bit_simps)
  then show "a AND push_bit s b = 0" by (fastforce simp: bit_eq_iff bit_simps)
qed

lemma byte_set_continue: "unat (b :: u8) < 128 \<Longrightarrow> unat (b OR 0x80) = unat b + 128"
proof -
  assume "unat b < 128"
  then have "take_bit 7 (unat b) = unat b" by (simp add: take_bit_nat_eq_self)
  then have "unat b OR push_bit 7 1 = unat b + push_bit 7 1" by (rule or_push_bit)
  then show ?thesis by (simp add: unsigned_or_eq)
qed

section \<open>Unsigned values\<close>

fun uleb_bytes :: "nat \<Rightarrow> bytes" where
  "uleb_bytes n =
     (if n < 128 then [word_of_nat n] else word_of_nat (128 + n mod 128) # uleb_bytes (n div 128))"

declare uleb_bytes.simps [simp del]

lemma uleb_bytes_nonempty [simp]: "uleb_bytes n \<noteq> []"
  by (simp add: uleb_bytes.simps[of n])

lemma length_uleb_bytes: "0 < k \<Longrightarrow> n < 128 ^ k \<Longrightarrow> length (uleb_bytes n) \<le> k"
proof (induction k arbitrary: n)
  case (Suc k)
  show ?case
  proof (cases "n < 128")
    case True
    then show ?thesis by (simp add: uleb_bytes.simps[of n])
  next
    case False
    then have "0 < k" using Suc.prems by (cases k) auto
    moreover have "n div 128 < 128 ^ k" using Suc.prems by (simp add: div_less_iff_less_mult mult.commute)
    ultimately show ?thesis using False Suc.IH[of "n div 128"] by (simp add: uleb_bytes.simps[of n])
  qed
qed simp

lemma u64_low7: "unat (ucast ((v :: u64) AND 0x7f) :: u8) = unat v mod 128"
proof -
  have "v AND 0x7f = take_bit 7 v" by (simp add: take_bit_eq_mask mask_eq_exp_minus_1)
  moreover have "unat (take_bit 7 v) = unat v mod 128"
    by (subst unsigned_take_bit_eq) (simp add: take_bit_eq_mod)
  ultimately show ?thesis
    by (simp add: unsigned_ucast_eq take_bit_nat_eq_self[OF less_trans[of _ 128]])
qed

lemma write_uleb_eq [enc_simps]: "write_uleb v out = write_bytes (uleb_bytes (unat v)) out"
proof (induction v out rule: write_uleb.induct)
  case (1 v out)
  let ?b = "ucast (v AND 0x7f) :: u8"
  have z: "drop_bit 7 v = 0 \<longleftrightarrow> unat v < 128"
    by (simp only: unsigned_eq_0_iff[symmetric, where 'a = nat] unat_drop_bit_7) auto
  show ?case
  proof (cases "unat v < 128")
    case True
    then have "?b = word_of_nat (unat v)" by (intro unat_eqI) (simp only: u64_low7 unat_word_of_nat_u8, simp)
    then show ?thesis using True z
      by (simp add: write_uleb.simps[of v] uleb_bytes.simps[of "unat v"] enc_simps Let_def del: of_nat_unat)
  next
    case False
    have "unat (?b OR 0x80) = unat v mod 128 + 128"
      using byte_set_continue[of ?b] by (simp add: u64_low7)
    then have b: "?b OR 0x80 = word_of_nat (128 + unat v mod 128)"
      by (intro unat_eqI) (simp only: unat_word_of_nat_u8, simp)
    have "write_uleb v out = write_uleb (drop_bit 7 v) (write_u8 (?b OR 0x80) out)"
      using False z by (subst write_uleb.simps) (simp add: Let_def)
    also have "\<dots> = write_bytes (uleb_bytes (unat (drop_bit 7 v))) (write_u8 (?b OR 0x80) out)"
      using 1[OF refl refl refl refl] False z by simp
    finally show ?thesis
      using False by (simp only: b unat_drop_bit_7 uleb_bytes.simps[of "unat v"] enc_simps write_bytes_simps) simp
  qed
qed

lemma check_uleb_width_eq:
  assumes "bits \<le> 64"
  shows "check_uleb_width v bits start =
    (if unat v < 2 ^ unat bits then Inr v
     else Inl (MalformedUleb start ''value exceeds requested bit width''))"
proof -
  define m where "m = drop_bit (64 - unat bits) (- 1 :: u64)"
  have b: "unat bits \<le> 64" using assms by (simp add: word_le_nat_alt)
  then have "unat m = mask (unat bits)"
    unfolding m_def by (subst unsigned_drop_bit_eq) (simp add: unsigned_minus_1_eq_mask drop_bit_mask_eq)
  then have "unat m + 1 = 2 ^ unat bits" by (simp add: mask_eq_exp_minus_1)
  then have "unat m < unat v \<longleftrightarrow> \<not> unat v < 2 ^ unat bits" by linarith
  then show ?thesis unfolding check_uleb_width_def m_def[symmetric] Let_def word_less_nat_alt by simp
qed

lemma join_u64:
  assumes "unat v < 2 ^ s" and "unat v + p * 2 ^ s < 2 ^ 64" and "s < 64" and "p < 2 ^ 64"
  shows "unat (v OR push_bit s (word_of_nat p :: u64)) = unat v + p * 2 ^ s"
    and "drop_bit s (push_bit s (word_of_nat p :: u64)) = word_of_nat p"
proof -
  have p: "unat (push_bit s (word_of_nat p :: u64)) = p * 2 ^ s"
    using assms by (subst unsigned_push_bit_eq)
      (simp add: unat_word_of_nat_u64 push_bit_eq_mult take_bit_nat_eq_self del: of_nat_unat)
  have "unat v OR push_bit s p = unat v + push_bit s p"
    using assms(1) by (intro or_push_bit) (simp add: take_bit_nat_eq_self)
  then have "unat v OR p * 2 ^ s = unat v + p * 2 ^ s" by (simp only: push_bit_eq_mult)
  then show "unat (v OR push_bit s (word_of_nat p :: u64)) = unat v + p * 2 ^ s"
    by (simp only: unsigned_or_eq p)
  show "drop_bit s (push_bit s (word_of_nat p :: u64)) = word_of_nat p"
    by (rule unat_eqI, subst unsigned_drop_bit_eq)
       (use assms in \<open>simp add: p unat_word_of_nat_u64 drop_bit_eq_div take_bit_nat_eq_self del: of_nat_unat\<close>)
qed

lemma read_uleb_rest_ahead:
  assumes "ahead c (uleb_bytes n)" and "0 < n" and "unat v < 2 ^ (7 * index)"
    and "unat v + n * 2 ^ (7 * index) < 2 ^ unat bits" and "bits \<le> 64"
  shows "read_uleb_rest bits start ((unat bits + 6) div 7) index v c
    = Inr (word_of_nat (unat v + n * 2 ^ (7 * index)), advance (length (uleb_bytes n)) c)"
  using assms(1-4)
proof (induction n arbitrary: index v c rule: uleb_bytes.induct)
  case (1 n)
  let ?s = "7 * index" and ?p = "n mod 128"
  have b64: "unat bits \<le> 64" using assms(5) by (simp add: word_le_nat_alt)
  have tot: "unat v + n * 2 ^ ?s < 2 ^ unat bits" by fact
  have "2 ^ ?s \<le> n * 2 ^ ?s" using "1.prems"(2) by simp
  then have "(2::nat) ^ ?s < 2 ^ unat bits" using tot by linarith
  then have s: "?s < unat bits" by simp
  then have lim: "index < (unat bits + 6) div 7" and s64: "?s < 64" using b64 by auto
  have tot64: "unat v + n * 2 ^ ?s < 2 ^ 64"
    using tot power_increasing[OF b64, of "2::nat"] by linarith
  have "?p * 2 ^ ?s \<le> n * 2 ^ ?s" by simp
  then have fit: "unat v + ?p * 2 ^ ?s < 2 ^ 64" using tot64 by linarith
  note join = join_u64[OF "1.prems"(3) fit s64]
  define b where "b = (word_of_nat (if n < 128 then n else 128 + n mod 128) :: u8)"
  define rest where "rest = (if n < 128 then [] else uleb_bytes (n div 128))"
  have split: "uleb_bytes n = b # rest" by (simp add: uleb_bytes.simps[of n] b_def rest_def)
  have bn: "unat b = (if n < 128 then n else 128 + n mod 128)" by (auto simp: b_def unat_word_of_nat_u8)
  have r: "read_u8 c = Inr (b, advance 1 c)" and ar: "ahead (advance 1 c) rest"
    using "1.prems"(1) ahead_append[of c "[b]" rest] by (auto simp: split read_u8_ahead)
  have pl: "ucast (b AND 0x7f) = (word_of_nat ?p :: u64)"
    by (rule unat_eqI) (simp add: byte_low7 bn unat_word_of_nat_u64 del: of_nat_unat)
  define v' where "v' = v OR push_bit ?s (word_of_nat ?p :: u64)"
  have v': "unat v' = unat v + ?p * 2 ^ ?s" unfolding v'_def by (rule join(1)) simp
  have step: "read_uleb_rest bits start ((unat bits + 6) div 7) index v c =
      (if n < 128 then let_ok (check_uleb_width v' bits start) (\<lambda>v. Inr (v, advance 1 c))
       else read_uleb_rest bits start ((unat bits + 6) div 7) (Suc index) v' (advance 1 c))"
    using r lim s64 byte_continues_iff[of b] pl bn join(2)
    by (simp add: read_uleb_rest.simps[of bits start _ index v c] Let_def mult.commute[of index 7]
        checked_shl_u64_def checked_shr_u64_def v'_def del: of_nat_unat)
  show ?case
  proof (cases "n < 128")
    case True
    have "v' = word_of_nat (unat v + n * 2 ^ ?s)"
      using True v' tot64 by (intro unat_eqI) (simp only: unat_word_of_nat_u64 mod_less)
    then show ?thesis
      using True step v' tot check_uleb_width_eq[OF assms(5)] by (simp add: split rest_def)
  next
    case False
    have sum: "unat v' + n div 128 * 2 ^ (7 * Suc index) = unat v + n * 2 ^ ?s"
    proof -
      have "(p + 128 * q) * k = p * k + q * (k * 128)" for p q k :: nat by (simp add: algebra_simps)
      from this[of ?p "n div 128" "2 ^ ?s"] show ?thesis unfolding v' by (simp add: power_add)
    qed
    have "unat v' < 2 ^ (7 * Suc index)"
    proof -
      have "?p * 2 ^ ?s \<le> 127 * 2 ^ ?s" by simp
      then have "unat v' < 128 * 2 ^ ?s" using "1.prems"(3) v' by linarith
      then show ?thesis by (simp add: power_add)
    qed
    moreover have "ahead (advance 1 c) (uleb_bytes (n div 128))" using ar False by (simp add: rest_def)
    moreover have "0 < n div 128" using False by simp
    ultimately have "read_uleb_rest bits start ((unat bits + 6) div 7) (Suc index) v' (advance 1 c)
        = Inr (word_of_nat (unat v + n * 2 ^ ?s), advance (length (uleb_bytes (n div 128))) (advance 1 c))"
      using "1.IH"[OF False, of "advance 1 c" v' "Suc index"] tot unfolding sum by simp
    then show ?thesis using False step by (simp add: split rest_def)
  qed
qed

lemma read_uleb_bounded_ahead:
  assumes "ahead c (uleb_bytes (unat v))" and "unat v < 2 ^ unat bits" and "0 < bits" and "bits \<le> 64"
  shows "read_uleb_bounded bits c = Inr (v, advance (length (uleb_bytes (unat v))) c)"
proof -
  let ?n = "unat v"
  define b where "b = (word_of_nat (if ?n < 128 then ?n else 128 + ?n mod 128) :: u8)"
  define rest where "rest = (if ?n < 128 then [] else uleb_bytes (?n div 128))"
  have split: "uleb_bytes ?n = b # rest" by (simp add: uleb_bytes.simps[of ?n] b_def rest_def)
  have bn: "unat b = (if ?n < 128 then ?n else 128 + ?n mod 128)"
    unfolding b_def by (auto simp: unat_word_of_nat_u8 simp del: of_nat_unat)
  have r: "read_u8 c = Inr (b, advance 1 c)" and ar: "ahead (advance 1 c) rest"
    using assms(1) ahead_append[of c "[b]" rest] by (auto simp: split read_u8_ahead)
  have bits: "bits \<noteq> 0" "\<not> bits > MAXIMUM_BITS" using assms by (auto simp: MAXIMUM_BITS_def)
  have pl: "unat (ucast (b AND 0x7f) :: u64) = ?n mod 128" by (simp add: byte_low7 bn)
  show ?thesis
  proof (cases "?n < 128")
    case True
    have "ucast b = v" using True by (intro unat_eqI) (simp add: bn)
    then show ?thesis
      using True r bits assms byte_continues_iff[of b] bn check_uleb_width_eq[OF assms(4), of v]
      by (simp add: read_uleb_bounded_def Let_def split rest_def)
  next
    case False
    have "?n mod 128 + ?n div 128 * 2 ^ (7 * 1) = ?n" by simp
    moreover have "?n mod 128 < 2 ^ (7 * 1)" by simp
    ultimately have "read_uleb_rest bits (position c) ((unat bits + 6) div 7) 1 (ucast (b AND 0x7f)) (advance 1 c)
        = Inr (v, advance (length (uleb_bytes (?n div 128))) (advance 1 c))"
      using read_uleb_rest_ahead[of "advance 1 c" "?n div 128" "ucast (b AND 0x7f)" 1 bits "position c"]
        ar assms False unfolding pl by (simp add: rest_def)
    then show ?thesis
      using False r bits byte_continues_iff[of b] bn by (simp add: read_uleb_bounded_def Let_def split rest_def)
  qed
qed

lemma read_uleb_ahead:
  "ahead c (uleb_bytes (unat v)) \<Longrightarrow> read_uleb c = Inr (v, advance (length (uleb_bytes (unat v))) c)"
  unfolding read_uleb_def by (rule read_uleb_bounded_ahead) (simp_all add: MAXIMUM_BITS_def)

interpretation uleb_codec: codec "\<lambda>_ v. uleb_bytes (unat v)" read_uleb "\<lambda>_. True"
  by unfold_locales (simp_all add: read_uleb_ahead)

lemma read_uleb_rest_moved:
  "read_uleb_rest bits start limit index v c = Inr (w, c') \<Longrightarrow> moved 1 c c'"
proof (induction "limit - index" arbitrary: index v c)
  case 0
  then show ?case by (simp add: read_uleb_rest.simps[of bits start limit index v c])
next
  case (Suc k)
  from Suc.prems obtain b c1 where r: "index < limit" "read_u8 c = Inr (b, c1)"
    by (auto simp: read_uleb_rest.simps[of bits start limit index v c] ok_simps split: if_splits)
  have IH: "read_uleb_rest bits start limit (Suc index) v' c1 = Inr (w, c') \<Longrightarrow> moved 1 c1 c'" for v'
    using Suc.hyps(1)[of "Suc index"] Suc.hyps(2) by simp
  have m: "moved 1 c c1" using r(2) by (rule read_u8_moved)
  moreover have "c' = c1 \<or> moved 1 c1 c'"
    using Suc.prems r
    by (auto simp: read_uleb_rest.simps[of bits start limit index v c] Let_def ok_simps split: if_splits
        dest: IH)
  ultimately show ?case by (auto intro: moved_weaken[OF moved_trans])
qed

lemma read_uleb_bounded_moved: "read_uleb_bounded bits c = Inr (w, c') \<Longrightarrow> moved 1 c c'"
  by (auto simp: read_uleb_bounded_def Let_def ok_simps split: if_splits
      dest!: read_u8_moved read_uleb_rest_moved intro: moved_weaken[OF moved_trans])

lemma read_uleb_moved: "read_uleb c = Inr (w, c') \<Longrightarrow> moved 1 c c'"
  unfolding read_uleb_def by (rule read_uleb_bounded_moved)

section \<open>Signed values\<close>

text \<open>The last byte of a signed value: what is left fits in seven bits with its sign.\<close>

lemma sleb_small_iff:
  "v div 128 = 0 \<and> v mod 128 < 64 \<or> v div 128 = - 1 \<and> 64 \<le> v mod 128 \<longleftrightarrow> - 64 \<le> v \<and> v < 64"
  for v :: int
proof -
  define q r where qr: "q = v div 128" "r = v mod 128"
  have v: "v = 128 * q + r" "0 \<le> r" "r < 128" by (simp_all add: qr)
  have "q = 0 \<or> q = - 1" if "- 64 \<le> v" "v < 64"
  proof -
    have "q < 1" "- 2 < q" using that v by linarith+
    then show ?thesis by linarith
  qed
  then show ?thesis unfolding qr[symmetric] using v by auto
qed

lemma sleb_rank_less': "\<not> (- 64 \<le> v \<and> v < 64) \<Longrightarrow> sleb_rank (v div 128) < sleb_rank v"
  unfolding sleb_small_iff[symmetric] by (rule sleb_rank_less) auto

function sleb_bytes :: "int \<Rightarrow> bytes" where
  "sleb_bytes v =
     (if - 64 \<le> v \<and> v < 64 then [word_of_int (v mod 128)]
      else word_of_int (128 + v mod 128) # sleb_bytes (v div 128))"
  by pat_completeness auto
termination
  by (relation "measure sleb_rank") (auto intro: sleb_rank_less')

declare sleb_bytes.simps [simp del]

lemma sleb_bytes_nonempty [simp]: "sleb_bytes v \<noteq> []"
  by (simp add: sleb_bytes.simps[of v])

lemma sleb_finished_iff:
  "drop_bit 7 v = 0 \<and> \<not> 64 \<le> v mod 128 \<or> drop_bit 7 v = - 1 \<and> 64 \<le> v mod 128 \<longleftrightarrow> - 64 \<le> v \<and> v < 64"
  for v :: int
  using sleb_small_iff[of v] unfolding drop_bit_eq_div by (simp add: not_le)

lemma unat_word_of_int_u8: "unat (word_of_int v :: u8) = nat (v mod 256)"
  by (simp only: unat_eq_nat_uint uint_word_of_int) simp

lemma int_low7: "(word_of_int v :: u8) AND 0x7f = word_of_int (v mod 128)"
proof (rule unat_eqI)
  have "v mod 256 mod 128 = v mod 128" by (simp add: mod_mod_cancel)
  then show "unat ((word_of_int v :: u8) AND 0x7f) = unat (word_of_int (v mod 128) :: u8)"
    unfolding byte_low7 unat_word_of_int_u8
    by (simp add: nat_mod_distrib[of "v mod 256" 128, simplified, symmetric])
qed

lemma write_sleb_eq [enc_simps]: "write_sleb v out = write_bytes (sleb_bytes v) out"
proof (induction v out rule: write_sleb.induct)
  case (1 v out)
  let ?b = "(word_of_int v :: u8) AND 0x7f"
  have sign: "?b AND 0x40 = 0 \<longleftrightarrow> v mod 128 < 64"
    using sign_bit_iff[of v] by (simp add: and.assoc)
  have bn: "unat ?b = nat (v mod 128)"
    unfolding int_low7 unat_word_of_int_u8 by (simp add: mod_pos_pos_trivial)
  have fin: "(drop_bit 7 v = 0 \<and> ?b AND 0x40 = 0 \<or> drop_bit 7 v = - 1 \<and> ?b AND 0x40 \<noteq> 0)
      \<longleftrightarrow> - 64 \<le> v \<and> v < 64"
    using sleb_finished_iff[of v] unfolding sign by (simp only: not_le not_less)
  show ?case
  proof (cases "- 64 \<le> v \<and> v < 64")
    case True
    then have "write_sleb v out = write_u8 ?b out"
      using fin by (subst write_sleb.simps) (simp add: Let_def)
    then show ?thesis using True by (simp add: sleb_bytes.simps[of v] enc_simps int_low7)
  next
    case False
    have "unat (?b OR 0x80) = nat (v mod 128) + 128"
      using byte_set_continue[of ?b] bn by simp
    moreover have "nat ((128 + v mod 128) mod 256) = nat (v mod 128) + 128"
      by (simp add: mod_pos_pos_trivial nat_add_distrib)
    ultimately have b: "?b OR 0x80 = word_of_int (128 + v mod 128)"
      by (intro unat_eqI) (simp only: unat_word_of_int_u8)
    have "write_sleb v out = write_sleb (drop_bit 7 v) (write_u8 (?b OR 0x80) out)"
      using False fin by (subst write_sleb.simps) (auto simp: Let_def)
    also have "\<dots> = write_bytes (sleb_bytes (drop_bit 7 v)) (write_u8 (?b OR 0x80) out)"
      using 1[OF refl refl refl refl refl] False fin by (auto simp: Let_def)
    finally show ?thesis
      using False by (simp only: b drop_bit_eq_div sleb_bytes.simps[of v] enc_simps write_bytes_simps) simp
  qed
qed

lemma check_sleb_width_ok:
  assumes "0 < bits" and "bits \<le> 64" and "- (2 ^ (unat bits - 1)) \<le> v" and "v < 2 ^ (unat bits - 1)"
  shows "check_sleb_width v bits start = Inr v"
proof -
  have "(2::int) ^ (unat bits - 1) \<le> 2 ^ 63"
    using assms(2) by (intro power_increasing) (simp_all add: word_le_nat_alt)
  then have "i64_try_from v = Some v" using assms by (simp add: i64_try_from_def)
  then show ?thesis using assms by (simp add: check_sleb_width_def push_bit_eq_mult)
qed

lemma join_int:
  assumes "0 \<le> v" and "v < 2 ^ s" and "s < 64" and "0 \<le> p" and "p < 128"
  shows "checked_shl_i128 p s = Some (p * 2 ^ s)" and "v OR (p * 2 ^ s) = v + p * 2 ^ s"
proof -
  have "p * 2 ^ s < 128 * 2 ^ 64"
    using assms mult_strict_mono[of p 128 "2 ^ s" "2 ^ 64 :: int"] power_strict_increasing[of s 64 "2::int"] by simp
  moreover have "0 \<le> p * 2 ^ s" using assms by simp
  ultimately have "signed_take_bit 127 (p * 2 ^ s) = p * 2 ^ s"
    by (intro signed_take_bit_int_eq_self) simp_all
  then show "checked_shl_i128 p s = Some (p * 2 ^ s)"
    using assms by (simp add: checked_shl_i128_def push_bit_eq_mult)
  have "v OR push_bit s p = v + push_bit s p"
    using assms by (intro or_push_bit) (simp add: take_bit_int_eq_self)
  then show "v OR (p * 2 ^ s) = v + p * 2 ^ s" by (simp only: push_bit_eq_mult)
qed

lemma sign_extend_int:
  assumes "0 \<le> v" and "v < 2 ^ s" and "s < 127"
  shows "v OR case_option 0 id (checked_shl_i128 (- 1) s) = v - 2 ^ s"
proof -
  have "(2::int) ^ s \<le> 2 ^ 127" using assms by (intro power_increasing) auto
  moreover have "- (2 ^ s) < (0::int)" by simp
  then have "- (2 ^ s) < (2::int) ^ 127" by (rule less_trans) simp
  ultimately have "signed_take_bit 127 (push_bit s (- 1 :: int)) = push_bit s (- 1)"
    by (intro signed_take_bit_int_eq_self) (simp_all add: push_bit_eq_mult)
  moreover have "v OR push_bit s (- 1) = v + push_bit s (- 1)"
    using assms by (intro or_push_bit) (simp add: take_bit_int_eq_self)
  ultimately have "v OR case_option 0 id (checked_shl_i128 (- 1) s) = v + push_bit s (- 1)"
    using assms(3) by (simp only: checked_shl_i128_def) simp
  then show ?thesis by (simp add: push_bit_eq_mult)
qed

lemma unat_sleb_byte:
  "uint (word_of_int (v mod 128) :: u8) = v mod 128"
  "uint (word_of_int (128 + v mod 128) :: u8) = 128 + v mod 128"
  by (simp_all only: uint_word_of_int) (simp_all add: mod_pos_pos_trivial)

lemma uint_byte_low7: "uint ((b :: u8) AND 0x7f) = uint b mod 128"
  by (simp only: uint_nat byte_low7) (simp add: zmod_int)

lemma sleb_byte_mod: "(if P then n mod 128 else 128 + n mod 128) mod 128 = n mod (128 :: int)"
  by (cases P) (simp_all only: if_True if_False mod_add_self1 mod_mod_trivial)

lemma read_sleb_rest_ahead:
  assumes "ahead c (sleb_bytes n)" and "0 \<le> v" and "v < 2 ^ (7 * index)"
    and "v + n * 2 ^ (7 * index) < - (2 ^ (7 * index - 1)) \<or> 2 ^ (7 * index - 1) \<le> v + n * 2 ^ (7 * index)"
    and "- (2 ^ (unat bits - 1)) \<le> v + n * 2 ^ (7 * index)" and "v + n * 2 ^ (7 * index) < 2 ^ (unat bits - 1)"
    and "0 < bits" and "bits \<le> 64" and "0 < index"
  shows "read_sleb_rest bits start ((unat bits + 6) div 7) index v c
    = Inr (v + n * 2 ^ (7 * index), advance (length (sleb_bytes n)) c)"
  using assms(1-6,9)
proof (induction n arbitrary: index v c rule: sleb_bytes.induct)
  case (1 n)
  let ?s = "7 * index" and ?p = "n mod 128" and ?small = "- 64 \<le> n \<and> n < 64"
  have b64: "unat bits \<le> 64" using assms(8) by (simp add: word_le_nat_alt)
  have "(2::int) ^ (?s - 1) < 2 ^ (unat bits - 1)" using "1.prems"(4-6) by linarith
  then have s: "?s - 1 < unat bits - 1" by simp
  then have lim: "index < (unat bits + 6) div 7" and s64: "?s < 64" using b64 by auto
  note join = join_int[OF "1.prems"(2,3) s64, of ?p]
  define b where "b = (word_of_int (if ?small then ?p else 128 + ?p) :: u8)"
  define rest where "rest = (if ?small then [] else sleb_bytes (n div 128))"
  have split: "sleb_bytes n = b # rest" by (simp add: sleb_bytes.simps[of n] b_def rest_def)
  have bn: "uint b = (if ?small then ?p else 128 + ?p)" 
    unfolding b_def by (cases ?small) (simp_all only: simp_thms if_True if_False unat_sleb_byte)
  have r: "read_u8 c = Inr (b, advance 1 c)" and ar: "ahead (advance 1 c) rest"
    using "1.prems"(1) ahead_append[of c "[b]" rest] by (auto simp: split read_u8_ahead)
  have pl: "uint (b AND 0x7f) = ?p" by (simp add: uint_byte_low7 bn)
  have cont: "b AND 0x80 = 0 \<longleftrightarrow> ?small"
    unfolding byte_continues_iff using bn by (auto simp: unat_eq_nat_uint nat_less_iff split: if_splits)
  have sgn: "b AND 0x40 = 0 \<longleftrightarrow> ?p < 64"
    unfolding byte_sign_iff_int bn by (simp only: sleb_byte_mod)
  define v' where "v' = v + ?p * 2 ^ ?s"
  have v': "0 \<le> v'" "v' < 2 ^ (7 * Suc index)"
  proof -
    have "0 \<le> ?p * 2 ^ ?s" by simp
    then show "0 \<le> v'" unfolding v'_def using "1.prems"(2) by linarith
    have "?p \<le> 127" using pos_mod_bound[of 128 n] by linarith
    then have "?p * 2 ^ ?s \<le> 127 * 2 ^ ?s" by (intro mult_right_mono) simp_all
    then have "v' < 128 * 2 ^ ?s" unfolding v'_def using "1.prems"(3) by linarith
    then show "v' < 2 ^ (7 * Suc index)" by (simp add: power_add)
  qed
  have ext: "v' OR case_option 0 id (checked_shl_i128 (- 1) (?s + 7)) = v' - 2 ^ (7 * Suc index)"
    using sign_extend_int[of v' "?s + 7"] v' s64 by (simp add: add.commute)
  have step: "read_sleb_rest bits start ((unat bits + 6) div 7) index v c =
      (if ?small then
         let_ok (check_sleb_width (if ?p < 64 then v' else v' - 2 ^ (7 * Suc index)) bits start) (\<lambda>v. Inr (v, advance 1 c))
       else read_sleb_rest bits start ((unat bits + 6) div 7) (Suc index) v' (advance 1 c))"
    using r lim s64 join ext cont sgn
    by (auto simp: read_sleb_rest.simps[of bits start _ index v c] Let_def mult.commute[of index 7] pl v'_def)
  have total: "v' + n div 128 * 2 ^ (7 * Suc index) = v + n * 2 ^ ?s"
  proof -
    have "(p + 128 * q) * k = p * k + q * (k * 128)" for p q k :: int by (simp add: algebra_simps)
    from this[of ?p "n div 128" "2 ^ ?s"] show ?thesis unfolding v'_def by (simp add: power_add)
  qed
  show ?case
  proof (cases ?small)
    case True
    then have "n div 128 = (if ?p < 64 then 0 else - 1)" unfolding sleb_small_iff[symmetric] by auto
    then have val: "(if ?p < 64 then v' else v' - 2 ^ (7 * Suc index)) = v + n * 2 ^ ?s"
      using total by (simp split: if_splits)
    have "read_sleb_rest bits start ((unat bits + 6) div 7) index v c
        = let_ok (check_sleb_width (v + n * 2 ^ ?s) bits start) (\<lambda>v. Inr (v, advance 1 c))"
      unfolding step val using True by simp
    then show ?thesis
      using True check_sleb_width_ok[OF assms(7,8) "1.prems"(5,6)] by (simp add: split rest_def)
  next
    case False
    have "ahead (advance 1 c) (sleb_bytes (n div 128))" using ar False by (simp add: rest_def)
    moreover have "v + n * 2 ^ ?s < - (2 ^ (7 * Suc index - 1)) \<or> 2 ^ (7 * Suc index - 1) \<le> v + n * 2 ^ ?s"
    proof -
      have e: "(2::int) ^ (7 * Suc index - 1) = 64 * 2 ^ ?s"
        using power_add[of "2::int" 6 ?s] by (simp add: add.commute)
      have "n \<le> - 65 \<or> 64 \<le> n" using False by linarith
      then have "n * 2 ^ ?s \<le> - 65 * 2 ^ ?s \<or> 64 * 2 ^ ?s \<le> n * 2 ^ ?s"
        using mult_right_mono[of n "- 65" "2 ^ ?s"] mult_right_mono[of 64 n "2 ^ ?s"] by auto
      then show ?thesis unfolding e using "1.prems"(2,3) by linarith
    qed
    ultimately have "read_sleb_rest bits start ((unat bits + 6) div 7) (Suc index) v' (advance 1 c)
        = Inr (v + n * 2 ^ ?s, advance (length (sleb_bytes (n div 128))) (advance 1 c))"
      using "1.IH"[OF False, of "advance 1 c" v' "Suc index"] v' "1.prems"(5,6) unfolding total by simp
    then show ?thesis using False step by (auto simp: split rest_def)
  qed
qed

lemma read_sleb_bounded_ahead:
  assumes "ahead c (sleb_bytes v)" and "0 < bits" and "bits \<le> 64"
    and "- (2 ^ (unat bits - 1)) \<le> v" and "v < 2 ^ (unat bits - 1)"
  shows "read_sleb_bounded bits c = Inr (v, advance (length (sleb_bytes v)) c)"
proof -
  let ?p = "v mod 128" and ?small = "- 64 \<le> v \<and> v < 64"
  define b where "b = (word_of_int (if ?small then ?p else 128 + ?p) :: u8)"
  define rest where "rest = (if ?small then [] else sleb_bytes (v div 128))"
  have split: "sleb_bytes v = b # rest" by (simp add: sleb_bytes.simps[of v] b_def rest_def)
  have bn: "uint b = (if ?small then ?p else 128 + ?p)"
    unfolding b_def by (cases ?small) (simp_all only: simp_thms if_True if_False unat_sleb_byte)
  have r: "read_u8 c = Inr (b, advance 1 c)" and ar: "ahead (advance 1 c) rest"
    using assms(1) ahead_append[of c "[b]" rest] by (auto simp: split read_u8_ahead)
  have pl: "uint (b AND 0x7f) = ?p" by (simp add: uint_byte_low7 bn)
  have cont: "b AND 0x80 = 0 \<longleftrightarrow> ?small"
    unfolding byte_continues_iff using bn by (auto simp: unat_eq_nat_uint nat_less_iff split: if_splits)
  have sgn: "b AND 0x40 = 0 \<longleftrightarrow> ?p < 64"
    unfolding byte_sign_iff_int bn by (simp only: sleb_byte_mod)
  have bits: "bits \<noteq> 0" "\<not> bits > MAXIMUM_BITS" using assms by (auto simp: MAXIMUM_BITS_def)
  show ?thesis
  proof (cases ?small)
    case True
    have or: "uint (b OR 0x80) = uint b + 128"
    proof -
      have "int (unat (b OR 0x80)) = int (unat b + 128)"
        using byte_set_continue[of b] cont True unfolding byte_continues_iff by (simp only: of_nat_eq_iff)
      then show ?thesis by simp
    qed
    then have val: "(if b AND 0x40 = 0 then uint b else uint (b OR 0x80) - 0x100) = v"
    proof -
      have "v div 128 = (if ?p < 64 then 0 else - 1)" using True unfolding sleb_small_iff[symmetric] by auto
      moreover have "v = 128 * (v div 128) + ?p" by simp
      ultimately show ?thesis using bn True or unfolding sgn by (simp split: if_splits)
    qed
    have "read_sleb_bounded bits c = let_ok (check_sleb_width v bits (position c)) (\<lambda>v. Inr (v, advance 1 c))"
      using True r bits cont val by (simp add: read_sleb_bounded_def Let_def)
    then show ?thesis
      using True check_sleb_width_ok[OF assms(2-5)] by (simp add: split rest_def)
  next
    case False
    have total: "?p + v div 128 * 2 ^ (7 * 1) = v" by simp
    have "ahead (advance 1 c) (sleb_bytes (v div 128))" using ar False by (simp add: rest_def)
    then have "read_sleb_rest bits (position c) ((unat bits + 6) div 7) 1 ?p (advance 1 c)
        = Inr (v, advance (length (sleb_bytes (v div 128))) (advance 1 c))"
      using read_sleb_rest_ahead[of "advance 1 c" "v div 128" ?p 1 bits "position c"] assms False
      unfolding total by auto
    then show ?thesis
      using False r bits cont pl by (auto simp: read_sleb_bounded_def Let_def split rest_def)
  qed
qed

definition is_i64 :: "int \<Rightarrow> bool" where
  "is_i64 v \<longleftrightarrow> - (2 ^ 63) \<le> v \<and> v < 2 ^ 63"

lemma read_sleb_ahead:
  "is_i64 v \<Longrightarrow> ahead c (sleb_bytes v) \<Longrightarrow> read_sleb c = Inr (v, advance (length (sleb_bytes v)) c)"
  unfolding read_sleb_def is_i64_def by (rule read_sleb_bounded_ahead) (simp_all add: MAXIMUM_BITS_def)

interpretation sleb_codec: codec "\<lambda>_. sleb_bytes" read_sleb is_i64
  by unfold_locales (simp add: read_sleb_ahead)

lemma read_sleb_rest_moved:
  "read_sleb_rest bits start limit index v c = Inr (w, c') \<Longrightarrow> moved 1 c c'"
proof (induction "limit - index" arbitrary: index v c)
  case 0
  then show ?case by (simp add: read_sleb_rest.simps[of bits start limit index v c])
next
  case (Suc k)
  from Suc.prems obtain b c1 where r: "index < limit" "read_u8 c = Inr (b, c1)"
    by (auto simp: read_sleb_rest.simps[of bits start limit index v c] ok_simps split: if_splits)
  have IH: "read_sleb_rest bits start limit (Suc index) v' c1 = Inr (w, c') \<Longrightarrow> moved 1 c1 c'" for v'
    using Suc.hyps(1)[of "Suc index"] Suc.hyps(2) by simp
  have m: "moved 1 c c1" using r(2) by (rule read_u8_moved)
  moreover have "c' = c1 \<or> moved 1 c1 c'"
    using Suc.prems r
    by (auto simp: read_sleb_rest.simps[of bits start limit index v c] Let_def ok_simps split: if_splits
        dest: IH)
  ultimately show ?case by (auto intro: moved_weaken[OF moved_trans])
qed

lemma read_sleb_moved:
  assumes "read_sleb c = Inr (w, c')"
  shows "moved 1 c c'"
proof -
  from assms obtain b c1 where r: "read_u8 c = Inr (b, c1)"
    by (auto simp: read_sleb_def read_sleb_bounded_def MAXIMUM_BITS_def Let_def ok_simps)
  have "c' = c1 \<or> moved 1 c1 c'"
  proof (cases "b AND 0x80 = 0")
    case True
    define v where "v = (if b AND 0x40 = 0 then uint b else uint (b OR 0x80) - 0x100)"
    show ?thesis
      using assms r True
      by (simp add: read_sleb_def read_sleb_bounded_def MAXIMUM_BITS_def Let_def v_def[symmetric]) auto
  next
    case False
    then show ?thesis
      using assms r
      by (auto simp: read_sleb_def read_sleb_bounded_def MAXIMUM_BITS_def Let_def dest: read_sleb_rest_moved)
  qed
  then show ?thesis using read_u8_moved[OF r] by (auto intro: moved_weaken[OF moved_trans])
qed

lemma uleb_bytes_small: "n < 128 \<Longrightarrow> uleb_bytes n = [word_of_nat n]"
  by (simp add: uleb_bytes.simps)

text \<open>Evaluation of the readers on concrete bytes.\<close>

lemmas cursor_eval = cursor_new_def read_u8_def read_u16_def read_u32_def read_u64_def read_uint_def take_array_def
  remaining_def from_bytes_def Let_def cursor_take_def checked_add_def slice_get_def cursor_is_empty_def
  read_uleb_def read_uleb_bounded_def MAXIMUM_BITS_def check_uleb_width_def read_sleb_def read_sleb_bounded_def
  check_sleb_width_def i64_try_from_def

end
