(* ===== verification/Model.thy ===== *)
theory Model
  imports Errors "HOL-Library.Product_Lexorder" "HOL-Library.List_Lexorder"
begin

text \<open>
  \<open>src/model.rs\<close> and \<open>src/version.rs\<close>: the semantic data model. Plain structs are records,
  the recursive \<open>InlineNode\<close> and \<open>Function\<close> are datatypes with a selector per field.
  \<open>FileIndex\<close> and \<open>CallSiteFlags\<close> wrap one integer and are that integer. The derived
  ordering of \<open>AddressRange\<close>, which finalization sorts by, is an instance of \<open>linorder\<close>.
\<close>

unbundle bit_operations_syntax

section \<open>Versions\<close>

datatype gsym_version = V1 | V2

definition version_number :: "gsym_version \<Rightarrow> u16" where
  "version_number v = (case v of V1 \<Rightarrow> 1 | V2 \<Rightarrow> 2)"

section \<open>Address ranges\<close>

record address_range =
  r_start :: u64
  r_end :: u64

abbreviation mk_range :: "u64 \<Rightarrow> u64 \<Rightarrow> address_range" where
  "mk_range s e \<equiv> \<lparr>r_start = s, r_end = e\<rparr>"

definition range_size :: "address_range \<Rightarrow> u64" where
  "range_size r = saturating_sub_u64 (r_end r) (r_start r)"

definition range_is_valid :: "address_range \<Rightarrow> bool" where
  "range_is_valid r \<longleftrightarrow> r_start r \<le> r_end r"

definition range_is_empty :: "address_range \<Rightarrow> bool" where
  "range_is_empty r \<longleftrightarrow> range_size r = 0"

definition range_contains :: "address_range \<Rightarrow> u64 \<Rightarrow> bool" where
  "range_contains r address \<longleftrightarrow> range_is_valid r \<and> r_start r \<le> address \<and> address < r_end r"

definition contains_range :: "address_range \<Rightarrow> address_range \<Rightarrow> bool" where
  "contains_range r other \<longleftrightarrow>
     range_is_valid r \<and> range_is_valid other \<and> r_start r \<le> r_start other \<and> r_end other \<le> r_end r"

text \<open>\<open>#[derive(PartialOrd, Ord)]\<close> compares the fields in order.\<close>

instantiation address_range_ext :: (linorder) linorder
begin

definition less_eq_address_range_ext :: "'a address_range_ext \<Rightarrow> 'a address_range_ext \<Rightarrow> bool" where
  "less_eq_address_range_ext r s \<longleftrightarrow>
     (r_start r, r_end r, address_range.more r) \<le> (r_start s, r_end s, address_range.more s)"

definition less_address_range_ext :: "'a address_range_ext \<Rightarrow> 'a address_range_ext \<Rightarrow> bool" where
  "less_address_range_ext r s \<longleftrightarrow>
     (r_start r, r_end r, address_range.more r) < (r_start s, r_end s, address_range.more s)"

instance
proof
  fix x y z :: "'a address_range_ext"
  show "x < y \<longleftrightarrow> x \<le> y \<and> \<not> y \<le> x"
    by (simp only: less_eq_address_range_ext_def less_address_range_ext_def less_le_not_le)
  show "x \<le> x" by (simp add: less_eq_address_range_ext_def)
  show "x \<le> y \<Longrightarrow> y \<le> z \<Longrightarrow> x \<le> z"
    unfolding less_eq_address_range_ext_def by (rule order_trans)
  show "x \<le> y \<Longrightarrow> y \<le> x \<Longrightarrow> x = y"
    unfolding less_eq_address_range_ext_def by (drule (1) order_antisym) simp
  show "x \<le> y \<or> y \<le> x" unfolding less_eq_address_range_ext_def by (rule linear)
qed

end

lemma range_le_iff: "r \<le> s \<longleftrightarrow> r_start r < r_start s \<or> r_start r = r_start s \<and> r_end r \<le> r_end s"
  for r s :: address_range
  by (auto simp: less_eq_address_range_ext_def less_eq_prod_def)

lemma range_le_start: "r \<le> s \<Longrightarrow> r_start r \<le> r_start s" for r s :: address_range
  by (auto simp: range_le_iff)

section \<open>Files and lines\<close>

record file_entry =
  file_directory :: bytes
  file_basename :: bytes

definition file_entry_default :: file_entry where
  "file_entry_default = \<lparr>file_directory = [], file_basename = []\<rparr>"

type_synonym file_index = u32

record line_entry =
  row_address :: u64
  row_file :: file_index
  row_line :: u32

section \<open>Inline nodes, call sites, functions\<close>

datatype inline_node = InlineNode
  (node_ranges: "address_range list")
  (node_name: bytes)
  (node_call_file: file_index)
  (node_call_line: u32)
  (node_children: "inline_node list")

type_synonym call_site_flags = u8

definition INTERNAL :: call_site_flags where "INTERNAL = 1"
definition EXTERNAL :: call_site_flags where "EXTERNAL = 2"

definition flags_is_empty :: "call_site_flags \<Rightarrow> bool" where
  "flags_is_empty f \<longleftrightarrow> f = 0"

definition flags_contains :: "call_site_flags \<Rightarrow> call_site_flags \<Rightarrow> bool" where
  "flags_contains f flag \<longleftrightarrow> f AND flag = flag"

record call_site =
  return_offset :: u64
  site_flags :: call_site_flags
  match_regex :: "bytes list"

datatype gfunction = Function
  (fn_range: address_range)
  (fn_name: bytes)
  (fn_lines: "line_entry list")
  (fn_inline: "inline_node option")
  (fn_merged: "gfunction list")
  (fn_call_sites: "call_site list")

definition function_new :: "address_range \<Rightarrow> bytes \<Rightarrow> gfunction" where
  "function_new r name = Function r name [] None [] []"

section \<open>Lookup results\<close>

record lookup_frame =
  frame_name :: bytes
  frame_directory :: bytes
  frame_basename :: bytes
  frame_line :: u32
  frame_offset :: u64
  frame_inlined :: bool

record lookup_result =
  lookup_address :: u64
  lookup_function :: address_range
  lookup_frames :: "lookup_frame list"
  lookup_patterns :: "bytes list"

section \<open>Facts about ranges\<close>

lemma range_size_valid: "range_is_valid r \<Longrightarrow> range_size r = r_end r - r_start r"
  by (simp add: range_size_def range_is_valid_def saturating_sub_u64_def)

lemma range_is_empty_iff: "range_is_empty r \<longleftrightarrow> r_end r \<le> r_start r"
  by (auto simp: range_is_empty_def range_size_def saturating_sub_u64_def)

lemma contains_range_iff_subset:
  assumes "range_is_valid r" and "range_is_valid s" and "\<not> range_is_empty s"
  shows "contains_range r s \<longleftrightarrow> (\<forall>a. range_contains s a \<longrightarrow> range_contains r a)"
proof
  assume "contains_range r s"
  then show "\<forall>a. range_contains s a \<longrightarrow> range_contains r a"
    by (auto simp: contains_range_def range_contains_def)
next
  assume sub: "\<forall>a. range_contains s a \<longrightarrow> range_contains r a"
  have ne: "r_start s < r_end s" using assms(2,3) by (auto simp: range_is_empty_iff range_is_valid_def)
  then have "range_contains s (r_start s)" using assms by (simp add: range_contains_def)
  then have "r_start r \<le> r_start s" using sub by (auto simp: range_contains_def)
  moreover have "r_end s \<le> r_end r"
  proof -
    let ?l = "r_end s - 1"
    have "unat ?l = unat (r_end s) - 1"
      using ne by (intro unat_minus_one) auto
    then have "r_start s \<le> ?l" "?l < r_end s" using ne by (auto simp: word_less_nat_alt word_le_nat_alt)
    then have "range_contains s ?l" using assms by (simp add: range_contains_def)
    then have "?l < r_end r" using sub by (auto simp: range_contains_def)
    then show ?thesis using \<open>unat ?l = unat (r_end s) - 1\<close> by (simp add: word_less_nat_alt word_le_nat_alt)
  qed
  ultimately show "contains_range r s" using assms by (simp add: contains_range_def)
qed

end
