(* ===== verification/Line.thy ===== *)
theory Line
  imports Leb Model
begin

text \<open>
  \<open>src/format/line.rs\<close>: the line-table program. \<open>line_parse\<close> is the interpreter; its callback
  becomes a function \<open>step\<close> from the row and the caller's state to the new state and the answer
  whether to go on. \<open>line_decode\<close> and \<open>line_lookup\<close> are its two callers.
  \<open>line_encode_into\<close> is the writer with its choice of a delta window.
\<close>

section \<open>The interpreter\<close>

definition END_SEQUENCE :: u8 where "END_SEQUENCE = 0"
definition SET_FILE :: u8 where "SET_FILE = 1"
definition ADVANCE_PC :: u8 where "ADVANCE_PC = 2"
definition ADVANCE_LINE :: u8 where "ADVANCE_LINE = 3"
definition FIRST_SPECIAL :: u8 where "FIRST_SPECIAL = 4"

lemmas line_opcodes = END_SEQUENCE_def SET_FILE_def ADVANCE_PC_def ADVANCE_LINE_def FIRST_SPECIAL_def

text \<open>\<open>i64::checked_sub\<close>, \<open>i64::saturating_sub\<close> and \<open>i64::checked_add_unsigned\<close>.\<close>

definition checked_sub_i64 :: "int \<Rightarrow> int \<Rightarrow> int option" where
  "checked_sub_i64 a b = i64_try_from (a - b)"

definition checked_add_i64 :: "int \<Rightarrow> int \<Rightarrow> int option" where
  "checked_add_i64 a b = i64_try_from (a + b)"

definition saturating_sub_i64 :: "int \<Rightarrow> int \<Rightarrow> int" where
  "saturating_sub_i64 a b = max (- (2 ^ 63)) (min (2 ^ 63 - 1) (a - b))"

definition saturating_add_i128 :: "int \<Rightarrow> int \<Rightarrow> int" where
  "saturating_add_i128 a b = max (- (2 ^ 127)) (min (2 ^ 127 - 1) (a + b))"

definition saturating_mul_i128 :: "int \<Rightarrow> int \<Rightarrow> int" where
  "saturating_mul_i128 a b = max (- (2 ^ 127)) (min (2 ^ 127 - 1) (a * b))"

text \<open>\<open>NonZeroU64::MIN.saturating_add(span.unsigned_abs())\<close>: one more than the span, in \<open>u64\<close>.\<close>

definition special_line_range :: "int \<Rightarrow> int \<Rightarrow> nat result" where
  "special_line_range minimum maximum =
     (if maximum < minimum then Inl (InvalidFormat ''line-table maximum delta precedes minimum delta'')
      else let_ok (ok_or (checked_sub_i64 maximum minimum) (Overflow ''line-table delta range''))
             (\<lambda>span. Inr (saturating_add 1 (nat (abs span)))))"

definition add_line_delta :: "u32 \<Rightarrow> int \<Rightarrow> u32 result" where
  "add_line_delta ln delta =
     (let v = saturating_add_i128 (uint ln) delta in
      if 0 \<le> v \<and> v < 2 ^ 32 then Inr (word_of_int v)
      else Inl (malformed ''line table''
        (''line calculation is outside u32: '' @ decimal_int (uint ln) @ '' + '' @ decimal_int delta)))"

definition u32_or_out_of_range :: "u64 \<Rightarrow> string \<Rightarrow> u32 result" where
  "u32_or_out_of_range v field = ok_or (u32_try_from (unat v)) (OutOfRange field v 0xFFFFFFFF)"

definition line_opcode_eof :: "error \<Rightarrow> error" where
  "line_opcode_eof err =
     (if is_unexpected_eof err then InvalidFormat ''line table has no end-sequence opcode'' else err)"

function line_loop ::
  "(line_entry \<Rightarrow> 's \<Rightarrow> 's \<times> bool) \<Rightarrow> int \<Rightarrow> nat \<Rightarrow> line_entry \<Rightarrow> 's \<Rightarrow> cursor \<Rightarrow> 's result" where
  "line_loop step minimum_delta line_range row s c =
     let_ok (map_err line_opcode_eof (read_u8 c)) (\<lambda>(opcode, c).
     if opcode = END_SEQUENCE then Inr s
     else if opcode = SET_FILE then
       let_ok (read_uleb c) (\<lambda>(index, c).
       let_ok (u32_or_out_of_range index ''line-table file index'') (\<lambda>index.
       line_loop step minimum_delta line_range (row\<lparr>row_file := index\<rparr>) s c))
     else if opcode = ADVANCE_PC then
       let_ok (read_uleb c) (\<lambda>(delta, c).
       let_ok (ok_or (checked_add_u64 (row_address row) delta) (Overflow ''line-table address'')) (\<lambda>addr.
       let row = row\<lparr>row_address := addr\<rparr>; (s, more) = step row s in
       if \<not> more then Inr s else line_loop step minimum_delta line_range row s c))
     else if opcode = ADVANCE_LINE then
       let_ok (read_sleb c) (\<lambda>(delta, c).
       let_ok (add_line_delta (row_line row) delta) (\<lambda>ln.
       line_loop step minimum_delta line_range (row\<lparr>row_line := ln\<rparr>) s c))
     else
       let adjusted = unat opcode - unat FIRST_SPECIAL in
       let_ok (ok_or (checked_add_i64 minimum_delta (int (adjusted mod line_range)))
                 (Overflow ''line-table line delta'')) (\<lambda>line_delta.
       let address_delta = adjusted div line_range in
       let_ok (add_line_delta (row_line row) line_delta) (\<lambda>ln.
       let_ok (ok_or (checked_add_u64 (row_address row) (word_of_nat address_delta))
                 (Overflow ''line-table address'')) (\<lambda>addr.
       let row = row\<lparr>row_line := ln, row_address := addr\<rparr>; (s, more) = step row s in
       if \<not> more then Inr s else line_loop step minimum_delta line_range row s c))))"
  by pat_completeness auto
termination
  by (relation "measure (\<lambda>(step, minimum_delta, line_range, row, s, c). remaining c)")
     (auto simp: ok_simps remaining_def moved_def
       dest!: read_u8_moved read_uleb_moved read_sleb_moved)

declare line_loop.simps [simp del]

definition line_parse :: "cursor \<Rightarrow> u64 \<Rightarrow> (line_entry \<Rightarrow> 's \<Rightarrow> 's \<times> bool) \<Rightarrow> 's \<Rightarrow> 's result" where
  "line_parse c base step s =
     let_ok (read_sleb c) (\<lambda>(minimum_delta, c).
     let_ok (read_sleb c) (\<lambda>(maximum_delta, c).
     let_ok (special_line_range minimum_delta maximum_delta) (\<lambda>line_range.
     let_ok (read_uleb c) (\<lambda>(first_line, c).
     let_ok (u32_or_out_of_range first_line ''line number'') (\<lambda>ln.
     line_loop step minimum_delta line_range \<lparr>row_address = base, row_file = 1, row_line = ln\<rparr> s c)))))"

definition line_decode :: "bytes \<Rightarrow> endian \<Rightarrow> u64 \<Rightarrow> line_entry list result" where
  "line_decode bs e base = line_parse (cursor_new bs e) base (\<lambda>row rows. (rows @ [row], True)) []"

definition line_lookup :: "bytes \<Rightarrow> endian \<Rightarrow> u64 \<Rightarrow> u64 \<Rightarrow> line_entry option result" where
  "line_lookup bs e base addr =
     line_parse (cursor_new bs e) base
       (\<lambda>row found. if addr < row_address row then (found, False) else (Some row, True)) None"

section \<open>The writer\<close>

definition MAXIMUM_LINE_RANGE :: int where "MAXIMUM_LINE_RANGE = 14"

definition line_deltas :: "line_entry list \<Rightarrow> int list" where
  "line_deltas rows =
     map (\<lambda>(previous, current). saturating_sub_i64 (uint (row_line current)) (uint (row_line previous)))
       (zip rows (drop 1 rows))"

text \<open>The first pass: minimum and maximum of the deltas, given up as soon as the span is too wide.\<close>

fun delta_bounds :: "int list \<Rightarrow> int \<times> int \<Rightarrow> int \<times> int" where
  "delta_bounds [] (minimum, maximum) = (minimum, maximum)"
| "delta_bounds (delta # deltas) (minimum, maximum) =
     (let minimum = min minimum delta; maximum = max maximum delta in
      if saturating_sub_i64 maximum minimum > MAXIMUM_LINE_RANGE then (minimum, maximum)
      else delta_bounds deltas (minimum, maximum))"

text \<open>The second pass: a sliding window over the sorted deltas. \<open>window_end\<close> is the inner
  \<open>while\<close> loop, \<open>best_window\<close> the \<open>for\<close> loop over the window's first delta.\<close>

function window_end :: "int list \<Rightarrow> int \<Rightarrow> nat \<Rightarrow> nat" where
  "window_end deltas first e =
     (if (case nth_get deltas e of None \<Rightarrow> False
          | Some delta \<Rightarrow> saturating_sub_i64 delta first \<le> MAXIMUM_LINE_RANGE)
      then window_end deltas first (Suc e) else e)"
  by pat_completeness auto
termination
  by (relation "measure (\<lambda>(deltas, first, e). length deltas - e)")
     (auto simp: nth_get_def split: if_splits)

declare window_end.simps [simp del]

fun best_window :: "int list \<Rightarrow> (nat \<times> int) list \<Rightarrow> nat \<Rightarrow> nat \<Rightarrow> int \<times> int \<Rightarrow> int \<times> int" where
  "best_window deltas [] e best_count (minimum, maximum) = (minimum, maximum)"
| "best_window deltas ((start, first) # rest) e best_count (minimum, maximum) =
     (let e = window_end deltas first e;
          count = min (e - start) (2 ^ 32 - 1) in
      if count > best_count
      then best_window deltas rest e count
             (first, case nth_get deltas (e - 1) of None \<Rightarrow> first | Some delta \<Rightarrow> delta)
      else best_window deltas rest e best_count (minimum, maximum))"

definition choose_delta_range :: "line_entry list \<Rightarrow> int \<times> int" where
  "choose_delta_range rows =
     (if length rows < 2 then (0, 0)
      else
        let deltas = line_deltas rows;
            (minimum, maximum) = delta_bounds deltas (2 ^ 63 - 1, - (2 ^ 63));
            (minimum, maximum) =
              (if saturating_sub_i64 maximum minimum > MAXIMUM_LINE_RANGE
               then let deltas = sort deltas in
                 best_window deltas (zip [0..<length deltas] deltas) 0 0 (minimum, maximum)
               else (minimum, maximum)) in
        (if minimum = maximum \<and> minimum > 0 \<and> minimum < MAXIMUM_LINE_RANGE then (0, maximum)
         else (minimum, maximum)))"

definition encode_special :: "int \<Rightarrow> int \<Rightarrow> int \<Rightarrow> u64 \<Rightarrow> u8 option" where
  "encode_special minimum_delta maximum_delta line_delta address_delta =
     (if line_delta < minimum_delta \<or> line_delta > maximum_delta then None
      else
        Option.bind (checked_sub_i64 maximum_delta minimum_delta) (\<lambda>span.
        Option.bind (checked_add_i64 span 1) (\<lambda>line_range.
        let adjusted = saturating_add_i128 (saturating_sub_i64 line_delta minimum_delta)
              (saturating_mul_i128 (uint address_delta) line_range);
            opcode = saturating_add_i128 adjusted (uint FIRST_SPECIAL) in
        u8_try_from opcode)))"

fun encode_rows :: "int \<Rightarrow> int \<Rightarrow> u64 \<Rightarrow> line_entry list \<Rightarrow> line_entry \<Rightarrow> encoder \<Rightarrow> encoder result" where
  "encode_rows minimum_delta maximum_delta base [] previous out = Inr out"
| "encode_rows minimum_delta maximum_delta base (current # rows) previous out =
     (if row_address current < base then Inl (InvalidModel ''line address precedes the function start'')
      else if row_address current < row_address previous
      then Inl (InvalidModel ''line-table addresses are not monotonically increasing'')
      else
        let address_delta = saturating_sub_u64 (row_address current) (row_address previous);
            line_delta = saturating_sub_i64 (uint (row_line current)) (uint (row_line previous));
            out = (if row_file current \<noteq> row_file previous
                   then write_uleb (ucast (row_file current)) (write_u8 SET_FILE out) else out);
            out = (case encode_special minimum_delta maximum_delta line_delta address_delta of
                     Some special \<Rightarrow> write_u8 special out
                   | None \<Rightarrow>
                       let out = (if line_delta \<noteq> 0
                             then write_sleb line_delta (write_u8 ADVANCE_LINE out) else out) in
                       write_uleb address_delta (write_u8 ADVANCE_PC out)) in
        encode_rows minimum_delta maximum_delta base rows current out)"

definition line_encode_into :: "line_entry list \<Rightarrow> u64 \<Rightarrow> encoder \<Rightarrow> encoder result" where
  "line_encode_into rows base out =
     (case rows of
        [] \<Rightarrow> Inl (InvalidModel ''line table must not be empty'')
      | first # _ \<Rightarrow>
          let (minimum_delta, maximum_delta) = choose_delta_range rows;
              out = write_sleb minimum_delta out;
              out = write_sleb maximum_delta out;
              out = write_uleb (ucast (row_line first)) out in
          let_ok (encode_rows minimum_delta maximum_delta base rows
                    \<lparr>row_address = base, row_file = 1, row_line = row_line first\<rparr> out)
            (\<lambda>out. Inr (write_u8 END_SEQUENCE out)))"

section \<open>Rows fed to a callback\<close>

text \<open>What a callback makes of a list of rows when it is called on each until it declines.\<close>

fun feed :: "('r \<Rightarrow> 's \<Rightarrow> 's \<times> bool) \<Rightarrow> 'r list \<Rightarrow> 's \<Rightarrow> 's" where
  "feed step [] s = s"
| "feed step (r # rs) s = (let (s, more) = step r s in if more then feed step rs s else s)"

abbreviation collect_row :: "line_entry \<Rightarrow> line_entry list \<Rightarrow> line_entry list \<times> bool" where
  "collect_row \<equiv> \<lambda>row rows. (rows @ [row], True)"

abbreviation lookup_row :: "u64 \<Rightarrow> line_entry \<Rightarrow> line_entry option \<Rightarrow> line_entry option \<times> bool" where
  "lookup_row addr \<equiv> \<lambda>row found. if addr < row_address row then (found, False) else (Some row, True)"

text \<open>One instruction of the line program: the row it leads to, whether that row is emitted, and the
  cursor behind it; \<open>None\<close> is the end of the sequence.\<close>

definition line_instr ::
  "int \<Rightarrow> nat \<Rightarrow> line_entry \<Rightarrow> cursor \<Rightarrow> (line_entry \<times> bool \<times> cursor) option result" where
  "line_instr minimum_delta line_range row c =
     let_ok (map_err line_opcode_eof (read_u8 c)) (\<lambda>(opcode, c).
     if opcode = END_SEQUENCE then Inr None
     else if opcode = SET_FILE then
       let_ok (read_uleb c) (\<lambda>(index, c).
       let_ok (u32_or_out_of_range index ''line-table file index'') (\<lambda>index.
       Inr (Some (row\<lparr>row_file := index\<rparr>, False, c))))
     else if opcode = ADVANCE_PC then
       let_ok (read_uleb c) (\<lambda>(delta, c).
       let_ok (ok_or (checked_add_u64 (row_address row) delta) (Overflow ''line-table address'')) (\<lambda>addr.
       Inr (Some (row\<lparr>row_address := addr\<rparr>, True, c))))
     else if opcode = ADVANCE_LINE then
       let_ok (read_sleb c) (\<lambda>(delta, c).
       let_ok (add_line_delta (row_line row) delta) (\<lambda>ln.
       Inr (Some (row\<lparr>row_line := ln\<rparr>, False, c))))
     else
       let adjusted = unat opcode - unat FIRST_SPECIAL in
       let_ok (ok_or (checked_add_i64 minimum_delta (int (adjusted mod line_range)))
                 (Overflow ''line-table line delta'')) (\<lambda>line_delta.
       let_ok (add_line_delta (row_line row) line_delta) (\<lambda>ln.
       let_ok (ok_or (checked_add_u64 (row_address row) (word_of_nat (adjusted div line_range)))
                 (Overflow ''line-table address'')) (\<lambda>addr.
       Inr (Some (row\<lparr>row_line := ln, row_address := addr\<rparr>, True, c))))))"

lemma line_loop_instr:
  "line_loop step minimum_delta line_range row s c =
     let_ok (line_instr minimum_delta line_range row c) (\<lambda>r. case r of
       None \<Rightarrow> Inr s
     | Some (row, emit, c) \<Rightarrow>
         (if emit then (let (s, more) = step row s in
            if \<not> more then Inr s else line_loop step minimum_delta line_range row s c)
          else line_loop step minimum_delta line_range row s c))"
proof (cases "read_u8 c")
  case (Inl e)
  then show ?thesis by (simp add: line_loop.simps[of step _ _ row] line_instr_def)
next
  case (Inr x)
  then obtain opcode c1 where r: "read_u8 c = Inr (opcode, c1)" by (cases x) auto
  note unfold = line_loop.simps[of step minimum_delta line_range row s c] line_instr_def r
  consider "opcode = END_SEQUENCE" | "opcode = SET_FILE" | "opcode = ADVANCE_PC" | "opcode = ADVANCE_LINE"
    | "opcode \<notin> {END_SEQUENCE, SET_FILE, ADVANCE_PC, ADVANCE_LINE}" by auto
  then show ?thesis
  proof cases
    case 1 then show ?thesis unfolding unfold by simp
  next
    case 2 then show ?thesis unfolding unfold
      by (simp add: line_opcodes let_ok_def split: sum.splits prod.splits)
  next
    case 3 then show ?thesis unfolding unfold
      by (simp add: line_opcodes let_ok_def Let_def split: sum.splits prod.splits)
  next
    case 4 then show ?thesis unfolding unfold
      by (simp add: line_opcodes let_ok_def split: sum.splits prod.splits)
  next
    case 5 then show ?thesis unfolding unfold
      by (simp add: let_ok_def Let_def split: sum.splits prod.splits)
  qed
qed

lemma line_instr_at:
  assumes "read_u8 c = Inr (opcode, c1)"
  shows "opcode = END_SEQUENCE \<Longrightarrow> line_instr mn lr row c = Inr None"
    and "opcode = SET_FILE \<Longrightarrow> line_instr mn lr row c =
      let_ok (read_uleb c1) (\<lambda>(index, c2).
      let_ok (u32_or_out_of_range index ''line-table file index'') (\<lambda>index.
      Inr (Some (row\<lparr>row_file := index\<rparr>, False, c2))))"
    and "opcode = ADVANCE_PC \<Longrightarrow> line_instr mn lr row c =
      let_ok (read_uleb c1) (\<lambda>(delta, c2).
      let_ok (ok_or (checked_add_u64 (row_address row) delta) (Overflow ''line-table address'')) (\<lambda>addr.
      Inr (Some (row\<lparr>row_address := addr\<rparr>, True, c2))))"
    and "opcode = ADVANCE_LINE \<Longrightarrow> line_instr mn lr row c =
      let_ok (read_sleb c1) (\<lambda>(delta, c2).
      let_ok (add_line_delta (row_line row) delta) (\<lambda>ln.
      Inr (Some (row\<lparr>row_line := ln\<rparr>, False, c2))))"
    and "FIRST_SPECIAL \<le> opcode \<Longrightarrow> line_instr mn lr row c =
      let_ok (ok_or (checked_add_i64 mn (int ((unat opcode - 4) mod lr)))
                 (Overflow ''line-table line delta'')) (\<lambda>line_delta.
       let_ok (add_line_delta (row_line row) line_delta) (\<lambda>ln.
       let_ok (ok_or (checked_add_u64 (row_address row) (word_of_nat ((unat opcode - 4) div lr)))
                 (Overflow ''line-table address'')) (\<lambda>addr.
       Inr (Some (row\<lparr>row_line := ln, row_address := addr\<rparr>, True, c1)))))"
proof -
  assume "FIRST_SPECIAL \<le> opcode"
  then have "opcode \<noteq> 0" "opcode \<noteq> 1" "opcode \<noteq> 2" "opcode \<noteq> 3" by (auto simp: FIRST_SPECIAL_def word_le_nat_alt)
  then show "line_instr mn lr row c =
      let_ok (ok_or (checked_add_i64 mn (int ((unat opcode - 4) mod lr)))
                 (Overflow ''line-table line delta'')) (\<lambda>line_delta.
       let_ok (add_line_delta (row_line row) line_delta) (\<lambda>ln.
       let_ok (ok_or (checked_add_u64 (row_address row) (word_of_nat ((unat opcode - 4) div lr)))
                 (Overflow ''line-table address'')) (\<lambda>addr.
       Inr (Some (row\<lparr>row_line := ln, row_address := addr\<rparr>, True, c1)))))"
    unfolding line_instr_def assms by (simp add: line_opcodes Let_def)
qed (simp_all add: line_instr_def assms line_opcodes)

lemma opcode_cases:
  obtains "opcode = END_SEQUENCE" | "opcode = SET_FILE" | "opcode = ADVANCE_PC" | "opcode = ADVANCE_LINE"
    | "FIRST_SPECIAL \<le> opcode"
proof -
  have "unat opcode \<in> {0, 1, 2, 3} \<or> 4 \<le> unat opcode" by auto
  then have "opcode \<in> {0, 1, 2, 3} \<or> 4 \<le> opcode"
    by (auto simp: word_le_nat_alt intro!: unat_eqI)
  then show thesis using that by (auto simp: line_opcodes)
qed

lemma line_instr_moved:
  assumes "line_instr mn lr row c = Inr (Some (row', emit, c'))"
  shows "moved 1 c c' \<and> row_address row \<le> row_address row'"
proof (cases "read_u8 c")
  case (Inl e)
  then show ?thesis using assms by (simp add: line_instr_def)
next
  case (Inr x)
  then obtain opcode c1 where r: "read_u8 c = Inr (opcode, c1)" by (cases x) auto
  note at = line_instr_at[OF r]
  have "(c' = c1 \<or> moved 1 c1 c') \<and> row_address row \<le> row_address row'"
  proof (cases opcode rule: opcode_cases)
    case 1 then show ?thesis using assms at(1) by simp
  next
    case 2 then show ?thesis using assms unfolding at(2)[OF 2] by (auto dest: read_uleb_moved)
  next
    case 3 then show ?thesis using assms unfolding at(3)[OF 3]
      by (auto simp: ok_simps dest: read_uleb_moved checked_add_u64_le)
  next
    case 4 then show ?thesis using assms unfolding at(4)[OF 4] by (auto dest: read_sleb_moved)
  next
    case 5 then show ?thesis using assms unfolding at(5)[OF 5]
      by (auto simp: ok_simps dest: checked_add_u64_le)
  qed
  then show ?thesis using read_u8_moved[OF r] by (auto intro: moved_weaken[OF moved_trans])
qed

text \<open>Any callback sees the rows that \<open>decode\<close> collects, as long as it asks for more.\<close>

lemma line_loop_feed:
  "line_loop collect_row mn lr row acc c = Inr rows \<Longrightarrow>
     \<exists>new. rows = acc @ new \<and> sorted (map row_address (row # new))
       \<and> (\<forall>step (s :: 'z). line_loop step mn lr row s c = Inr (feed step new s))"
proof (induction "remaining c" arbitrary: c row acc rule: less_induct)
  case less
  from less.prems obtain r where r: "line_instr mn lr row c = Inr r"
    by (auto simp: line_loop_instr[of collect_row])
  show ?case
  proof (cases r)
    case None
    then show ?thesis using less.prems r
      by (intro exI[of _ "[]"]) (simp add: line_loop_instr)
  next
    case (Some x)
    then obtain row' emit c' where x: "r = Some (row', emit, c')" by (cases x) auto
    have m: "moved 1 c c'" "row_address row \<le> row_address row'"
      using line_instr_moved r x by blast+
    then have less': "remaining c' < remaining c" by (auto simp: remaining_def moved_def)
    define acc' where "acc' = (if emit then acc @ [row'] else acc)"
    have "line_loop collect_row mn lr row' acc' c' = Inr rows"
      using less.prems r x by (simp add: line_loop_instr[of collect_row mn lr row] acc'_def split: if_splits)
    from less.hyps[OF less' this] obtain new where new: "rows = acc' @ new"
      "sorted (map row_address (row' # new))"
      "\<And>step (s :: 'z). line_loop step mn lr row' s c' = Inr (feed step new s)" by blast
    define new' where "new' = (if emit then row' # new else new)"
    have "rows = acc @ new'" using new(1) by (simp add: acc'_def new'_def)
    moreover have "sorted (map row_address (row # new'))"
      using new(2) m(2) by (auto simp: new'_def intro: order_trans)
    moreover have "line_loop step mn lr row s c = Inr (feed step new' s)" for step :: "line_entry \<Rightarrow> 'z \<Rightarrow> 'z \<times> bool" and s
      using r x new(3) by (auto simp: line_loop_instr[of step mn lr row] new'_def split: prod.split)
    ultimately show ?thesis by blast
  qed
qed

section \<open>The chosen delta window\<close>

definition delta_ok :: "int \<Rightarrow> bool" where
  "delta_ok d \<longleftrightarrow> - (2 ^ 32) < d \<and> d < 2 ^ 32"

definition window_ok :: "int \<times> int \<Rightarrow> bool" where
  "window_ok w \<longleftrightarrow> delta_ok (fst w) \<and> delta_ok (snd w) \<and> fst w \<le> snd w"

lemma delta_ok_diff: "delta_ok (uint (a :: u32) - uint (b :: u32))"
proof -
  have "(2::int) ^ 32 = 4294967296" by simp
  then show ?thesis
    using uint_u32_lt[of a] uint_u32_lt[of b] uint_ge_0[of a] uint_ge_0[of b]
    unfolding delta_ok_def by linarith
qed

lemma saturating_sub_i64_ok: "delta_ok a \<Longrightarrow> delta_ok b \<Longrightarrow> saturating_sub_i64 a b = a - b"
  by (simp add: saturating_sub_i64_def delta_ok_def)

lemma uint_u32_delta_ok: "delta_ok (uint (a :: u32))"
  using delta_ok_diff[of a 0] by simp

lemma line_deltas_ok: "d \<in> set (line_deltas rows) \<Longrightarrow> delta_ok d"
  by (auto simp: line_deltas_def saturating_sub_i64_ok uint_u32_delta_ok delta_ok_diff)

lemma length_line_deltas: "length (line_deltas rows) = length rows - 1"
  by (simp add: line_deltas_def)

lemma delta_bounds_ok:
  "\<forall>d \<in> set ds. delta_ok d \<Longrightarrow> w = (2 ^ 63 - 1, - (2 ^ 63)) \<and> ds \<noteq> [] \<or> window_ok w \<Longrightarrow> window_ok (delta_bounds ds w)"
proof (induction ds w rule: delta_bounds.induct)
  case (2 d ds mn mx)
  have "window_ok (min mn d, max mx d)"
    using 2(2,3) by (auto simp: window_ok_def delta_ok_def)
  then show ?case using 2 by (simp add: Let_def)
qed auto

lemma window_end_spec:
  "e \<le> length ds \<Longrightarrow>
    e \<le> window_end ds first e \<and> window_end ds first e \<le> length ds
    \<and> (\<forall>i. e \<le> i \<longrightarrow> i < window_end ds first e \<longrightarrow> saturating_sub_i64 (ds ! i) first \<le> MAXIMUM_LINE_RANGE)
    \<and> (window_end ds first e < length ds \<longrightarrow>
      MAXIMUM_LINE_RANGE < saturating_sub_i64 (ds ! window_end ds first e) first)"
proof (induction ds first e rule: window_end.induct)
  case (1 ds first e)
  let ?go = "case nth_get ds e of None \<Rightarrow> False | Some d \<Rightarrow> saturating_sub_i64 d first \<le> MAXIMUM_LINE_RANGE"
  have go: "?go \<longleftrightarrow> e < length ds \<and> saturating_sub_i64 (ds ! e) first \<le> MAXIMUM_LINE_RANGE"
    by (simp add: nth_get_def)
  have eq: "window_end ds first e = (if ?go then window_end ds first (Suc e) else e)"
    by (rule window_end.simps)
  show ?case
  proof (cases ?go)
    case True
    then have "Suc e \<le> length ds" using go by simp
    note IH = "1.IH"[OF True this]
    have w: "window_end ds first e = window_end ds first (Suc e)" using eq True by simp
    have "e \<le> i \<Longrightarrow> i = e \<or> Suc e \<le> i" for i by auto
    then show ?thesis unfolding w using IH True go by (metis Suc_leD)
  next
    case False
    then show ?thesis using eq go "1.prems" by auto
  qed
qed

text \<open>The invariant of the sliding window: everything from the window's first delta up to its end
  is within the range, and the window kept so far is admissible.\<close>

lemma best_window_ok:
  "sorted ds \<Longrightarrow> \<forall>d \<in> set ds. delta_ok d
    \<Longrightarrow> rest = drop k (zip [0..<length ds] ds) \<Longrightarrow> k \<le> e \<Longrightarrow> e \<le> length ds
    \<Longrightarrow> (\<And>i. k \<le> i \<Longrightarrow> i < e \<Longrightarrow> ds ! i - ds ! k \<le> MAXIMUM_LINE_RANGE)
    \<Longrightarrow> window_ok w \<and> snd w - fst w \<le> MAXIMUM_LINE_RANGE \<or> k = 0 \<and> cnt = 0 \<and> ds \<noteq> []
    \<Longrightarrow> window_ok (best_window ds rest e cnt w)
      \<and> snd (best_window ds rest e cnt w) - fst (best_window ds rest e cnt w) \<le> MAXIMUM_LINE_RANGE"
proof (induction ds rest e cnt w arbitrary: k rule: best_window.induct)
  case (1 ds e cnt mn mx)
  then show ?case by auto
next
  case (2 ds st first rest e cnt mn mx)
  note prems = "2.prems"
  have k: "k < length ds" using prems(3) by (cases "k < length ds") auto
  have hd: "st = k" "first = ds ! k" and rest: "rest = drop (Suc k) (zip [0..<length ds] ds)"
    using prems(3) k by (auto simp: Cons_nth_drop_Suc[symmetric])
  define e' where "e' = window_end ds first e"
  note spec = window_end_spec[OF prems(5), where first = first, folded e'_def]
  have near: "ds ! i - ds ! k \<le> MAXIMUM_LINE_RANGE" if "k \<le> i" "i < e'" for i
  proof (cases "i < e")
    case False
    then have "saturating_sub_i64 (ds ! i) first \<le> MAXIMUM_LINE_RANGE" "i < length ds"
      using spec that by auto
    moreover from this(2) have "delta_ok (ds ! i)" "delta_ok (ds ! k)" using prems(2) k by simp_all
    ultimately show ?thesis by (simp add: saturating_sub_i64_ok hd)
  qed (use prems(6) that in simp)
  have e': "Suc k \<le> e'"
  proof (rule ccontr)
    assume "\<not> Suc k \<le> e'"
    then have "e' = k" using prems(4) spec by simp
    then have "MAXIMUM_LINE_RANGE < saturating_sub_i64 (ds ! k) first" using spec k by simp
    then show False by (simp add: hd saturating_sub_i64_def MAXIMUM_LINE_RANGE_def)
  qed
  have el: "e' - 1 < length ds" "k \<le> e' - 1" using e' spec k by auto
  have up: "ds ! k \<le> ds ! (e' - 1)" using prems(1) el by (simp add: sorted_nth_mono)
  define w' where "w' = (first, case nth_get ds (e' - 1) of None \<Rightarrow> first | Some d \<Rightarrow> d)"
  have w': "w' = (ds ! k, ds ! (e' - 1))" using el by (simp add: w'_def nth_get_def hd)
  have wok: "window_ok w' \<and> snd w' - fst w' \<le> MAXIMUM_LINE_RANGE"
    using prems(2) k el up near[of "e' - 1"] e' by (simp add: w' window_ok_def)
  define cnt' where "cnt' = min (e' - st) (2 ^ 32 - 1)"
  have step: "best_window ds ((st, first) # rest) e cnt (mn, mx) =
      (if cnt' > cnt then best_window ds rest e' cnt' w' else best_window ds rest e' cnt (mn, mx))"
    by (simp add: Let_def e'_def cnt'_def w'_def)
  have near': "ds ! i - ds ! Suc k \<le> MAXIMUM_LINE_RANGE" if "Suc k \<le> i" "i < e'" for i
  proof -
    have "ds ! k \<le> ds ! Suc k" using that spec prems(1) by (intro sorted_nth_mono) auto
    then show ?thesis using near[of i] that by simp
  qed
  show ?case
  proof (cases "cnt' > cnt")
    case True
    have "window_ok (best_window ds rest e' cnt' w') \<and> snd (best_window ds rest e' cnt' w')
        - fst (best_window ds rest e' cnt' w') \<le> MAXIMUM_LINE_RANGE"
      using "2.IH"(1)[OF e'_def cnt'_def True, of "Suc k"] prems(1,2) rest e' spec near' wok unfolding w'_def by auto
    then show ?thesis using True step by simp
  next
    case False
    have "0 < cnt'" using e' hd by (simp add: cnt'_def)
    then have "window_ok (mn, mx) \<and> mx - mn \<le> MAXIMUM_LINE_RANGE" using prems(7) False by auto
    then show ?thesis
      using "2.IH"(2)[OF e'_def cnt'_def False, of "Suc k"] prems(1,2) rest e' spec near' False step by auto
  qed
qed

lemma choose_delta_range_ok:
  assumes "choose_delta_range rows = (mn, mx)"
  shows "window_ok (mn, mx) \<and> mx - mn \<le> MAXIMUM_LINE_RANGE"
proof (cases "length rows < 2")
  case True
  then show ?thesis using assms
    by (auto simp: choose_delta_range_def window_ok_def delta_ok_def MAXIMUM_LINE_RANGE_def)
next
  case False
  let ?ds = "line_deltas rows"
  obtain a b where ab: "delta_bounds ?ds (2 ^ 63 - 1, - (2 ^ 63)) = (a, b)" by fastforce
  have ne: "?ds \<noteq> []" using False length_line_deltas[of rows] by auto
  have ok: "\<forall>d \<in> set ?ds. delta_ok d" by (auto intro: line_deltas_ok)
  have wab: "window_ok (a, b)" using delta_bounds_ok[OF ok, of "(2 ^ 63 - 1, - (2 ^ 63))"] ne ab by auto
  then have sub: "saturating_sub_i64 b a = b - a" by (intro saturating_sub_i64_ok) (auto simp: window_ok_def)
  define w where "w = (if saturating_sub_i64 b a > MAXIMUM_LINE_RANGE
      then best_window (sort ?ds) (zip [0..<length (sort ?ds)] (sort ?ds)) 0 0 (a, b) else (a, b))"
  have w: "window_ok w \<and> snd w - fst w \<le> MAXIMUM_LINE_RANGE"
  proof (cases "saturating_sub_i64 b a > MAXIMUM_LINE_RANGE")
    case True
    have "sort ?ds \<noteq> []" using ne by (metis set_empty set_sort)
    then show ?thesis
      using True best_window_ok[of "sort ?ds" _ 0 0 "(a, b)" 0, OF sorted_sort] ok by (simp add: w_def)
  next
    case False
    then show ?thesis using wab sub by (simp add: w_def)
  qed
  have "(mn, mx) = (if fst w = snd w \<and> fst w > 0 \<and> fst w < MAXIMUM_LINE_RANGE then (0, snd w) else w)"
    using assms False ab by (simp add: choose_delta_range_def w_def Let_def split: prod.splits if_splits)
  then show ?thesis using w
    by (auto simp: window_ok_def delta_ok_def MAXIMUM_LINE_RANGE_def split: if_splits)
qed


section \<open>The bytes of an encoded row\<close>

definition row_delta :: "line_entry \<Rightarrow> line_entry \<Rightarrow> int" where
  "row_delta previous current = uint (row_line current) - uint (row_line previous)"

definition row_file_bytes :: "line_entry \<Rightarrow> line_entry \<Rightarrow> bytes" where
  "row_file_bytes previous current =
     (if row_file current \<noteq> row_file previous then SET_FILE # uleb_bytes (unat (row_file current)) else [])"

definition row_line_bytes :: "int \<Rightarrow> bytes" where
  "row_line_bytes d = (if d \<noteq> 0 then ADVANCE_LINE # sleb_bytes d else [])"

definition row_bytes :: "int \<Rightarrow> int \<Rightarrow> line_entry \<Rightarrow> line_entry \<Rightarrow> bytes" where
  "row_bytes mn mx previous current =
     row_file_bytes previous current
     @ (case encode_special mn mx (row_delta previous current) (row_address current - row_address previous) of
          Some special \<Rightarrow> [special]
        | None \<Rightarrow> row_line_bytes (row_delta previous current)
            @ ADVANCE_PC # uleb_bytes (unat (row_address current - row_address previous)))"

fun rows_bytes :: "int \<Rightarrow> int \<Rightarrow> line_entry \<Rightarrow> line_entry list \<Rightarrow> bytes" where
  "rows_bytes mn mx previous [] = []"
| "rows_bytes mn mx previous (current # rows) = row_bytes mn mx previous current @ rows_bytes mn mx current rows"

lemma row_delta_saturating:
  "saturating_sub_i64 (uint (row_line current)) (uint (row_line previous)) = row_delta previous current"
  by (simp add: row_delta_def saturating_sub_i64_ok uint_u32_delta_ok)

lemma encode_rows_step:
  assumes "row_address previous \<le> row_address current" and "base \<le> row_address current"
  shows "encode_rows mn mx base (current # rows) previous out
      = encode_rows mn mx base rows current (write_bytes (row_bytes mn mx previous current) out)"
proof -
  have "saturating_sub_u64 (row_address current) (row_address previous)
        = row_address current - row_address previous"
    using assms by (simp add: saturating_sub_u64_def)
  then show ?thesis
    using assms[THEN leD] by (simp add: row_delta_saturating row_bytes_def row_file_bytes_def
        row_line_bytes_def Let_def enc_simps split: option.split)
qed

lemma encode_rows_ok:
  "\<forall>r \<in> set rows. base \<le> row_address r \<Longrightarrow> sorted (map row_address (previous # rows))
    \<Longrightarrow> encode_rows mn mx base rows previous out = Inr (write_bytes (rows_bytes mn mx previous rows) out)"
  by (induction rows arbitrary: previous out) (auto simp: encode_rows_step simp del: encode_rows.simps(2))

lemma encode_rows_InrD:
  "encode_rows mn mx base rows previous out = Inr out' \<Longrightarrow>
     (\<forall>r \<in> set rows. base \<le> row_address r) \<and> sorted (map row_address (previous # rows))"
proof (induction rows arbitrary: previous out)
  case (Cons current rows)
  then have le: "base \<le> row_address current" "row_address previous \<le> row_address current"
    by (auto split: if_splits)
  from Cons.IH[OF Cons.prems[unfolded encode_rows_step[OF le(2) le(1)]]] le show ?case by auto
qed simp

section \<open>Reading an encoded row back\<close>

lemma special_line_range_ok:
  "window_ok (mn, mx) \<Longrightarrow> mx - mn \<le> MAXIMUM_LINE_RANGE \<Longrightarrow>
     special_line_range mn mx = Inr (nat (mx - mn + 1))"
  by (auto simp: special_line_range_def window_ok_def MAXIMUM_LINE_RANGE_def checked_sub_i64_def
      i64_try_from_def saturating_add_def)

lemma saturating_add_i128_ok:
  "0 \<le> x \<Longrightarrow> x < 4294967296 \<Longrightarrow> saturating_add_i128 y (x - y) = x"
  by (simp add: saturating_add_i128_def)

lemma add_line_delta_ok: "add_line_delta (row_line previous) (row_delta previous current) = Inr (row_line current)"
  using saturating_add_i128_ok[OF uint_ge_0 uint_u32_lt] uint_u32_lt[of "row_line current"]
  by (simp add: add_line_delta_def row_delta_def)

lemma u32_or_out_of_range_ok: "u32_or_out_of_range (ucast (x :: u32)) field = Inr x"
  by (simp add: u32_or_out_of_range_def)

lemma uint_word_of_int_u8: "0 \<le> k \<Longrightarrow> k < 256 \<Longrightarrow> uint (word_of_int k :: u8) = k"
  by (simp add: uint_word_of_int)

lemma encode_special_Some:
  assumes "encode_special mn mx d a = Some special" and "window_ok (mn, mx)"
    and "mx - mn \<le> MAXIMUM_LINE_RANGE" and "delta_ok d"
  shows "FIRST_SPECIAL \<le> special \<and> mn \<le> d \<and> d \<le> mx
    \<and> unat special - 4 = nat (d - mn) + unat a * nat (mx - mn + 1)"
proof -
  have d: "mn \<le> d" "d \<le> mx" using assms(1) by (auto simp: encode_special_def split: if_splits)
  have ok: "delta_ok mn" "delta_ok mx" using assms(2) by (auto simp: window_ok_def)
  define lr where "lr = mx - mn + 1"
  have lr: "1 \<le> lr" "lr \<le> 15" using assms(2,3) by (auto simp: lr_def window_ok_def MAXIMUM_LINE_RANGE_def)
  have cs: "checked_sub_i64 mx mn = Some (mx - mn)" "checked_add_i64 (mx - mn) 1 = Some lr"
    using lr by (auto simp: checked_sub_i64_def checked_add_i64_def i64_try_from_def lr_def)
  have "uint a * lr \<le> 2 ^ 64 * 15"
    using lr uint_lt2p[of a] by (intro mult_mono) auto
  moreover have "0 \<le> uint a * lr" using lr by simp
  ultimately have m: "saturating_mul_i128 (uint a) lr = uint a * lr"
    by (simp add: saturating_mul_i128_def)
  have dm: "0 \<le> d - mn" "d - mn \<le> 14" using d assms(3) by (auto simp: MAXIMUM_LINE_RANGE_def)
  have "u8_try_from (d - mn + uint a * lr + 4) = Some special"
    using assms(1,4) d ok dm \<open>uint a * lr \<le> _\<close> \<open>0 \<le> uint a * lr\<close>
    by (simp add: encode_special_def cs m saturating_sub_i64_ok saturating_add_i128_def FIRST_SPECIAL_def)
  then have sp: "d - mn + uint a * lr + 4 < 256" "special = word_of_int (d - mn + uint a * lr + 4)"
    by (auto simp: u8_try_from_def split: if_splits)
  have u: "uint special = d - mn + uint a * lr + 4"
    unfolding sp(2) using sp(1) dm \<open>0 \<le> uint a * lr\<close> by (intro uint_word_of_int_u8) auto
  then have u': "int (unat special) = d - mn + uint a * lr + 4" by (simp only: of_nat_unat)
  have "4 \<le> unat special" using u' dm \<open>0 \<le> uint a * lr\<close> by linarith
  moreover have "int (unat special - 4) = int (nat (d - mn) + unat a * nat lr)"
    using u' \<open>4 \<le> unat special\<close> dm lr by (simp only: of_nat_diff of_nat_add of_nat_mult of_nat_unat) simp
  then have "unat special - 4 = nat (d - mn) + unat a * nat (mx - mn + 1)"
    unfolding of_nat_eq_iff lr_def .
  ultimately show ?thesis using d by (simp add: FIRST_SPECIAL_def word_le_nat_alt del: of_nat_unat)
qed

lemma divmod_special: "r < k \<Longrightarrow> (r + a * k) mod k = r \<and> (r + a * k) div k = (a :: nat)"
  by auto

lemma read_opcode:
  "ahead c (b # bs) \<Longrightarrow> read_u8 c = Inr (b, advance 1 c) \<and> ahead (advance 1 c) bs"
  using ahead_append[of c "[b]" bs] read_u8_ahead[of c b] by simp

lemma is_i64_delta_ok: "delta_ok d \<Longrightarrow> is_i64 d"
  by (simp add: delta_ok_def is_i64_def)

text \<open>The instruction of one encoded row: the loop emits exactly that row.\<close>

lemma line_loop_file:
  assumes "ahead c (row_file_bytes previous current)"
  shows "line_loop step mn lr previous s c =
    line_loop step mn lr (previous\<lparr>row_file := row_file current\<rparr>) s
      (advance (length (row_file_bytes previous current)) c)"
proof (cases "row_file current = row_file previous")
  case True
  then show ?thesis by (simp add: row_file_bytes_def)
next
  case False
  then have bs: "row_file_bytes previous current = SET_FILE # uleb_bytes (unat (row_file current))"
    by (simp add: row_file_bytes_def)
  let ?v = "ucast (row_file current) :: u64"
  from read_opcode assms have r: "read_u8 c = Inr (SET_FILE, advance 1 c)"
    and a: "ahead (advance 1 c) (uleb_bytes (unat ?v))" unfolding bs by (auto simp: unat_ucast_u32)
  show ?thesis
    unfolding line_loop_instr[of step mn lr previous] line_instr_at(2)[OF r refl]
    using read_uleb_ahead[OF a] by (simp add: u32_or_out_of_range_ok bs)
qed

lemma line_loop_line:
  assumes "ahead c (row_line_bytes (row_delta previous current))"
  shows "line_loop step mn lr (previous\<lparr>row_file := f\<rparr>) s c =
    line_loop step mn lr (previous\<lparr>row_file := f, row_line := row_line current\<rparr>) s
      (advance (length (row_line_bytes (row_delta previous current))) c)"
proof (cases "row_delta previous current = 0")
  case True
  then have "row_line current = row_line previous" by (simp add: row_delta_def word_uint_eq_iff)
  then show ?thesis using True by (cases previous) (simp add: row_line_bytes_def)
next
  case False
  then have bs: "row_line_bytes (row_delta previous current) = ADVANCE_LINE # sleb_bytes (row_delta previous current)"
    by (simp add: row_line_bytes_def)
  from read_opcode assms have r: "read_u8 c = Inr (ADVANCE_LINE, advance 1 c)"
    and a: "ahead (advance 1 c) (sleb_bytes (row_delta previous current))" unfolding bs by auto
  have i: "is_i64 (row_delta previous current)" by (simp add: is_i64_delta_ok delta_ok_diff row_delta_def)
  have d: "add_line_delta (row_line (previous\<lparr>row_file := f\<rparr>)) (row_delta previous current) = Inr (row_line current)"
    using add_line_delta_ok[of previous current] by simp
  show ?thesis
    unfolding line_loop_instr[of step mn lr "previous\<lparr>row_file := f\<rparr>"] line_instr_at(4)[OF r refl]
    using d read_sleb_ahead[OF i a] by (simp add: bs)
qed

lemma line_loop_pc:
  assumes "ahead c (ADVANCE_PC # uleb_bytes (unat (row_address current - row_address row)))"
    and "row_address row \<le> row_address current"
    and "row_file row = row_file current" and "row_line row = row_line current"
  shows "line_loop step mn lr row s c =
    (let (s, more) = step current s in
     if more then line_loop step mn lr current s
       (advance (Suc (length (uleb_bytes (unat (row_address current - row_address row))))) c) else Inr s)"
proof -
  from read_opcode assms(1) have r: "read_u8 c = Inr (ADVANCE_PC, advance 1 c)"
    and a: "ahead (advance 1 c) (uleb_bytes (unat (row_address current - row_address row)))" by auto
  have "row\<lparr>row_address := row_address current\<rparr> = current" using assms(3,4) by simp
  then show ?thesis
    unfolding line_loop_instr[of step mn lr row] line_instr_at(3)[OF r refl]
    using read_uleb_ahead[OF a] by (simp add: checked_add_u64_sub[OF assms(2)] split: prod.split)
qed

lemma line_loop_special:
  assumes "encode_special mn mx (row_delta previous current) (row_address current - row_address previous) = Some special"
    and "window_ok (mn, mx)" and "mx - mn \<le> MAXIMUM_LINE_RANGE" and "ahead c [special]"
    and "row_address previous \<le> row_address current"
  shows "line_loop step mn (nat (mx - mn + 1)) (previous\<lparr>row_file := row_file current\<rparr>) s c =
    (let (s, more) = step current s in
     if more then line_loop step mn (nat (mx - mn + 1)) current s (advance 1 c) else Inr s)"
proof -
  let ?d = "row_delta previous current" and ?a = "row_address current - row_address previous"
  have "delta_ok ?d" by (simp add: row_delta_def delta_ok_diff)
  note sp = encode_special_Some[OF assms(1-3) this]
  have r: "read_u8 c = Inr (special, advance 1 c)" using assms(4) by (rule read_u8_ahead)
  have "nat (?d - mn) < nat (mx - mn + 1)" using sp by auto
  from divmod_special[OF this, of "unat ?a"]
  have q: "(unat special - 4) mod nat (mx - mn + 1) = nat (?d - mn)"
    "(unat special - 4) div nat (mx - mn + 1) = unat ?a" using sp by auto
  have w: "word_of_nat (unat ?a) = ?a" by simp
  have "delta_ok mn" using assms(2) by (simp add: window_ok_def)
  then have ca: "checked_add_i64 mn (int (nat (?d - mn))) = Some ?d"
    using sp \<open>delta_ok ?d\<close> by (simp add: checked_add_i64_def i64_try_from_def delta_ok_def)
  have d: "add_line_delta (row_line (previous\<lparr>row_file := row_file current\<rparr>)) ?d = Inr (row_line current)"
    using add_line_delta_ok[of previous current] by simp
  have "line_instr mn (nat (mx - mn + 1)) (previous\<lparr>row_file := row_file current\<rparr>) c
      = Inr (Some (current, True, advance 1 c))"
    unfolding line_instr_at(5)[OF r conjunct1[OF sp]] q ca w
    using d by (simp add: checked_add_u64_sub[OF assms(5)])
  then show ?thesis
    unfolding line_loop_instr[of step mn "nat (mx - mn + 1)" "previous\<lparr>row_file := row_file current\<rparr>"]
    by (simp split: prod.split)
qed

lemma line_loop_row:
  assumes "ahead c (row_bytes mn mx previous current)"
    and "window_ok (mn, mx)" and "mx - mn \<le> MAXIMUM_LINE_RANGE"
    and "row_address previous \<le> row_address current"
  shows "line_loop step mn (nat (mx - mn + 1)) previous s c =
    (let (s, more) = step current s in
     if more then line_loop step mn (nat (mx - mn + 1)) current s (advance (length (row_bytes mn mx previous current)) c)
     else Inr s)"
proof (cases "encode_special mn mx (row_delta previous current) (row_address current - row_address previous)")
  case (Some special)
  then have bs: "row_bytes mn mx previous current = row_file_bytes previous current @ [special]"
    by (simp add: row_bytes_def)
  from assms(1)[unfolded bs ahead_append] show ?thesis unfolding bs
    by (subst line_loop_file) (auto simp: line_loop_special[OF Some assms(2,3) _ assms(4)] split: prod.split)
next
  case None
  let ?l = "row_line_bytes (row_delta previous current)"
  let ?p = "ADVANCE_PC # uleb_bytes (unat (row_address current - row_address previous))"
  have bs: "row_bytes mn mx previous current = row_file_bytes previous current @ ?l @ ?p"
    using None by (simp add: row_bytes_def)
  let ?c1 = "advance (length (row_file_bytes previous current)) c"
  let ?c2 = "advance (length ?l) ?c1"
  let ?r = "previous\<lparr>row_file := row_file current, row_line := row_line current\<rparr>"
  have a: "ahead c (row_file_bytes previous current)" "ahead ?c1 ?l" "ahead ?c2 ?p"
    using assms(1) unfolding bs ahead_append by blast+
  have "line_loop step mn lr previous s c = line_loop step mn lr ?r s ?c2" for lr
    by (rule trans[OF line_loop_file[OF a(1)] line_loop_line[OF a(2)]])
  moreover have "line_loop step mn lr ?r s ?c2 = (let (s, more) = step current s in
      if more then line_loop step mn lr current s
        (advance (Suc (length (uleb_bytes (unat (row_address current - row_address ?r))))) ?c2) else Inr s)" for lr
    by (rule line_loop_pc) (use a(3) assms(4) in auto)
  ultimately show ?thesis unfolding bs by (cases "step current s") (simp add: add.assoc)
qed

lemma line_loop_rows:
  "ahead c (rows_bytes mn mx previous rows @ [END_SEQUENCE]) \<Longrightarrow> window_ok (mn, mx)
    \<Longrightarrow> mx - mn \<le> MAXIMUM_LINE_RANGE \<Longrightarrow> sorted (map row_address (previous # rows))
    \<Longrightarrow> line_loop step mn (nat (mx - mn + 1)) previous s c = Inr (feed step rows s)"
proof (induction rows arbitrary: previous c s)
  case Nil
  then have "read_u8 c = Inr (END_SEQUENCE, advance 1 c)" by (simp add: read_u8_ahead)
  then show ?case by (simp add: line_loop_instr line_instr_at(1))
next
  case (Cons current rows)
  have a: "ahead c (row_bytes mn mx previous current)"
    "ahead (advance (length (row_bytes mn mx previous current)) c) (rows_bytes mn mx current rows @ [END_SEQUENCE])"
    using Cons.prems(1) by (simp_all add: ahead_append)
  have s: "row_address previous \<le> row_address current" "sorted (map row_address (current # rows))"
    using Cons.prems(4) by auto
  show ?case
    unfolding line_loop_row[OF a(1) Cons.prems(2,3) s(1)] Cons.IH[OF a(2) Cons.prems(2,3) s(2)]
    by (simp split: prod.split)
qed

section \<open>Whole tables\<close>

definition line_table_bytes :: "line_entry list \<Rightarrow> u64 \<Rightarrow> bytes" where
  "line_table_bytes rows base =
     (let (mn, mx) = choose_delta_range rows in
      sleb_bytes mn @ sleb_bytes mx @ uleb_bytes (unat (row_line (hd rows)))
      @ rows_bytes mn mx \<lparr>row_address = base, row_file = 1, row_line = row_line (hd rows)\<rparr> rows
      @ [END_SEQUENCE])"

definition lines_encodable :: "u64 \<Rightarrow> line_entry list \<Rightarrow> bool" where
  "lines_encodable base rows \<longleftrightarrow> rows \<noteq> [] \<and> sorted (map row_address rows) \<and> base \<le> row_address (hd rows)"

lemma line_encode_into_eq:
  "line_encode_into rows base out = Inr out' \<longleftrightarrow>
     lines_encodable base rows \<and> out' = write_bytes (line_table_bytes rows base) out"
proof (cases rows)
  case Nil
  then show ?thesis by (simp add: line_encode_into_def lines_encodable_def)
next
  case (Cons first rest)
  obtain mn mx where w: "choose_delta_range rows = (mn, mx)" by fastforce
  let ?p = "\<lparr>row_address = base, row_file = 1, row_line = row_line first\<rparr>"
  let ?o = "write_bytes (sleb_bytes mn @ sleb_bytes mx @ uleb_bytes (unat (row_line first))) out"
  have eq: "line_encode_into rows base out =
      let_ok (encode_rows mn mx base rows ?p ?o) (\<lambda>out. Inr (write_u8 END_SEQUENCE out))"
    using Cons w by (simp add: line_encode_into_def enc_simps del: encode_rows.simps)
  have enc: "lines_encodable base rows \<longleftrightarrow>
      (\<forall>r \<in> set rows. base \<le> row_address r) \<and> sorted (map row_address (?p # rows))"
    using Cons by (auto simp: lines_encodable_def)
  show ?thesis
  proof (cases "lines_encodable base rows")
    case True
    then show ?thesis unfolding eq using enc encode_rows_ok[of rows base ?p mn mx ?o] Cons w
      by (auto simp: line_table_bytes_def enc_simps)
  next
    case False
    then show ?thesis unfolding eq using enc encode_rows_InrD[of mn mx base rows ?p ?o] by auto
  qed
qed

lemma line_encode_into_ok:
  "lines_encodable base rows \<Longrightarrow> line_encode_into rows base out = Inr (write_bytes (line_table_bytes rows base) out)"
  by (simp add: line_encode_into_eq)

lemma line_parse_table:
  assumes "lines_encodable base rows" and "ahead c (line_table_bytes rows base)"
  shows "line_parse c base step s = Inr (feed step rows s)"
proof -
  obtain mn mx where w: "choose_delta_range rows = (mn, mx)" by fastforce
  have wok: "window_ok (mn, mx)" "mx - mn \<le> MAXIMUM_LINE_RANGE" using choose_delta_range_ok[OF w] by auto
  then have i: "is_i64 mn" "is_i64 mx" by (auto simp: window_ok_def intro: is_i64_delta_ok)
  let ?f = "row_line (hd rows)"
  let ?v = "ucast ?f :: u64"
  let ?p = "\<lparr>row_address = base, row_file = 1, row_line = ?f\<rparr>"
  have s: "sorted (map row_address (?p # rows))"
    using assms(1) by (cases rows) (auto simp: lines_encodable_def)
  define n1 n2 n3 where n: "n1 = length (sleb_bytes mn)" "n2 = length (sleb_bytes mx)"
    "n3 = length (uleb_bytes (unat ?v))"
  have a: "ahead c (sleb_bytes mn)" "ahead (advance n1 c) (sleb_bytes mx)"
    "ahead (advance (n1 + n2) c) (uleb_bytes (unat ?v))"
    "ahead (advance (n1 + n2 + n3) c) (rows_bytes mn mx ?p rows @ [END_SEQUENCE])"
    using assms(2) by (auto simp: line_table_bytes_def w ahead_append n unat_ucast_u32 ac_simps)
  have u: "u32_or_out_of_range ?v ''line number'' = Inr ?f" by (rule u32_or_out_of_range_ok)
  show ?thesis
    using read_sleb_ahead[OF i(1) a(1)] read_sleb_ahead[OF i(2) a(2)] read_uleb_ahead[OF a(3)] u
      line_loop_rows[OF a(4) wok s, of step s]
    by (simp add: line_parse_def special_line_range_ok[OF wok] n ac_simps)
qed

lemma feed_collect: "feed collect_row rows acc = acc @ rows"
  by (induction rows arbitrary: acc) auto

text \<open>The last row at or below an address, the specification of the lookup.\<close>

definition last_row_le :: "u64 \<Rightarrow> line_entry list \<Rightarrow> line_entry option" where
  "last_row_le addr rows =
     (let covered = takeWhile (\<lambda>r. row_address r \<le> addr) rows in if covered = [] then None else Some (last covered))"

lemma feed_lookup: "feed (lookup_row addr) rows found =
   (let covered = takeWhile (\<lambda>r. row_address r \<le> addr) rows in if covered = [] then found else Some (last covered))"
  by (induction rows arbitrary: found) (auto simp: Let_def not_less)

lemma last_row_le_find:
  "sorted (map row_address rows) \<Longrightarrow> last_row_le addr rows = find (\<lambda>r. row_address r \<le> addr) (rev rows)"
proof (induction rows rule: rev_induct)
  case (snoc r rows)
  then have IH: "last_row_le addr rows = find (\<lambda>r. row_address r \<le> addr) (rev rows)"
    and le: "\<forall>x \<in> set rows. row_address x \<le> row_address r"
    by (auto simp: sorted_append)
  show ?case
  proof (cases "row_address r \<le> addr")
    case True
    then have "\<forall>x \<in> set rows. row_address x \<le> addr" using le by (auto intro: order_trans)
    then show ?thesis using True by (simp add: last_row_le_def takeWhile_append2)
  next
    case False
    then have "takeWhile (\<lambda>r. row_address r \<le> addr) (rows @ [r]) = takeWhile (\<lambda>r. row_address r \<le> addr) rows"
      by (induction rows) auto
    then show ?thesis using False IH by (simp add: last_row_le_def)
  qed
qed (simp add: last_row_le_def)

lemma line_parse_feed:
  assumes "line_parse c base collect_row [] = Inr rows"
  shows "sorted (map row_address rows) \<and> (\<forall>r \<in> set rows. base \<le> row_address r)
    \<and> (\<forall>step (s :: 'z). line_parse c base step s = Inr (feed step rows s))"
proof -
  from assms obtain mn c1 mx c2 lr fl c3 ln where
    h: "read_sleb c = Inr (mn, c1)" "read_sleb c1 = Inr (mx, c2)" "special_line_range mn mx = Inr lr"
      "read_uleb c2 = Inr (fl, c3)" "u32_or_out_of_range fl ''line number'' = Inr ln"
    and l: "line_loop collect_row mn lr \<lparr>row_address = base, row_file = 1, row_line = ln\<rparr> [] c3 = Inr rows"
    by (auto simp: line_parse_def)
  from line_loop_feed[OF l, where 'z = 'z] show ?thesis by (auto simp: line_parse_def h)
qed


section \<open>Properties\<close>

text \<open>C6: \<open>encode_into\<close> accepts exactly the non-empty tables whose addresses are sorted and not below
  the function's start, and \<open>decode\<close> turns the bytes it wrote back into the same rows, in
  either byte order.\<close>

theorem line_table_roundtrip:
  "((\<exists>out. line_encode_into rows base out0 = Inr out) \<longleftrightarrow> lines_encodable base rows)
   \<and> (line_encode_into rows base (encoder_new e) = Inr out \<longrightarrow> length (ebytes out) < 2 ^ 64
        \<longrightarrow> line_decode (ebytes out) e base = Inr rows)"
proof (intro conjI impI)
  show "(\<exists>out. line_encode_into rows base out0 = Inr out) \<longleftrightarrow> lines_encodable base rows"
    by (auto simp: line_encode_into_eq)
next
  assume "line_encode_into rows base (encoder_new e) = Inr out" and len: "length (ebytes out) < 2 ^ 64"
  then have enc: "lines_encodable base rows" and out: "ebytes out = line_table_bytes rows base"
    by (auto simp: line_encode_into_eq encoder_new_def)
  have "ahead (cursor_new (ebytes out) e) (line_table_bytes rows base)"
    using ahead_all[OF len] by (simp add: out)
  from line_parse_table[OF enc this, of collect_row "[]"] show "line_decode (ebytes out) e base = Inr rows"
    by (simp add: line_decode_def feed_collect)
qed

lemma line_table_roundtrip_witness:
  "\<exists>out. line_encode_into [\<lparr>row_address = 0x1000, row_file = 1, row_line = 10\<rparr>, \<lparr>row_address = 0x1004, row_file = 2, row_line = 7\<rparr>]
      0x1000 (encoder_new Little) = Inr out \<and> length (ebytes out) < 2 ^ 64
    \<and> line_decode (ebytes out) Little 0x1000 =
       Inr [\<lparr>row_address = 0x1000, row_file = 1, row_line = 10\<rparr>, \<lparr>row_address = 0x1004, row_file = 2, row_line = 7\<rparr>]"
proof -
  let ?rows = "[\<lparr>row_address = 0x1000, row_file = 1, row_line = 10\<rparr>, \<lparr>row_address = 0x1004, row_file = 2, row_line = 7\<rparr>]"
  have "lines_encodable 0x1000 ?rows" by (simp add: lines_encodable_def)
  then obtain out where out: "line_encode_into ?rows 0x1000 (encoder_new Little) = Inr out"
    using line_table_roundtrip by blast
  then have "ebytes out = line_table_bytes ?rows 0x1000" by (simp add: line_encode_into_eq encoder_new_def)
  moreover have "length (line_table_bytes ?rows 0x1000) < 2 ^ 64" by code_simp
  ultimately have "length (ebytes out) < 2 ^ 64" by simp
  then show ?thesis using out line_table_roundtrip[of ?rows "0x1000" "encoder_new Little" Little out] by blast
qed

text \<open>C7: On any bytes that \<open>decode\<close> accepts, written by this crate or not, the rows come out sorted by
  address, and \<open>lookup\<close> stops early with exactly the last decoded row at or below the address.\<close>

theorem line_lookup_refines_decode:
  assumes "line_decode bs e base = Inr rows"
  shows "sorted (map row_address rows) \<and> (\<forall>r \<in> set rows. base \<le> row_address r)
    \<and> line_lookup bs e base addr = Inr (last_row_le addr rows)
    \<and> last_row_le addr rows = find (\<lambda>r. row_address r \<le> addr) (rev rows)"
proof -
  note f = line_parse_feed[OF assms[unfolded line_decode_def], where 'z = "line_entry option"]
  then have s: "sorted (map row_address rows)" by blast
  have "line_lookup bs e base addr = Inr (last_row_le addr rows)"
    using f by (simp add: line_lookup_def feed_lookup last_row_le_def)
  moreover have "last_row_le addr rows = find (\<lambda>r. row_address r \<le> addr) (rev rows)"
    using s by (rule last_row_le_find)
  ultimately show ?thesis using f by blast
qed

lemma line_lookup_refines_decode_witness:
  "line_lookup [0, 0, 10, 4, 2, 8, 0] Little 0x1000 0x1007 = Inr (Some \<lparr>row_address = 0x1000, row_file = 1, row_line = 10\<rparr>)"
proof -
  have "line_decode [0, 0, 10, 4, 2, 8, 0] Little 0x1000 =
      Inr [\<lparr>row_address = 0x1000, row_file = 1, row_line = 10\<rparr>, \<lparr>row_address = 0x1008, row_file = 1, row_line = 10\<rparr>]"
    by code_simp
  from line_lookup_refines_decode[OF this, of "0x1007"] show ?thesis by (simp add: last_row_le_def)
qed

text \<open>C17: The delta window that \<open>choose_delta_range\<close> picks for any rows spans at most 14 and stays inside
  \<open>i64\<close>, so the decoder's \<open>special_line_range\<close> accepts it and special opcodes keep room for
  address deltas.\<close>

theorem choose_delta_range_admissible:
  "\<exists>lr. special_line_range (fst (choose_delta_range rows)) (snd (choose_delta_range rows)) = Inr lr
     \<and> 1 \<le> lr \<and> lr \<le> 15 \<and> is_i64 (fst (choose_delta_range rows)) \<and> is_i64 (snd (choose_delta_range rows))"
proof -
  obtain mn mx where w: "choose_delta_range rows = (mn, mx)" by fastforce
  note ok = choose_delta_range_ok[OF w]
  then have "is_i64 mn" "is_i64 mx" by (auto simp: window_ok_def intro: is_i64_delta_ok)
  then show ?thesis using ok special_line_range_ok[of mn mx]
    by (auto simp: w window_ok_def MAXIMUM_LINE_RANGE_def)
qed

end
