(* ===== verification/FunctionInfo.thy ===== *)
theory FunctionInfo
  imports Line
begin

text \<open>
  \<open>src/format/function.rs\<close>: the \<open>FunctionInfo\<close> records. The decoder walks type-length-value
  records until the end marker and hands each payload to its own decoder; inline trees and merged
  functions recurse. The encoder writes the same records with back-patched lengths. The lemmas
  show that every decoder inverts its encoder on whatever the encoder accepts.
\<close>

unbundle bit_operations_syntax

section \<open>Limits and record kinds\<close>

definition INFO_END :: u32 where "INFO_END = 0"
definition INFO_LINE_TABLE :: u32 where "INFO_LINE_TABLE = 1"
definition INFO_INLINE :: u32 where "INFO_INLINE = 2"
definition INFO_MERGED :: u32 where "INFO_MERGED = 3"
definition INFO_CALL_SITE :: u32 where "INFO_CALL_SITE = 4"

lemmas info_types = INFO_END_def INFO_LINE_TABLE_def INFO_INLINE_def INFO_MERGED_def INFO_CALL_SITE_def

definition MAX_INLINE_DEPTH :: nat where "MAX_INLINE_DEPTH = 256"
definition MAX_MERGED_DEPTH :: nat where "MAX_MERGED_DEPTH = 16"

definition check_inline_depth :: "nat \<Rightarrow> unit result" where
  "check_inline_depth depth =
     (if depth > MAX_INLINE_DEPTH
      then Inl (Limit ''inline tree depth'' (word_of_nat depth) (word_of_nat MAX_INLINE_DEPTH)) else Inr ())"

definition check_merged_depth :: "nat \<Rightarrow> unit result" where
  "check_merged_depth depth =
     (if depth > MAX_MERGED_DEPTH
      then Inl (Limit ''merged-function tree depth'' (word_of_nat depth) (word_of_nat MAX_MERGED_DEPTH)) else Inr ())"

datatype info_type = LineTable | Inline | Merged | CallSite | Unknown u32

definition info_from_raw :: "u32 \<Rightarrow> info_type" where
  "info_from_raw v =
     (if v = INFO_LINE_TABLE then LineTable else if v = INFO_INLINE then Inline
      else if v = INFO_MERGED then Merged else if v = INFO_CALL_SITE then CallSite else Unknown v)"

record info_record =
  rec_kind :: info_type
  rec_payload :: bytes

text \<open>\<open>RecordSet\<close> is its one byte of bits.\<close>

type_synonym record_set = u8

definition observe_bit :: "u8 \<Rightarrow> string \<Rightarrow> record_set \<Rightarrow> record_set result" where
  "observe_bit b message bits = (if bits AND b \<noteq> 0 then Inl (InvalidFormat message) else Inr (bits OR b))"

definition observe :: "info_type \<Rightarrow> record_set \<Rightarrow> record_set result" where
  "observe kind bits = (case kind of
     LineTable \<Rightarrow> observe_bit 1 ''duplicate line-table record'' bits
   | Inline \<Rightarrow> observe_bit 2 ''duplicate inline-info record'' bits
   | Merged \<Rightarrow> observe_bit 4 ''duplicate merged-functions record'' bits
   | CallSite \<Rightarrow> observe_bit 8 ''duplicate call-site record'' bits
   | Unknown _ \<Rightarrow> Inr bits)"

text \<open>\<open>next_record\<close> returns the record, the new \<open>ended\<close> flag and the cursor.\<close>

definition next_record :: "cursor \<Rightarrow> bool \<Rightarrow> (info_record option \<times> bool \<times> cursor) result" where
  "next_record c ended =
     (if ended then Inr (None, ended, c)
      else
        let_ok (read_u32 c) (\<lambda>(raw_kind, c).
        let_ok (read_u32 c) (\<lambda>(len, c).
        if raw_kind = INFO_END then
          (if unat len \<noteq> 0 then Inl (InvalidFormat ''FunctionInfo end marker has a nonzero length'')
           else Inr (None, True, c))
        else
          let_ok (cursor_take (unat len) c) (\<lambda>(payload, c).
          Inr (Some \<lparr>rec_kind = info_from_raw raw_kind, rec_payload = payload\<rparr>, ended, c)))))"

section \<open>The encoded form\<close>

datatype encoded_inline_node = EncodedInlineNode
  (ein_ranges: "address_range list")
  (ein_name: u64)
  (ein_call_file: u32)
  (ein_call_line: u32)
  (ein_children: "encoded_inline_node list")

definition encoded_inline_default :: encoded_inline_node where
  "encoded_inline_default = EncodedInlineNode [] 0 0 0 []"

record encoded_call_site =
  ecs_return_offset :: u64
  ecs_flags :: u8
  ecs_match_regex :: "u64 list"

datatype encoded_function = EncodedFunction
  (ef_range: address_range)
  (ef_name: u64)
  (ef_lines: "line_entry list option")
  (ef_inline: "encoded_inline_node option")
  (ef_merged: "encoded_function list")
  (ef_call_sites: "encoded_call_site list")

fun set_lines where
  "set_lines v (EncodedFunction r n l i m s) = EncodedFunction r n v i m s"
fun set_inline where
  "set_inline v (EncodedFunction r n l i m s) = EncodedFunction r n l v m s"
fun set_merged where
  "set_merged v (EncodedFunction r n l i m s) = EncodedFunction r n l i v s"
fun set_call_sites where
  "set_call_sites v (EncodedFunction r n l i m s) = EncodedFunction r n l i m v"

section \<open>Decoding\<close>

definition string_offset_width :: "u8 \<Rightarrow> nat result" where
  "string_offset_width osize =
     (if osize = 1 \<or> osize = 2 \<or> osize = 4 \<or> osize = 8 then Inr (unat osize)
      else Inl (OutOfRange ''string offset size'' (ucast osize) 8))"

fun decode_ranges_loop :: "nat \<Rightarrow> u64 \<Rightarrow> address_range list \<Rightarrow> cursor \<Rightarrow> (address_range list \<times> cursor) result" where
  "decode_ranges_loop 0 base ranges c = Inr (ranges, c)"
| "decode_ranges_loop (Suc count) base ranges c =
     let_ok (read_uleb c) (\<lambda>(off, c).
     let_ok (ok_or (checked_add_u64 base off) (Overflow ''relative address range start'')) (\<lambda>s.
     let_ok (read_uleb c) (\<lambda>(len, c).
     let_ok (ok_or (checked_add_u64 s len) (Overflow ''address range end'')) (\<lambda>e.
     if ranges \<noteq> [] \<and> s < r_end (last ranges)
     then Inl (InvalidFormat ''address ranges overlap or are not sorted'')
     else decode_ranges_loop count base (ranges @ [mk_range s e]) c))))"

definition decode_ranges :: "cursor \<Rightarrow> u64 \<Rightarrow> (address_range list \<times> cursor) result" where
  "decode_ranges c base =
     let_ok (read_uleb c) (\<lambda>(count, c).
     if unat count > remaining c div 2 then Inl (InvalidFormat ''address-range count exceeds remaining input'')
     else decode_ranges_loop (unat count) base [] c)"

text \<open>One or more ranges of a child lie outside every range of the parent.\<close>

definition outside_parent :: "address_range list \<Rightarrow> address_range list \<Rightarrow> bool" where
  "outside_parent parents ranges \<longleftrightarrow>
     list_ex (\<lambda>range. \<not> list_ex (\<lambda>parent. contains_range parent range) parents) ranges"

text \<open>\<open>decode_children\<close> is the loop of \<open>decode_inline\<close>; it appends to the children found so far.\<close>

function (sequential, domintros)
  decode_inline :: "u8 \<Rightarrow> u64 \<Rightarrow> nat \<Rightarrow> cursor \<Rightarrow> (encoded_inline_node \<times> cursor) result" and
  decode_children :: "u8 \<Rightarrow> address_range list \<Rightarrow> u64 \<Rightarrow> nat \<Rightarrow> encoded_inline_node list \<Rightarrow> cursor
    \<Rightarrow> (encoded_inline_node list \<times> cursor) result" where
  "decode_inline osize base depth c =
     let_ok (check_inline_depth depth) (\<lambda>_.
     let_ok (decode_ranges c base) (\<lambda>(ranges, c).
     if ranges = [] then Inr (encoded_inline_default, c)
     else
       let_ok (read_u8 c) (\<lambda>(has_children, c).
       let_ok (read_uint osize c) (\<lambda>(name, c).
       let_ok (read_uleb c) (\<lambda>(call_file, c).
       let_ok (read_uleb c) (\<lambda>(call_line, c).
       let_ok (u32_or_out_of_range call_file ''inline call-file index'') (\<lambda>call_file.
       let_ok (u32_or_out_of_range call_line ''inline call-line'') (\<lambda>call_line.
       if has_children \<noteq> 0 then
         let_ok (decode_children osize ranges (r_start (hd ranges)) depth [] c) (\<lambda>(children, c).
         Inr (EncodedInlineNode ranges name call_file call_line children, c))
       else Inr (EncodedInlineNode ranges name call_file call_line [], c)))))))))"
| "decode_children osize ranges child_base depth children c =
     let_ok (decode_inline osize child_base (depth + 1) c) (\<lambda>(child, c).
     if ein_ranges child = [] then Inr (children, c)
     else if outside_parent ranges (ein_ranges child)
     then Inl (InvalidFormat ''inline child range is outside its parent'')
     else decode_children osize ranges child_base depth (children @ [child]) c)"
  by pat_completeness auto

text \<open>Each decoded node consumes input, on which the loop over the children rests.\<close>

lemma decode_ranges_loop_moved:
  "decode_ranges_loop n base rs c = Inr (rs', c') \<Longrightarrow> position c \<le> length (cbytes c) \<Longrightarrow> moved 0 c c'"
proof (induction n arbitrary: rs c)
  case 0
  then show ?case by (simp add: moved_def)
next
  case (Suc n)
  from Suc.prems(1) obtain off c1 s len c2 e where
    r: "read_uleb c = Inr (off, c1)" "read_uleb c1 = Inr (len, c2)"
    and l: "decode_ranges_loop n base (rs @ [mk_range s e]) c2 = Inr (rs', c')"
    by (auto split: if_splits)
  note m = read_uleb_moved[OF r(1)] read_uleb_moved[OF r(2)]
  then have "position c2 \<le> length (cbytes c2)" by (simp add: moved_def)
  from Suc.IH[OF l this] m show ?case by (auto simp: moved_def)
qed

lemma decode_ranges_moved: "decode_ranges c base = Inr (rs, c') \<Longrightarrow> moved 1 c c'"
proof -
  assume "decode_ranges c base = Inr (rs, c')"
  then obtain n c1 where r: "read_uleb c = Inr (n, c1)" and l: "decode_ranges_loop (unat n) base [] c1 = Inr (rs, c')"
    by (auto simp: decode_ranges_def split: if_splits)
  note m = read_uleb_moved[OF r]
  then have "position c1 \<le> length (cbytes c1)" by (simp add: moved_def)
  from decode_ranges_loop_moved[OF l this] m show ?thesis by (auto simp: moved_def)
qed

lemma decode_inline_moved:
  "decode_inline_decode_children_dom (Inl (osize, base, depth, c))
    \<Longrightarrow> decode_inline osize base depth c = Inr (node, c') \<Longrightarrow> moved 1 c c'"
  "decode_inline_decode_children_dom (Inr (osize, rs, cb, depth, ch, c))
    \<Longrightarrow> decode_children osize rs cb depth ch c = Inr (chs, c') \<Longrightarrow> moved 1 c c'"
proof (induction osize base depth c and osize rs cb depth ch c arbitrary: node c' and chs c'
    rule: decode_inline_decode_children.pinduct)
  case (1 osize base depth c)
  note dom = 1(1)
  have e: "decode_inline osize base depth c = Inr (node, c')" by fact
  then obtain u rs c1 where d: "check_inline_depth depth = Inr u" "decode_ranges c base = Inr (rs, c1)"
    unfolding decode_inline.psimps[OF dom] by auto
  note m1 = decode_ranges_moved[OF d(2)]
  show ?case
  proof (cases "rs = []")
    case True
    then show ?thesis using e m1 unfolding decode_inline.psimps[OF dom] d by simp
  next
    case False
    with e obtain hc c2 nm c3 cf c4 cl c5 f l where
      r: "read_u8 c1 = Inr (hc, c2)" "read_uint osize c2 = Inr (nm, c3)" "read_uleb c3 = Inr (cf, c4)"
        "read_uleb c4 = Inr (cl, c5)" "u32_or_out_of_range cf ''inline call-file index'' = Inr f"
        "u32_or_out_of_range cl ''inline call-line'' = Inr l"
      unfolding decode_inline.psimps[OF dom] d by auto
    have m5: "moved 1 c c5"
      using m1 read_u8_moved[OF r(1)] read_uint_moved[OF r(2)] read_uleb_moved[OF r(3)] read_uleb_moved[OF r(4)]
      by (auto simp: moved_def)
    note e' = e[unfolded decode_inline.psimps[OF dom] d r let_ok_Inr prod.case if_not_P[OF False]]
    show ?thesis
    proof (cases "hc = 0")
      case True
      then show ?thesis using e' m5 by simp
    next
      case hc: False
      then obtain chs where dc: "decode_children osize rs (r_start (hd rs)) depth [] c5 = Inr (chs, c')"
        using e' by auto
      have "moved 1 c5 c'"
        by (rule 1(2)[OF d(1) d(2) refl False r(1) refl r(2) refl r(3) refl r(4) refl r(5,6) hc dc])
      then show ?thesis using m5 by (auto simp: moved_def)
    qed
  qed
next
  case (2 osize rs cb depth ch c)
  note dom = 2(1)
  have e: "decode_children osize rs cb depth ch c = Inr (chs, c')" by fact
  then obtain child c1 where d: "decode_inline osize cb (depth + 1) c = Inr (child, c1)"
    unfolding decode_children.psimps[OF dom] by auto
  have m: "moved 1 c c1" by (rule 2(2)[OF d])
  show ?case
  proof (cases "ein_ranges child = []")
    case True
    then show ?thesis using e m unfolding decode_children.psimps[OF dom] d by simp
  next
    case False
    with e have o: "\<not> outside_parent rs (ein_ranges child)"
      and l: "decode_children osize rs cb depth (ch @ [child]) c1 = Inr (chs, c')"
      unfolding decode_children.psimps[OF dom] d by (auto split: if_splits)
    have "moved 1 c1 c'" by (rule 2(3)[OF d refl False o l])
    then show ?thesis using m by (auto simp: moved_def)
  qed
qed

lemma moved_remaining: "moved n c c' \<Longrightarrow> remaining c' + n \<le> remaining c"
  by (auto simp: moved_def remaining_def)


lemma decode_inline_total: "All decode_inline_decode_children_dom"
  by (relation "measure (\<lambda>x. case x of Inl (osize, base, depth, c) \<Rightarrow> remaining c
        | Inr (osize, rs, cb, depth, ch, c) \<Rightarrow> Suc (remaining c))")
     (auto dest!: decode_ranges_moved read_u8_moved read_uint_moved read_uleb_moved
        decode_inline_moved(1) moved_remaining)

termination decode_inline
  by (rule decode_inline_total)

declare decode_inline.simps [simp del] decode_children.simps [simp del]

lemmas decode_inline_result_moved = decode_inline_moved(1)[OF decode_inline_total[THEN spec]]

definition decode_call_site :: "u8 \<Rightarrow> cursor \<Rightarrow> (encoded_call_site \<times> cursor) result" where
  "decode_call_site osize c =
     let_ok (read_u64 c) (\<lambda>(ret, c).
     let_ok (read_u8 c) (\<lambda>(flags, c).
     let_ok (read_u32 c) (\<lambda>(regex_count, c).
     let_ok (string_offset_width osize) (\<lambda>width.
     if unat regex_count > remaining c div width
     then Inl (InvalidFormat ''call-site regex count exceeds remaining input'')
     else
       let_ok (read_many (read_uint osize) (unat regex_count) c) (\<lambda>(regexes, c).
       Inr (\<lparr>ecs_return_offset = ret, ecs_flags = flags, ecs_match_regex = regexes\<rparr>, c))))))"

definition decode_call_sites :: "bytes \<Rightarrow> endian \<Rightarrow> u8 \<Rightarrow> encoded_call_site list result" where
  "decode_call_sites bs e osize =
     (let c = cursor_new bs e in
      let_ok (read_u32 c) (\<lambda>(count, c).
      let minimum_record_size = 8 + 1 + 4 in
      if unat count > remaining c div minimum_record_size
      then Inl (InvalidFormat ''call-site count exceeds remaining input'')
      else
        let_ok (read_many (decode_call_site osize) (unat count) c) (\<lambda>(sites, c).
        if \<not> cursor_is_empty c then Inl (InvalidFormat ''trailing call-site bytes'')
        else Inr sites)))"

definition decode_inline_record :: "u8 \<Rightarrow> u64 \<Rightarrow> bytes \<Rightarrow> endian \<Rightarrow> encoded_inline_node result" where
  "decode_inline_record osize base payload e =
     let_ok (decode_inline osize base 0 (cursor_new payload e)) (\<lambda>(node, c).
     if ein_ranges node = [] then Inl (InvalidFormat ''top-level inline info has no address ranges'')
     else if \<not> cursor_is_empty c then Inl (InvalidFormat ''trailing inline-info bytes'')
     else Inr node)"

lemma next_record_moved:
  "next_record c ended = Inr (Some r, ended', c') \<Longrightarrow>
     moved 8 c c' \<and> length (rec_payload r) + 8 \<le> remaining c"
proof -
  assume "next_record c ended = Inr (Some r, ended', c')"
  then obtain k c1 n c2 where r: "read_u32 c = Inr (k, c1)" "read_u32 c1 = Inr (n, c2)"
    "cursor_take (unat n) c2 = Inr (rec_payload r, c')"
    by (auto simp: next_record_def split: if_splits)
  note m = read_u32_moved[OF r(1)] read_u32_moved[OF r(2)] cursor_take_moved[OF r(3)]
  from m have "remaining c2 + 8 \<le> remaining c" by (auto dest!: moved_remaining)
  moreover from m have "length (rec_payload r) \<le> remaining c2" by (auto dest!: moved_remaining)
  ultimately show ?thesis using m by (auto simp: moved_def)
qed

text \<open>\<open>decode_records\<close> is the \<open>while let\<close> loop of \<open>decode_from\<close>, \<open>decode_merged_items\<close> the
  \<open>for\<close> loop of \<open>decode_merged\<close>. \<open>depth.saturating_add(1)\<close> is exact, since the depth has been
  checked to be at most 16.\<close>

function (sequential)
  decode_from :: "u8 \<Rightarrow> u64 \<Rightarrow> nat \<Rightarrow> cursor \<Rightarrow> (encoded_function \<times> cursor) result" and
  decode_records :: "u8 \<Rightarrow> u64 \<Rightarrow> nat \<Rightarrow> record_set \<Rightarrow> bool \<Rightarrow> encoded_function \<Rightarrow> cursor
    \<Rightarrow> (encoded_function \<times> cursor) result" and
  decode_exact_at :: "u8 \<Rightarrow> u64 \<Rightarrow> nat \<Rightarrow> bytes \<Rightarrow> endian \<Rightarrow> encoded_function result" and
  decode_merged :: "u8 \<Rightarrow> u64 \<Rightarrow> nat \<Rightarrow> bytes \<Rightarrow> endian \<Rightarrow> encoded_function list result" and
  decode_merged_items :: "u8 \<Rightarrow> u64 \<Rightarrow> nat \<Rightarrow> nat \<Rightarrow> encoded_function list \<Rightarrow> cursor
    \<Rightarrow> (encoded_function list \<times> cursor) result" where
  "decode_from osize base depth c =
     let_ok (check_merged_depth depth) (\<lambda>_.
     let_ok (string_offset_width osize) (\<lambda>_.
     let_ok (read_u32 c) (\<lambda>(len, c).
     let_ok (read_uint osize c) (\<lambda>(name, c).
     if name = 0 then Inl ZeroNameOffset
     else
       let_ok (ok_or (checked_add_u64 base (ucast len)) (Overflow ''FunctionInfo range end'')) (\<lambda>stop.
       decode_records osize base depth 0 False
         (EncodedFunction (mk_range base stop) name None None [] []) c)))))"
| "decode_records osize base depth seen ended fn c =
     let_ok (next_record c ended) (\<lambda>(record, ended, c).
     case record of
       None \<Rightarrow> Inr (fn, c)
     | Some r \<Rightarrow>
         let_ok (observe (rec_kind r) seen) (\<lambda>seen.
         case rec_kind r of
           LineTable \<Rightarrow>
             let_ok (line_decode (rec_payload r) (cendian c) base) (\<lambda>ls.
             decode_records osize base depth seen ended (set_lines (Some ls) fn) c)
         | Inline \<Rightarrow>
             let_ok (decode_inline_record osize base (rec_payload r) (cendian c)) (\<lambda>node.
             decode_records osize base depth seen ended (set_inline (Some node) fn) c)
         | Merged \<Rightarrow>
             let_ok (decode_merged osize base (depth + 1) (rec_payload r) (cendian c)) (\<lambda>ms.
             decode_records osize base depth seen ended (set_merged ms fn) c)
         | CallSite \<Rightarrow>
             let_ok (decode_call_sites (rec_payload r) (cendian c) osize) (\<lambda>ss.
             decode_records osize base depth seen ended (set_call_sites ss fn) c)
         | Unknown other \<Rightarrow> Inl (UnsupportedInfoType other)))"
| "decode_exact_at osize base depth bs e =
     let_ok (string_offset_width osize) (\<lambda>_.
     let_ok (decode_from osize base depth (cursor_new bs e)) (\<lambda>(fn, c).
     if \<not> cursor_is_empty c then Inl (InvalidFormat ''bytes remain after the FunctionInfo end marker'')
     else Inr fn))"
| "decode_merged osize base depth bs e =
     let_ok (read_u32 (cursor_new bs e)) (\<lambda>(count, c).
     if unat count > remaining c div 4 then Inl (InvalidFormat ''merged-function count exceeds remaining input'')
     else
       let_ok (decode_merged_items osize base depth (unat count) [] c) (\<lambda>(fns, c).
       if \<not> cursor_is_empty c then Inl (InvalidFormat ''trailing merged-function bytes'')
       else Inr fns))"
| "decode_merged_items osize base depth 0 fns c = Inr (fns, c)"
| "decode_merged_items osize base depth (Suc n) fns c =
     let_ok (read_u32 c) (\<lambda>(len, c).
     let_ok (cursor_take (unat len) c) (\<lambda>(bs, c).
     let_ok (decode_exact_at osize base depth bs (cendian c)) (\<lambda>fn.
     decode_merged_items osize base depth n (fns @ [fn]) c)))"
  by pat_completeness auto

text \<open>Every nested payload is shorter than the input it was cut from.\<close>

abbreviation (input) decode_measure where
  "decode_measure x \<equiv> (case x of
     Inl (Inl (osize, base, depth, c)) \<Rightarrow> remaining c
   | Inl (Inr (osize, base, depth, seen, ended, fn, c)) \<Rightarrow> remaining c
   | Inr (Inl (osize, base, depth, bs, e)) \<Rightarrow> Suc (length bs)
   | Inr (Inr (Inl (osize, base, depth, bs, e))) \<Rightarrow> length bs
   | Inr (Inr (Inr (osize, base, depth, n, fns, c))) \<Rightarrow> Suc (remaining c))"

lemma remaining_cursor_new [simp]: "remaining (cursor_new bs e) = length bs"
  by (simp add: remaining_def cursor_new_def)

lemma cursor_take_length: "cursor_take n c = Inr (bs, c') \<Longrightarrow> remaining c' + length bs \<le> remaining c"
  using cursor_take_moved[of n c bs c'] moved_remaining by auto

termination decode_from
  by (relation "measure (\<lambda>x. decode_measure x)")
     (auto dest!: next_record_moved cursor_take_length read_u32_moved read_uint_moved moved_remaining)

definition decode_function :: "bytes \<Rightarrow> endian \<Rightarrow> u8 \<Rightarrow> u64 \<Rightarrow> encoded_function result" where
  "decode_function bs e osize base =
     let_ok (string_offset_width osize) (\<lambda>_.
     let_ok (decode_from osize base 0 (cursor_new bs e)) (\<lambda>(fn, c). Inr fn))"

definition decode_exact :: "bytes \<Rightarrow> endian \<Rightarrow> u8 \<Rightarrow> u64 \<Rightarrow> encoded_function result" where
  "decode_exact bs e osize base = decode_exact_at osize base 0 bs e"


declare decode_from.simps [simp del] decode_records.simps [simp del] decode_exact_at.simps [simp del]
  decode_merged.simps [simp del]

section \<open>Encoding\<close>

text \<open>\<open>write_record\<close> and the merged-function loop patch a length written before its payload; an
  output buffer only grows, so the \<open>checked_sub\<close> of the two lengths cannot fail.\<close>

definition patch_length :: "nat \<Rightarrow> nat \<Rightarrow> string \<Rightarrow> string \<Rightarrow> encoder \<Rightarrow> encoder result" where
  "patch_length length_offset payload_offset overflow_context limit_context out =
     let_ok (ok_or (checked_sub (encoder_len out) payload_offset) (Overflow overflow_context)) (\<lambda>len.
     let_ok (ok_or (u32_try_from len) (Limit limit_context (word_of_nat len) 0xFFFFFFFF)) (\<lambda>len.
     patch_u32 length_offset len out))"

definition write_record :: "u32 \<Rightarrow> (encoder \<Rightarrow> encoder result) \<Rightarrow> encoder \<Rightarrow> encoder result" where
  "write_record kind encode_payload out =
     (let out = write_u32 kind out;
          length_offset = encoder_len out;
          out = write_u32 0 out;
          payload_offset = encoder_len out in
      let_ok (encode_payload out)
        (patch_length length_offset payload_offset ''FunctionInfo record length'' ''FunctionInfo record''))"

lemma write_record_cong [fundef_cong]:
  "kind = kind' \<Longrightarrow> out = out' \<Longrightarrow> (\<And>o'. f o' = g o') \<Longrightarrow> write_record kind f out = write_record kind' g out'"
  by (simp add: write_record_def)

fun encode_ranges_loop :: "u64 \<Rightarrow> u64 option \<Rightarrow> address_range list \<Rightarrow> encoder \<Rightarrow> encoder result" where
  "encode_ranges_loop base previous_end [] out = Inr out"
| "encode_ranges_loop base previous_end (r # ranges) out =
     (if r_start r < base \<or> r_end r < r_start r
      then Inl (InvalidModel ''invalid relative address range'')
      else if (case previous_end of None \<Rightarrow> False | Some e \<Rightarrow> r_start r < e)
      then Inl (InvalidModel ''address ranges overlap or are not sorted'')
      else
        let_ok (ok_or (checked_sub_u64 (r_start r) base)
                 (InvalidModel ''address range precedes the base address'')) (\<lambda>off.
        let out = write_uleb off out;
            out = write_uleb (saturating_sub_u64 (r_end r) (r_start r)) out in
        encode_ranges_loop base (Some (r_end r)) ranges out))"

definition encode_ranges :: "address_range list \<Rightarrow> u64 \<Rightarrow> encoder \<Rightarrow> encoder result" where
  "encode_ranges ranges base out =
     encode_ranges_loop base None ranges (write_uleb (word_of_nat (length ranges)) out)"

fun encode_inline :: "u8 \<Rightarrow> u64 \<Rightarrow> nat \<Rightarrow> encoded_inline_node \<Rightarrow> encoder \<Rightarrow> encoder result"
and encode_children :: "u8 \<Rightarrow> address_range list \<Rightarrow> u64 \<Rightarrow> nat \<Rightarrow> encoded_inline_node list \<Rightarrow> encoder
  \<Rightarrow> encoder result" where
  "encode_inline osize base depth (EncodedInlineNode ranges name call_file call_line children) out =
     let_ok (check_inline_depth depth) (\<lambda>_.
     if ranges = [] then Inl (InvalidModel ''inline node must contain a range'')
     else
       let_ok (encode_ranges ranges base out) (\<lambda>out.
       let out = write_u8 (if children \<noteq> [] then 1 else 0) out in
       let_ok (write_uint name osize out) (\<lambda>out.
       let out = write_uleb (ucast call_file) out;
           out = write_uleb (ucast call_line) out in
       if children \<noteq> [] then
         let_ok (encode_children osize ranges (r_start (hd ranges)) (depth + 1) children out) (\<lambda>out.
         Inr (write_uleb 0 out))
       else Inr out)))"
| "encode_children osize ranges child_base depth [] out = Inr out"
| "encode_children osize ranges child_base depth (child # children) out =
     (if outside_parent ranges (ein_ranges child)
      then Inl (InvalidModel ''inline child range is outside its parent'')
      else
        let_ok (encode_inline osize child_base depth child out)
          (encode_children osize ranges child_base depth children))"

definition encode_call_site :: "u8 \<Rightarrow> encoded_call_site \<Rightarrow> encoder \<Rightarrow> encoder result" where
  "encode_call_site osize site out =
     (let out = write_u8 (ecs_flags site) (write_u64 (ecs_return_offset site) out);
          count = length (ecs_match_regex site) in
      let_ok (ok_or (u32_try_from count) (Limit ''call-site regex count'' (word_of_nat count) 0xFFFFFFFF)) (\<lambda>count.
      fold_ok (\<lambda>off. write_uint off osize) (ecs_match_regex site) (write_u32 count out)))"

definition encode_call_sites_into :: "encoded_call_site list \<Rightarrow> u8 \<Rightarrow> encoder \<Rightarrow> encoder result" where
  "encode_call_sites_into sites osize out =
     let_ok (ok_or (u32_try_from (length sites))
              (Limit ''call-site count'' (word_of_nat (length sites)) 0xFFFFFFFF)) (\<lambda>count.
     fold_ok (encode_call_site osize) sites (write_u32 count out))"

function (sequential)
  encode_into_at :: "u8 \<Rightarrow> bool \<Rightarrow> nat \<Rightarrow> encoded_function \<Rightarrow> encoder \<Rightarrow> (nat \<times> encoder) result" and
  encode_merged_into :: "u8 \<Rightarrow> u64 \<Rightarrow> nat \<Rightarrow> encoded_function list \<Rightarrow> encoder \<Rightarrow> encoder result" and
  encode_merged_loop :: "u8 \<Rightarrow> u64 \<Rightarrow> nat \<Rightarrow> encoded_function list \<Rightarrow> encoder \<Rightarrow> encoder result" where
  "encode_into_at osize align depth (EncodedFunction r name lns inline merged sites) out =
     let_ok (check_merged_depth depth) (\<lambda>_.
     let_ok (string_offset_width osize) (\<lambda>_.
     let_ok (if align then align_to 4 out else Inr out) (\<lambda>out.
     let start = encoder_len out in
     if name = 0 then Inl ZeroNameOffset
     else if r_end r < r_start r then Inl (InvalidModel ''function range end precedes its start'')
     else
       let len = saturating_sub_u64 (r_end r) (r_start r) in
       let_ok (ok_or (u32_try_from (unat len)) (Limit ''FunctionInfo size'' len 0xFFFFFFFF)) (\<lambda>len.
       let_ok (write_uint name osize (write_u32 len out)) (\<lambda>out.
       let_ok (case lns of None \<Rightarrow> Inr out
         | Some ls \<Rightarrow> write_record INFO_LINE_TABLE (line_encode_into ls (r_start r)) out) (\<lambda>out.
       let_ok (case inline of None \<Rightarrow> Inr out
         | Some node \<Rightarrow> write_record INFO_INLINE (encode_inline osize (r_start r) 0 node) out) (\<lambda>out.
       let_ok (if merged = [] then Inr out
         else write_record INFO_MERGED (encode_merged_into osize (r_start r) (depth + 1) merged) out) (\<lambda>out.
       let_ok (if sites = [] then Inr out
         else write_record INFO_CALL_SITE (encode_call_sites_into sites osize) out) (\<lambda>out.
       Inr (start, write_u32 0 (write_u32 INFO_END out)))))))))))"
| "encode_merged_into osize base depth functions out =
     let_ok (ok_or (u32_try_from (length functions))
              (Limit ''merged-function count'' (word_of_nat (length functions)) 0xFFFFFFFF)) (\<lambda>count.
     encode_merged_loop osize base depth functions (write_u32 count out))"
| "encode_merged_loop osize base depth [] out = Inr out"
| "encode_merged_loop osize base depth (fn # functions) out =
     (if r_start (ef_range fn) \<noteq> base then Inl (InvalidModel ''merged function start differs from its parent'')
      else
        let length_offset = encoder_len out;
            out = write_u32 0 out;
            function_offset = encoder_len out in
        let_ok (encode_into_at osize False depth fn out) (\<lambda>(_, out).
        let_ok (patch_length length_offset function_offset
                 ''merged FunctionInfo length'' ''merged FunctionInfo length'' out) (\<lambda>out.
        encode_merged_loop osize base depth functions out)))"
  by pat_completeness auto
termination
  by (relation "measure (\<lambda>x. case x of Inl (osize, align, depth, fn, out) \<Rightarrow> 2 * size fn
        | Inr (Inl (osize, base, depth, fns, out)) \<Rightarrow> 2 * size_list size fns + 1
        | Inr (Inr (osize, base, depth, fns, out)) \<Rightarrow> 2 * size_list size fns)") auto

declare encode_into_at.simps [simp del] encode_merged_into.simps [simp del]

definition encode_into :: "encoded_function \<Rightarrow> u8 \<Rightarrow> bool \<Rightarrow> encoder \<Rightarrow> (nat \<times> encoder) result" where
  "encode_into fn osize align out = encode_into_at osize align 0 fn out"

definition encode_function :: "encoded_function \<Rightarrow> endian \<Rightarrow> u8 \<Rightarrow> bytes result" where
  "encode_function fn e osize =
     let_ok (encode_into fn osize False (encoder_new e)) (\<lambda>(_, out). Inr (ebytes out))"

section \<open>Decoders that invert encoders\<close>

text \<open>\<open>inverts k enc dec x\<close>: whatever \<open>enc\<close> writes on success is an appended block of at least
  \<open>k\<close> bytes, and \<open>dec\<close> in front of that block returns \<open>x\<close> and stops right behind it.\<close>

definition inverts ::
  "nat \<Rightarrow> (encoder \<Rightarrow> encoder result) \<Rightarrow> (cursor \<Rightarrow> ('a \<times> cursor) result) \<Rightarrow> 'a \<Rightarrow> bool" where
  "inverts k enc dec x \<longleftrightarrow> (\<forall>out out'. enc out = Inr out' \<longrightarrow>
     (\<exists>bs. k \<le> length bs \<and> out' = write_bytes bs out
       \<and> (\<forall>c. cendian c = eendian out \<longrightarrow> ahead c bs \<longrightarrow> dec c = Inr (x, advance (length bs) c))))"

lemma invertsE:
  assumes "inverts k enc dec x" and "enc out = Inr out'"
  obtains bs where "k \<le> length bs" and "out' = write_bytes bs out"
    and "\<And>c. cendian c = eendian out \<Longrightarrow> ahead c bs \<Longrightarrow> dec c = Inr (x, advance (length bs) c)"
  using assms unfolding inverts_def by blast

lemma invertsI:
  assumes "\<And>out out'. enc out = Inr out' \<Longrightarrow>
     \<exists>bs. k \<le> length bs \<and> out' = write_bytes bs out
       \<and> (\<forall>c. cendian c = eendian out \<longrightarrow> ahead c bs \<longrightarrow> dec c = Inr (x, advance (length bs) c))"
  shows "inverts k enc dec x"
  using assms unfolding inverts_def by blast

lemma fold_inverts:
  "(\<And>x. x \<in> set xs \<Longrightarrow> inverts k (enc x) dec x) \<Longrightarrow>
     inverts (k * length xs) (fold_ok enc xs) (read_many dec (length xs)) xs"
proof (induction xs)
  case Nil
  show ?case by (rule invertsI) (auto intro!: exI[of _ "[]"])
next
  case (Cons x xs)
  show ?case
  proof (rule invertsI)
    fix out out' assume "fold_ok enc (x # xs) out = Inr out'"
    then obtain o1 where e: "enc x out = Inr o1" "fold_ok enc xs o1 = Inr out'" by auto
    have "inverts k (enc x) dec x" using Cons.prems by simp
    from this e(1) obtain bs where bs: "k \<le> length bs" "o1 = write_bytes bs out"
      "\<And>c. cendian c = eendian out \<Longrightarrow> ahead c bs \<Longrightarrow> dec c = Inr (x, advance (length bs) c)"
      by (rule invertsE) blast
    have "inverts (k * length xs) (fold_ok enc xs) (read_many dec (length xs)) xs" using Cons by simp
    from this e(2) obtain cs where cs: "k * length xs \<le> length cs" "out' = write_bytes cs o1"
      "\<And>c. cendian c = eendian o1 \<Longrightarrow> ahead c cs \<Longrightarrow>
         read_many dec (length xs) c = Inr (xs, advance (length cs) c)"
      by (rule invertsE) blast
    have e': "eendian o1 = eendian out" by (simp add: bs(2))
    show "\<exists>bs. k * length (x # xs) \<le> length bs \<and> out' = write_bytes bs out
       \<and> (\<forall>c. cendian c = eendian out \<longrightarrow> ahead c bs \<longrightarrow>
            read_many dec (length (x # xs)) c = Inr (x # xs, advance (length bs) c))"
      using bs(1,2) cs(1,2) by (intro exI[of _ "bs @ cs"]) (auto simp: ahead_append bs(3) cs(3) e')
  qed
qed

lemma write_uint_inverts: "inverts (unat osize) (write_uint v osize) (read_uint osize) v"
proof (rule invertsI)
  fix out out' assume "write_uint v osize out = Inr out'"
  then show "\<exists>bs. unat osize \<le> length bs \<and> out' = write_bytes bs out
       \<and> (\<forall>c. cendian c = eendian out \<longrightarrow> ahead c bs \<longrightarrow> read_uint osize c = Inr (v, advance (length bs) c))"
    by (intro exI[of _ "uint_put osize (eendian out) v"]) (auto simp: write_uint_eq read_uint_ahead)
qed

section \<open>Ranges\<close>

lemma encode_ranges_loop_inverts:
  "encode_ranges_loop base previous_end rs out = Inr out' \<Longrightarrow>
   acc = [] \<and> previous_end = None \<or> acc \<noteq> [] \<and> previous_end = Some (r_end (last acc)) \<Longrightarrow>
     \<exists>bs. 2 * length rs \<le> length bs \<and> out' = write_bytes bs out
       \<and> (\<forall>c. ahead c bs \<longrightarrow>
            decode_ranges_loop (length rs) base acc c = Inr (acc @ rs, advance (length bs) c))"
proof (induction rs arbitrary: previous_end out acc)
  case Nil
  then show ?case by (auto intro!: exI[of _ "[]"])
next
  case (Cons r rs)
  let ?off = "uleb_bytes (unat (r_start r - base))" and ?len = "uleb_bytes (unat (r_end r - r_start r))"
  have r: "base \<le> r_start r" "r_start r \<le> r_end r"
    and o: "\<not> (acc \<noteq> [] \<and> r_start r < r_end (last acc))"
    using Cons.prems by (auto split: if_splits option.splits)
  have "encode_ranges_loop base (Some (r_end r)) rs (write_bytes (?off @ ?len) out) = Inr out'"
    using Cons.prems r by (auto simp: checked_sub_u64_def saturating_sub_u64_def enc_simps Let_def split: if_splits)
  from Cons.IH[OF this, of "acc @ [r]"] obtain bs where bs: "2 * length rs \<le> length bs"
    "out' = write_bytes bs (write_bytes (?off @ ?len) out)"
    "\<And>c. ahead c bs \<Longrightarrow> decode_ranges_loop (length rs) base (acc @ [r]) c = Inr ((acc @ [r]) @ rs, advance (length bs) c)"
    by auto
  have ne: "1 \<le> length ?off" "1 \<le> length ?len" by (simp_all add: Suc_le_eq)
  have "decode_ranges_loop (length (r # rs)) base acc c = Inr (acc @ r # rs, advance (length (?off @ ?len @ bs)) c)"
    if "ahead c (?off @ ?len @ bs)" for c
  proof -
    have a: "ahead c ?off" "ahead (advance (length ?off) c) ?len"
      "ahead (advance (length ?len) (advance (length ?off) c)) bs"
      using that unfolding ahead_append by blast+
    have rr: "mk_range (r_start r) (r_end r) = r" by simp
    show ?thesis
      using o read_uleb_ahead[OF a(1)] read_uleb_ahead[OF a(2)] bs(3)[OF a(3)]
      by (simp add: checked_add_u64_sub r rr add.assoc)
  qed
  moreover have "2 * length (r # rs) \<le> length (?off @ ?len @ bs)"
    using bs(1) ne by (simp del: One_nat_def)
  ultimately show ?case using bs(2) by (intro exI[of _ "?off @ ?len @ bs"]) simp
qed

lemma encode_ranges_inverts:
  "inverts 1 (encode_ranges rs base) (\<lambda>c. decode_ranges c base) rs"
proof (rule invertsI)
  fix out out' assume "encode_ranges rs base out = Inr out'"
  then have "encode_ranges_loop base None rs
      (write_bytes (uleb_bytes (unat (word_of_nat (length rs) :: u64))) out) = Inr out'"
    by (simp add: encode_ranges_def enc_simps)
  from encode_ranges_loop_inverts[OF this, of "[]"] obtain bs where bs: "2 * length rs \<le> length bs"
    "out' = write_bytes bs (write_bytes (uleb_bytes (unat (word_of_nat (length rs) :: u64))) out)"
    "\<And>c. ahead c bs \<Longrightarrow> decode_ranges_loop (length rs) base [] c = Inr (rs, advance (length bs) c)"
    by auto
  let ?n = "uleb_bytes (unat (word_of_nat (length rs) :: u64))"
  have "decode_ranges c base = Inr (rs, advance (length (?n @ bs)) c)" if "ahead c (?n @ bs)" for c
  proof -
    have a: "ahead c ?n" "ahead (advance (length ?n) c) bs" using that unfolding ahead_append by blast+
    have rem: "length bs \<le> remaining (advance (length ?n) c)" using ahead_remaining[OF a(2)] .
    have "length bs < 2 ^ 64" using aheadD[OF a(2)] ahead_length[OF a(2)] by simp
    then have "unat (word_of_nat (length rs) :: u64) = length rs"
      using bs(1) by (intro unat_word_of_nat_u64) simp
    then show ?thesis
      using read_uleb_ahead[OF a(1)] rem bs(1) bs(3)[OF a(2)] by (simp add: decode_ranges_def)
  qed
  then show "\<exists>bs. 1 \<le> length bs \<and> out' = write_bytes bs out
      \<and> (\<forall>c. cendian c = eendian out \<longrightarrow> ahead c bs \<longrightarrow> decode_ranges c base = Inr (rs, advance (length bs) c))"
    using bs(2) by (intro exI[of _ "?n @ bs"]) (auto simp: Suc_le_eq)
qed

section \<open>Inline trees\<close>

lemma decode_inline_terminator:
  assumes "ahead c [0]" and "depth \<le> MAX_INLINE_DEPTH"
  shows "decode_inline osize base depth c = Inr (encoded_inline_default, advance 1 c)"
proof -
  have "ahead c (uleb_bytes (unat (0 :: u64)))" using assms(1) by (simp add: uleb_bytes.simps[of 0])
  from read_uleb_ahead[OF this] have "read_uleb c = Inr (0, advance 1 c)"
    by (simp add: uleb_bytes.simps[of 0])
  then show ?thesis using assms(2)
    by (simp add: decode_inline.simps[of osize base depth c] check_inline_depth_def decode_ranges_def)
qed

lemma encode_inline_ranges: "encode_inline osize base depth node out = Inr out' \<Longrightarrow> ein_ranges node \<noteq> []"
  by (cases node) (auto split: if_splits)

lemma encode_children_inverts:
  assumes "depth + 1 \<le> MAX_INLINE_DEPTH"
    and "\<And>child. child \<in> set children \<Longrightarrow>
      inverts 1 (encode_inline osize cb (depth + 1) child) (decode_inline osize cb (depth + 1)) child"
    and "encode_children osize rs cb (depth + 1) children out = Inr out'"
  shows "\<exists>bs. out' = write_bytes bs out
    \<and> (\<forall>c acc. cendian c = eendian out \<longrightarrow> ahead c (bs @ [0]) \<longrightarrow>
         decode_children osize rs cb depth acc c = Inr (acc @ children, advance (length bs + 1) c))"
  using assms(2,3)
proof (induction children arbitrary: out)
  case Nil
  then show ?case using assms(1) decode_inline_terminator[of _ "depth + 1" osize cb]
    by (intro exI[of _ "[]"]) (auto simp: decode_children.simps encoded_inline_default_def)
next
  case (Cons child children)
  then have o: "\<not> outside_parent rs (ein_ranges child)" by (auto split: if_splits)
  with Cons.prems obtain o1 where e: "encode_inline osize cb (depth + 1) child out = Inr o1"
    "encode_children osize rs cb (depth + 1) children o1 = Inr out'" by auto
  have "inverts 1 (encode_inline osize cb (depth + 1) child) (decode_inline osize cb (depth + 1)) child"
    using Cons.prems(1) by simp
  from this e(1) obtain bs where bs: "o1 = write_bytes bs out" "\<And>c. cendian c = eendian out \<Longrightarrow> ahead c bs
      \<Longrightarrow> decode_inline osize cb (depth + 1) c = Inr (child, advance (length bs) c)"
    by (rule invertsE) blast
  obtain cs where cs: "out' = write_bytes cs o1" "\<And>c acc. cendian c = eendian o1 \<Longrightarrow> ahead c (cs @ [0])
      \<Longrightarrow> decode_children osize rs cb depth acc c = Inr (acc @ children, advance (length cs + 1) c)"
    using Cons.IH[OF _ e(2)] Cons.prems(1) by auto
  have "decode_children osize rs cb depth acc c = Inr (acc @ child # children, advance (length (bs @ cs) + 1) c)"
    if "cendian c = eendian out" "ahead c ((bs @ cs) @ [0])" for c acc
  proof -
    have a: "ahead c bs" "ahead (advance (length bs) c) (cs @ [0])"
      using that(2) unfolding append_assoc ahead_append[of c bs] by blast+
    have "cendian (advance (length bs) c) = eendian o1" using that(1) bs(1) by simp
    from bs(2)[OF that(1) a(1)] cs(2)[OF this a(2)] o encode_inline_ranges[OF e(1)] show ?thesis
      by (simp add: decode_children.simps[of osize rs cb depth acc])
  qed
  then show ?case using bs(1) cs(1) by (intro exI[of _ "bs @ cs"]) auto
qed

lemma encode_inline_inverts:
  "inverts 1 (encode_inline osize base depth node) (decode_inline osize base depth) node"
proof (induction node arbitrary: base depth)
  case (EncodedInlineNode rs name cfile cline children)
  show ?case
  proof (rule invertsI)
    fix out out'
    assume e: "encode_inline osize base depth (EncodedInlineNode rs name cfile cline children) out = Inr out'"
    then have d: "depth \<le> MAX_INLINE_DEPTH" and rs: "rs \<noteq> []"
      by (auto simp: check_inline_depth_def split: if_splits)
    let ?hc = "(if children \<noteq> [] then 1 else 0) :: u8"
    let ?f = "uleb_bytes (unat (ucast cfile :: u64))" and ?l = "uleb_bytes (unat (ucast cline :: u64))"
    from e d rs obtain o1 where o1: "encode_ranges rs base out = Inr o1"
      by (auto simp: check_inline_depth_def)
    obtain b1 where b1: "1 \<le> length b1" "o1 = write_bytes b1 out"
      "\<And>c. cendian c = eendian out \<Longrightarrow> ahead c b1 \<Longrightarrow> decode_ranges c base = Inr (rs, advance (length b1) c)"
      by (rule invertsE[OF encode_ranges_inverts o1]) blast
    from e d rs o1 obtain o2 where o2: "write_uint name osize (write_bytes [?hc] o1) = Inr o2"
      by (auto simp: check_inline_depth_def enc_simps)
    obtain b2 where b2: "o2 = write_bytes b2 (write_bytes [?hc] o1)"
      "\<And>c. cendian c = eendian out \<Longrightarrow> ahead c b2 \<Longrightarrow> read_uint osize c = Inr (name, advance (length b2) c)"
      by (rule invertsE[OF write_uint_inverts o2]) (auto simp: b1(2))
    let ?o3 = "write_bytes (?f @ ?l) o2"
    let ?head = "b1 @ [?hc] @ b2 @ ?f @ ?l"
    have o3: "?o3 = write_bytes ?head out" by (simp add: b2(1) b1(2))
    have rest: "(if children \<noteq> [] then
          let_ok (encode_children osize rs (r_start (hd rs)) (depth + 1) children ?o3) (\<lambda>out. Inr (write_bytes [0] out))
        else Inr ?o3) = Inr out'"
      using e d rs o1 o2
      by (cases "children = []") (simp_all add: check_inline_depth_def enc_simps uleb_bytes.simps[of 0])
    have head: "decode_inline osize base depth c =
        (if children \<noteq> [] then
           let_ok (decode_children osize rs (r_start (hd rs)) depth [] (advance (length ?head) c)) (\<lambda>(chs, c).
           Inr (EncodedInlineNode rs name cfile cline chs, c))
         else Inr (EncodedInlineNode rs name cfile cline [], advance (length ?head) c))"
      if c: "cendian c = eendian out" "ahead c ?head" for c
    proof -
      define c1 c2 c3 c4 c5 where cs: "c1 = advance (length b1) c" "c2 = advance 1 c1" "c3 = advance (length b2) c2"
        "c4 = advance (length ?f) c3" "c5 = advance (length ?l) c4"
      have a: "ahead c b1" "ahead c1 [?hc]" "ahead c2 b2" "ahead c3 ?f" "ahead c4 ?l"
        using c(2) unfolding ahead_append by (auto simp: cs)
      have "read_u8 c1 = Inr (?hc, c2)" using read_u8_ahead[OF a(2)] by (simp add: cs)
      moreover have "decode_ranges c base = Inr (rs, c1)" using b1(3)[OF c(1) a(1)] by (simp add: cs)
      moreover have "read_uint osize c2 = Inr (name, c3)" using b2(2)[OF _ a(3)] c(1) by (simp add: cs)
      moreover have "read_uleb c3 = Inr (ucast cfile, c4)" using read_uleb_ahead[OF a(4)] by (simp add: cs)
      moreover have "read_uleb c4 = Inr (ucast cline, c5)" using read_uleb_ahead[OF a(5)] by (simp add: cs)
      moreover have "c5 = advance (length ?head) c" by (simp add: cs ac_simps)
      ultimately show ?thesis using rs d
        by (simp add: decode_inline.simps[of osize base depth c] check_inline_depth_def u32_or_out_of_range_ok)
    qed
    show "\<exists>bs. 1 \<le> length bs \<and> out' = write_bytes bs out \<and> (\<forall>c. cendian c = eendian out \<longrightarrow> ahead c bs \<longrightarrow>
        decode_inline osize base depth c = Inr (EncodedInlineNode rs name cfile cline children, advance (length bs) c))"
    proof (cases "children = []")
      case True
      then show ?thesis using rest head o3 b1(1) by (intro exI[of _ ?head]) auto
    next
      case False
      with rest obtain o4 where o4: "encode_children osize rs (r_start (hd rs)) (depth + 1) children ?o3 = Inr o4"
        "out' = write_bytes [0] o4" by auto
      obtain child rest' where ch: "children = child # rest'" using False by (cases children) auto
      have "depth + 1 \<le> MAX_INLINE_DEPTH"
        using o4(1) unfolding ch by (cases child) (auto simp: check_inline_depth_def split: if_splits)
      from encode_children_inverts[OF this EncodedInlineNode.IH o4(1)]
      obtain bs where bs: "o4 = write_bytes bs ?o3" "\<And>c acc. cendian c = eendian ?o3 \<Longrightarrow> ahead c (bs @ [0]) \<Longrightarrow>
         decode_children osize rs (r_start (hd rs)) depth acc c = Inr (acc @ children, advance (length bs + 1) c)"
        by auto
      have "decode_inline osize base depth c = Inr (EncodedInlineNode rs name cfile cline children,
          advance (length (?head @ bs @ [0])) c)"
        if c: "cendian c = eendian out" "ahead c (?head @ bs @ [0])" for c
      proof -
        have a: "ahead c ?head" "ahead (advance (length ?head) c) (bs @ [0])"
          using c(2) ahead_append[of c ?head "bs @ [0]"] by blast+
        have "cendian (advance (length ?head) c) = eendian ?o3" using c(1) by (simp add: b2(1) b1(2))
        from head[OF c(1) a(1)] bs(2)[OF this a(2), of "[]"] False show ?thesis by (simp add: add.assoc)
      qed
      moreover have "out' = write_bytes (?head @ bs @ [0]) out" unfolding o4(2) bs(1) o3 by simp
      moreover have "1 \<le> length (?head @ bs @ [0])" by simp
      ultimately show ?thesis by blast
    qed
  qed
qed

section \<open>Call sites\<close>

lemma string_offset_width_ok:
  "string_offset_width osize = Inr width \<Longrightarrow> width = unat osize \<and> width \<in> {1, 2, 4, 8}"
  by (auto simp: string_offset_width_def split: if_splits)

lemma encode_call_site_inverts:
  assumes "string_offset_width osize = Inr width"
  shows "inverts 13 (encode_call_site osize site) (decode_call_site osize) site"
proof (rule invertsI)
  fix out out' assume e: "encode_call_site osize site out = Inr out'"
  let ?e = "eendian out" and ?rs = "ecs_match_regex site"
  let ?n = "word_of_nat (length ?rs) :: u32"
  let ?b1 = "to_bytes ?e 8 (unat (ecs_return_offset site))" and ?b2 = "[ecs_flags site]" and ?b3 = "to_bytes ?e 4 (unat ?n)"
  from e have n: "length ?rs < 2 ^ 32" and
    f: "fold_ok (\<lambda>off. write_uint off osize) ?rs (write_bytes (?b1 @ ?b2 @ ?b3) out) = Inr out'"
    by (auto simp: encode_call_site_def Let_def ok_simps enc_simps)
  have inv: "inverts (unat osize * length ?rs) (fold_ok (\<lambda>off. write_uint off osize) ?rs)
      (read_many (read_uint osize) (length ?rs)) ?rs"
    by (rule fold_inverts) (rule write_uint_inverts)
  from inv f obtain bs where bs: "unat osize * length ?rs \<le> length bs"
    "out' = write_bytes bs (write_bytes (?b1 @ ?b2 @ ?b3) out)"
    "\<And>c. cendian c = ?e \<Longrightarrow> ahead c bs \<Longrightarrow> read_many (read_uint osize) (length ?rs) c = Inr (?rs, advance (length bs) c)"
    by (rule invertsE) auto
  have "decode_call_site osize c = Inr (site, advance (length (?b1 @ ?b2 @ ?b3 @ bs)) c)"
    if c: "cendian c = ?e" "ahead c (?b1 @ ?b2 @ ?b3 @ bs)" for c
  proof -
    define c1 c2 c3 where cs: "c1 = advance 8 c" "c2 = advance 1 c1" "c3 = advance 4 c2"
    have a: "ahead c ?b1" "ahead c1 ?b2" "ahead c2 ?b3" "ahead c3 bs"
      using c(2) unfolding ahead_append by (auto simp: cs)
    have r1: "read_u64 c = Inr (ecs_return_offset site, c1)"
      using read_u64_ahead[of c "ecs_return_offset site"] a(1) c(1) by (simp add: cs)
    have r2: "read_u8 c1 = Inr (ecs_flags site, c2)" using read_u8_ahead[OF a(2)] by (simp add: cs)
    have r3: "read_u32 c2 = Inr (?n, c3)" using read_u32_ahead[of c2 ?n] a(3) c(1) by (simp add: cs)
    have u: "unat ?n = length ?rs" using n by (rule unat_word_of_nat_u32)
    have w: "width = unat osize" "0 < width" using string_offset_width_ok[OF assms] by auto
    have "width * length ?rs \<le> remaining c3" using ahead_remaining[OF a(4)] bs(1) w(1) by simp
    then have "length ?rs \<le> remaining c3 div width"
      using w(2) by (simp add: less_eq_div_iff_mult_less_eq mult.commute)
    moreover have "read_many (read_uint osize) (length ?rs) c3 = Inr (?rs, advance (length bs) c3)"
      using bs(3)[OF _ a(4)] c(1) by (simp add: cs)
    ultimately show ?thesis by (simp add: decode_call_site_def r1 r2 r3 u assms) (simp add: cs)
  qed
  moreover have "out' = write_bytes (?b1 @ ?b2 @ ?b3 @ bs) out" unfolding bs(2) by simp
  moreover have "13 \<le> length (?b1 @ ?b2 @ ?b3 @ bs)" by simp
  ultimately show "\<exists>bs. 13 \<le> length bs \<and> out' = write_bytes bs out
       \<and> (\<forall>c. cendian c = eendian out \<longrightarrow> ahead c bs \<longrightarrow> decode_call_site osize c = Inr (site, advance (length bs) c))"
    by blast
qed

lemma cursor_is_empty_advance: "cursor_is_empty (advance (length bs) (cursor_new bs e))"
  by (simp add: cursor_is_empty_def remaining_def cursor_new_def)

lemma encode_call_sites_inverts:
  assumes "string_offset_width osize = Inr width" and e: "encode_call_sites_into sites osize out = Inr out'"
  shows "\<exists>bs. out' = write_bytes bs out
    \<and> (length bs < 2 ^ 64 \<longrightarrow> decode_call_sites bs (eendian out) osize = Inr sites)"
proof -
  let ?e = "eendian out"
  let ?n = "word_of_nat (length sites) :: u32"
  let ?b = "to_bytes ?e 4 (unat ?n)"
  from e have n: "length sites < 2 ^ 32" and f: "fold_ok (encode_call_site osize) sites (write_bytes ?b out) = Inr out'"
    by (auto simp: encode_call_sites_into_def ok_simps enc_simps)
  from fold_inverts[OF encode_call_site_inverts[OF assms(1)]] f
  obtain bs where bs: "13 * length sites \<le> length bs" "out' = write_bytes bs (write_bytes ?b out)"
    "\<And>c. cendian c = ?e \<Longrightarrow> ahead c bs \<Longrightarrow>
       read_many (decode_call_site osize) (length sites) c = Inr (sites, advance (length bs) c)"
    by (rule invertsE) auto
  have "decode_call_sites (?b @ bs) ?e osize = Inr sites" if "length (?b @ bs) < 2 ^ 64"
  proof -
    let ?c = "cursor_new (?b @ bs) ?e"
    have a: "ahead ?c ?b" "ahead (advance 4 ?c) bs"
      using ahead_all[OF that, of ?e] ahead_append[of ?c ?b bs] by simp_all
    have ce: "cendian ?c = ?e" by (simp add: cursor_new_def)
    have r: "read_u32 ?c = Inr (?n, advance 4 ?c)" using read_u32_ahead[of ?c ?n] a(1) by (simp add: ce)
    have u: "unat ?n = length sites" using n by (rule unat_word_of_nat_u32)
    have "length sites \<le> remaining (advance 4 ?c) div 13"
      using ahead_remaining[OF a(2)] bs(1) by (simp add: less_eq_div_iff_mult_less_eq)
    moreover have "read_many (decode_call_site osize) (length sites) (advance 4 ?c)
        = Inr (sites, advance (length bs) (advance 4 ?c))"
      using bs(3)[OF _ a(2)] ce by simp
    moreover have "cursor_is_empty (advance (4 + length bs) ?c)"
      using cursor_is_empty_advance[of "?b @ bs" ?e] by simp
    ultimately show ?thesis by (simp add: decode_call_sites_def r[unfolded u] u)
  qed
  then show ?thesis using bs(2) by (intro exI[of _ "?b @ bs"]) auto
qed

section \<open>Records\<close>

definition record_bytes :: "endian \<Rightarrow> u32 \<Rightarrow> bytes \<Rightarrow> bytes" where
  "record_bytes e kind bs = to_bytes e 4 (unat kind) @ to_bytes e 4 (length bs) @ bs"

lemma length_record_bytes [simp]: "length (record_bytes e kind bs) = 8 + length bs"
  by (simp add: record_bytes_def)

lemma write_record_eq:
  assumes "write_record kind enc out = Inr out'"
    and "\<And>o' o''. enc o' = Inr o'' \<Longrightarrow> eendian o' = eendian out \<Longrightarrow> \<exists>bs. o'' = write_bytes bs o' \<and> Q bs"
  shows "\<exists>bs. Q bs \<and> length bs < 2 ^ 32 \<and> out' = write_bytes (record_bytes (eendian out) kind bs) out"
proof -
  let ?e = "eendian out"
  let ?h = "to_bytes ?e 4 (unat kind)"
  let ?o1 = "write_bytes ?h out" and ?z = "to_bytes ?e 4 0"
  from assms(1) obtain o2 where o2: "enc (write_bytes ?z ?o1) = Inr o2"
    and p: "patch_length (encoder_len ?o1) (encoder_len (write_bytes ?z ?o1))
      ''FunctionInfo record length'' ''FunctionInfo record'' o2 = Inr out'"
    by (auto simp: write_record_def enc_simps Let_def)
  from assms(2)[OF o2] obtain bs where bs: "o2 = write_bytes bs (write_bytes ?z ?o1)" "Q bs" by auto
  have o2': "o2 = write_bytes (?z @ bs) ?o1" by (simp add: bs(1))
  from p have l: "length bs < 2 ^ 32" and "patch_u32 (length (ebytes ?o1)) (word_of_nat (length bs)) o2 = Inr out'"
    by (auto simp: patch_length_def encoder_len_def bs(1) ok_simps)
  from patch_u32_eq_Inr[OF this(2)[unfolded o2']]
  have "out' = write_bytes (record_bytes ?e kind bs) out"
    using l by (simp add: record_bytes_def unat_word_of_nat_u32)
  then show ?thesis using bs(2) l by blast
qed

lemma next_record_record:
  assumes "ahead c (record_bytes (cendian c) kind bs)" and "kind \<noteq> INFO_END" and "length bs < 2 ^ 32"
  shows "next_record c False
    = Inr (Some \<lparr>rec_kind = info_from_raw kind, rec_payload = bs\<rparr>, False, advance (8 + length bs) c)"
proof -
  let ?n = "word_of_nat (length bs) :: u32"
  have u: "unat ?n = length bs" using assms(3) by (rule unat_word_of_nat_u32)
  have a: "ahead c (to_bytes (cendian c) 4 (unat kind))" "ahead (advance 4 c) (to_bytes (cendian c) 4 (unat ?n))"
    "ahead (advance 8 c) bs"
    using assms(1) unfolding record_bytes_def ahead_append u by auto
  have "read_u32 c = Inr (kind, advance 4 c)" using read_u32_ahead[OF a(1)] .
  moreover have "read_u32 (advance 4 c) = Inr (?n, advance 8 c)" using read_u32_ahead[of "advance 4 c" ?n] a(2) by simp
  moreover have "cursor_take (length bs) (advance 8 c) = Inr (bs, advance (8 + length bs) c)"
    using cursor_take_ahead[OF a(3)] by simp
  ultimately show ?thesis using assms(2) u by (simp add: next_record_def)
qed

lemma next_record_end:
  assumes "ahead c (to_bytes (cendian c) 4 0 @ to_bytes (cendian c) 4 0)"
  shows "next_record c False = Inr (None, True, advance 8 c)"
proof -
  have a: "ahead c (to_bytes (cendian c) 4 (unat (0 :: u32)))"
    "ahead (advance 4 c) (to_bytes (cendian (advance 4 c)) 4 (unat (0 :: u32)))"
    using assms unfolding ahead_append by auto
  have "read_u32 c = Inr (0, advance 4 c)" "read_u32 (advance 4 c) = Inr (0, advance 8 c)"
    using read_u32_ahead[OF a(1)] read_u32_ahead[OF a(2)] by simp_all
  then show ?thesis by (simp add: next_record_def INFO_END_def)
qed

lemma decode_records_end:
  assumes "ahead c (to_bytes (cendian c) 4 0 @ to_bytes (cendian c) 4 0)"
  shows "decode_records osize base depth seen False fn c = Inr (fn, advance 8 c)"
  by (simp add: decode_records.simps[of osize base depth seen] next_record_end[OF assms])

lemma or_and_distrib: "((a :: u8) OR b) AND c = (a AND c) OR (b AND c)"
  by (rule bit_eqI) (auto simp: bit_simps)

lemma and_zero8: "(0 :: u8) AND 1 = 0"
  by simp

lemma decode_records_line:
  assumes "ahead c (record_bytes (cendian c) INFO_LINE_TABLE bs)" and "length bs < 2 ^ 32" and "seen AND 1 = 0"
    and "line_decode bs (cendian c) base = Inr ls"
  shows "decode_records osize base depth seen False fn c
    = decode_records osize base depth (seen OR 1) False (set_lines (Some ls) fn) (advance (8 + length bs) c)"
  using next_record_record[OF assms(1) _ assms(2)] assms(3,4)
  by (simp add: decode_records.simps[of osize base depth seen] info_types info_from_raw_def observe_def observe_bit_def)

lemma decode_records_inline:
  assumes "ahead c (record_bytes (cendian c) INFO_INLINE bs)" and "length bs < 2 ^ 32" and "seen AND 2 = 0"
    and "decode_inline_record osize base bs (cendian c) = Inr node"
  shows "decode_records osize base depth seen False fn c
    = decode_records osize base depth (seen OR 2) False (set_inline (Some node) fn) (advance (8 + length bs) c)"
  using next_record_record[OF assms(1) _ assms(2)] assms(3,4)
  by (simp add: decode_records.simps[of osize base depth seen] info_types info_from_raw_def observe_def observe_bit_def)

lemma decode_records_merged:
  assumes "ahead c (record_bytes (cendian c) INFO_MERGED bs)" and "length bs < 2 ^ 32" and "seen AND 4 = 0"
    and "decode_merged osize base (depth + 1) bs (cendian c) = Inr ms"
  shows "decode_records osize base depth seen False fn c
    = decode_records osize base depth (seen OR 4) False (set_merged ms fn) (advance (8 + length bs) c)"
  using next_record_record[OF assms(1) _ assms(2)] assms(3,4)
  by (simp add: decode_records.simps[of osize base depth seen] info_types info_from_raw_def observe_def observe_bit_def)

lemma decode_records_call_sites:
  assumes "ahead c (record_bytes (cendian c) INFO_CALL_SITE bs)" and "length bs < 2 ^ 32" and "seen AND 8 = 0"
    and "decode_call_sites bs (cendian c) osize = Inr ss"
  shows "decode_records osize base depth seen False fn c
    = decode_records osize base depth (seen OR 8) False (set_call_sites ss fn) (advance (8 + length bs) c)"
  using next_record_record[OF assms(1) _ assms(2)] assms(3,4)
  by (simp add: decode_records.simps[of osize base depth seen] info_types info_from_raw_def observe_def observe_bit_def)

lemma line_encode_block:
  assumes "line_encode_into ls base out = Inr out'"
  shows "\<exists>bs. out' = write_bytes bs out \<and> (length bs < 2 ^ 32 \<longrightarrow> (\<forall>e. line_decode bs e base = Inr ls))"
proof -
  from assms have enc: "lines_encodable base ls" and out': "out' = write_bytes (line_table_bytes ls base) out"
    by (simp_all add: line_encode_into_eq)
  have "line_decode (line_table_bytes ls base) e base = Inr ls" if "length (line_table_bytes ls base) < 2 ^ 32" for e
  proof -
    have "length (line_table_bytes ls base) < 2 ^ 64" using that by simp
    from line_parse_table[OF enc ahead_all[OF this, of e], of collect_row "[]"]
    show ?thesis by (simp add: line_decode_def feed_collect)
  qed
  with out' show ?thesis by blast
qed

lemma encode_inline_block:
  assumes "encode_inline osize base 0 node out = Inr out'"
  shows "\<exists>bs. out' = write_bytes bs out
    \<and> (length bs < 2 ^ 32 \<longrightarrow> decode_inline_record osize base bs (eendian out) = Inr node)"
proof -
  obtain bs where bs: "out' = write_bytes bs out" "\<And>c. cendian c = eendian out \<Longrightarrow> ahead c bs \<Longrightarrow>
      decode_inline osize base 0 c = Inr (node, advance (length bs) c)"
    by (rule invertsE[OF encode_inline_inverts assms]) blast
  have "decode_inline_record osize base bs (eendian out) = Inr node" if l: "length bs < 2 ^ 32"
  proof -
    have "length bs < 2 ^ 64" using l by simp
    then have "decode_inline osize base 0 (cursor_new bs (eendian out))
        = Inr (node, advance (length bs) (cursor_new bs (eendian out)))"
      by (intro bs(2) ahead_all) (simp_all add: cursor_new_def)
    then show ?thesis
      by (simp add: decode_inline_record_def encode_inline_ranges[OF assms] cursor_is_empty_advance)
  qed
  then show ?thesis using bs(1) by blast
qed

section \<open>Whole functions\<close>

text \<open>The block a function is written as: padding, then bytes that read back as the function.\<close>

definition function_block :: "u8 \<Rightarrow> bool \<Rightarrow> nat \<Rightarrow> encoded_function \<Rightarrow> encoder \<Rightarrow> nat \<Rightarrow> encoder \<Rightarrow> bool" where
  "function_block osize align depth fn out start out' \<longleftrightarrow>
     (\<exists>bs. out' = write_bytes (replicate (if align then pad_len 4 (length (ebytes out)) else 0) 0 @ bs) out
       \<and> start = length (ebytes out) + (if align then pad_len 4 (length (ebytes out)) else 0)
       \<and> 12 \<le> length bs
       \<and> (\<forall>c. cendian c = eendian out \<longrightarrow> ahead c bs \<longrightarrow>
            decode_from osize (r_start (ef_range fn)) depth c = Inr (fn, advance (length bs) c)))"

lemma encode_merged_loop_block:
  assumes "\<And>fn out start out'. fn \<in> set fns \<Longrightarrow> encode_into_at osize False depth fn out = Inr (start, out')
      \<Longrightarrow> function_block osize False depth fn out start out'"
    and "encode_merged_loop osize base depth fns out = Inr out'" and "string_offset_width osize = Inr width"
  shows "\<exists>bs. 4 * length fns \<le> length bs \<and> out' = write_bytes bs out
    \<and> (\<forall>c acc. cendian c = eendian out \<longrightarrow> ahead c bs \<longrightarrow>
         decode_merged_items osize base depth (length fns) acc c = Inr (acc @ fns, advance (length bs) c))"
  using assms(1,2)
proof (induction fns arbitrary: out)
  case Nil
  then show ?case by (intro exI[of _ "[]"]) auto
next
  case (Cons fn fns)
  let ?e = "eendian out"
  let ?z = "to_bytes ?e 4 0"
  from Cons.prems(2) have b: "r_start (ef_range fn) = base" by (auto split: if_splits)
  with Cons.prems(2) obtain st o1 o2 where e: "encode_into_at osize False depth fn (write_bytes ?z out) = Inr (st, o1)"
    "patch_length (encoder_len out) (encoder_len (write_bytes ?z out))
       ''merged FunctionInfo length'' ''merged FunctionInfo length'' o1 = Inr o2"
    "encode_merged_loop osize base depth fns o2 = Inr out'"
    by (auto simp: Let_def enc_simps)
  have "function_block osize False depth fn (write_bytes ?z out) st o1" using Cons.prems(1)[OF _ e(1)] by simp
  then obtain bs where bs: "o1 = write_bytes bs (write_bytes ?z out)"
    "\<And>c. cendian c = ?e \<Longrightarrow> ahead c bs \<Longrightarrow> decode_from osize base depth c = Inr (fn, advance (length bs) c)"
    unfolding function_block_def b by auto
  from e(2) have l: "length bs < 2 ^ 32"
    and p: "patch_u32 (length (ebytes out)) (word_of_nat (length bs)) (write_bytes (?z @ bs) out) = Inr o2"
    by (auto simp: patch_length_def encoder_len_def bs(1) ok_simps)
  let ?n = "word_of_nat (length bs) :: u32"
  have u: "unat ?n = length bs" using l by (rule unat_word_of_nat_u32)
  let ?h = "to_bytes ?e 4 (unat ?n)"
  have o2: "o2 = write_bytes (?h @ bs) out" using patch_u32_eq_Inr[OF p] by simp
  from Cons.IH[OF _ e(3)] Cons.prems(1) obtain cs where cs: "4 * length fns \<le> length cs" "out' = write_bytes cs o2"
    "\<And>c acc. cendian c = eendian o2 \<Longrightarrow> ahead c cs \<Longrightarrow>
       decode_merged_items osize base depth (length fns) acc c = Inr (acc @ fns, advance (length cs) c)"
    by auto
  have "decode_merged_items osize base depth (length (fn # fns)) acc c
      = Inr (acc @ fn # fns, advance (length (?h @ bs @ cs)) c)"
    if c: "cendian c = ?e" "ahead c (?h @ bs @ cs)" for c acc
  proof -
    define c1 c2 where c12: "c1 = advance 4 c" "c2 = advance (length bs) c1"
    have a: "ahead c ?h" "ahead c1 bs" "ahead c2 cs"
      using c(2) unfolding ahead_append by (auto simp: c12)
    have r: "read_u32 c = Inr (?n, c1)" using read_u32_ahead[of c ?n] a(1) c(1) by (simp add: c12)
    have t: "cursor_take (length bs) c1 = Inr (bs, c2)" using cursor_take_ahead[OF a(2)] by (simp add: c12)
    have "length bs < 2 ^ 64" using l by simp
    then have "decode_from osize base depth (cursor_new bs ?e) = Inr (fn, advance (length bs) (cursor_new bs ?e))"
      by (intro bs(2) ahead_all) (simp_all add: cursor_new_def)
    then have d: "decode_exact_at osize base depth bs ?e = Inr fn"
      by (simp add: decode_exact_at.simps assms(3) cursor_is_empty_advance)
    have ce: "cendian c2 = ?e" using c(1) by (simp add: c12)
    have i: "decode_merged_items osize base depth (length fns) (acc @ [fn]) c2
        = Inr ((acc @ [fn]) @ fns, advance (length cs) c2)"
      by (rule cs(3)) (use ce a(3) in \<open>simp_all add: o2\<close>)
    have "advance (length cs) c2 = advance (length (?h @ bs @ cs)) c" by (simp add: c12 add.assoc)
    then show ?thesis by (simp only: list.size(4) Suc_eq_plus1[symmetric] add_0_right add_Suc_right
        decode_merged_items.simps r let_ok_Inr prod.case u t ce d i) simp
  qed
  moreover have "4 * length (fn # fns) \<le> length (?h @ bs @ cs)" using cs(1) by simp
  moreover have "out' = write_bytes (?h @ bs @ cs) out" unfolding cs(2) o2 by simp
  ultimately show ?case by blast
qed

lemma encode_merged_block:
  assumes "\<And>fn out start out'. fn \<in> set fns \<Longrightarrow> encode_into_at osize False depth fn out = Inr (start, out')
      \<Longrightarrow> function_block osize False depth fn out start out'"
    and "encode_merged_into osize base depth fns out = Inr out'" and "string_offset_width osize = Inr width"
  shows "\<exists>bs. out' = write_bytes bs out
    \<and> (length bs < 2 ^ 32 \<longrightarrow> decode_merged osize base depth bs (eendian out) = Inr fns)"
proof -
  let ?e = "eendian out"
  let ?n = "word_of_nat (length fns) :: u32"
  let ?b = "to_bytes ?e 4 (unat ?n)"
  from assms(2) have n: "length fns < 2 ^ 32" and f: "encode_merged_loop osize base depth fns (write_bytes ?b out) = Inr out'"
    by (auto simp: encode_merged_into.simps ok_simps enc_simps)
  from encode_merged_loop_block[OF assms(1) f assms(3)]
  obtain bs where bs: "4 * length fns \<le> length bs" "out' = write_bytes bs (write_bytes ?b out)"
    "\<And>c acc. cendian c = ?e \<Longrightarrow> ahead c bs \<Longrightarrow>
       decode_merged_items osize base depth (length fns) acc c = Inr (acc @ fns, advance (length bs) c)"
    by auto
  have "decode_merged osize base depth (?b @ bs) ?e = Inr fns" if l: "length (?b @ bs) < 2 ^ 32"
  proof -
    have l: "length (?b @ bs) < 2 ^ 64" using l by simp
    let ?c = "cursor_new (?b @ bs) ?e"
    have a: "ahead ?c ?b" "ahead (advance 4 ?c) bs"
      using ahead_all[OF l, of ?e] ahead_append[of ?c ?b bs] by simp_all
    have ce: "cendian ?c = ?e" by (simp add: cursor_new_def)
    have r: "read_u32 ?c = Inr (?n, advance 4 ?c)" using read_u32_ahead[of ?c ?n] a(1) by (simp add: ce)
    have u: "unat ?n = length fns" using n by (rule unat_word_of_nat_u32)
    have "length fns \<le> remaining (advance 4 ?c) div 4"
      using ahead_remaining[OF a(2)] bs(1) by (simp add: less_eq_div_iff_mult_less_eq)
    moreover have "decode_merged_items osize base depth (length fns) [] (advance 4 ?c)
        = Inr (fns, advance (length bs) (advance 4 ?c))"
      using bs(3)[OF _ a(2), of "[]"] ce by simp
    moreover have "cursor_is_empty (advance (4 + length bs) ?c)"
      using cursor_is_empty_advance[of "?b @ bs" ?e] by simp
    ultimately show ?thesis by (simp add: decode_merged.simps r[unfolded u] u)
  qed
  then show ?thesis using bs(2) by (intro exI[of _ "?b @ bs"]) auto
qed

text \<open>The four optional records, each as a stage between two positions of the output.\<close>

lemma lines_stage:
  assumes "(case lns of None \<Rightarrow> Inr out
      | Some ls \<Rightarrow> write_record INFO_LINE_TABLE (line_encode_into ls base) out) = Inr out'"
  shows "\<exists>b. out' = write_bytes b out \<and> (\<forall>c seen r n i m s. cendian c = eendian out \<longrightarrow> ahead c b
    \<longrightarrow> seen AND 1 = 0 \<longrightarrow> decode_records osize base depth seen False (EncodedFunction r n None i m s) c
      = decode_records osize base depth (if lns = None then seen else seen OR 1) False
          (EncodedFunction r n lns i m s) (advance (length b) c))"
proof (cases lns)
  case None
  then show ?thesis using assms by (intro exI[of _ "[]"]) simp
next
  case (Some ls)
  have "write_record INFO_LINE_TABLE (line_encode_into ls base) out = Inr out'" using assms Some by simp
  from write_record_eq[OF this, of "\<lambda>bs. length bs < 2 ^ 32 \<longrightarrow> line_decode bs (eendian out) base = Inr ls"]
  obtain bs where bs: "length bs < 2 ^ 32" "line_decode bs (eendian out) base = Inr ls"
    "out' = write_bytes (record_bytes (eendian out) INFO_LINE_TABLE bs) out"
    using line_encode_block[of ls base] by blast
  then show ?thesis using decode_records_line[OF _ bs(1)] Some
    by (intro exI[of _ "record_bytes (eendian out) INFO_LINE_TABLE bs"]) auto
qed

lemma inline_stage:
  assumes "(case inl of None \<Rightarrow> Inr out
      | Some node \<Rightarrow> write_record INFO_INLINE (encode_inline osize base 0 node) out) = Inr out'"
  shows "\<exists>b. out' = write_bytes b out \<and> (\<forall>c seen r n l m s. cendian c = eendian out \<longrightarrow> ahead c b
    \<longrightarrow> seen AND 2 = 0 \<longrightarrow> decode_records osize base depth seen False (EncodedFunction r n l None m s) c
      = decode_records osize base depth (if inl = None then seen else seen OR 2) False
          (EncodedFunction r n l inl m s) (advance (length b) c))"
proof (cases inl)
  case None
  then show ?thesis using assms by (intro exI[of _ "[]"]) simp
next
  case (Some node)
  have "write_record INFO_INLINE (encode_inline osize base 0 node) out = Inr out'" using assms Some by simp
  from write_record_eq[OF this, of "\<lambda>bs. length bs < 2 ^ 32 \<longrightarrow> decode_inline_record osize base bs (eendian out) = Inr node"]
  obtain bs where bs: "length bs < 2 ^ 32" "decode_inline_record osize base bs (eendian out) = Inr node"
    "out' = write_bytes (record_bytes (eendian out) INFO_INLINE bs) out"
    using encode_inline_block[of osize base node] by metis
  then show ?thesis using decode_records_inline[OF _ bs(1)] Some
    by (intro exI[of _ "record_bytes (eendian out) INFO_INLINE bs"]) auto
qed

lemma merged_stage:
  assumes "(if mg = [] then Inr out
      else write_record INFO_MERGED (encode_merged_into osize base (depth + 1) mg) out) = Inr out'"
    and "\<And>fn out start out'. fn \<in> set mg \<Longrightarrow> encode_into_at osize False (depth + 1) fn out = Inr (start, out')
      \<Longrightarrow> function_block osize False (depth + 1) fn out start out'"
    and "string_offset_width osize = Inr width"
  shows "\<exists>b. out' = write_bytes b out \<and> (\<forall>c seen r n l i s. cendian c = eendian out \<longrightarrow> ahead c b
    \<longrightarrow> seen AND 4 = 0 \<longrightarrow> decode_records osize base depth seen False (EncodedFunction r n l i [] s) c
      = decode_records osize base depth (if mg = [] then seen else seen OR 4) False
          (EncodedFunction r n l i mg s) (advance (length b) c))"
proof (cases "mg = []")
  case True
  then show ?thesis using assms by (intro exI[of _ "[]"]) simp
next
  case False
  then have "write_record INFO_MERGED (encode_merged_into osize base (depth + 1) mg) out = Inr out'"
    using assms by simp
  from write_record_eq[OF this, of "\<lambda>bs. length bs < 2 ^ 32 \<longrightarrow> decode_merged osize base (depth + 1) bs (eendian out) = Inr mg"]
  obtain bs where bs: "length bs < 2 ^ 32" "decode_merged osize base (depth + 1) bs (eendian out) = Inr mg"
    "out' = write_bytes (record_bytes (eendian out) INFO_MERGED bs) out"
    using encode_merged_block[OF assms(2) _ assms(3), of mg base] by metis
  then show ?thesis using decode_records_merged[OF _ bs(1)] False
    by (intro exI[of _ "record_bytes (eendian out) INFO_MERGED bs"]) auto
qed

lemma call_sites_stage:
  assumes "(if sites = [] then Inr out
      else write_record INFO_CALL_SITE (encode_call_sites_into sites osize) out) = Inr out'"
    and "string_offset_width osize = Inr width"
  shows "\<exists>b. out' = write_bytes b out \<and> (\<forall>c seen r n l i m. cendian c = eendian out \<longrightarrow> ahead c b
    \<longrightarrow> seen AND 8 = 0 \<longrightarrow> decode_records osize base depth seen False (EncodedFunction r n l i m []) c
      = decode_records osize base depth (if sites = [] then seen else seen OR 8) False
          (EncodedFunction r n l i m sites) (advance (length b) c))"
proof (cases "sites = []")
  case True
  then show ?thesis using assms by (intro exI[of _ "[]"]) simp
next
  case False
  then have w: "write_record INFO_CALL_SITE (encode_call_sites_into sites osize) out = Inr out'"
    using assms by simp
  have "\<exists>bs. o'' = write_bytes bs o' \<and> (length bs < 2 ^ 32 \<longrightarrow> decode_call_sites bs (eendian out) osize = Inr sites)"
    if "encode_call_sites_into sites osize o' = Inr o''" "eendian o' = eendian out" for o' o''
    using encode_call_sites_inverts[OF assms(2) that(1)] that(2) by auto
  from write_record_eq[OF w this]
  obtain bs where bs: "length bs < 2 ^ 32" "decode_call_sites bs (eendian out) osize = Inr sites"
    "out' = write_bytes (record_bytes (eendian out) INFO_CALL_SITE bs) out"
    by blast
  then show ?thesis using decode_records_call_sites[OF _ bs(1)] False
    by (intro exI[of _ "record_bytes (eendian out) INFO_CALL_SITE bs"]) auto
qed

lemma encode_into_at_block:
  "encode_into_at osize align depth fn out = Inr (start, out') \<Longrightarrow> function_block osize align depth fn out start out'"
proof (induction fn arbitrary: align depth out start out')
  case (EncodedFunction r name lns inl mg sites)
  let ?base = "r_start r" and ?e = "eendian out"
  let ?fn = "EncodedFunction r name lns inl mg sites"
  note e = EncodedFunction.prems[unfolded encode_into_at.simps]
  from e obtain w o0 where d: "check_merged_depth depth = Inr ()" "string_offset_width osize = Inr w"
    and o0: "(if align then align_to 4 out else Inr out) = Inr o0"
    by (auto simp del: split_paired_Ex)
  let ?pad = "replicate (if align then pad_len 4 (length (ebytes out)) else 0) (0 :: u8)"
  have o0': "o0 = write_bytes ?pad out" using o0 by (auto simp: align_to_eq split: if_splits)
  let ?len = "saturating_sub_u64 (r_end r) (r_start r)"
  have n: "name \<noteq> 0" and r: "r_start r \<le> r_end r" using e d o0 by (auto split: if_splits)
  have len: "?len = r_end r - r_start r" using r by (simp add: saturating_sub_u64_def)
  from e d o0 n r obtain len32 o1 o2 o3 o4 o5 where
    l32: "u32_try_from (unat ?len) = Some len32"
    and s1: "write_uint name osize (write_u32 len32 o0) = Inr o1"
    and s2: "(case lns of None \<Rightarrow> Inr o1
         | Some ls \<Rightarrow> write_record INFO_LINE_TABLE (line_encode_into ls ?base) o1) = Inr o2"
    and s3: "(case inl of None \<Rightarrow> Inr o2
         | Some node \<Rightarrow> write_record INFO_INLINE (encode_inline osize ?base 0 node) o2) = Inr o3"
    and s4: "(if mg = [] then Inr o3
         else write_record INFO_MERGED (encode_merged_into osize ?base (depth + 1) mg) o3) = Inr o4"
    and s5: "(if sites = [] then Inr o4
         else write_record INFO_CALL_SITE (encode_call_sites_into sites osize) o4) = Inr o5"
    and fin: "start = encoder_len o0" "out' = write_u32 0 (write_u32 INFO_END o5)"
    by (auto simp: Let_def ok_simps not_less[symmetric])
  let ?b0 = "to_bytes ?e 4 (unat len32)"
  have o0e: "eendian o0 = ?e" by (simp add: o0')
  have s1': "write_uint name osize (write_bytes ?b0 o0) = Inr o1" using s1 by (simp add: enc_simps o0e)
  obtain b1 where b1: "o1 = write_bytes b1 (write_bytes ?b0 o0)"
    "\<And>c. cendian c = ?e \<Longrightarrow> ahead c b1 \<Longrightarrow> read_uint osize c = Inr (name, advance (length b1) c)"
    by (rule invertsE[OF write_uint_inverts s1']) (auto simp: o0e)
  have e1: "eendian o1 = ?e" by (simp add: b1(1) o0e)
  from lines_stage[OF s2, where osize = osize and depth = depth] obtain b2 where b2: "o2 = write_bytes b2 o1"
    "\<And>c seen r n i m s. cendian c = ?e \<Longrightarrow> ahead c b2 \<Longrightarrow> seen AND 1 = 0 \<Longrightarrow>
      decode_records osize ?base depth seen False (EncodedFunction r n None i m s) c
      = decode_records osize ?base depth (if lns = None then seen else seen OR 1) False
          (EncodedFunction r n lns i m s) (advance (length b2) c)"
    unfolding e1 by blast
  have e2: "eendian o2 = ?e" by (simp add: b2(1) e1)
  from inline_stage[OF s3, where depth = depth] obtain b3 where b3: "o3 = write_bytes b3 o2"
    "\<And>c seen r n l m s. cendian c = ?e \<Longrightarrow> ahead c b3 \<Longrightarrow> seen AND 2 = 0 \<Longrightarrow>
      decode_records osize ?base depth seen False (EncodedFunction r n l None m s) c
      = decode_records osize ?base depth (if inl = None then seen else seen OR 2) False
          (EncodedFunction r n l inl m s) (advance (length b3) c)"
    unfolding e2 by blast
  have e3: "eendian o3 = ?e" by (simp add: b3(1) e2)
  from merged_stage[OF s4 EncodedFunction.IH d(2)] obtain b4 where b4: "o4 = write_bytes b4 o3"
    "\<And>c seen r n l i s. cendian c = ?e \<Longrightarrow> ahead c b4 \<Longrightarrow> seen AND 4 = 0 \<Longrightarrow>
      decode_records osize ?base depth seen False (EncodedFunction r n l i [] s) c
      = decode_records osize ?base depth (if mg = [] then seen else seen OR 4) False
          (EncodedFunction r n l i mg s) (advance (length b4) c)"
    unfolding e3 by blast
  have e4: "eendian o4 = ?e" by (simp add: b4(1) e3)
  from call_sites_stage[OF s5 d(2), where base = ?base and depth = depth] obtain b5 where b5: "o5 = write_bytes b5 o4"
    "\<And>c seen r n l i m. cendian c = ?e \<Longrightarrow> ahead c b5 \<Longrightarrow> seen AND 8 = 0 \<Longrightarrow>
      decode_records osize ?base depth seen False (EncodedFunction r n l i m []) c
      = decode_records osize ?base depth (if sites = [] then seen else seen OR 8) False
          (EncodedFunction r n l i m sites) (advance (length b5) c)"
    unfolding e4 by blast
  have e5: "eendian o5 = ?e" by (simp add: b5(1) e4)
  let ?fin = "to_bytes ?e 4 0 @ to_bytes ?e 4 0"
  let ?all = "?b0 @ b1 @ b2 @ b3 @ b4 @ b5 @ ?fin"
  have "decode_from osize ?base depth c = Inr (?fn, advance (length ?all) c)"
    if c: "cendian c = ?e" "ahead c ?all" for c
  proof -
    define c1 c2 c3 c4 c5 c6 where cs: "c1 = advance 4 c" "c2 = advance (length b1) c1" "c3 = advance (length b2) c2"
      "c4 = advance (length b3) c3" "c5 = advance (length b4) c4" "c6 = advance (length b5) c5"
    have a: "ahead c ?b0" "ahead c1 b1" "ahead c2 b2" "ahead c3 b3" "ahead c4 b4" "ahead c5 b5" "ahead c6 ?fin"
      using c(2) ahead_append[of c6 "to_bytes ?e 4 0" "to_bytes ?e 4 0"] unfolding ahead_append by (auto simp: cs)
    have ce: "cendian c1 = ?e" "cendian c2 = ?e" "cendian c3 = ?e" "cendian c4 = ?e" "cendian c5 = ?e" "cendian c6 = ?e"
      using c(1) by (simp_all add: cs)
    have r32: "read_u32 c = Inr (len32, c1)" using read_u32_ahead[of c len32] a(1) c(1) by (simp add: cs)
    have rn: "read_uint osize c1 = Inr (name, c2)" using b1(2)[OF ce(1) a(2)] by (simp add: cs)
    have "unat (ucast len32 :: u64) = unat ?len"
      using l32 unat_word_of_nat_u32[of "unat ?len"] by (auto simp: ok_simps simp del: of_nat_unat)
    then have "(ucast len32 :: u64) = r_end r - r_start r" unfolding len by (rule unat_eqI)
    then have add: "checked_add_u64 ?base (ucast len32) = Some (r_end r)" using checked_add_u64_sub[OF r] by simp
    have rr: "mk_range ?base (r_end r) = r" by simp
    define seen1 seen2 seen3 seen4 :: u8 where seen: "seen1 = (if lns = None then 0 else 0 OR 1)"
      "seen2 = (if inl = None then seen1 else seen1 OR 2)" "seen3 = (if mg = [] then seen2 else seen2 OR 4)"
      "seen4 = (if sites = [] then seen3 else seen3 OR 8)"
    have sd: "seen1 AND 2 = 0" "seen2 AND 4 = 0" "seen3 AND 8 = 0"
      by (simp_all add: seen or_and_distrib)
    have "decode_records osize ?base depth 0 False (EncodedFunction r name None None [] []) c2
        = decode_records osize ?base depth seen4 False ?fn c6"
      unfolding b2(2)[OF ce(2) a(3) and_zero8] cs(3)[symmetric] seen(1)[symmetric]
        b3(2)[OF ce(3) a(4) sd(1)] cs(4)[symmetric] seen(2)[symmetric]
        b4(2)[OF ce(4) a(5) sd(2)] cs(5)[symmetric] seen(3)[symmetric]
        b5(2)[OF ce(5) a(6) sd(3)] cs(6)[symmetric] seen(4)[symmetric] by (rule refl)
    also have "\<dots> = Inr (?fn, advance 8 c6)"
      by (rule decode_records_end) (use a(7) ce(6) in simp)
    also have "advance 8 c6 = advance (length ?all) c" by (simp add: cs add.assoc)
    finally show ?thesis
      unfolding decode_from.simps d r32 rn let_ok_Inr prod.case if_not_P[OF n] add ok_or_Some rr .
  qed
  moreover have "out' = write_bytes (?pad @ ?all) out"
    unfolding fin(2) by (simp add: enc_simps e5 INFO_END_def) (simp add: b5(1) b4(1) b3(1) b2(1) b1(1) o0')
  moreover have "start = length (ebytes out) + (if align then pad_len 4 (length (ebytes out)) else 0)"
    by (simp add: fin(1) encoder_len_def o0')
  moreover have "12 \<le> length ?all" by simp
  ultimately show ?case unfolding function_block_def encoded_function.sel by blast
qed

section \<open>What the decoder promises\<close>

text \<open>Ranges as \<open>decode_ranges\<close> returns them: at or above the base, valid, sorted, not overlapping.\<close>

definition ranges_wf :: "u64 \<Rightarrow> address_range list \<Rightarrow> bool" where
  "ranges_wf base rs \<longleftrightarrow> sorted_wrt (\<lambda>a b. r_end a \<le> r_start b) rs
     \<and> list_all (\<lambda>r. base \<le> r_start r \<and> range_is_valid r) rs"

text \<open>An inline tree within the depth limit: every node has ranges, and each child's ranges lie in
  one of its parent's.\<close>

fun inline_wf :: "u64 \<Rightarrow> nat \<Rightarrow> encoded_inline_node \<Rightarrow> bool" where
  "inline_wf base depth (EncodedInlineNode rs n f l children) \<longleftrightarrow>
     depth \<le> MAX_INLINE_DEPTH \<and> rs \<noteq> [] \<and> ranges_wf base rs
     \<and> list_all (\<lambda>child. inline_wf (r_start (hd rs)) (depth + 1) child \<and> \<not> outside_parent rs (ein_ranges child)) children"

fun function_wf :: "u64 \<Rightarrow> nat \<Rightarrow> encoded_function \<Rightarrow> bool" where
  "function_wf base depth (EncodedFunction r n lns inl merged sites) \<longleftrightarrow>
     depth \<le> MAX_MERGED_DEPTH \<and> n \<noteq> 0 \<and> r_start r = base \<and> range_is_valid r
     \<and> (case lns of None \<Rightarrow> True | Some rows \<Rightarrow> sorted (map row_address rows) \<and> list_all (\<lambda>row. base \<le> row_address row) rows)
     \<and> (case inl of None \<Rightarrow> True | Some node \<Rightarrow> inline_wf base 0 node)
     \<and> list_all (function_wf base (depth + 1)) merged"

lemma ranges_wf_snoc:
  assumes "ranges_wf base rs" and "base \<le> s" and "s \<le> e" and "rs \<noteq> [] \<longrightarrow> r_end (last rs) \<le> s"
  shows "ranges_wf base (rs @ [mk_range s e])"
proof -
  have "r_end r \<le> s" if "r \<in> set rs" for r
  proof (cases "r = last rs")
    case False
    have "rs \<noteq> []" using that by auto
    then have "rs = butlast rs @ [last rs]" by simp
    moreover from this have "r \<in> set (butlast rs)" using that False
      by (metis Un_iff empty_iff empty_set insert_iff list.simps(15) set_append)
    ultimately obtain ys where ys: "rs = ys @ [last rs]" "r \<in> set ys" by blast
    have "sorted_wrt (\<lambda>a b. r_end a \<le> r_start b) (ys @ [last rs])" using assms(1) ys(1) by (simp add: ranges_wf_def)
    then have "r_end r \<le> r_start (last rs)" using ys(2) by (simp add: sorted_wrt_append)
    also have "\<dots> \<le> r_end (last rs)"
      using assms(1) that by (auto simp: ranges_wf_def list_all_iff range_is_valid_def intro!: last_in_set)
    also have "r_end (last rs) \<le> s" using assms(4) that by auto
    finally show ?thesis .
  next
    case True
    then show ?thesis using assms(4) that by auto
  qed
  then show ?thesis using assms(1-3)
    by (simp add: ranges_wf_def sorted_wrt_append range_is_valid_def)
qed

lemma decode_ranges_loop_wf:
  "decode_ranges_loop n base rs c = Inr (rs', c') \<Longrightarrow> ranges_wf base rs \<Longrightarrow> ranges_wf base rs'"
proof (induction n arbitrary: rs c)
  case (Suc n)
  from Suc.prems(1) obtain off c1 s len c2 e where
    r: "checked_add_u64 base off = Some s" "checked_add_u64 s len = Some e"
    and o: "\<not> (rs \<noteq> [] \<and> s < r_end (last rs))"
    and l: "decode_ranges_loop n base (rs @ [mk_range s e]) c2 = Inr (rs', c')"
    by (auto simp: ok_simps split: if_splits)
  have "ranges_wf base (rs @ [mk_range s e])"
    using Suc.prems(2) checked_add_u64_le[OF r(1)] checked_add_u64_le[OF r(2)] o by (intro ranges_wf_snoc) auto
  then show ?case by (rule Suc.IH[OF l])
qed simp

lemma decode_ranges_wf: "decode_ranges c base = Inr (rs, c') \<Longrightarrow> ranges_wf base rs"
  by (auto simp: decode_ranges_def ranges_wf_def[of base "[]"] split: if_splits dest!: decode_ranges_loop_wf)

lemma decode_inline_wf:
  "decode_inline osize base depth c = Inr (node, c') \<Longrightarrow> ein_ranges node \<noteq> [] \<Longrightarrow> inline_wf base depth node"
  "decode_children osize rs cb depth ch c = Inr (chs, c') \<Longrightarrow>
     list_all (\<lambda>child. inline_wf cb (depth + 1) child \<and> \<not> outside_parent rs (ein_ranges child)) ch \<Longrightarrow>
     list_all (\<lambda>child. inline_wf cb (depth + 1) child \<and> \<not> outside_parent rs (ein_ranges child)) chs"
proof (induction osize base depth c and osize rs cb depth ch c arbitrary: node c' and chs c'
    rule: decode_inline_decode_children.induct)
  case (1 osize base depth c)
  note eq = decode_inline.simps[of osize base depth c]
  from "1.prems"(1) obtain rs c1 where d: "check_inline_depth depth = Inr ()" "decode_ranges c base = Inr (rs, c1)"
    by (auto simp: eq)
  show ?case
  proof (cases "rs = []")
    case True
    then show ?thesis using "1.prems" d by (auto simp: eq encoded_inline_default_def)
  next
    case False
    with "1.prems" d obtain hc c2 nm c3 cf c4 cl c5 f l where
      r: "read_u8 c1 = Inr (hc, c2)" "read_uint osize c2 = Inr (nm, c3)" "read_uleb c3 = Inr (cf, c4)"
        "read_uleb c4 = Inr (cl, c5)" "u32_or_out_of_range cf ''inline call-file index'' = Inr f"
        "u32_or_out_of_range cl ''inline call-line'' = Inr l"
      by (auto simp: eq)
    have depth: "depth \<le> MAX_INLINE_DEPTH" using d(1) by (auto simp: check_inline_depth_def split: if_splits)
    show ?thesis
    proof (cases "hc = 0")
      case True
      then show ?thesis using "1.prems" d r False depth decode_ranges_wf[OF d(2)] by (auto simp: eq)
    next
      case hc: False
      then obtain chs where dc: "decode_children osize rs (r_start (hd rs)) depth [] c5 = Inr (chs, c')"
        and node: "node = EncodedInlineNode rs nm f l chs"
        using "1.prems" d r False by (auto simp: eq)
      note IH = "1.IH"[OF d(1) d(2) refl False r(1) refl r(2) refl r(3) refl r(4) refl r(5,6) hc dc]
      then show ?thesis using False depth decode_ranges_wf[OF d(2)] by (simp add: node)
    qed
  qed
next
  case (2 osize rs cb depth ch c)
  note eq = decode_children.simps[of osize rs cb depth ch c]
  from "2.prems"(1) obtain child c1 where d: "decode_inline osize cb (depth + 1) c = Inr (child, c1)" by (auto simp: eq)
  show ?case
  proof (cases "ein_ranges child = []")
    case True
    then show ?thesis using "2.prems" d by (auto simp: eq)
  next
    case False
    with "2.prems" d have o: "\<not> outside_parent rs (ein_ranges child)"
      and l: "decode_children osize rs cb depth (ch @ [child]) c1 = Inr (chs, c')"
      by (auto simp: eq split: if_splits)
    show ?thesis
      by (rule "2.IH"(2)[OF d refl False o l]) (use "2.prems"(2) "2.IH"(1)[OF d False] o in simp)
  qed
qed

lemma line_decode_wf:
  "line_decode bs e base = Inr rows \<Longrightarrow> sorted (map row_address rows) \<and> list_all (\<lambda>row. base \<le> row_address row) rows"
  using line_parse_feed[of "cursor_new bs e" base rows, where 'z = unit] by (auto simp: line_decode_def list_all_iff)

lemma decode_from_wf:
  "decode_from osize base depth c = Inr (fn, c') \<Longrightarrow> function_wf base depth fn"
  "decode_records osize base depth seen ended fn0 c = Inr (fn, c') \<Longrightarrow> function_wf base depth fn0 \<Longrightarrow> function_wf base depth fn"
  "decode_exact_at osize base depth bs e = Inr fn \<Longrightarrow> function_wf base depth fn"
  "decode_merged osize base depth bs e = Inr fns \<Longrightarrow> list_all (function_wf base depth) fns"
  "decode_merged_items osize base depth n fns0 c = Inr (fns, c') \<Longrightarrow> list_all (function_wf base depth) fns0
    \<Longrightarrow> list_all (function_wf base depth) fns"
proof (induction osize base depth c and osize base depth seen ended fn0 c and osize base depth bs e
    and osize base depth bs e and osize base depth n fns0 c
    arbitrary: fn c' and fn c' and fn and fns and fns c' rule: decode_from_decode_records_decode_exact_at_decode_merged_decode_merged_items.induct)
  case (1 osize base depth c)
  note e = "1.prems"[unfolded decode_from.simps]
  then obtain w len c1 name c2 stop where
    r: "check_merged_depth depth = Inr ()" "string_offset_width osize = Inr w" "read_u32 c = Inr (len, c1)"
      "read_uint osize c1 = Inr (name, c2)" "name \<noteq> 0" "checked_add_u64 base (ucast len) = Some stop"
    and l: "decode_records osize base depth 0 False (EncodedFunction (mk_range base stop) name None None [] []) c2 = Inr (fn, c')"
    by (auto simp: ok_simps split: if_splits)
  have o: "ok_or (checked_add_u64 base (ucast len)) (Overflow ''FunctionInfo range end'') = Inr stop"
    using r(6) by simp
  show ?case
    using "1.IH"[OF r(1,2,3) refl r(4) refl r(5) o l] r checked_add_u64_le[OF r(6)]
    by (auto simp: check_merged_depth_def range_is_valid_def split: if_splits)
next
  case (2 osize base depth seen ended fn0 c)
  obtain rng nm lns inl mg sites where fn0: "fn0 = EncodedFunction rng nm lns inl mg sites" by (cases fn0)
  note e = "2.prems"(1)[unfolded decode_records.simps[of osize base depth seen ended fn0 c]]
  then obtain rec ended' c1 where nr: "next_record c ended = Inr (rec, ended', c1)" by auto
  show ?case
  proof (cases rec)
    case None
    then show ?thesis using e nr "2.prems"(2) by simp
  next
    case (Some r)
    then obtain seen' where ob: "observe (rec_kind r) seen = Inr seen'" using e nr by auto
    note IH = "2.IH"[OF nr refl refl Some ob]
    show ?thesis
    proof (cases "rec_kind r")
      case LineTable
      then obtain ls where d: "line_decode (rec_payload r) (cendian c1) base = Inr ls"
        and l: "decode_records osize base depth seen' ended' (set_lines (Some ls) fn0) c1 = Inr (fn, c')"
        using e nr Some ob by auto
      show ?thesis using IH(1)[OF LineTable d l] "2.prems"(2) line_decode_wf[OF d] by (simp add: fn0)
    next
      case Inline
      then obtain node where d: "decode_inline_record osize base (rec_payload r) (cendian c1) = Inr node"
        and l: "decode_records osize base depth seen' ended' (set_inline (Some node) fn0) c1 = Inr (fn, c')"
        using e nr Some ob by auto
      have "inline_wf base 0 node"
        using d by (auto simp: decode_inline_record_def split: if_splits intro: decode_inline_wf(1))
      then show ?thesis using IH(2)[OF Inline d l] "2.prems"(2) by (simp add: fn0)
    next
      case Merged
      then obtain ms where d: "decode_merged osize base (depth + 1) (rec_payload r) (cendian c1) = Inr ms"
        and l: "decode_records osize base depth seen' ended' (set_merged ms fn0) c1 = Inr (fn, c')"
        using e nr Some ob by auto
      show ?thesis using IH(4)[OF Merged d l] IH(3)[OF Merged d] "2.prems"(2) by (simp add: fn0)
    next
      case CallSite
      then obtain ss where d: "decode_call_sites (rec_payload r) (cendian c1) osize = Inr ss"
        and l: "decode_records osize base depth seen' ended' (set_call_sites ss fn0) c1 = Inr (fn, c')"
        using e nr Some ob by auto
      show ?thesis using IH(5)[OF CallSite d l] "2.prems"(2) by (simp add: fn0)
    next
      case (Unknown k)
      then show ?thesis using e nr Some ob by simp
    qed
  qed
next
  case (3 osize base depth bs e)
  then show ?case by (auto simp: decode_exact_at.simps split: if_splits)
next
  case (4 osize base depth bs e)
  then show ?case by (auto simp: decode_merged.simps split: if_splits)
next
  case (5 osize base depth fns c)
  then show ?case by simp
next
  case (6 osize base depth n fns c)
  then show ?case by auto
qed

text \<open>Evaluation of the two directions on concrete input.\<close>

lemmas encode_eval = encode_function_def encode_into_def encode_into_at.simps encode_merged_into.simps
  check_merged_depth_def MAX_MERGED_DEPTH_def string_offset_width_def encoder_new_def enc_simps uint_fits_def
  write_record_def encoder_len_def saturating_sub_u64_def u32_try_from_def Let_def line_encode_into_ok
  lines_encodable_def patch_length_def checked_sub_def patch_u32_def checked_add_def check_inline_depth_def
  MAX_INLINE_DEPTH_def encode_ranges_def outside_parent_def contains_range_def range_is_valid_def
  encode_call_sites_into_def encode_call_site_def write_bytes_def checked_sub_u64_def uleb_bytes_small

lemmas decode_eval = cursor_eval decode_function_def decode_from.simps decode_records.simps check_merged_depth_def
  MAX_MERGED_DEPTH_def string_offset_width_def next_record_def info_types info_from_raw_def checked_add_u64_def
  observe_def observe_bit_def decode_inline_record_def decode_inline.simps decode_children.simps
  check_inline_depth_def MAX_INLINE_DEPTH_def decode_ranges_def u32_or_out_of_range_def
  encoded_inline_default_def outside_parent_def contains_range_def range_is_valid_def u32_try_from_def

section \<open>Properties\<close>

text \<open>C5: A function record that \<open>encode\<close> writes, with its line table, inline tree, merged functions and
  call sites, is read back by \<open>decode_exact\<close> as the same function with no byte left over, in
  either byte order and for either width of a string offset.\<close>

theorem function_record_roundtrip:
  assumes "encode_function fn e osize = Inr bs" and "length bs < 2 ^ 64"
  shows "decode_exact bs e osize (r_start (ef_range fn)) = Inr fn"
proof -
  from assms(1) obtain start out where enc: "encode_into_at osize False 0 fn (encoder_new e) = Inr (start, out)"
    and bs: "bs = ebytes out"
    by (auto simp: encode_function_def encode_into_def)
  obtain blk where blk: "out = write_bytes blk (encoder_new e)"
    and dec: "\<And>c. cendian c = e \<Longrightarrow> ahead c blk \<Longrightarrow>
      decode_from osize (r_start (ef_range fn)) 0 c = Inr (fn, advance (length blk) c)"
    using encode_into_at_block[OF enc] by (auto simp: function_block_def encoder_new_def)
  have eq: "bs = blk" by (simp add: bs blk encoder_new_def)
  have "ahead (cursor_new bs e) blk" using ahead_all[OF assms(2)] by (simp add: eq)
  then have "decode_from osize (r_start (ef_range fn)) 0 (cursor_new bs e) = Inr (fn, advance (length bs) (cursor_new bs e))"
    using dec[of "cursor_new bs e"] by (simp add: eq cursor_new_def)
  moreover obtain w where "string_offset_width osize = Inr w"
    using enc by (cases fn) (auto simp: encode_into_at.simps)
  ultimately show ?thesis by (simp add: decode_exact_def decode_exact_at.simps cursor_is_empty_advance)
qed

lemma function_record_roundtrip_witness:
  "\<exists>bs. decode_exact bs Big 4 0x1000 = Inr
    (EncodedFunction (mk_range 0x1000 0x1040) 5
      (Some [\<lparr>row_address = 0x1000, row_file = 1, row_line = 10\<rparr>])
      (Some (EncodedInlineNode [mk_range 0x1000 0x1040] 7 0 0 [EncodedInlineNode [mk_range 0x1010 0x1020] 9 2 11 []]))
      [EncodedFunction (mk_range 0x1000 0x1040) 3 None None [] []]
      [\<lparr>ecs_return_offset = 4, ecs_flags = 1, ecs_match_regex = [5, 9]\<rparr>])"
    (is "\<exists>bs. decode_exact bs Big 4 0x1000 = Inr ?fn")
proof -
  have rows: "line_table_bytes [\<lparr>row_address = 0x1000, row_file = 1, row_line = 10\<rparr>] 0x1000 = [0, 0, 10, 4, 0]"
    by code_simp
  have "\<exists>bs. encode_function ?fn Big 4 = Inr bs \<and> length bs < 2 ^ 64"
    by (simp cong: let_ok_weak_cong add: encode_eval rows)
  then show ?thesis using function_record_roundtrip[of ?fn Big 4] by auto
qed

text \<open>C12: Whatever bytes the decoder of function records accepts, the function is well formed: a non-zero
  name offset, a valid range at the requested address, line rows sorted and not below it, an
  inline tree of bounded depth whose ranges are sorted, disjoint and nested, and merged functions of
  bounded depth that are well formed at the same address.\<close>

theorem decoded_function_wf:
  assumes "decode_function bs e osize base = Inr fn \<or> decode_exact bs e osize base = Inr fn"
  shows "function_wf base 0 fn"
  using assms decode_from_wf(1)[of osize base 0 "cursor_new bs e" fn] decode_from_wf(3)[of osize base 0 bs e fn]
  by (auto simp: decode_function_def decode_exact_def)

lemma decoded_function_wf_witness:
  "function_wf 0x1000 0 (EncodedFunction (mk_range 0x1000 0x1040) 5 None
     (Some (EncodedInlineNode [mk_range 0x1000 0x1040] 7 0 0 [EncodedInlineNode [mk_range 0x1010 0x1020] 9 2 11 []])) [] [])"
    (is "function_wf 0x1000 0 ?fn")
proof -
  have "decode_function [0, 0, 0, 0x40, 0, 0, 0, 5, 0, 0, 0, 2, 0, 0, 0, 21, 1, 0, 0x40, 1, 0, 0, 0, 7, 0, 0,
      1, 0x10, 0x10, 0, 0, 0, 0, 9, 2, 11, 0, 0, 0, 0, 0, 0, 0, 0, 0] Big 4 0x1000 = Inr ?fn"
    by (simp cong: let_ok_weak_cong add: decode_eval)
  then show ?thesis using decoded_function_wf by blast
qed

end
