(* ===== verification/Validation.thy ===== *)
theory Validation
  imports FunctionInfo
begin

text \<open>
  \<open>src/validation.rs\<close>: the checks a builder makes on a function before it takes it. The
  validators return the highest file index they saw, so that the table can be checked later.
\<close>

datatype file_reference_kind = LineReference | InlineCallReference

definition validate_file_table :: "file_entry list \<Rightarrow> unit result" where
  "validate_file_table files =
     (case nth_get files 0 of
        Some file \<Rightarrow>
          (if file_directory file \<noteq> [] \<or> file_basename file \<noteq> []
           then Inl (InvalidModel ''file-table index zero must be empty'') else Inr ())
      | None \<Rightarrow> Inl (InvalidModel ''file-table index zero must be empty''))"

definition validate_file_index :: "file_index \<Rightarrow> nat \<Rightarrow> file_reference_kind \<Rightarrow> unit result" where
  "validate_file_index index file_count kind =
     (if unat index \<ge> file_count then
        Inl (InvalidModel (case kind of
          LineReference \<Rightarrow> ''line references a missing file''
        | InlineCallReference \<Rightarrow> ''inline call site references a missing file''))
      else Inr ())"

fun validate_inline_files :: "nat \<Rightarrow> inline_node \<Rightarrow> unit result" where
  "validate_inline_files file_count (InlineNode ranges name cfile cline children) =
     let_ok (validate_file_index cfile file_count InlineCallReference) (\<lambda>_.
     fold_ok (\<lambda>child _. validate_inline_files file_count child) children ())"

fun validate_function_files :: "nat \<Rightarrow> gfunction \<Rightarrow> unit result" where
  "validate_function_files file_count (Function rng name lns inline merged sites) =
     let_ok (fold_ok (\<lambda>ln _. validate_file_index (row_file ln) file_count LineReference) lns ()) (\<lambda>_.
     let_ok (case inline of None \<Rightarrow> Inr () | Some node \<Rightarrow> validate_inline_files file_count node) (\<lambda>_.
     fold_ok (\<lambda>m _. validate_function_files file_count m) merged ()))"

text \<open>The loop over the ranges of an inline node; the state is \<open>previous_end\<close>.\<close>

definition validate_inline_range :: "address_range list \<Rightarrow> address_range \<Rightarrow> u64 option \<Rightarrow> u64 option result" where
  "validate_inline_range parents r previous_end =
     (if \<not> range_is_valid r \<or> range_is_empty r \<or> \<not> list_ex (\<lambda>parent. contains_range parent r) parents
      then Inl (InvalidModel ''inline range is empty, reversed, or outside its parent'')
      else if (case previous_end of None \<Rightarrow> False | Some e \<Rightarrow> r_start r < e)
      then Inl (InvalidModel ''inline ranges overlap or are not sorted'')
      else Inr (Some (r_end r)))"

fun validate_inline :: "address_range list \<Rightarrow> nat \<Rightarrow> inline_node \<Rightarrow> file_index result" where
  "validate_inline parents depth (InlineNode ranges name cfile cline children) =
     let_ok (check_inline_depth depth) (\<lambda>_.
     if ranges = [] then Inl (InvalidModel ''inline node must contain a range'')
     else
       let_ok (fold_ok (validate_inline_range parents) ranges None) (\<lambda>_.
       fold_ok (\<lambda>child maximum. let_ok (validate_inline ranges (depth + 1) child) (\<lambda>m. Inr (max maximum m)))
         children cfile))"

definition validate_line :: "address_range \<Rightarrow> line_entry \<Rightarrow> file_index \<Rightarrow> file_index result" where
  "validate_line r ln maximum =
     (if row_address ln < r_start r \<or> \<not> range_is_empty r \<and> row_address ln \<ge> r_end r
      then Inl (InvalidModel ''line address is outside its function'')
      else Inr (max maximum (row_file ln)))"

fun validate_function_tree :: "address_range option \<Rightarrow> nat \<Rightarrow> gfunction \<Rightarrow> file_index result" where
  "validate_function_tree merged_parent merged_depth (Function rng name lns inline merged sites) =
     let_ok (check_merged_depth merged_depth) (\<lambda>_.
     if name = [] then Inl (InvalidModel ''function name must not be empty'')
     else if \<not> range_is_valid rng then Inl (InvalidModel ''function range end precedes its start'')
     else if unat (range_size rng) > 0xFFFFFFFF
     then Inl (Limit ''function size'' (range_size rng) 0xFFFFFFFF)
     else if (case merged_parent of None \<Rightarrow> False | Some parent \<Rightarrow> rng \<noteq> parent)
     then Inl (InvalidModel ''merged function range differs from its parent'')
     else
       let_ok (fold_ok (validate_line rng) lns 0) (\<lambda>maximum.
       let_ok (case inline of None \<Rightarrow> Inr maximum
         | Some node \<Rightarrow> let_ok (validate_inline [rng] 0 node) (\<lambda>m. Inr (max maximum m))) (\<lambda>maximum.
       let len = range_size rng in
       if list_ex (\<lambda>site. len \<noteq> 0 \<and> return_offset site \<ge> len) sites
       then Inl (InvalidModel ''call-site return offset is outside its function'')
       else
         fold_ok (\<lambda>m maximum. let_ok (validate_function_tree (Some rng) (merged_depth + 1) m)
             (\<lambda>found. Inr (max maximum found))) merged maximum)))"

definition validate_for_builder :: "gfunction \<Rightarrow> file_index result" where
  "validate_for_builder fn = validate_function_tree None 0 fn"

end
