(* ===== verification/Finalize.thy ===== *)
theory Finalize
  imports Validation
begin

text \<open>
  \<open>src/normalize.rs\<close> and \<open>src/writer/finalize.rs\<close>: what happens to the functions of a builder
  before they are written. Line rows are compacted, the functions are sorted by range and, among
  equal ranges, by how much they record; the function-set policy then merges or drops equal
  ranges; and the last function may get a size from the executable ranges.

  \<open>Vec::dedup_by\<close> passes the current and the last retained element to its callback, which may
  change both. \<open>sort_unstable\<close> is used on keys that end in the element's own index, so the order
  is determined. \<open>to_string\<close> of a number is \<open>decimal\<close>.
\<close>

section \<open>Options\<close>

datatype function_set_policy = Deduplicate | MergeEqualRanges | Preserve

record writer_options =
  wo_version :: gsym_version
  wo_endian :: endian
  wo_base_address :: "u64 option"
  wo_build_id :: bytes

definition writer_options_default :: writer_options where
  "writer_options_default =
     \<lparr>wo_version = V1, wo_endian = Little, wo_base_address = None, wo_build_id = []\<rparr>"

record builder_options =
  bo_writer :: writer_options
  bo_executable_ranges :: "address_range list"
  bo_repair_zero_sized_functions :: bool
  bo_merge_equal_address_functions :: bool

definition builder_options_default :: builder_options where
  "builder_options_default =
     \<lparr>bo_writer = writer_options_default, bo_executable_ranges = [],
      bo_repair_zero_sized_functions = True, bo_merge_equal_address_functions = False\<rparr>"

section \<open>Compaction\<close>

fun dedup_from :: "('a \<Rightarrow> 'a \<Rightarrow> bool \<times> 'a \<times> 'a) \<Rightarrow> 'a \<Rightarrow> 'a list \<Rightarrow> 'a list" where
  "dedup_from same_bucket previous [] = [previous]"
| "dedup_from same_bucket previous (current # rest) =
     (let (same, current, previous) = same_bucket current previous in
      if same then dedup_from same_bucket previous rest
      else previous # dedup_from same_bucket current rest)"

definition dedup_by :: "('a \<Rightarrow> 'a \<Rightarrow> bool \<times> 'a \<times> 'a) \<Rightarrow> 'a list \<Rightarrow> 'a list" where
  "dedup_by same_bucket xs = (case xs of [] \<Rightarrow> [] | x # rest \<Rightarrow> dedup_from same_bucket x rest)"

definition compact_line_rows :: "line_entry list \<Rightarrow> line_entry list" where
  "compact_line_rows =
     dedup_by (\<lambda>current previous.
       (row_file current = row_file previous \<and> row_line current = row_line previous, current, previous))"

fun compact_function_line :: "gfunction \<Rightarrow> gfunction" where
  "compact_function_line (Function rng name lns inline merged sites) =
     Function rng name (compact_line_rows lns) inline (map compact_function_line merged) sites"

definition compact_function_lines :: "gfunction list \<Rightarrow> gfunction list" where
  "compact_function_lines functions = map compact_function_line functions"

section \<open>The ordering key\<close>

type_synonym richness = "bool \<times> nat \<times> nat \<times> nat \<times> nat \<times> nat \<times> nat"
type_synonym tiebreak = "nat \<times> nat"

fun inline_quality :: "inline_node \<Rightarrow> nat \<times> nat \<times> nat" where
  "inline_quality (InlineNode ranges name cfile cline children) =
     fold (\<lambda>child (nodes, rs, depth).
         (saturating_add nodes (fst child), saturating_add rs (fst (snd child)),
          max depth (saturating_add (snd (snd child)) 1)))
       (map inline_quality children) (1, length ranges, 1)"

definition richness :: "gfunction \<Rightarrow> bool \<Rightarrow> richness" where
  "richness fn compare_inlines =
     (let inline = (if compare_inlines
        then (case fn_inline fn of None \<Rightarrow> (0, 0, 0) | Some node \<Rightarrow> inline_quality node) else (0, 0, 0)) in
      (fn_inline fn \<noteq> None, fst inline, fst (snd inline), snd (snd inline), length (fn_lines fn),
       saturating_add (length (fn_call_sites fn))
         (sum_list (map (\<lambda>site. length (match_regex site)) (fn_call_sites fn))),
       length (fn_merged fn)))"

definition semantic_tiebreak :: "gfunction \<Rightarrow> tiebreak" where
  "semantic_tiebreak fn =
     (case fn_inline fn of None \<Rightarrow> 0 | Some node \<Rightarrow> length (node_children node), length (fn_name fn))"

section \<open>Sorting\<close>

text \<open>\<open>chunk_by_mut\<close> with equal first components: maximal runs.\<close>

fun chunk_runs :: "('k \<times> 'v) list \<Rightarrow> ('k \<times> 'v) list list" where
  "chunk_runs [] = []"
| "chunk_runs (x # xs) =
     (case chunk_runs xs of
        (y # run) # runs \<Rightarrow> (if fst x = fst y then (x # y # run) # runs else [x] # (y # run) # runs)
      | runs \<Rightarrow> [x] # runs)"

definition order_group :: "gfunction list \<Rightarrow> (address_range \<times> nat) list \<Rightarrow> (address_range \<times> nat) list" where
  "order_group functions grp =
     (if length grp < 2 then grp
      else
        let compare_inlines =
              (length (take 2 (filter (\<lambda>(_, index).
                 case nth_get functions index of None \<Rightarrow> False | Some fn \<Rightarrow> fn_inline fn \<noteq> None) grp)) = 2);
            aliases = List.map_filter (\<lambda>(_, index).
              map_option (\<lambda>fn. (richness fn compare_inlines, fn_name fn, semantic_tiebreak fn, index))
                (nth_get functions index)) grp in
        map (\<lambda>((r, _), (_, _, _, index)). (r, index)) (zip grp (sort aliases))
          @ drop (length aliases) grp)"

definition swap_at :: "nat \<Rightarrow> nat \<Rightarrow> 'a list \<Rightarrow> 'a list" where
  "swap_at i j xs = (if i < length xs \<and> j < length xs then xs[i := xs ! j, j := xs ! i] else xs)"

text \<open>The \<open>while let\<close> loop that walks one cycle of the permutation. It ends when it is back at
  \<open>start\<close>; on an order that is no permutation it need not end, which is \<open>None\<close> here, as is the
  panic of \<open>swap\<close> on an index out of range. \<open>apply_order\<close> is the \<open>for\<close> loop around it.
  Neither happens in \<open>sort_by_ordering_key\<close>, see \<open>sort_by_ordering_key_returns\<close>.\<close>

partial_function (option) walk_cycle ::
  "nat \<Rightarrow> nat \<Rightarrow> (address_range \<times> nat) list \<Rightarrow> gfunction list
    \<Rightarrow> ((address_range \<times> nat) list \<times> gfunction list) option" where
  "walk_cycle start current order functions =
     (case nth_get order current of
        None \<Rightarrow> Some (order, functions)
      | Some (r, source) \<Rightarrow>
          if source = start then Some (order[current := (r, current)], functions)
          else if current < length functions \<and> source < length functions
          then walk_cycle start source (order[current := (r, current)]) (swap_at current source functions)
          else None)"

fun apply_order :: "nat list \<Rightarrow> (address_range \<times> nat) list \<Rightarrow> gfunction list \<Rightarrow> gfunction list option" where
  "apply_order [] order functions = Some functions"
| "apply_order (start # rest) order functions =
     (case walk_cycle start start order functions of
        None \<Rightarrow> None
      | Some (order, functions) \<Rightarrow> apply_order rest order functions)"

definition function_order :: "gfunction list \<Rightarrow> (address_range \<times> nat) list" where
  "function_order functions =
     concat (map (order_group functions)
       (chunk_runs (sort (map (\<lambda>(index, fn). (fn_range fn, index)) (zip [0..<length functions] functions)))))"

definition sort_by_ordering_key_loop :: "gfunction list \<Rightarrow> gfunction list option" where
  "sort_by_ordering_key_loop functions =
     apply_order [0..<length (function_order functions)] (function_order functions) functions"

definition sort_by_ordering_key :: "gfunction list \<Rightarrow> gfunction list" where
  "sort_by_ordering_key functions = the (sort_by_ordering_key_loop functions)"

section \<open>Equal ranges\<close>

fun set_fn_merged where
  "set_fn_merged v (Function rng name lns inline merged sites) = Function rng name lns inline v sites"

fun set_fn_name where
  "set_fn_name v (Function rng name lns inline merged sites) = Function rng v lns inline merged sites"

text \<open>\<open>mem::take\<close> leaves a default function behind, which is dropped.\<close>

definition merge_equal_ranges :: "gfunction list \<Rightarrow> gfunction list" where
  "merge_equal_ranges =
     dedup_by (\<lambda>fn parent.
       if fn_range parent \<noteq> fn_range fn then (False, fn, parent)
       else
         let previous = (if fn_merged parent = [] then parent else last (fn_merged parent)) in
         (True, fn, if previous \<noteq> fn then set_fn_merged (fn_merged parent @ [fn]) parent else parent))"

definition has_rich_info :: "gfunction \<Rightarrow> bool" where
  "has_rich_info fn \<longleftrightarrow> fn_lines fn \<noteq> [] \<or> fn_inline fn \<noteq> None \<or> fn_call_sites fn \<noteq> []"

definition bytes_of_string :: "string \<Rightarrow> bytes" where
  "bytes_of_string = map of_char"

definition starts_with :: "bytes \<Rightarrow> bytes \<Rightarrow> bool" where
  "starts_with name prefix \<longleftrightarrow> take (length prefix) name = prefix"

definition is_supported_mangled :: "bytes \<Rightarrow> bool" where
  "is_supported_mangled name \<longleftrightarrow>
     starts_with name (bytes_of_string ''_Z'') \<or> starts_with name (bytes_of_string ''$s'')
     \<or> starts_with name (bytes_of_string ''$S'')"

definition some_window :: "bytes \<Rightarrow> bytes \<Rightarrow> bool" where
  "some_window token xs \<longleftrightarrow>
     list_ex (\<lambda>i. take (length token) (drop i xs) = token) [0..<Suc (length xs) - length token]"

definition should_replace_with_mangled_name :: "bytes \<Rightarrow> bytes \<Rightarrow> bool" where
  "should_replace_with_mangled_name alternate current =
     (if current = [] then alternate \<noteq> []
      else if is_supported_mangled current \<or> \<not> is_supported_mangled alternate then False
      else some_window (bytes_of_string (decimal (length current)) @ current) alternate)"

definition deduplicate :: "gfunction list \<Rightarrow> gfunction list" where
  "deduplicate =
     dedup_by (\<lambda>fn previous.
       if fn_range previous = fn_range fn then
         let previous_rich = has_rich_info previous; current_rich = has_rich_info fn in
         if previous_rich \<noteq> current_rich then
           let fn = (if \<not> previous_rich \<and> should_replace_with_mangled_name (fn_name previous) (fn_name fn)
                     then set_fn_name (fn_name previous) fn else fn) in
           if current_rich then (True, previous, fn) else (True, fn, previous)
         else if previous \<noteq> fn then (True, previous, fn)
         else (True, fn, previous)
       else if range_is_empty (fn_range previous) \<and> range_contains (fn_range fn) (r_start (fn_range previous))
       then (True, previous, fn)
       else (False, fn, previous))"

section \<open>The last function's range\<close>

fun repair_keeps_records :: "address_range \<Rightarrow> gfunction \<Rightarrow> bool" where
  "repair_keeps_records repaired (Function rng name lns inline merged sites) \<longleftrightarrow>
     list_all (\<lambda>ln. range_contains repaired (row_address ln)) lns
     \<and> list_all (\<lambda>site. return_offset site < range_size repaired) sites
     \<and> (case inline of None \<Rightarrow> True
        | Some node \<Rightarrow> list_all (\<lambda>r. contains_range repaired r) (node_ranges node))
     \<and> list_all (repair_keeps_records repaired) merged"

fun repair_merged_ranges :: "address_range \<Rightarrow> gfunction \<Rightarrow> gfunction" where
  "repair_merged_ranges repaired (Function rng name lns inline merged sites) =
     Function repaired name lns inline (map (repair_merged_ranges repaired) merged) sites"

definition repaired_range :: "builder_options \<Rightarrow> u64 \<Rightarrow> address_range" where
  "repaired_range options start =
     (let stop = (case find (\<lambda>r. range_contains r start) (bo_executable_ranges options) of
                    None \<Rightarrow> start | Some r \<Rightarrow> r_end r) in
      mk_range start (saturating_add_u64 start (min (saturating_sub_u64 stop start) 0xFFFFFFFF)))"

definition repair_final_range :: "gfunction list \<Rightarrow> builder_options \<Rightarrow> gfunction list" where
  "repair_final_range functions options =
     (if bo_repair_zero_sized_functions options \<and> functions \<noteq> [] \<and> range_is_empty (fn_range (last functions))
      then
        let repaired = repaired_range options (r_start (fn_range (last functions))) in
        if repair_keeps_records repaired (last functions)
        then butlast functions @ [repair_merged_ranges repaired (last functions)]
        else functions
      else functions)"

definition finalize :: "gfunction list \<Rightarrow> builder_options \<Rightarrow> function_set_policy \<Rightarrow> gfunction list" where
  "finalize functions options function_set =
     (let functions = sort_by_ordering_key (compact_function_lines functions);
          functions = (case function_set of
              MergeEqualRanges \<Rightarrow> merge_equal_ranges functions
            | Deduplicate \<Rightarrow> deduplicate functions
            | Preserve \<Rightarrow> functions) in
      repair_final_range functions options)"

end
