(* ===== verification/Interner.thy ===== *)
theory Interner
  imports Prelude
begin

text \<open>
  The interface that the builder's file table and the writer's string table share: values are added one by one
  and are known afterwards under the index they were given. The laws are those of the two tables, and the facts
  about a sequence of additions are proved here once. \<open>Builder\<close> interprets the interface on \<open>add_file\<close>,
  \<open>Semantic\<close> on \<open>intern\<close>.
\<close>

section \<open>Traversals with a state\<close>

text \<open>\<open>map(...).collect()\<close> with a state that the closure borrows: \<open>map_state\<close>, and \<open>map_state_ok\<close> where
  the step may fail.\<close>

fun map_state :: "('a \<Rightarrow> 's \<Rightarrow> 'b \<times> 's) \<Rightarrow> 'a list \<Rightarrow> 's \<Rightarrow> 'b list \<times> 's" where
  "map_state f [] s = ([], s)"
| "map_state f (x # xs) s = (let (y, s) = f x s; (ys, s) = map_state f xs s in (y # ys, s))"

fun map_state_ok :: "('a \<Rightarrow> 's \<Rightarrow> 'e + ('b \<times> 's)) \<Rightarrow> 'a list \<Rightarrow> 's \<Rightarrow> 'e + ('b list \<times> 's)" where
  "map_state_ok f [] s = Inr ([], s)"
| "map_state_ok f (x # xs) s =
     let_ok (f x s) (\<lambda>(y, s). let_ok (map_state_ok f xs s) (\<lambda>(ys, s). Inr (y # ys, s)))"

lemma map_state_ok_cong [fundef_cong]:
  "xs = ys \<Longrightarrow> s = t \<Longrightarrow> (\<And>x u. x \<in> set ys \<Longrightarrow> f x u = g x u) \<Longrightarrow> map_state_ok f xs s = map_state_ok g ys t"
proof (induction xs arbitrary: ys s t)
  case (Cons x xs)
  have IH: "map_state_ok f xs u = map_state_ok g xs u" for u using Cons by auto
  show ?case using Cons.prems by (cases "g x t") (auto simp: IH)
qed simp

lemma map_state_ok_total: "map_state_ok (\<lambda>x s. Inr (f x s)) xs s = Inr (map_state f xs s)"
  by (induction xs arbitrary: s) (auto simp: case_prod_unfold Let_def)

lemma map_state_ok_length: "map_state_ok f xs s = Inr (ys, t) \<Longrightarrow> length ys = length xs"
  by (induction xs arbitrary: s ys) auto

section \<open>The interface\<close>

text \<open>\<open>known s i v\<close>: the table \<open>s\<close> has the value \<open>v\<close> under the index \<open>i\<close>. \<open>fits s\<close> bounds the size
  of a table whose indices its index type represents; the string table does not check it.\<close>

locale interner =
  fixes invar :: "'s \<Rightarrow> bool" and fits :: "'s \<Rightarrow> bool" and known :: "'s \<Rightarrow> 'i \<Rightarrow> 'v \<Rightarrow> bool"
    and add :: "'v \<Rightarrow> 's \<Rightarrow> 'e + ('i \<times> 's)"
  assumes fits_before: "add v s = Inr (i, t) \<Longrightarrow> fits t \<Longrightarrow> fits s"
    and invar_add: "invar s \<Longrightarrow> add v s = Inr (i, t) \<Longrightarrow> fits t \<Longrightarrow> invar t"
    and known_add: "invar s \<Longrightarrow> add v s = Inr (i, t) \<Longrightarrow> fits t \<Longrightarrow> known t i v"
    and known_stable: "invar s \<Longrightarrow> add v s = Inr (i, t) \<Longrightarrow> fits t \<Longrightarrow> known s j w \<Longrightarrow> known t j w"
    and add_known: "invar s \<Longrightarrow> fits s \<Longrightarrow> known s i v \<Longrightarrow> add v s = Inr (i, s)"
    and known_unique: "invar s \<Longrightarrow> fits s \<Longrightarrow> known s i v \<Longrightarrow> known s i w \<Longrightarrow> v = w"
begin

lemma known_index: "invar s \<Longrightarrow> fits s \<Longrightarrow> known s i v \<Longrightarrow> known s j v \<Longrightarrow> i = j"
  using add_known[of s i v] add_known[of s j v] by auto

text \<open>A table that grew out of another one keeps what that one knew.\<close>

definition extends :: "'s \<Rightarrow> 's \<Rightarrow> bool" where
  "extends s t \<longleftrightarrow> invar t \<and> fits t \<and> (\<forall>i v. known s i v \<longrightarrow> known t i v)"

lemma extends_refl: "invar s \<Longrightarrow> fits s \<Longrightarrow> extends s s"
  by (simp add: extends_def)

lemma extends_trans: "extends s t \<Longrightarrow> extends t u \<Longrightarrow> extends s u"
  by (simp add: extends_def)

lemma extends_known: "extends s t \<Longrightarrow> known s i v \<Longrightarrow> known t i v"
  by (simp add: extends_def)

lemma extends_ok: "extends s t \<Longrightarrow> invar t \<and> fits t"
  by (simp add: extends_def)

lemma extends_add: "invar s \<Longrightarrow> add v s = Inr (i, t) \<Longrightarrow> fits t \<Longrightarrow> extends s t"
  using invar_add known_stable by (auto simp: extends_def)

lemma add_list_fits: "map_state_ok add vs s = Inr (is, t) \<Longrightarrow> fits t \<Longrightarrow> fits s"
proof (induction vs arbitrary: s "is")
  case (Cons v vs)
  then obtain i u js where u: "add v s = Inr (i, u)" "map_state_ok add vs u = Inr (js, t)" by auto
  show ?case using fits_before[OF u(1)] Cons.IH[OF u(2)] Cons.prems(2) by blast
qed simp

lemma add_list:
  "map_state_ok add vs s = Inr (is, t) \<Longrightarrow> invar s \<Longrightarrow> fits t \<Longrightarrow> extends s t \<and> list_all2 (known t) is vs"
proof (induction vs arbitrary: s "is")
  case Nil
  then show ?case by (simp add: extends_refl)
next
  case (Cons v vs)
  then obtain i u js where u: "add v s = Inr (i, u)" "map_state_ok add vs u = Inr (js, t)" "is = i # js" by auto
  have f: "fits u" using add_list_fits[OF u(2) Cons.prems(3)] .
  have e: "extends s u" using extends_add[OF Cons.prems(2) u(1) f] .
  have IH: "extends u t" "list_all2 (known t) js vs" using Cons.IH[OF u(2)] e Cons.prems(3) by (simp_all add: extends_def)
  have "known t i v" using extends_known[OF IH(1) known_add[OF Cons.prems(2) u(1) f]] .
  then show ?case using extends_trans[OF e IH(1)] IH(2) by (simp add: u(3))
qed

text \<open>The indices given to a list of values are equal exactly where the values are.\<close>

lemma add_list_injective:
  assumes "map_state_ok add vs s = Inr (is, t)" "invar s" "fits t" "a < length vs" "b < length vs"
  shows "is ! a = is ! b \<longleftrightarrow> vs ! a = vs ! b"
proof -
  have l: "extends s t" "list_all2 (known t) is vs" using add_list[OF assms(1-3)] by simp_all
  have k: "known t (is ! n) (vs ! n)" if "n < length vs" for n
    using list_all2_nthD2[OF l(2) that] .
  show ?thesis
    using k[OF assms(4)] k[OF assms(5)] known_index known_unique extends_ok[OF l(1)] by metis
qed

text \<open>Adding the same values again finds them all and leaves the table as it is.\<close>

lemma add_list_again:
  "map_state_ok add vs s = Inr (is, t) \<Longrightarrow> invar s \<Longrightarrow> fits t \<Longrightarrow> map_state_ok add vs t = Inr (is, t)"
proof -
  have "list_all2 (known t) is vs \<Longrightarrow> invar t \<Longrightarrow> fits t \<Longrightarrow> map_state_ok add vs t = Inr (is, t)" for vs t "is"
  proof (induction vs arbitrary: "is")
    case (Cons v vs)
    then obtain i js where k: "is = i # js" "known t i v" "list_all2 (known t) js vs" by (auto simp: list_all2_Cons2)
    show ?case using Cons.IH[OF k(3)] add_known[OF Cons.prems(2,3) k(2)] Cons.prems by (simp add: k(1))
  qed simp
  then show "map_state_ok add vs s = Inr (is, t) \<Longrightarrow> invar s \<Longrightarrow> fits t \<Longrightarrow> map_state_ok add vs t = Inr (is, t)"
    using add_list extends_ok by blast
qed

text \<open>A computation that threads a table through: it only lets the table grow, and its result satisfies \<open>P\<close> in
  every table that grew out of the one it leaves.\<close>

definition grows :: "('s \<Rightarrow> 'e + ('b \<times> 's)) \<Rightarrow> ('s \<Rightarrow> 'b \<Rightarrow> bool) \<Rightarrow> bool" where
  "grows m P \<longleftrightarrow> (\<forall>s y t. m s = Inr (y, t) \<longrightarrow> fits t \<longrightarrow>
     fits s \<and> (invar s \<longrightarrow> extends s t \<and> (\<forall>u. extends t u \<longrightarrow> P u y)))"

lemma growsI:
  "(\<And>s y t. m s = Inr (y, t) \<Longrightarrow> fits t \<Longrightarrow> fits s \<and> (invar s \<longrightarrow> extends s t \<and> (\<forall>u. extends t u \<longrightarrow> P u y))) \<Longrightarrow> grows m P"
  by (simp add: grows_def)

lemma growsD: "grows m P \<Longrightarrow> m s = Inr (y, t) \<Longrightarrow> fits t \<Longrightarrow> fits s"
  "grows m P \<Longrightarrow> m s = Inr (y, t) \<Longrightarrow> fits t \<Longrightarrow> invar s \<Longrightarrow> extends s t"
  "grows m P \<Longrightarrow> m s = Inr (y, t) \<Longrightarrow> fits t \<Longrightarrow> invar s \<Longrightarrow> extends t u \<Longrightarrow> P u y"
  unfolding grows_def by blast+

lemma grows_add: "grows (add v) (\<lambda>u i. known u i v)"
  by (rule growsI) (use fits_before extends_add known_add extends_known in blast)

lemma grows_return: "(\<And>u. P u x) \<Longrightarrow> grows (\<lambda>s. Inr (x, s)) P"
  by (rule growsI) (auto simp: extends_refl)

lemma grows_bind:
  assumes m: "grows m P" and k: "\<And>y. grows (k y) (\<lambda>u z. P u y \<longrightarrow> Q u z)"
  shows "grows (\<lambda>s. let_ok (m s) (\<lambda>(y, s). k y s)) Q"
proof (rule growsI)
  fix s z t
  assume "let_ok (m s) (\<lambda>(y, s). k y s) = Inr (z, t)" and t: "fits t"
  then obtain y v where v: "m s = Inr (y, v)" "k y v = Inr (z, t)" by auto
  have f: "fits v" by (rule growsD(1)[OF k v(2) t])
  have "extends s t \<and> (\<forall>u. extends t u \<longrightarrow> Q u z)" if s: "invar s"
  proof -
    have sv: "extends s v" by (rule growsD(2)[OF m v(1) f s])
    then have i: "invar v" by (simp add: extends_def)
    have vt: "extends v t" by (rule growsD(2)[OF k v(2) t i])
    then show ?thesis
      using extends_trans[OF sv vt] growsD(3)[OF k v(2) t i] growsD(3)[OF m v(1) f s] extends_trans[OF vt] by blast
  qed
  then show "fits s \<and> (invar s \<longrightarrow> extends s t \<and> (\<forall>u. extends t u \<longrightarrow> Q u z))"
    using growsD(1)[OF m v(1) f] by blast
qed

lemma grows_mono: "grows m P \<Longrightarrow> (\<And>u y. P u y \<Longrightarrow> Q u y) \<Longrightarrow> grows m Q"
  unfolding grows_def by blast

lemma grows_fail: "grows (\<lambda>s. Inl e) P"
  by (simp add: grows_def)

lemma grows_map: "(\<And>x. x \<in> set xs \<Longrightarrow> grows (f x) (\<lambda>u y. P u x y)) \<Longrightarrow> grows (map_state_ok f xs) (\<lambda>u ys. list_all2 (P u) xs ys)"
proof (induction xs)
  case Nil
  have "map_state_ok f [] = (\<lambda>s. Inr ([], s))" by auto
  then show ?case by (simp add: grows_return)
next
  case (Cons x xs)
  have eq: "map_state_ok f (x # xs) = (\<lambda>s. let_ok (f x s) (\<lambda>(y, s). let_ok (map_state_ok f xs s) (\<lambda>(ys, s). Inr (y # ys, s))))"
    by auto
  have "grows (map_state_ok f xs) (\<lambda>u ys. list_all2 (P u) xs ys)" using Cons by auto
  then have rest: "grows (\<lambda>s. let_ok (map_state_ok f xs s) (\<lambda>(ys, s). Inr (y # ys, s))) (\<lambda>u zs. P u x y \<longrightarrow> list_all2 (P u) (x # xs) zs)" for y
    by (rule grows_bind) (auto intro: grows_return)
  show ?case unfolding eq by (rule grows_bind[OF Cons.prems], simp, rule rest)
qed

end

end
