(* ===== verification/Builder.thy ===== *)
theory Builder
  imports Finalize Interner
begin

text \<open>
  \<open>src/builder.rs\<close>: the builder, which interns files and validates functions as they are added.
  hashbrown's \<open>HashTable\<close> and the hash functions are parameters: \<open>hash_table\<close> holds the three
  operations the crate uses and an abstraction \<open>ht_contents\<close> of the table, and \<open>lawful_table\<close>
  states what hashbrown documents of them. The hasher argument of \<open>insert_unique\<close> returns the
  hash stored in the entry. \<open>file_hash\<close> stands for \<open>RandomState::hash_one\<close>.
\<close>

section \<open>Hash tables\<close>

record ('t, 'e) hash_table =
  ht_new :: 't
  ht_find :: "u64 \<Rightarrow> ('e \<Rightarrow> bool) \<Rightarrow> 't \<Rightarrow> 'e option"
  ht_insert_unique :: "u64 \<Rightarrow> 'e \<Rightarrow> ('e \<Rightarrow> u64) \<Rightarrow> 't \<Rightarrow> 't"
  ht_contents :: "'t \<Rightarrow> (u64 \<times> 'e) set"

text \<open>\<open>find\<close> may test any entry, and returns one that passes; if an entry with the given hash
  passes, it finds one.\<close>

definition lawful_table :: "('t, 'e) hash_table \<Rightarrow> bool" where
  "lawful_table ht \<longleftrightarrow>
     ht_contents ht (ht_new ht) = {}
     \<and> (\<forall>h e hasher t. hasher e = h \<longrightarrow>
          ht_contents ht (ht_insert_unique ht h e hasher t) = insert (h, e) (ht_contents ht t))
     \<and> (\<forall>h eq t e. ht_find ht h eq t = Some e \<longrightarrow> eq e \<and> e \<in> snd ` ht_contents ht t)
     \<and> (\<forall>h eq t e. ht_find ht h eq t = None \<longrightarrow> (h, e) \<in> ht_contents ht t \<longrightarrow> \<not> eq e)"

text \<open>An association list with these laws, for evaluation.\<close>

definition list_table :: "((u64 \<times> 'e) list, 'e) hash_table" where
  "list_table = \<lparr>ht_new = [],
     ht_find = \<lambda>h eq t. map_option snd (find (\<lambda>(h', e). h' = h \<and> eq e) t),
     ht_insert_unique = \<lambda>h e hasher t. (h, e) # t, ht_contents = set\<rparr>"

lemma lawful_list_table: "lawful_table (list_table :: (_, 'e) hash_table)"
  unfolding lawful_table_def
proof (intro conjI allI impI)
  fix h eq t and e :: 'e
  assume "ht_find list_table h eq t = Some e"
  then obtain h' where f: "find (\<lambda>(h', e). h' = h \<and> eq e) t = Some (h', e)" by (auto simp: list_table_def)
  then have m: "(h', e) \<in> set t" "eq e"
    unfolding find_Some_iff by (metis (mono_tags, lifting) nth_mem case_prod_conv)+
  show "eq e" by (rule m(2))
  show "e \<in> snd ` ht_contents list_table t" using m(1) by (auto simp: list_table_def intro: rev_image_eqI)
next
  fix h eq t and e :: 'e
  assume "ht_find list_table h eq t = None" "(h, e) \<in> ht_contents list_table t"
  then show "\<not> eq e" by (auto simp: list_table_def find_None_iff)
qed (simp_all add: list_table_def)

section \<open>The builder\<close>

record file_slot =
  slot_index :: u32
  slot_hash :: u64

record 't gsym_builder =
  b_options :: builder_options
  b_function_set :: function_set_policy
  b_files :: "file_entry list"
  b_file_index :: 't
  b_functions :: "gfunction list"
  b_maximum_file_index :: file_index

record 't file_env =
  file_table :: "('t, file_slot) hash_table"
  file_hash :: "file_entry \<Rightarrow> u64"

definition interned_file :: "file_entry list \<Rightarrow> u32 \<Rightarrow> file_entry option" where
  "interned_file files index = nth_get files (unat index)"

definition builder_new :: "'t file_env \<Rightarrow> 't gsym_builder" where
  "builder_new env =
     (let slot = \<lparr>slot_index = 0, slot_hash = file_hash env file_entry_default\<rparr> in
      \<lparr>b_options = builder_options_default, b_function_set = Deduplicate, b_files = [file_entry_default],
       b_file_index = ht_insert_unique (file_table env) (slot_hash slot) slot slot_hash (ht_new (file_table env)),
       b_functions = [], b_maximum_file_index = 0\<rparr>)"

definition builder_with_options :: "'t file_env \<Rightarrow> builder_options \<Rightarrow> 't gsym_builder" where
  "builder_with_options env options =
     (builder_new env)\<lparr>b_function_set :=
         (if bo_merge_equal_address_functions options then MergeEqualRanges else Deduplicate),
       b_options := options\<rparr>"

definition builder_set_version :: "gsym_version \<Rightarrow> 't gsym_builder \<Rightarrow> 't gsym_builder" where
  "builder_set_version v b =
     b\<lparr>b_options := (b_options b)\<lparr>bo_writer := (bo_writer (b_options b))\<lparr>wo_version := v\<rparr>\<rparr>\<rparr>"

definition builder_set_endian :: "endian \<Rightarrow> 't gsym_builder \<Rightarrow> 't gsym_builder" where
  "builder_set_endian e b =
     b\<lparr>b_options := (b_options b)\<lparr>bo_writer := (bo_writer (b_options b))\<lparr>wo_endian := e\<rparr>\<rparr>\<rparr>"

definition builder_set_base_address :: "u64 \<Rightarrow> 't gsym_builder \<Rightarrow> 't gsym_builder" where
  "builder_set_base_address address b =
     b\<lparr>b_options := (b_options b)\<lparr>bo_writer := (bo_writer (b_options b))\<lparr>wo_base_address := Some address\<rparr>\<rparr>\<rparr>"

definition builder_set_build_id :: "bytes \<Rightarrow> 't gsym_builder \<Rightarrow> 't gsym_builder" where
  "builder_set_build_id build_id b =
     b\<lparr>b_options := (b_options b)\<lparr>bo_writer := (bo_writer (b_options b))\<lparr>wo_build_id := build_id\<rparr>\<rparr>\<rparr>"

definition builder_repair_zero_sized :: "bool \<Rightarrow> 't gsym_builder \<Rightarrow> 't gsym_builder" where
  "builder_repair_zero_sized enabled b =
     b\<lparr>b_options := (b_options b)\<lparr>bo_repair_zero_sized_functions := enabled\<rparr>\<rparr>"

definition builder_set_function_set :: "function_set_policy \<Rightarrow> 't gsym_builder \<Rightarrow> 't gsym_builder" where
  "builder_set_function_set policy b =
     b\<lparr>b_options := (b_options b)\<lparr>bo_merge_equal_address_functions := (policy = MergeEqualRanges)\<rparr>,
       b_function_set := policy\<rparr>"

definition builder_merge_equal_address :: "bool \<Rightarrow> 't gsym_builder \<Rightarrow> 't gsym_builder" where
  "builder_merge_equal_address enabled b =
     b\<lparr>b_options := (b_options b)\<lparr>bo_merge_equal_address_functions := enabled\<rparr>,
       b_function_set := (if enabled then MergeEqualRanges else Deduplicate)\<rparr>"

definition builder_executable_ranges :: "address_range list \<Rightarrow> 't gsym_builder \<Rightarrow> 't gsym_builder" where
  "builder_executable_ranges ranges b =
     b\<lparr>b_options := (b_options b)\<lparr>bo_executable_ranges := ranges\<rparr>\<rparr>"

definition add_file :: "'t file_env \<Rightarrow> file_entry \<Rightarrow> 't gsym_builder \<Rightarrow> (file_index \<times> 't gsym_builder) result" where
  "add_file env f b =
     (let hash = file_hash env f in
      case ht_find (file_table env) hash (\<lambda>slot. interned_file (b_files b) (slot_index slot) = Some f) (b_file_index b) of
        Some slot \<Rightarrow> Inr (slot_index slot, b)
      | None \<Rightarrow>
          let_ok (ok_or (u32_try_from (length (b_files b)))
            (Limit ''file table'' (word_of_nat (length (b_files b))) 0xFFFFFFFF)) (\<lambda>index.
          Inr (index, b\<lparr>b_files := b_files b @ [f],
              b_file_index := ht_insert_unique (file_table env) hash
                \<lparr>slot_index = index, slot_hash = hash\<rparr> slot_hash (b_file_index b)\<rparr>)))"

definition add_function :: "gfunction \<Rightarrow> 't gsym_builder \<Rightarrow> 't gsym_builder result" where
  "add_function fn b =
     let_ok (validate_for_builder fn) (\<lambda>maximum.
     Inr (b\<lparr>b_maximum_file_index := max (b_maximum_file_index b) maximum, b_functions := b_functions b @ [fn]\<rparr>))"

definition validate_file_references :: "'t gsym_builder \<Rightarrow> unit result" where
  "validate_file_references b =
     (if unat (b_maximum_file_index b) \<ge> length (b_files b)
      then fold_ok (\<lambda>fn _. validate_function_files (length (b_files b)) fn) (b_functions b) ()
      else Inr ())"

lemma lawful_new: "lawful_table ht \<Longrightarrow> ht_contents ht (ht_new ht) = {}"
  unfolding lawful_table_def by blast

lemma lawful_insert:
  "lawful_table ht \<Longrightarrow> hasher e = h \<Longrightarrow> ht_contents ht (ht_insert_unique ht h e hasher t) = insert (h, e) (ht_contents ht t)"
  unfolding lawful_table_def by blast

lemma lawful_find: "lawful_table ht \<Longrightarrow> ht_find ht h eq t = Some e \<Longrightarrow> eq e \<and> e \<in> snd ` ht_contents ht t"
  unfolding lawful_table_def by blast

lemma lawful_find_None: "lawful_table ht \<Longrightarrow> ht_find ht h eq t = None \<Longrightarrow> (h, e) \<in> ht_contents ht t \<Longrightarrow> \<not> eq e"
  unfolding lawful_table_def by blast

section \<open>The file table as an interner\<close>

definition file_known :: "'t gsym_builder \<Rightarrow> u32 \<Rightarrow> file_entry \<Rightarrow> bool" where
  "file_known b index f \<longleftrightarrow> interned_file (b_files b) index = Some f"

text \<open>The hash table of a builder holds one slot per file, under the file's hash, and no file occurs twice.\<close>

definition file_invar :: "'t file_env \<Rightarrow> 't gsym_builder \<Rightarrow> bool" where
  "file_invar env b \<longleftrightarrow>
     lawful_table (file_table env) \<and> distinct (b_files b) \<and> length (b_files b) \<le> 2 ^ 32
     \<and> (\<forall>i. unat i < length (b_files b) \<longrightarrow>
          (file_hash env (b_files b ! unat i), \<lparr>slot_index = i, slot_hash = file_hash env (b_files b ! unat i)\<rparr>)
            \<in> ht_contents (file_table env) (b_file_index b))"

lemma u32_try_from_eq: "u32_try_from n = Some i \<longleftrightarrow> n < 2 ^ 32 \<and> unat i = n"
  by (auto simp: u32_try_from_def unat_of_nat take_bit_nat_eq_self intro!: unat_eqI)

lemma add_file_cases:
  assumes "file_invar env b" "add_file env f b = Inr (i, c)"
  shows "c = b \<and> file_known b i f \<or>
    f \<notin> set (b_files b) \<and> unat i = length (b_files b) \<and> length (b_files b) < 2 ^ 32
    \<and> c = b\<lparr>b_files := b_files b @ [f], b_file_index := ht_insert_unique (file_table env) (file_hash env f)
          \<lparr>slot_index = i, slot_hash = file_hash env f\<rparr> slot_hash (b_file_index b)\<rparr>"
proof (cases "ht_find (file_table env) (file_hash env f) (\<lambda>slot. interned_file (b_files b) (slot_index slot) = Some f) (b_file_index b)")
  case (Some slot)
  then have "interned_file (b_files b) (slot_index slot) = Some f"
    using lawful_find[OF _ Some] assms(1) by (simp add: file_invar_def)
  then show ?thesis using assms(2) Some by (auto simp: add_file_def file_known_def)
next
  case None
  have "f \<notin> set (b_files b)"
  proof
    assume "f \<in> set (b_files b)"
    then obtain n where n: "n < length (b_files b)" "b_files b ! n = f" by (auto simp: in_set_conv_nth)
    define j :: u32 where "j = word_of_nat n"
    have j: "unat j = n" using n(1) assms(1) by (simp add: j_def file_invar_def unat_of_nat take_bit_nat_eq_self)
    have "(file_hash env f, \<lparr>slot_index = j, slot_hash = file_hash env f\<rparr>) \<in> ht_contents (file_table env) (b_file_index b)"
      using assms(1) n j unfolding file_invar_def by metis
    moreover have "interned_file (b_files b) j = Some f" using n j by (simp add: interned_file_def nth_get_def)
    ultimately show False using lawful_find_None[OF _ None, of "\<lparr>slot_index = j, slot_hash = file_hash env f\<rparr>"] assms(1)
      by (simp add: file_invar_def)
  qed
  then show ?thesis using assms(2) unfolding add_file_def Let_def None
    by (auto simp: u32_try_from_eq ok_simps)
qed

lemma file_known_nth: "file_known b i f \<longleftrightarrow> unat i < length (b_files b) \<and> b_files b ! unat i = f"
  by (auto simp: file_known_def interned_file_def nth_get_def)

lemma file_invar_push:
  assumes "file_invar env b" "f \<notin> set (b_files b)" "unat i = length (b_files b)" "length (b_files b) < 2 ^ 32"
    and "t = ht_insert_unique (file_table env) (file_hash env f) \<lparr>slot_index = i, slot_hash = file_hash env f\<rparr> slot_hash (b_file_index b)"
  shows "file_invar env (b\<lparr>b_files := b_files b @ [f], b_file_index := t\<rparr>)"
proof -
  have c: "ht_contents (file_table env) t = insert (file_hash env f, \<lparr>slot_index = i, slot_hash = file_hash env f\<rparr>)
      (ht_contents (file_table env) (b_file_index b))"
    unfolding assms(5) by (rule lawful_insert) (use assms(1) in \<open>simp_all add: file_invar_def\<close>)
  have slots: "(file_hash env g, \<lparr>slot_index = j, slot_hash = file_hash env g\<rparr>) \<in> ht_contents (file_table env) t"
    if j: "unat j < Suc (length (b_files b))" and g: "g = (b_files b @ [f]) ! unat j" for j g
  proof (cases "unat j = length (b_files b)")
    case True
    then have "j = i" using assms(3) by (intro unat_eqI) simp
    then show ?thesis using g True by (simp add: c)
  next
    case False
    then have "unat j < length (b_files b)" using j by simp
    then show ?thesis using assms(1) g by (simp add: file_invar_def c nth_append)
  qed
  show ?thesis using assms(1,2,4) slots by (simp add: file_invar_def)
qed

lemma add_file_known:
  assumes "file_invar env b" "file_known b i f"
  shows "add_file env f b = Inr (i, b)"
proof -
  define hash where "hash = file_hash env f"
  have k: "unat i < length (b_files b)" "b_files b ! unat i = f" using assms(2) by (auto simp: file_known_nth)
  then have m: "(hash, \<lparr>slot_index = i, slot_hash = hash\<rparr>) \<in> ht_contents (file_table env) (b_file_index b)"
    using assms(1) by (auto simp: file_invar_def hash_def)
  have law: "lawful_table (file_table env)" and d: "distinct (b_files b)" using assms(1) by (simp_all add: file_invar_def)
  let ?find = "ht_find (file_table env) hash (\<lambda>slot. interned_file (b_files b) (slot_index slot) = Some f) (b_file_index b)"
  have "?find \<noteq> None"
  proof
    assume n: "?find = None"
    show False using lawful_find_None[OF law n m] k by (simp add: interned_file_def nth_get_def)
  qed
  then obtain slot where s: "?find = Some slot" by blast
  have "interned_file (b_files b) (slot_index slot) = Some f" using lawful_find[OF law s] by simp
  then have "unat (slot_index slot) = unat i"
    using k d nth_eq_iff_index_eq[OF d] by (simp add: interned_file_def ok_simps)
  then have "slot_index slot = i" by (rule unat_eqI)
  then show ?thesis using s by (simp add: add_file_def hash_def[symmetric])
qed

interpretation file_set: interner "file_invar env" "\<lambda>b. True" file_known "add_file env" for env
proof (unfold_locales, goal_cases)
  case (2 b f i c)
  then show ?case using add_file_cases[OF 2(1,2)] file_invar_push[of env b f i] by auto
next
  case (3 b f i c)
  then show ?case using add_file_cases[OF 3(1,2)] by (auto simp: file_known_nth)
next
  case (4 b f i c j w)
  then show ?case using add_file_cases[OF 4(1,2)] by (auto simp: file_known_nth nth_append)
next
  case (5 b i f)
  then show ?case using add_file_known by blast
qed (auto simp: file_known_nth)

lemma file_invar_new: "lawful_table (file_table env) \<Longrightarrow> file_invar env (builder_new env)"
  by (auto simp: file_invar_def builder_new_def Let_def lawful_insert lawful_new unat_eq_0)

section \<open>Properties\<close>

text \<open>C25: Adding files to a builder gives every file an index at which the file table then holds it; two additions
  get the same index exactly when the files are equal; files that were there before keep their index; and adding the
  same files again finds them all and changes nothing.\<close>

theorem add_file_interns:
  assumes "file_invar env b" and "map_state_ok (add_file env) fs b = Inr (indices, c)"
  shows "file_invar env c \<and> list_all2 (\<lambda>i f. interned_file (b_files c) i = Some f) indices fs
    \<and> (\<forall>i f. interned_file (b_files b) i = Some f \<longrightarrow> interned_file (b_files c) i = Some f)
    \<and> (\<forall>m n. m < length fs \<and> n < length fs \<longrightarrow> (indices ! m = indices ! n \<longleftrightarrow> fs ! m = fs ! n))
    \<and> map_state_ok (add_file env) fs c = Inr (indices, c)"
proof -
  have e: "file_set.extends env b c" "list_all2 (file_known c) indices fs"
    using file_set.add_list[OF assms(2,1)] by simp_all
  show ?thesis
    using e(1)[unfolded file_set.extends_def] e(2) file_set.add_list_injective[OF assms(2,1)]
      file_set.add_list_again[OF assms(2,1)]
    unfolding file_known_def[abs_def] by blast
qed

lemma add_file_interns_witness:
  "\<exists>c. map_state_ok (add_file \<lparr>file_table = list_table, file_hash = \<lambda>f. word_of_nat (length (file_basename f))\<rparr>)
      [\<lparr>file_directory = [], file_basename = [97]\<rparr>, \<lparr>file_directory = [], file_basename = [98]\<rparr>,
       \<lparr>file_directory = [], file_basename = [97]\<rparr>]
      (builder_new \<lparr>file_table = list_table, file_hash = \<lambda>f. word_of_nat (length (file_basename f))\<rparr>) = Inr ([1, 2, 1], c)
    \<and> map (interned_file (b_files c)) [1, 2]
      = [Some \<lparr>file_directory = [], file_basename = [97]\<rparr>, Some \<lparr>file_directory = [], file_basename = [98]\<rparr>]"
  (is "\<exists>c. map_state_ok (add_file ?env) ?fs ?b = Inr (?is, c) \<and> _")
proof -
  have inv: "file_invar ?env ?b" by (simp add: file_invar_new lawful_list_table)
  have "\<exists>c. map_state_ok (add_file ?env) ?fs ?b = Inr (?is, c)"
    by (simp cong: let_ok_weak_cong add: add_file_def builder_new_def list_table_def interned_file_def nth_get_def file_entry_default_def u32_try_from_def)
  then obtain c where c: "map_state_ok (add_file ?env) ?fs ?b = Inr (?is, c)" by blast
  then show ?thesis using add_file_interns[OF inv c] by auto
qed

end
