(* ===== verification/Semantic.thy ===== *)
theory Semantic
  imports Builder
begin

text \<open>
  \<open>src/writer/semantic.rs\<close>: the string table of the writer and the conversion of functions into
  their encoded form. The table is hashbrown's \<open>HashTable\<close>, a parameter as in the builder;
  \<open>bytes_hash\<close> stands for hashing a string with its hasher.
\<close>

record string_entry =
  se_offset :: nat
  se_len :: nat
  se_hash :: u64

record 'u string_env =
  string_entries :: "('u, string_entry) hash_table"
  bytes_hash :: "bytes \<Rightarrow> u64"

record 'u string_table =
  st_bytes :: bytes
  st_entries :: 'u

definition interned :: "bytes \<Rightarrow> string_entry \<Rightarrow> bytes option" where
  "interned bs entry =
     Option.bind (checked_add (se_offset entry) (se_len entry)) (\<lambda>stop. slice_get bs (se_offset entry) stop)"

definition record_string :: "'u string_env \<Rightarrow> nat \<Rightarrow> bytes \<Rightarrow> u64 \<Rightarrow> 'u string_table \<Rightarrow> 'u string_table" where
  "record_string env off s hash table =
     table\<lparr>st_entries := ht_insert_unique (string_entries env) hash
       \<lparr>se_offset = off, se_len = length s, se_hash = hash\<rparr> se_hash (st_entries table)\<rparr>"

definition string_table_new :: "'u string_env \<Rightarrow> 'u string_table" where
  "string_table_new env =
     record_string env 0 [] (bytes_hash env []) \<lparr>st_bytes = [0], st_entries = ht_new (string_entries env)\<rparr>"

definition find_hashed :: "'u string_env \<Rightarrow> bytes \<Rightarrow> u64 \<Rightarrow> 'u string_table \<Rightarrow> u64 option" where
  "find_hashed env s hash table =
     map_option (\<lambda>entry. word_of_nat (se_offset entry))
       (ht_find (string_entries env) hash (\<lambda>entry. interned (st_bytes table) entry = Some s) (st_entries table))"

definition intern :: "'u string_env \<Rightarrow> bytes \<Rightarrow> 'u string_table \<Rightarrow> u64 \<times> 'u string_table" where
  "intern env s table =
     (let hash = bytes_hash env s in
      case find_hashed env s hash table of
        Some off \<Rightarrow> (off, table)
      | None \<Rightarrow>
          let off = length (st_bytes table) in
          (word_of_nat off, record_string env off s hash (table\<lparr>st_bytes := st_bytes table @ s @ [0]\<rparr>)))"

definition intern_files :: "'u string_env \<Rightarrow> file_entry list \<Rightarrow> 'u string_table \<Rightarrow> (u64 \<times> u64) list \<times> 'u string_table" where
  "intern_files env files strings =
     map_state (\<lambda>f strings.
       let (directory, strings) = intern env (file_directory f) strings;
           (basename, strings) = intern env (file_basename f) strings in
       ((directory, basename), strings)) files strings"

fun semantic_inline :: "'u string_env \<Rightarrow> inline_node \<Rightarrow> 'u string_table
    \<Rightarrow> (encoded_inline_node \<times> 'u string_table) result" where
  "semantic_inline env (InlineNode ranges name cfile cline children) strings =
     (let (name, strings) = intern env name strings in
      let_ok (map_state_ok (\<lambda>child strings. semantic_inline env child strings) children strings) (\<lambda>(children, strings).
      Inr (EncodedInlineNode ranges name cfile cline children, strings)))"

definition semantic_call_site :: "'u string_env \<Rightarrow> call_site \<Rightarrow> 'u string_table \<Rightarrow> encoded_call_site \<times> 'u string_table" where
  "semantic_call_site env site strings =
     (let (regexes, strings) = map_state (intern env) (match_regex site) strings in
      (\<lparr>ecs_return_offset = return_offset site, ecs_flags = site_flags site, ecs_match_regex = regexes\<rparr>, strings))"

fun semantic_function_at :: "'u string_env \<Rightarrow> nat \<Rightarrow> gfunction \<Rightarrow> 'u string_table
    \<Rightarrow> (encoded_function \<times> 'u string_table) result" where
  "semantic_function_at env depth (Function rng name lns inline merged sites) strings =
     let_ok (check_merged_depth depth) (\<lambda>_.
     let (name, strings) = intern env name strings;
         lns = (if lns \<noteq> [] then Some lns else None) in
     let_ok (case inline of None \<Rightarrow> Inr (None, strings)
       | Some node \<Rightarrow> let_ok (semantic_inline env node strings) (\<lambda>(node, strings). Inr (Some node, strings)))
       (\<lambda>(inline, strings).
     let_ok (map_state_ok (\<lambda>m strings. semantic_function_at env (depth + 1) m strings) merged strings) (\<lambda>(merged, strings).
     let (sites, strings) = map_state (semantic_call_site env) sites strings in
     Inr (EncodedFunction rng name lns inline merged sites, strings))))"

definition semantic_function :: "'u string_env \<Rightarrow> gfunction \<Rightarrow> 'u string_table
    \<Rightarrow> (encoded_function \<times> 'u string_table) result" where
  "semantic_function env fn strings = semantic_function_at env 0 fn strings"

section \<open>The string table as an interner\<close>

definition string_text :: "bytes \<Rightarrow> string_entry \<Rightarrow> bytes" where
  "string_text bs entry = take (se_len entry) (drop (se_offset entry) bs)"

definition string_known :: "'u string_env \<Rightarrow> 'u string_table \<Rightarrow> u64 \<Rightarrow> bytes \<Rightarrow> bool" where
  "string_known env table off s \<longleftrightarrow>
     (\<exists>entry \<in> snd ` ht_contents (string_entries env) (st_entries table).
        off = word_of_nat (se_offset entry) \<and> s = string_text (st_bytes table) entry)"

lemma string_knownE:
  assumes "string_known env table off s"
  obtains entry where "entry \<in> snd ` ht_contents (string_entries env) (st_entries table)"
    "off = word_of_nat (se_offset entry)" "string_text (st_bytes table) entry = s"
  using assms unfolding string_known_def by metis

text \<open>Every entry denotes a string inside the bytes that a zero byte follows, and is stored under the string's hash;
  two entries are at the same offset exactly when they denote the same string; the empty string is at 0.\<close>

definition string_invar :: "'u string_env \<Rightarrow> 'u string_table \<Rightarrow> bool" where
  "string_invar env table \<longleftrightarrow>
     lawful_table (string_entries env) \<and> length (st_bytes table) < 2 ^ 64
     \<and> (\<forall>(hash, entry) \<in> ht_contents (string_entries env) (st_entries table).
          se_offset entry + se_len entry < length (st_bytes table)
          \<and> st_bytes table ! (se_offset entry + se_len entry) = 0
          \<and> hash = bytes_hash env (string_text (st_bytes table) entry))
     \<and> (\<forall>(h, x) \<in> ht_contents (string_entries env) (st_entries table).
        \<forall>(k, y) \<in> ht_contents (string_entries env) (st_entries table).
          se_offset x = se_offset y \<longleftrightarrow> string_text (st_bytes table) x = string_text (st_bytes table) y)
     \<and> string_known env table 0 []"

definition string_fits :: "'u string_table \<Rightarrow> bool" where
  "string_fits table \<longleftrightarrow> length (st_bytes table) < 2 ^ 64"

lemma string_invar_entry:
  assumes "string_invar env table" "(hash, entry) \<in> ht_contents (string_entries env) (st_entries table)"
  shows "se_offset entry + se_len entry < length (st_bytes table)"
    and "st_bytes table ! (se_offset entry + se_len entry) = 0"
    and "hash = bytes_hash env (string_text (st_bytes table) entry)"
    and "interned (st_bytes table) entry = Some (string_text (st_bytes table) entry)"
  using assms by (auto simp: string_invar_def interned_def checked_add_def slice_get_def string_text_def split: prod.splits)

lemma string_invar_same:
  assumes "string_invar env table" "x \<in> snd ` ht_contents (string_entries env) (st_entries table)"
    "y \<in> snd ` ht_contents (string_entries env) (st_entries table)"
  shows "se_offset x = se_offset y \<longleftrightarrow> string_text (st_bytes table) x = string_text (st_bytes table) y"
  using assms unfolding string_invar_def by fastforce

lemma string_offset_unat:
  assumes "string_invar env table" "entry \<in> snd ` ht_contents (string_entries env) (st_entries table)"
  shows "unat (word_of_nat (se_offset entry) :: u64) = se_offset entry"
proof -
  obtain h where "(h, entry) \<in> ht_contents (string_entries env) (st_entries table)" using assms(2) by force
  from string_invar_entry(1)[OF assms(1) this] have "se_offset entry < 2 ^ 64"
    using assms(1) by (simp add: string_invar_def)
  then show ?thesis by (rule unat_word_of_nat_u64)
qed

lemma intern_cases:
  assumes inv: "string_invar env table" and "intern env s table = (off, table')"
  shows "table' = table \<and> string_known env table off s
    \<or> (\<forall>entry \<in> snd ` ht_contents (string_entries env) (st_entries table). string_text (st_bytes table) entry \<noteq> s)
      \<and> off = word_of_nat (length (st_bytes table)) \<and> st_bytes table' = st_bytes table @ s @ [0]
      \<and> ht_contents (string_entries env) (st_entries table') =
          insert (bytes_hash env s, \<lparr>se_offset = length (st_bytes table), se_len = length s, se_hash = bytes_hash env s\<rparr>)
            (ht_contents (string_entries env) (st_entries table))"
proof -
  have law: "lawful_table (string_entries env)" using inv by (simp add: string_invar_def)
  let ?find = "ht_find (string_entries env) (bytes_hash env s) (\<lambda>entry. interned (st_bytes table) entry = Some s) (st_entries table)"
  show ?thesis
  proof (cases ?find)
    case (Some entry)
    then have e: "interned (st_bytes table) entry = Some s" "entry \<in> snd ` ht_contents (string_entries env) (st_entries table)"
      using lawful_find[OF law Some] by simp_all
    then have "string_text (st_bytes table) entry = s" using string_invar_entry(4)[OF inv] by auto
    then show ?thesis using assms(2) e Some by (auto simp: intern_def find_hashed_def string_known_def)
  next
    case None
    have new: "string_text (st_bytes table) entry \<noteq> s" if m: "(h, entry) \<in> ht_contents (string_entries env) (st_entries table)" for h entry
    proof
      assume t: "string_text (st_bytes table) entry = s"
      then have "h = bytes_hash env s" using string_invar_entry(3)[OF inv m] by simp
      then show False using lawful_find_None[OF law None, of entry] string_invar_entry(4)[OF inv m] m t by simp
    qed
    have "ht_contents (string_entries env) (ht_insert_unique (string_entries env) (bytes_hash env s)
        \<lparr>se_offset = length (st_bytes table), se_len = length s, se_hash = bytes_hash env s\<rparr> se_hash (st_entries table)) =
        insert (bytes_hash env s, \<lparr>se_offset = length (st_bytes table), se_len = length s, se_hash = bytes_hash env s\<rparr>)
          (ht_contents (string_entries env) (st_entries table))"
      by (rule lawful_insert[OF law]) simp
    moreover have "off = word_of_nat (length (st_bytes table))"
      "table' = record_string env (length (st_bytes table)) s (bytes_hash env s) (table\<lparr>st_bytes := st_bytes table @ s @ [0]\<rparr>)"
      using assms(2) None by (simp_all add: intern_def find_hashed_def Let_def)
    moreover have "\<forall>entry \<in> snd ` ht_contents (string_entries env) (st_entries table). string_text (st_bytes table) entry \<noteq> s"
      using new by fastforce
    ultimately show ?thesis by (simp add: record_string_def)
  qed
qed

lemma string_text_append:
  "se_offset entry + se_len entry \<le> length bs \<Longrightarrow> string_text (bs @ tail) entry = string_text bs entry"
  by (simp add: string_text_def)

lemma string_push:
  assumes inv: "string_invar env table" and bytes: "st_bytes table' = st_bytes table @ s @ [0]"
    and new: "\<forall>entry \<in> snd ` ht_contents (string_entries env) (st_entries table). string_text (st_bytes table) entry \<noteq> s"
    and cont: "ht_contents (string_entries env) (st_entries table') =
          insert (bytes_hash env s, \<lparr>se_offset = length (st_bytes table), se_len = length s, se_hash = bytes_hash env s\<rparr>)
            (ht_contents (string_entries env) (st_entries table))"
    and len: "length (st_bytes table') < 2 ^ 64"
  shows "string_invar env table'" "string_known env table' (word_of_nat (length (st_bytes table))) s"
    "string_known env table off u \<Longrightarrow> string_known env table' off u"
proof -
  let ?e = "\<lparr>se_offset = length (st_bytes table), se_len = length s, se_hash = bytes_hash env s\<rparr>"
  let ?old = "ht_contents (string_entries env) (st_entries table)"
  have te: "string_text (st_bytes table') ?e = s" by (simp add: bytes string_text_def)
  have old: "string_text (st_bytes table') x = string_text (st_bytes table) x \<and> se_offset x + se_len x < length (st_bytes table)"
    if "(h, x) \<in> ?old" for h x
    using string_invar_entry(1)[OF inv that] by (simp add: bytes string_text_append)
  show k: "string_known env table off u \<Longrightarrow> string_known env table' off u" for off u
    using old by (auto simp: string_known_def cont intro!: bexI)
  show "string_known env table' (word_of_nat (length (st_bytes table))) s"
    by (auto simp: string_known_def cont te intro!: bexI[of _ ?e])
  have entries: "se_offset x + se_len x < length (st_bytes table')
      \<and> st_bytes table' ! (se_offset x + se_len x) = 0 \<and> h = bytes_hash env (string_text (st_bytes table') x)"
    if "(h, x) \<in> insert (bytes_hash env s, ?e) ?old" for h x
  proof (cases "(h, x) = (bytes_hash env s, ?e)")
    case True
    then show ?thesis by (auto simp: te) (simp_all add: bytes nth_append)
  next
    case False
    then have m: "(h, x) \<in> ?old" using that False by (metis insert_iff)
    show ?thesis using string_invar_entry[OF inv m] old[OF m] by (auto simp: bytes nth_append)
  qed
  have same: "se_offset x = se_offset y \<longleftrightarrow> string_text (st_bytes table') x = string_text (st_bytes table') y"
    if "(h, x) \<in> insert (bytes_hash env s, ?e) ?old" "(k, y) \<in> insert (bytes_hash env s, ?e) ?old" for h x k y
  proof -
    have a: "se_offset z \<noteq> length (st_bytes table) \<and> string_text (st_bytes table') z \<noteq> s" if "(h, z) \<in> ?old" for h z
      using old[OF that] new that by force
    show ?thesis
    proof (cases "x = ?e \<or> y = ?e")
      case True
      then show ?thesis using that a te by (metis insertE prod.inject string_entry.select_convs(1))
    next
      case False
      then have m: "(h, x) \<in> ?old" "(k, y) \<in> ?old" using that by auto
      then show ?thesis using string_invar_same[OF inv, of x y] old[OF m(1)] old[OF m(2)] by force
    qed
  qed
  have "string_known env table' 0 []" using k inv by (simp add: string_invar_def)
  then show "string_invar env table'"
    using entries same len inv unfolding string_invar_def cont by blast
qed

lemma intern_step:
  assumes "string_invar env t" "intern env s t = (i, u)" "string_fits u"
  shows "string_invar env u \<and> string_known env u i s \<and> (\<forall>j w. string_known env t j w \<longrightarrow> string_known env u j w)"
  using intern_cases[OF assms(1,2)]
proof (elim disjE conjE)
  assume "u = t" "string_known env t i s"
  then show ?thesis using assms(1) by simp
next
  assume "\<forall>entry \<in> snd ` ht_contents (string_entries env) (st_entries t). string_text (st_bytes t) entry \<noteq> s"
    and i: "i = word_of_nat (length (st_bytes t))" and "st_bytes u = st_bytes t @ s @ [0]"
    and "ht_contents (string_entries env) (st_entries u) =
      insert (bytes_hash env s, \<lparr>se_offset = length (st_bytes t), se_len = length s, se_hash = bytes_hash env s\<rparr>)
        (ht_contents (string_entries env) (st_entries t))"
  note new = string_push[OF assms(1) this(3) this(1) this(4) assms(3)[unfolded string_fits_def]]
  show ?thesis using new by (simp add: i)
qed

interpretation string_set: interner "string_invar env" string_fits "string_known env" "\<lambda>s table. Inr (intern env s table)" for env
proof (unfold_locales, goal_cases)
  case (1 s t i u)
  then have *: "intern env s t = (i, u)" by simp
  have "length (st_bytes t) \<le> length (st_bytes u)"
    using * by (auto simp: intern_def Let_def record_string_def split: option.splits)
  then show ?case using 1(2) by (simp add: string_fits_def)
next
  case (2 t s i u)
  then show ?case using intern_step[of env t s i u] by simp
next
  case (3 t s i u)
  then show ?case using intern_step[of env t s i u] by simp
next
  case (4 t s i u j w)
  then show ?case using intern_step[of env t s i u] by simp
next
  case (5 t i s)
  obtain j u where *: "intern env s t = (j, u)" by (cases "intern env s t")
  then have j: "u = t" "string_known env t j s"
    using intern_cases[OF 5(1) *] 5(3) by (auto simp: string_known_def)
  obtain x y where x: "x \<in> snd ` ht_contents (string_entries env) (st_entries t)" "i = word_of_nat (se_offset x)" "string_text (st_bytes t) x = s"
    and y: "y \<in> snd ` ht_contents (string_entries env) (st_entries t)" "j = word_of_nat (se_offset y)" "string_text (st_bytes t) y = s"
    by (rule string_knownE[OF 5(3)], rule string_knownE[OF j(2)]) simp
  have "se_offset x = se_offset y" unfolding string_invar_same[OF 5(1) x(1) y(1)] x(3) y(3) ..
  then have "i = j" by (simp only: x(2) y(2))
  then show ?case by (simp only: * j(1))
next
  case (6 t i v w)
  obtain x where x: "x \<in> snd ` ht_contents (string_entries env) (st_entries t)" "i = word_of_nat (se_offset x)" "string_text (st_bytes t) x = v"
    by (rule string_knownE[OF 6(3)])
  obtain y where y: "y \<in> snd ` ht_contents (string_entries env) (st_entries t)" "i = word_of_nat (se_offset y)" "string_text (st_bytes t) y = w"
    by (rule string_knownE[OF 6(4)])
  have "se_offset x = se_offset y"
    using x(2) y(2) string_offset_unat[OF 6(1) x(1)] string_offset_unat[OF 6(1) y(1)] by simp
  then show ?case unfolding string_invar_same[OF 6(1) x(1) y(1)] x(3) y(3) .
qed

lemma string_invar_new:
  assumes "lawful_table (string_entries env)"
  shows "string_invar env (string_table_new env)"
proof -
  have c: "ht_contents (string_entries env) (st_entries (string_table_new env)) =
      {(bytes_hash env [], \<lparr>se_offset = 0, se_len = 0, se_hash = bytes_hash env []\<rparr>)}"
    using assms by (simp add: string_table_new_def record_string_def lawful_insert lawful_new)
  have b: "st_bytes (string_table_new env) = [0]" by (simp add: string_table_new_def record_string_def)
  show ?thesis using assms by (auto simp: string_invar_def string_known_def c b string_text_def)
qed

end
