(* ===== verification/V1.thy ===== *)
theory V1
  imports FunctionInfo
begin

text \<open>
  \<open>src/format/mod.rs\<close> and \<open>src/format/v1.rs\<close>: the magic number and its byte order, the fixed
  version-1 header, and the layout of the tables behind it. A \<open>Range<usize>\<close> is a pair. The
  byte order of the host, which the sources read at compile time, is a parameter.
\<close>

section \<open>Shared format helpers\<close>

definition GSYM_MAGIC :: u32 where "GSYM_MAGIC = 0x4753594d"
definition GSYM_CIGAM :: u32 where "GSYM_CIGAM = 0x4d595347"

text \<open>\<open>checked_next_multiple_of\<close>\<close>

definition align_up :: "nat \<Rightarrow> nat \<Rightarrow> nat option" where
  "align_up n alignment =
     (if alignment = 0 then None
      else if n mod alignment = 0 then Some n else checked_add n (alignment - n mod alignment))"

definition file_table_size :: "u32 \<Rightarrow> nat \<Rightarrow> string \<Rightarrow> nat result" where
  "file_table_size file_count entry_size ctx =
     ok_or (Option.bind (checked_mul (unat file_count) entry_size) (\<lambda>n. checked_add n 4)) (Overflow ctx)"

type_synonym usize_range = "nat \<times> nat"

section \<open>The header\<close>

definition V1_VERSION :: u16 where "V1_VERSION = 1"
definition V1_HEADER_SIZE :: nat where "V1_HEADER_SIZE = 48"
definition MAX_UUID_SIZE :: nat where "MAX_UUID_SIZE = 20"
definition V1_ADDRESS_INFO_OFFSET_SIZE :: u8 where "V1_ADDRESS_INFO_OFFSET_SIZE = 4"
definition V1_STRING_OFFSET_SIZE :: u8 where "V1_STRING_OFFSET_SIZE = 4"
definition V1_FILE_ENTRY_SIZE :: nat where "V1_FILE_ENTRY_SIZE = 8"

record fixed_uuid =
  fu_bytes :: bytes
  fu_len :: u8

definition fixed_uuid_new :: "bytes \<Rightarrow> fixed_uuid result" where
  "fixed_uuid_new uuid =
     (if length uuid > MAX_UUID_SIZE then Inl (V1BuildIdTooLong (length uuid))
      else Inr \<lparr>fu_bytes = uuid @ replicate (MAX_UUID_SIZE - length uuid) 0, fu_len = word_of_nat (length uuid)\<rparr>)"

definition fixed_uuid_slice :: "fixed_uuid \<Rightarrow> bytes" where
  "fixed_uuid_slice uuid = take (unat (fu_len uuid)) (fu_bytes uuid)"

record v1_header =
  v1_address_offset_size :: u8
  v1_base_address :: u64
  v1_address_count :: u32
  v1_string_table_offset :: u32
  v1_string_table_size :: u32
  v1_uuid :: fixed_uuid

record v1_layout =
  l1_address_offsets :: usize_range
  l1_address_info_offsets :: usize_range
  l1_file_table_offset :: nat
  l1_string_table :: usize_range
  l1_function_info_offset :: nat

definition other_endian :: "endian \<Rightarrow> endian" where
  "other_endian e = (case e of Little \<Rightarrow> Big | Big \<Rightarrow> Little)"

definition detect_endian :: "endian \<Rightarrow> bytes \<Rightarrow> endian result" where
  "detect_endian native bs =
     let_ok (ok_or (slice_get bs 0 4) (UnexpectedEof 0 4 (length bs))) (\<lambda>magic_bytes.
     let host_value = word_of_nat (from_bytes native magic_bytes) in
     if host_value = GSYM_MAGIC then Inr native
     else if host_value = GSYM_CIGAM then Inr (other_endian native)
     else Inl (InvalidMagic host_value))"

definition v1_validate_address_offset_size :: "u8 \<Rightarrow> unit result" where
  "v1_validate_address_offset_size width =
     (if width = 1 \<or> width = 2 \<or> width = 4 \<or> width = 8 then Inr ()
      else Inl (InvalidAddressOffsetSize V1_VERSION width))"

definition v1_header_decode :: "endian \<Rightarrow> bytes \<Rightarrow> (v1_header \<times> endian) result" where
  "v1_header_decode native bs =
     let_ok (detect_endian native bs) (\<lambda>e.
     let_ok (read_u32 (cursor_new bs e)) (\<lambda>(magic, c).
     if magic \<noteq> GSYM_MAGIC then Inl (InvalidMagic magic)
     else
       let_ok (read_u16 c) (\<lambda>(version, c).
       if version \<noteq> V1_VERSION then Inl (UnsupportedVersion version)
       else
         let_ok (read_u8 c) (\<lambda>(address_offset_size, c).
         let_ok (v1_validate_address_offset_size address_offset_size) (\<lambda>_.
         let_ok (read_u8 c) (\<lambda>(uuid_size, c).
         if unat uuid_size > MAX_UUID_SIZE then Inl (InvalidUuidSize (unat uuid_size))
         else
           let_ok (read_u64 c) (\<lambda>(base_address, c).
           let_ok (read_u32 c) (\<lambda>(address_count, c).
           let_ok (read_u32 c) (\<lambda>(string_table_offset, c).
           let_ok (read_u32 c) (\<lambda>(string_table_size, c).
           let_ok (cursor_take MAX_UUID_SIZE c) (\<lambda>(uuid_storage, c).
           let_ok (ok_or (slice_get uuid_storage 0 (unat uuid_size)) (InvalidFormat ''v1 build ID is truncated'')) (\<lambda>uuid.
           let_ok (fixed_uuid_new uuid) (\<lambda>uuid.
           Inr (\<lparr>v1_address_offset_size = address_offset_size, v1_base_address = base_address,
                 v1_address_count = address_count, v1_string_table_offset = string_table_offset,
                 v1_string_table_size = string_table_size, v1_uuid = uuid\<rparr>, e))))))))))))))"

definition v1_header_encode :: "v1_header \<Rightarrow> endian \<Rightarrow> bytes result" where
  "v1_header_encode h e =
     let_ok (v1_validate_address_offset_size (v1_address_offset_size h)) (\<lambda>_.
     let uuid = fixed_uuid_slice (v1_uuid h);
         out = write_u32 GSYM_MAGIC (encoder_new e);
         out = write_u16 V1_VERSION out;
         out = write_u8 (v1_address_offset_size h) out;
         out = write_u8 (fu_len (v1_uuid h)) out;
         out = write_u64 (v1_base_address h) out;
         out = write_u32 (v1_address_count h) out;
         out = write_u32 (v1_string_table_offset h) out;
         out = write_u32 (v1_string_table_size h) out;
         out = write_bytes uuid out in
     if length uuid \<le> MAX_UUID_SIZE
     then Inr (ebytes (write_bytes (replicate (MAX_UUID_SIZE - length uuid) 0) out))
     else Inl (V1BuildIdTooLong (length uuid)))"

definition v1_layout_of :: "v1_header \<Rightarrow> nat \<Rightarrow> v1_layout result" where
  "v1_layout_of h input_len =
     let_ok (ok_or (align_up V1_HEADER_SIZE (unat (v1_address_offset_size h)))
       (Overflow ''v1 address-table alignment'')) (\<lambda>address_offsets_start.
     let_ok (ok_or (checked_mul (unat (v1_address_count h)) (unat (v1_address_offset_size h)))
       (Overflow ''v1 address-table size'')) (\<lambda>address_offsets_size.
     let_ok (ok_or (checked_add address_offsets_start address_offsets_size)
       (Overflow ''v1 address-table end'')) (\<lambda>address_offsets_end.
     let_ok (ok_or (align_up address_offsets_end 4) (Overflow ''v1 address-info alignment'')) (\<lambda>address_info_start.
     let_ok (ok_or (checked_mul (unat (v1_address_count h)) (unat V1_ADDRESS_INFO_OFFSET_SIZE))
       (Overflow ''v1 address-info table size'')) (\<lambda>address_info_size.
     let_ok (ok_or (checked_add address_info_start address_info_size)
       (Overflow ''v1 address-info table end'')) (\<lambda>address_info_end.
     let_ok (ok_or (align_up address_info_end 4) (Overflow ''v1 file-table alignment'')) (\<lambda>file_table_offset.
     let string_start = unat (v1_string_table_offset h) in
     let_ok (ok_or (checked_add string_start (unat (v1_string_table_size h)))
       (Overflow ''v1 string-table end'')) (\<lambda>string_end.
     if file_table_offset > string_start then Inl (InvalidFormat ''v1 string table overlaps fixed tables'')
     else if string_end > input_len
     then Inl (SectionOutOfBounds 3 (ucast (v1_string_table_offset h)) (ucast (v1_string_table_size h)) input_len)
     else Inr \<lparr>l1_address_offsets = (address_offsets_start, address_offsets_end),
               l1_address_info_offsets = (address_info_start, address_info_end),
               l1_file_table_offset = file_table_offset,
               l1_string_table = (string_start, string_end),
               l1_function_info_offset = string_end\<rparr>))))))))"

definition v1_file_table_size :: "u32 \<Rightarrow> nat result" where
  "v1_file_table_size file_count = file_table_size file_count V1_FILE_ENTRY_SIZE ''v1 file-table size''"

section \<open>Byte order\<close>

definition magic_bytes :: "endian \<Rightarrow> bytes" where
  "magic_bytes e = to_bytes e 4 (unat GSYM_MAGIC)"

lemma magic_bytes_simps:
  "magic_bytes Little = [0x4d, 0x59, 0x53, 0x47]" "magic_bytes Big = [0x47, 0x53, 0x59, 0x4d]"
  by code_simp+

lemma align_up_eq_Some:
  "align_up n a = Some m \<longleftrightarrow> 0 < a \<and> m = n + pad_len a n \<and> (n mod a = 0 \<or> n + pad_len a n < 2 ^ 64)"
  by (auto simp: align_up_def pad_len_def ok_simps)

lemma pad_len_less: "0 < a \<Longrightarrow> pad_len a n < a"
  by (cases "n mod a = 0") (simp_all add: pad_len_def)

lemma align_up_spec: "align_up n a = Some m \<Longrightarrow> n \<le> m \<and> m < n + a \<and> a dvd m"
  using pad_len_mod[of a n] pad_len_less[of a n] by (auto simp: align_up_eq_Some mod_eq_0_iff_dvd)

lemma from_bytes_eq_iff: "length bs = k \<Longrightarrow> v < 256 ^ k \<Longrightarrow> from_bytes e bs = v \<longleftrightarrow> bs = to_bytes e k v"
  using to_from_bytes[of e bs] from_to_bytes[of e k v] by auto

lemma cigam_bytes: "to_bytes native 4 (unat GSYM_CIGAM) = magic_bytes (other_endian native)"
  by (cases native; simp add: other_endian_def; code_simp)

lemma magic_bytes_inject: "magic_bytes a = magic_bytes b \<longleftrightarrow> a = b"
  by (cases a; cases b) (simp_all add: magic_bytes_simps)

lemma other_endian_cases: "e = native \<or> e = other_endian native"
  by (cases e; cases native) (simp_all add: other_endian_def)

lemma length_magic_bytes [simp]: "length (magic_bytes e) = 4"
  by (simp add: magic_bytes_def)

lemma detect_endian_iff: "detect_endian native bs = Inr e \<longleftrightarrow> take 4 bs = magic_bytes e"
proof (cases "4 \<le> length bs")
  case False
  then have "length (take 4 bs) \<noteq> length (magic_bytes e)" by simp
  then have "take 4 bs \<noteq> magic_bytes e" by (rule contrapos_nn) simp
  with False show ?thesis by (simp add: detect_endian_def slice_get_def)
next
  case True
  let ?m = "take 4 bs"
  have len: "length ?m = 4" using True by simp
  have word: "(word_of_nat (from_bytes native ?m) :: u32) = v \<longleftrightarrow> ?m = to_bytes native 4 (unat v)" for v
  proof -
    have b: "from_bytes native ?m < 2 ^ 32" using from_bytes_bound[of native ?m] unfolding len by simp
    then have "unat (word_of_nat (from_bytes native ?m) :: u32) = from_bytes native ?m" by (rule unat_word_of_nat_u32)
    then have "(word_of_nat (from_bytes native ?m) :: u32) = v \<longleftrightarrow> from_bytes native ?m = unat v" by (metis unat_eqI)
    also have "\<dots> \<longleftrightarrow> ?m = to_bytes native 4 (unat v)" using len unat_u32_lt[of v] by (intro from_bytes_eq_iff) simp_all
    finally show ?thesis .
  qed
  have g: "slice_get bs 0 4 = Some ?m" using True by (simp add: slice_get_def)
  show ?thesis
    using other_endian_cases[of e native]
    by (auto simp: detect_endian_def g Let_def word cigam_bytes magic_bytes_def[symmetric] magic_bytes_inject)
qed

lemma fixed_uuid_new_slice:
  "fixed_uuid_new uuid = Inr u \<longleftrightarrow> length uuid \<le> 20
     \<and> u = \<lparr>fu_bytes = uuid @ replicate (20 - length uuid) 0, fu_len = word_of_nat (length uuid)\<rparr>"
  by (auto simp: fixed_uuid_new_def MAX_UUID_SIZE_def)

lemma fixed_uuid_slice_new: "fixed_uuid_new uuid = Inr u \<Longrightarrow> fixed_uuid_slice u = uuid \<and> unat (fu_len u) = length uuid"
  by (auto simp: fixed_uuid_new_slice fixed_uuid_slice_def unat_word_of_nat_u8)

definition v1_header_bytes :: "v1_header \<Rightarrow> endian \<Rightarrow> bytes" where
  "v1_header_bytes h e = magic_bytes e @ to_bytes e 2 (unat V1_VERSION) @ [v1_address_offset_size h] @ [fu_len (v1_uuid h)]
     @ to_bytes e 8 (unat (v1_base_address h)) @ to_bytes e 4 (unat (v1_address_count h))
     @ to_bytes e 4 (unat (v1_string_table_offset h)) @ to_bytes e 4 (unat (v1_string_table_size h))
     @ fixed_uuid_slice (v1_uuid h) @ replicate (MAX_UUID_SIZE - length (fixed_uuid_slice (v1_uuid h))) 0"

lemma v1_header_encode_eq:
  "v1_header_encode h e = Inr bs \<longleftrightarrow>
     v1_validate_address_offset_size (v1_address_offset_size h) = Inr () \<and> length (fixed_uuid_slice (v1_uuid h)) \<le> MAX_UUID_SIZE
     \<and> bs = v1_header_bytes h e"
  by (auto simp: v1_header_encode_def v1_header_bytes_def enc_simps Let_def magic_bytes_def encoder_new_def ok_simps)

lemma v1_header_decode_bytes:
  assumes "v1_validate_address_offset_size (v1_address_offset_size h) = Inr ()"
    and uuid: "fixed_uuid_new uuid = Inr (v1_uuid h)"
    and len: "length (v1_header_bytes h e @ rest) < 2 ^ 64"
  shows "v1_header_decode native (v1_header_bytes h e @ rest) = Inr (h, e)"
proof -
  let ?bs = "v1_header_bytes h e @ rest"
  let ?store = "uuid @ replicate (20 - length uuid) 0"
  define c where "c = cursor_new ?bs e"
  note u = fixed_uuid_slice_new[OF uuid] uuid[unfolded fixed_uuid_new_slice]
  have detect: "detect_endian native ?bs = Inr e" by (simp add: detect_endian_iff v1_header_bytes_def)
  have a: "ahead c (v1_header_bytes h e)" unfolding c_def using len by (rule ahead_prefix)
  have st: "length ?store = 20" using u(2) by simp
  have ce: "cendian c = e" by (simp add: c_def cursor_new_def)
  have store: "fixed_uuid_slice (v1_uuid h) @ replicate (MAX_UUID_SIZE - length (fixed_uuid_slice (v1_uuid h))) 0 = ?store"
    using u by (simp add: MAX_UUID_SIZE_def)
  note a' = a[unfolded v1_header_bytes_def store magic_bytes_def ahead_append length_to_bytes advance_simps list.size]
  have reads: "read_u32 c = Inr (GSYM_MAGIC, advance 4 c)"
    "read_u16 (advance 4 c) = Inr (V1_VERSION, advance 6 c)"
    "read_u8 (advance 6 c) = Inr (v1_address_offset_size h, advance 7 c)"
    "read_u8 (advance 7 c) = Inr (fu_len (v1_uuid h), advance 8 c)"
    "read_u64 (advance 8 c) = Inr (v1_base_address h, advance 16 c)"
    "read_u32 (advance 16 c) = Inr (v1_address_count h, advance 20 c)"
    "read_u32 (advance 20 c) = Inr (v1_string_table_offset h, advance 24 c)"
    "read_u32 (advance 24 c) = Inr (v1_string_table_size h, advance 28 c)"
    "cursor_take 20 (advance 28 c) = Inr (?store, advance 48 c)"
    using a' read_u32_ahead[of c GSYM_MAGIC] read_u16_ahead[of "advance 4 c" V1_VERSION]
      read_u8_ahead[of "advance 6 c" "v1_address_offset_size h"] read_u8_ahead[of "advance 7 c" "fu_len (v1_uuid h)"]
      read_u64_ahead[of "advance 8 c" "v1_base_address h"] read_u32_ahead[of "advance 16 c" "v1_address_count h"]
      read_u32_ahead[of "advance 20 c" "v1_string_table_offset h"] read_u32_ahead[of "advance 24 c" "v1_string_table_size h"]
      cursor_take_ahead[of "advance 28 c" ?store, unfolded st]
    by (simp_all add: ce ahead_append)
  have slice: "slice_get ?store 0 (length uuid) = Some uuid" using u by (simp add: slice_get_def)
  show ?thesis
    using u(2) assms(1) u(1) uuid
    by (simp add: v1_header_decode_def detect c_def[symmetric] reads slice MAX_UUID_SIZE_def cong: let_ok_weak_cong)
qed

text \<open>C16: The byte order of a file is that of its magic number: \<open>detect_endian\<close> accepts exactly the inputs
  that start with the magic number in one of the byte orders and returns that order, whatever the byte order of the
  host it runs on.\<close>

theorem detect_endian_host_independent:
  "(detect_endian native bs = Inr e \<longleftrightarrow> take 4 bs = magic_bytes e)
    \<and> (detect_endian native bs = Inr e \<longleftrightarrow> detect_endian (other_endian native) bs = Inr e)"
  by (simp add: detect_endian_iff)

text \<open>C15: A version-1 header with a build identifier of at most 20 bytes is 48 bytes long when written, and is
  read back unchanged, with its byte order, from any file that starts with it, on a host of either byte order.\<close>

theorem v1_header_roundtrip:
  assumes "fixed_uuid_new uuid = Inr (v1_uuid h)" and "v1_header_encode h e = Inr bs"
    and "length (bs @ rest) < 2 ^ 64"
  shows "length bs = V1_HEADER_SIZE \<and> fixed_uuid_slice (v1_uuid h) = uuid
    \<and> v1_header_decode native (bs @ rest) = Inr (h, e)"
proof -
  from assms(2) have e: "v1_validate_address_offset_size (v1_address_offset_size h) = Inr ()"
    "bs = v1_header_bytes h e" by (auto simp: v1_header_encode_eq)
  show ?thesis
    using v1_header_decode_bytes[OF e(1) assms(1), of e rest native] assms(1,3) fixed_uuid_slice_new[OF assms(1)]
    by (auto simp: e(2) v1_header_bytes_def V1_HEADER_SIZE_def MAX_UUID_SIZE_def fixed_uuid_new_slice)
qed

lemma v1_header_roundtrip_witness:
  "\<exists>bs. v1_header_decode Little (bs @ [7]) =
     Inr (\<lparr>v1_address_offset_size = 4, v1_base_address = 0x400000, v1_address_count = 3, v1_string_table_offset = 96,
        v1_string_table_size = 12, v1_uuid = \<lparr>fu_bytes = 0xab # 0xcd # replicate 18 0, fu_len = 2\<rparr>\<rparr>, Big)"
  (is "\<exists>bs. _ = Inr (?h, Big)")
proof -
  have u: "fixed_uuid_new [0xab, 0xcd] = Inr (v1_uuid ?h)" by (simp add: fixed_uuid_new_slice)
  have "v1_header_encode ?h Big = Inr (v1_header_bytes ?h Big)"
    by (simp add: v1_header_encode_eq v1_validate_address_offset_size_def fixed_uuid_slice_def MAX_UUID_SIZE_def)
  moreover have "length (v1_header_bytes ?h Big @ [7]) < 2 ^ 64"
    by (simp add: v1_header_bytes_def fixed_uuid_slice_def MAX_UUID_SIZE_def)
  ultimately show ?thesis using v1_header_roundtrip[OF u] by blast
qed

end
