(* ===== verification/V2.thy ===== *)
theory V2
  imports V1
begin

text \<open>
  \<open>src/format/v2.rs\<close>: the version-2 header, its section directory with the checks the reader
  makes on it, and the layout the writer computes. The set of section types seen is a \<open>set\<close>;
  \<open>usize\<close> to \<open>u64\<close> conversions never fail on the supported targets.
\<close>

section \<open>Header and directory\<close>

definition V2_VERSION :: u16 where "V2_VERSION = 2"
definition V2_HEADER_SIZE :: nat where "V2_HEADER_SIZE = 20"
definition GLOBAL_DATA_SIZE :: nat where "GLOBAL_DATA_SIZE = 20"
definition V2_ADDRESS_INFO_OFFSET_SIZE :: u8 where "V2_ADDRESS_INFO_OFFSET_SIZE = 8"
definition V2_STRING_OFFSET_SIZE :: u8 where "V2_STRING_OFFSET_SIZE = 8"
definition V2_FILE_ENTRY_SIZE :: nat where "V2_FILE_ENTRY_SIZE = 16"
definition STRING_TABLE_ENCODING_DEFAULT :: u8 where "STRING_TABLE_ENCODING_DEFAULT = 0"

definition GLOBAL_END :: u32 where "GLOBAL_END = 0"
definition GLOBAL_ADDRESS_OFFSETS :: u32 where "GLOBAL_ADDRESS_OFFSETS = 1"
definition GLOBAL_ADDRESS_INFO_OFFSETS :: u32 where "GLOBAL_ADDRESS_INFO_OFFSETS = 2"
definition GLOBAL_STRING_TABLE :: u32 where "GLOBAL_STRING_TABLE = 3"
definition GLOBAL_FILE_TABLE :: u32 where "GLOBAL_FILE_TABLE = 4"
definition GLOBAL_FUNCTION_INFO :: u32 where "GLOBAL_FUNCTION_INFO = 5"
definition GLOBAL_UUID :: u32 where "GLOBAL_UUID = 6"

lemmas global_types = GLOBAL_END_def GLOBAL_ADDRESS_OFFSETS_def GLOBAL_ADDRESS_INFO_OFFSETS_def
  GLOBAL_STRING_TABLE_def GLOBAL_FILE_TABLE_def GLOBAL_FUNCTION_INFO_def GLOBAL_UUID_def

definition REQUIRED_TYPES :: "u32 list" where
  "REQUIRED_TYPES = [GLOBAL_ADDRESS_OFFSETS, GLOBAL_ADDRESS_INFO_OFFSETS, GLOBAL_STRING_TABLE,
     GLOBAL_FILE_TABLE, GLOBAL_FUNCTION_INFO]"

record v2_header =
  v2_address_offset_size :: u8
  v2_string_table_encoding :: u8
  v2_base_address :: u64
  v2_address_count :: u32

record global_data =
  section_type :: u32
  file_offset :: u64
  file_size :: u64

record directory =
  dir_entries :: "global_data list"
  dir_end_offset :: nat

definition directory_get :: "directory \<Rightarrow> u32 \<Rightarrow> global_data option" where
  "directory_get d kind = find (\<lambda>entry. section_type entry = kind) (dir_entries d)"

record write_layout =
  wl_directory :: "global_data list"
  wl_directory_end :: nat
  wl_uuid :: "usize_range option"
  wl_address_offsets :: usize_range
  wl_address_info_offsets :: usize_range
  wl_file_table :: usize_range
  wl_string_table :: usize_range
  wl_function_info :: usize_range
  wl_file_size :: nat

definition v2_validate_address_offset_size :: "u8 \<Rightarrow> unit result" where
  "v2_validate_address_offset_size width =
     (if 1 \<le> width \<and> width \<le> 8 then Inr () else Inl (InvalidAddressOffsetSize V2_VERSION width))"

definition v2_header_decode :: "endian \<Rightarrow> bytes \<Rightarrow> (v2_header \<times> endian) result" where
  "v2_header_decode native bs =
     let_ok (detect_endian native bs) (\<lambda>e.
     let_ok (read_u32 (cursor_new bs e)) (\<lambda>(magic, c).
     if magic \<noteq> GSYM_MAGIC then Inl (InvalidMagic magic)
     else
       let_ok (read_u16 c) (\<lambda>(version, c).
       if version \<noteq> V2_VERSION then Inl (UnsupportedVersion version)
       else
         let_ok (read_u8 c) (\<lambda>(address_offset_size, c).
         let_ok (v2_validate_address_offset_size address_offset_size) (\<lambda>_.
         let_ok (read_u8 c) (\<lambda>(string_table_encoding, c).
         if string_table_encoding \<noteq> STRING_TABLE_ENCODING_DEFAULT
         then Inl (UnsupportedStringTableEncoding string_table_encoding)
         else
           let_ok (read_u64 c) (\<lambda>(base_address, c).
           let_ok (read_u32 c) (\<lambda>(address_count, c).
           Inr (\<lparr>v2_address_offset_size = address_offset_size, v2_string_table_encoding = string_table_encoding,
                 v2_base_address = base_address, v2_address_count = address_count\<rparr>, e)))))))))"

definition v2_header_encode :: "v2_header \<Rightarrow> endian \<Rightarrow> bytes result" where
  "v2_header_encode h e =
     let_ok (v2_validate_address_offset_size (v2_address_offset_size h)) (\<lambda>_.
     if v2_string_table_encoding h \<noteq> STRING_TABLE_ENCODING_DEFAULT
     then Inl (UnsupportedStringTableEncoding (v2_string_table_encoding h))
     else
       let out = write_u32 GSYM_MAGIC (encoder_new e);
           out = write_u16 V2_VERSION out;
           out = write_u8 (v2_address_offset_size h) out;
           out = write_u8 (v2_string_table_encoding h) out;
           out = write_u64 (v2_base_address h) out;
           out = write_u32 (v2_address_count h) out in
       Inr (ebytes out))"

definition global_decode_from :: "cursor \<Rightarrow> (global_data \<times> cursor) result" where
  "global_decode_from c =
     let_ok (read_u32 c) (\<lambda>(kind, c).
     let_ok (read_u64 c) (\<lambda>(off, c).
     let_ok (read_u64 c) (\<lambda>(len, c).
     Inr (\<lparr>section_type = kind, file_offset = off, file_size = len\<rparr>, c))))"

definition global_encode_into :: "global_data \<Rightarrow> encoder \<Rightarrow> encoder" where
  "global_encode_into g out =
     write_u64 (file_size g) (write_u64 (file_offset g) (write_u32 (section_type g) out))"

section \<open>Reading the directory\<close>

lemma global_decode_from_moved: "global_decode_from c = Inr (g, c') \<Longrightarrow> moved 20 c c'"
  by (auto simp: global_decode_from_def moved_def dest!: read_u32_moved read_u64_moved)

function parse_entries :: "nat \<Rightarrow> u32 set \<Rightarrow> global_data list \<Rightarrow> cursor
    \<Rightarrow> (u32 set \<times> global_data list \<times> cursor) result" where
  "parse_entries input_len seen entries c =
     let_ok (global_decode_from c) (\<lambda>(entry, c).
     if section_type entry = GLOBAL_END then
       (if file_offset entry \<noteq> 0 \<or> file_size entry \<noteq> 0
        then Inl (InvalidFormat ''v2 directory terminator is not all zero'')
        else Inr (seen, entries, c))
     else if section_type entry \<in> seen then Inl (DuplicateSection (section_type entry))
     else if file_size entry = 0 then Inl (ZeroSizedSection (section_type entry))
     else
       let_ok (ok_or (checked_add_u64 (file_offset entry) (file_size entry)) (Overflow ''v2 section end'')) (\<lambda>stop.
       if unat stop > input_len
       then Inl (SectionOutOfBounds (section_type entry) (file_offset entry) (file_size entry) input_len)
       else parse_entries input_len (insert (section_type entry) seen) (entries @ [entry]) c))"
  by pat_completeness auto
termination
  by (relation "measure (\<lambda>(input_len, seen, entries, c). remaining c)")
     (auto dest!: global_decode_from_moved moved_remaining)

declare parse_entries.simps [simp del]

definition checked_rem_u64 :: "u64 \<Rightarrow> u64 \<Rightarrow> u64 option" where
  "checked_rem_u64 a b = (if b = 0 then None else Some (a mod b))"

definition rem_nonzero :: "u64 option \<Rightarrow> bool" where
  "rem_nonzero r = (case r of None \<Rightarrow> True | Some remainder \<Rightarrow> remainder \<noteq> 0)"

definition validate_section :: "bytes \<Rightarrow> v2_header \<Rightarrow> u64 \<Rightarrow> u64 \<Rightarrow> global_data \<Rightarrow> unit result" where
  "validate_section bs h address_size address_info_size entry =
     (if section_type entry = GLOBAL_ADDRESS_OFFSETS \<and> file_size entry \<noteq> address_size
      then Inl (InvalidFormat ''v2 address-table size mismatch'')
      else if section_type entry = GLOBAL_ADDRESS_OFFSETS
        \<and> rem_nonzero (checked_rem_u64 (file_offset entry) (ucast (v2_address_offset_size h)))
      then Inl (InvalidFormat ''v2 address table is misaligned'')
      else if section_type entry = GLOBAL_ADDRESS_INFO_OFFSETS \<and> file_size entry \<noteq> address_info_size
      then Inl (InvalidFormat ''v2 address-info table size mismatch'')
      else if section_type entry = GLOBAL_ADDRESS_INFO_OFFSETS
        \<and> rem_nonzero (checked_rem_u64 (file_offset entry) (ucast V2_ADDRESS_INFO_OFFSET_SIZE))
      then Inl (InvalidFormat ''v2 address-info table is misaligned'')
      else if section_type entry = GLOBAL_FILE_TABLE
        \<and> (file_size entry < 4
           \<or> rem_nonzero (checked_rem_u64 (saturating_sub_u64 (file_size entry) 4) (word_of_nat V2_FILE_ENTRY_SIZE)))
      then Inl (InvalidFormat ''invalid v2 file-table size'')
      else if section_type entry = GLOBAL_FILE_TABLE \<and> file_offset entry mod 4 \<noteq> 0
      then Inl (InvalidFormat ''v2 file table is misaligned'')
      else if section_type entry = GLOBAL_STRING_TABLE then
        (if nth_get bs (unat (file_offset entry)) \<noteq> Some 0
         then Inl (InvalidFormat ''GSYM string table does not begin with an empty string'')
         else Inr ())
      else if section_type entry = GLOBAL_FUNCTION_INFO \<and> file_offset entry mod 4 \<noteq> 0
      then Inl (InvalidFormat ''v2 FunctionInfo section is misaligned'')
      else Inr ())"

fun check_disjoint :: "u64 \<Rightarrow> (u64 \<times> u64) list \<Rightarrow> unit result" where
  "check_disjoint previous_end [] = Inr ()"
| "check_disjoint previous_end ((s, e) # ranges) =
     (if s < previous_end then Inl (InvalidFormat ''v2 sections overlap each other or the directory'')
      else check_disjoint e ranges)"

text \<open>\<open>sort_unstable_by_key\<close> leaves the order of equal keys open. Two sections with the same
  offset are an overlap in either order, since no section is empty, so the stable sort here gives
  the same answer.\<close>

definition validate_sections :: "bytes \<Rightarrow> nat \<Rightarrow> v2_header \<Rightarrow> global_data list \<Rightarrow> unit result" where
  "validate_sections bs directory_end h entries =
     let_ok (ok_or (checked_mul_u64 (ucast (v2_address_count h)) (ucast (v2_address_offset_size h)))
       (Overflow ''v2 address-table size'')) (\<lambda>address_size.
     let_ok (ok_or (checked_mul_u64 (ucast (v2_address_count h)) (ucast V2_ADDRESS_INFO_OFFSET_SIZE))
       (Overflow ''v2 address-info size'')) (\<lambda>address_info_size.
     let_ok (map_ok (validate_section bs h address_size address_info_size) entries) (\<lambda>_.
     let_ok (map_ok (\<lambda>entry.
         let_ok (ok_or (checked_add_u64 (file_offset entry) (file_size entry)) (Overflow ''v2 section end''))
           (\<lambda>stop. Inr (file_offset entry, stop))) entries) (\<lambda>ranges.
     check_disjoint (word_of_nat directory_end) (sort_key fst ranges)))))"

definition parse_directory :: "bytes \<Rightarrow> endian \<Rightarrow> v2_header \<Rightarrow> directory result" where
  "parse_directory bs e h =
     let_ok (cursor_at bs e V2_HEADER_SIZE) (\<lambda>c.
     let_ok (parse_entries (length bs) {} [] c) (\<lambda>(seen, entries, c).
     let end_offset = position c in
     let_ok (map_ok (\<lambda>required. if required \<notin> seen then Inl (MissingSection required) else Inr ()) REQUIRED_TYPES) (\<lambda>_.
     let_ok (validate_sections bs end_offset h entries) (\<lambda>_.
     Inr \<lparr>dir_entries = entries, dir_end_offset = end_offset\<rparr>))))"

section \<open>The writer's layout\<close>

definition v2_file_table_size :: "u32 \<Rightarrow> nat result" where
  "v2_file_table_size file_count = file_table_size file_count V2_FILE_ENTRY_SIZE ''v2 file-table size''"

definition checked_range :: "nat \<Rightarrow> nat \<Rightarrow> string \<Rightarrow> usize_range result" where
  "checked_range s len ctx = let_ok (ok_or (checked_add s len) (Overflow ctx)) (\<lambda>e. Inr (s, e))"

definition global_from_range :: "u32 \<Rightarrow> usize_range \<Rightarrow> global_data" where
  "global_from_range kind r =
     \<lparr>section_type = kind, file_offset = word_of_nat (fst r), file_size = word_of_nat (snd r - fst r)\<rparr>"

definition v2_write_layout :: "v2_header \<Rightarrow> nat \<Rightarrow> u32 \<Rightarrow> nat \<Rightarrow> nat \<Rightarrow> write_layout result" where
  "v2_write_layout h uuid_size file_count string_table_size function_info_size =
     (let has_uuid = uuid_size \<noteq> 0 in
     let_ok (ok_or (Option.bind (checked_add 5 (if has_uuid then 1 else 0)) (\<lambda>count. checked_add count 1))
       (Overflow ''v2 directory entry count'')) (\<lambda>directory_entry_count.
     let_ok (ok_or (checked_mul directory_entry_count GLOBAL_DATA_SIZE) (Overflow ''v2 directory size'')) (\<lambda>n.
     let_ok (ok_or (checked_add V2_HEADER_SIZE n) (Overflow ''v2 directory end'')) (\<lambda>directory_end.
     let_ok (if has_uuid then
         let_ok (ok_or (checked_add directory_end uuid_size) (Overflow ''v2 UUID section end'')) (\<lambda>e.
         Inr (Some (directory_end, e), e))
       else Inr (None, directory_end)) (\<lambda>(uuid, current).
     let_ok (ok_or (align_up current (unat (v2_address_offset_size h)))
       (Overflow ''v2 address-table alignment'')) (\<lambda>current.
     let_ok (ok_or (checked_mul (unat (v2_address_count h)) (unat (v2_address_offset_size h)))
       (Overflow ''v2 address-table size'')) (\<lambda>address_size.
     let_ok (checked_range current address_size ''v2 address table'') (\<lambda>address_offsets.
     let_ok (ok_or (align_up (snd address_offsets) (unat V2_ADDRESS_INFO_OFFSET_SIZE))
       (Overflow ''v2 address-info alignment'')) (\<lambda>current.
     let_ok (ok_or (checked_mul (unat (v2_address_count h)) (unat V2_ADDRESS_INFO_OFFSET_SIZE))
       (Overflow ''v2 address-info size'')) (\<lambda>address_info_size.
     let_ok (checked_range current address_info_size ''v2 address-info table'') (\<lambda>address_info_offsets.
     let_ok (ok_or (align_up (snd address_info_offsets) 4) (Overflow ''v2 file-table alignment'')) (\<lambda>current.
     let_ok (v2_file_table_size file_count) (\<lambda>len.
     let_ok (checked_range current len ''v2 file table'') (\<lambda>file_table.
     let_ok (checked_range (snd file_table) string_table_size ''v2 string table'') (\<lambda>string_table.
     let_ok (ok_or (align_up (snd string_table) 4) (Overflow ''v2 FunctionInfo alignment'')) (\<lambda>current.
     let_ok (checked_range current function_info_size ''v2 FunctionInfo section'') (\<lambda>function_info.
     let directory =
       (case uuid of None \<Rightarrow> [] | Some r \<Rightarrow> [global_from_range GLOBAL_UUID r])
       @ [global_from_range GLOBAL_ADDRESS_OFFSETS address_offsets,
          global_from_range GLOBAL_ADDRESS_INFO_OFFSETS address_info_offsets,
          global_from_range GLOBAL_FILE_TABLE file_table,
          global_from_range GLOBAL_STRING_TABLE string_table,
          global_from_range GLOBAL_FUNCTION_INFO function_info] in
     Inr \<lparr>wl_directory = directory, wl_directory_end = directory_end, wl_uuid = uuid,
          wl_address_offsets = address_offsets, wl_address_info_offsets = address_info_offsets,
          wl_file_table = file_table, wl_string_table = string_table, wl_function_info = function_info,
          wl_file_size = snd function_info\<rparr>)))))))))))))))))"

section \<open>What a parsed directory promises\<close>

definition section_end :: "global_data \<Rightarrow> nat" where
  "section_end entry = unat (file_offset entry) + unat (file_size entry)"

definition section_ok :: "bytes \<Rightarrow> v2_header \<Rightarrow> global_data \<Rightarrow> bool" where
  "section_ok bs h entry \<longleftrightarrow>
     (section_type entry = GLOBAL_ADDRESS_OFFSETS \<longrightarrow>
        unat (file_size entry) = unat (v2_address_count h) * unat (v2_address_offset_size h)
        \<and> unat (file_offset entry) mod unat (v2_address_offset_size h) = 0)
     \<and> (section_type entry = GLOBAL_ADDRESS_INFO_OFFSETS \<longrightarrow>
        unat (file_size entry) = unat (v2_address_count h) * 8 \<and> unat (file_offset entry) mod 8 = 0)
     \<and> (section_type entry = GLOBAL_FILE_TABLE \<longrightarrow>
        4 \<le> unat (file_size entry) \<and> (unat (file_size entry) - 4) mod 16 = 0 \<and> unat (file_offset entry) mod 4 = 0)
     \<and> (section_type entry = GLOBAL_STRING_TABLE \<longrightarrow> nth_get bs (unat (file_offset entry)) = Some 0)
     \<and> (section_type entry = GLOBAL_FUNCTION_INFO \<longrightarrow> unat (file_offset entry) mod 4 = 0)"

definition directory_sound :: "bytes \<Rightarrow> v2_header \<Rightarrow> directory \<Rightarrow> bool" where
  "directory_sound bs h d \<longleftrightarrow>
     distinct (map section_type (dir_entries d))
     \<and> set REQUIRED_TYPES \<subseteq> set (map section_type (dir_entries d))
     \<and> dir_end_offset d = V2_HEADER_SIZE + GLOBAL_DATA_SIZE * (length (dir_entries d) + 1)
     \<and> (\<forall>entry \<in> set (dir_entries d). file_size entry \<noteq> 0 \<and> dir_end_offset d \<le> unat (file_offset entry)
          \<and> section_end entry \<le> length bs \<and> section_ok bs h entry)
     \<and> (\<forall>a \<in> set (dir_entries d). \<forall>b \<in> set (dir_entries d). a \<noteq> b \<longrightarrow>
          section_end a \<le> unat (file_offset b) \<or> section_end b \<le> unat (file_offset a))"

lemma parse_entries_sound:
  assumes "parse_entries n seen entries c = Inr (seen', entries', c')"
    and "seen = set (map section_type entries)" and "distinct (map section_type entries)"
    and "\<forall>entry \<in> set entries. file_size entry \<noteq> 0 \<and> section_end entry \<le> n"
  shows "seen' = set (map section_type entries') \<and> distinct (map section_type entries')
    \<and> (\<forall>entry \<in> set entries'. file_size entry \<noteq> 0 \<and> section_end entry \<le> n)
    \<and> length entries \<le> length entries'
    \<and> position c' = position c + 20 * (length entries' - length entries + 1) \<and> position c' \<le> length (cbytes c)"
  using assms
proof (induction n seen entries c rule: parse_entries.induct)
  case (1 n seen entries c)
  note eq = parse_entries.simps[of n seen entries c]
  from "1.prems"(1) obtain entry c1 where d: "global_decode_from c = Inr (entry, c1)" by (auto simp: eq)
  have p: "position c1 = position c + 20" "cbytes c1 = cbytes c" "position c1 \<le> length (cbytes c)"
    using d by (auto simp: global_decode_from_def read_u32_def read_u64_def take_array_def Let_def split: if_splits)
  show ?case
  proof (cases "section_type entry = GLOBAL_END")
    case True
    then have "seen' = seen \<and> entries' = entries \<and> c' = c1"
      using "1.prems"(1)[unfolded eq] d by (auto split: if_splits)
    then show ?thesis using "1.prems"(2-4) p by auto
  next
    case False
    with "1.prems"(1) d obtain stop where s: "section_type entry \<notin> seen" "file_size entry \<noteq> 0"
      "checked_add_u64 (file_offset entry) (file_size entry) = Some stop" "\<not> unat stop > n"
      and l: "parse_entries n (insert (section_type entry) seen) (entries @ [entry]) c1 = Inr (seen', entries', c')"
      by (auto simp: eq ok_simps split: if_splits)
    have o: "ok_or (checked_add_u64 (file_offset entry) (file_size entry)) (Overflow ''v2 section end'') = Inr stop"
      using s(3) by simp
    have e: "section_end entry \<le> n" using checked_add_u64_Some[OF s(3)] s(4) by (metis not_less section_end_def)
    show ?thesis
      using "1.IH"[OF d refl False s(1,2) o s(4) l] "1.prems"(2-4) s e p by (auto simp: Suc_diff_le)
  qed
qed

lemma rem_nonzero_iff: "rem_nonzero (checked_rem_u64 a b) \<longleftrightarrow> b = 0 \<or> unat a mod unat b \<noteq> 0"
proof -
  have "a mod b = 0 \<longleftrightarrow> unat a mod unat b = 0" for a b :: u64
    by (metis unat_mod unat_eq_zero)
  then show ?thesis by (simp add: rem_nonzero_def checked_rem_u64_def)
qed

lemma checked_mul_u64_Some: "checked_mul_u64 a b = Some c \<Longrightarrow> unat c = unat a * unat b"
  by (auto simp: checked_mul_u64_def unat_word_ariths split: if_splits)

lemma validate_section_ok:
  assumes "validate_section bs h address_size address_info_size entry = Inr ()"
    and "checked_mul_u64 (ucast (v2_address_count h)) (ucast (v2_address_offset_size h)) = Some address_size"
    and "checked_mul_u64 (ucast (v2_address_count h)) (ucast V2_ADDRESS_INFO_OFFSET_SIZE) = Some address_info_size"
  shows "section_ok bs h entry"
proof -
  note sizes = checked_mul_u64_Some[OF assms(2)] checked_mul_u64_Some[OF assms(3)]
  have four: "4 \<le> unat (file_size entry)" "unat (saturating_sub_u64 (file_size entry) 4) = unat (file_size entry) - 4"
    if "\<not> file_size entry < 4"
    using that by (auto simp: saturating_sub_u64_def unat_sub_u64 word_less_nat_alt word_le_nat_alt)
  have m4: "unat (file_offset entry) mod 4 = 0" if "file_offset entry mod 4 = 0"
    using that unat_mod[of "file_offset entry" 4] by simp
  show ?thesis
    using assms(1) sizes four m4
    by (auto simp: validate_section_def section_ok_def rem_nonzero_iff global_types V2_ADDRESS_INFO_OFFSET_SIZE_def
        V2_FILE_ENTRY_SIZE_def split: if_splits)
qed

lemma check_disjoint_sorted:
  "check_disjoint p rs = Inr () \<Longrightarrow> \<forall>r \<in> set rs. fst r \<le> snd r \<Longrightarrow>
    (\<forall>r \<in> set rs. p \<le> fst r) \<and> sorted_wrt (\<lambda>a b. snd a \<le> fst b) rs"
proof (induction p rs rule: check_disjoint.induct)
  case (2 p s e rs)
  then have "p \<le> s" "s \<le> e" and IH: "\<forall>r \<in> set rs. e \<le> fst r" "sorted_wrt (\<lambda>a b. snd a \<le> fst b) rs"
    by (auto split: if_splits)
  then show ?case by (auto intro: order.trans)
qed simp

text \<open>Pairwise separation of a list of non-empty ranges leaves no two equal, so it can be read off
  any permutation of it.\<close>

lemma separated_pairwise:
  assumes "sorted_wrt (\<lambda>a b. snd a \<le> fst b) (sort_key fst (map f xs))"
    and "\<forall>x \<in> set xs. fst (f x) < (snd (f x) :: 'a :: linorder)" and "x \<in> set xs" "y \<in> set xs" "x \<noteq> y"
  shows "snd (f x) \<le> fst (f y) \<or> snd (f y) \<le> fst (f x)"
proof -
  let ?ys = "sort_key fst (map f xs)"
  have set_ys: "set ?ys = f ` set xs" by simp
  have irrefl: "\<not> snd r \<le> fst r" if "r \<in> set ?ys" for r using that assms(2) by (auto simp: set_ys not_le)
  have "distinct ys" if "sorted_wrt (\<lambda>a b. snd a \<le> fst b) ys" "\<forall>r \<in> set ys. \<not> snd r \<le> fst r" for ys :: "('a \<times> 'a) list"
    using that by (induction ys) auto
  then have "distinct ?ys" using assms(1) irrefl by blast
  then have inj: "inj_on f (set xs)" and "distinct xs" by (auto simp: distinct_map)
  have ne: "f x \<noteq> f y" using inj assms(3-5) by (auto dest: inj_onD)
  obtain i j where ij: "i < length ?ys" "?ys ! i = f x" "j < length ?ys" "?ys ! j = f y"
    using assms(3,4) set_ys by (metis (no_types, opaque_lifting) image_eqI in_set_conv_nth)
  then show ?thesis
    using sorted_wrt_nth_less[OF assms(1), of i j] sorted_wrt_nth_less[OF assms(1), of j i] ne
    by (cases i j rule: linorder_cases) auto
qed

lemma map_ok_unit: "map_ok f xs = Inr ys \<Longrightarrow> x \<in> set xs \<Longrightarrow> f x = Inr (() :: unit)"
  by (induction xs arbitrary: ys) auto

lemma validate_sections_sound:
  assumes "validate_sections bs directory_end h entries = Inr ()" and "directory_end < 2 ^ 64"
    and "\<forall>entry \<in> set entries. file_size entry \<noteq> 0 \<and> section_end entry < 2 ^ 64"
  shows "(\<forall>entry \<in> set entries. directory_end \<le> unat (file_offset entry) \<and> section_ok bs h entry)
    \<and> (\<forall>a \<in> set entries. \<forall>b \<in> set entries. a \<noteq> b \<longrightarrow>
         section_end a \<le> unat (file_offset b) \<or> section_end b \<le> unat (file_offset a))"
proof -
  let ?stop = "\<lambda>entry. file_offset entry + file_size entry"
  let ?f = "\<lambda>entry. (file_offset entry, ?stop entry)"
  from assms(1) obtain as ais us ranges where
    s: "checked_mul_u64 (ucast (v2_address_count h)) (ucast (v2_address_offset_size h)) = Some as"
      "checked_mul_u64 (ucast (v2_address_count h)) (ucast V2_ADDRESS_INFO_OFFSET_SIZE) = Some ais"
    and v: "map_ok (validate_section bs h as ais) entries = Inr us"
    and r: "map_ok (\<lambda>entry. let_ok (ok_or (checked_add_u64 (file_offset entry) (file_size entry)) (Overflow ''v2 section end''))
        (\<lambda>stop. Inr (file_offset entry, stop))) entries = Inr ranges"
    and c: "check_disjoint (word_of_nat directory_end) (sort_key fst ranges) = Inr ()"
    by (auto simp: validate_sections_def ok_simps)
  have stop: "unat (?stop entry) = section_end entry" "?f entry = (file_offset entry, ?stop entry)"
    "file_offset entry < ?stop entry" if "entry \<in> set entries" for entry
    using that assms(3) by (auto simp: section_end_def unat_add_u64 word_less_nat_alt unat_gt_0)
  have "ranges = map ?f entries"
    using r by (induction entries arbitrary: ranges) (auto simp: ok_simps checked_add_u64_def split: if_splits)
  with c have sorted: "sorted_wrt (\<lambda>a b. snd a \<le> fst b) (sort_key fst (map ?f entries))"
    and low: "\<forall>entry \<in> set entries. word_of_nat directory_end \<le> file_offset entry"
    using check_disjoint_sorted[OF c] stop(3) by (auto simp: less_imp_le)
  have "directory_end \<le> unat (file_offset entry)" if "entry \<in> set entries" for entry
    using low that unat_word_of_nat_u64[OF assms(2)] by (auto simp: word_le_nat_alt)
  moreover have "section_ok bs h entry" if "entry \<in> set entries" for entry
    by (rule validate_section_ok[OF map_ok_unit[OF v that] s])
  moreover have "section_end a \<le> unat (file_offset b) \<or> section_end b \<le> unat (file_offset a)"
    if "a \<in> set entries" "b \<in> set entries" "a \<noteq> b" for a b
    using separated_pairwise[OF sorted _ that] stop that by (auto simp: word_le_nat_alt)
  ultimately show ?thesis by blast
qed

lemma parse_directory_sound:
  assumes "parse_directory bs e h = Inr d" and "length bs < 2 ^ 64"
  shows "directory_sound bs h d"
proof -
  from assms(1) obtain c seen c' us where
    c: "cursor_at bs e V2_HEADER_SIZE = Inr c"
    and p: "parse_entries (length bs) {} [] c = Inr (seen, dir_entries d, c')"
    and req: "map_ok (\<lambda>required. if required \<notin> seen then Inl (MissingSection required) else Inr ()) REQUIRED_TYPES = Inr us"
    and v: "validate_sections bs (position c') h (dir_entries d) = Inr ()" and e: "dir_end_offset d = position c'"
    by (auto simp: parse_directory_def Let_def)
  have c': "position c = V2_HEADER_SIZE" "cbytes c = bs" using c by (auto simp: cursor_at_def split: if_splits)
  have s: "seen = set (map section_type (dir_entries d))" "distinct (map section_type (dir_entries d))"
    "\<forall>entry \<in> set (dir_entries d). file_size entry \<noteq> 0 \<and> section_end entry \<le> length bs"
    "position c' = V2_HEADER_SIZE + GLOBAL_DATA_SIZE * (length (dir_entries d) + 1)" "position c' \<le> length bs"
    using parse_entries_sound[OF p] c' by (simp_all add: GLOBAL_DATA_SIZE_def)
  have small: "\<forall>entry \<in> set (dir_entries d). file_size entry \<noteq> 0 \<and> section_end entry < 2 ^ 64" "position c' < 2 ^ 64"
    using s(3,5) assms(2) by (auto intro: le_less_trans)
  note vs = validate_sections_sound[OF v small(2,1)]
  have "r \<in> seen" if "r \<in> set REQUIRED_TYPES" for r
    using map_ok_unit[OF req that] by (simp split: if_splits)
  then have "set REQUIRED_TYPES \<subseteq> seen" by blast
  then show ?thesis
    unfolding directory_sound_def e s(1)[symmetric] using s(2-4) vs by blast
qed

section \<open>The header\<close>

lemma v2_header_encode_eq:
  "v2_header_encode h e = Inr bs \<longleftrightarrow>
     v2_validate_address_offset_size (v2_address_offset_size h) = Inr () \<and> v2_string_table_encoding h = STRING_TABLE_ENCODING_DEFAULT
     \<and> bs = magic_bytes e @ to_bytes e 2 (unat V2_VERSION) @ [v2_address_offset_size h] @ [v2_string_table_encoding h]
        @ to_bytes e 8 (unat (v2_base_address h)) @ to_bytes e 4 (unat (v2_address_count h))"
  by (auto simp: v2_header_encode_def enc_simps Let_def magic_bytes_def encoder_new_def ok_simps)

lemma v2_header_decode_bytes:
  assumes "v2_header_encode h e = Inr bs" and "length (bs @ rest) < 2 ^ 64"
  shows "v2_header_decode native (bs @ rest) = Inr (h, e)"
proof -
  note b = assms(1)[unfolded v2_header_encode_eq]
  define c where "c = cursor_new (bs @ rest) e"
  have detect: "detect_endian native (bs @ rest) = Inr e" using b by (simp add: detect_endian_iff)
  have "ahead c bs" unfolding c_def using assms(2) by (rule ahead_prefix)
  then have "ahead c (magic_bytes e @ to_bytes e 2 (unat V2_VERSION) @ [v2_address_offset_size h] @ [v2_string_table_encoding h]
      @ to_bytes e 8 (unat (v2_base_address h)) @ to_bytes e 4 (unat (v2_address_count h)))"
    using b by simp
  note a = this[unfolded magic_bytes_def ahead_append length_to_bytes advance_simps list.size]
  have ce: "cendian c = e" by (simp add: c_def cursor_new_def)
  have reads: "read_u32 c = Inr (GSYM_MAGIC, advance 4 c)" "read_u16 (advance 4 c) = Inr (V2_VERSION, advance 6 c)"
    "read_u8 (advance 6 c) = Inr (v2_address_offset_size h, advance 7 c)"
    "read_u8 (advance 7 c) = Inr (v2_string_table_encoding h, advance 8 c)"
    "read_u64 (advance 8 c) = Inr (v2_base_address h, advance 16 c)"
    "read_u32 (advance 16 c) = Inr (v2_address_count h, advance 20 c)"
    using a read_u32_ahead[of c GSYM_MAGIC] read_u16_ahead[of "advance 4 c" V2_VERSION]
      read_u8_ahead[of "advance 6 c" "v2_address_offset_size h"] read_u8_ahead[of "advance 7 c" "v2_string_table_encoding h"]
      read_u64_ahead[of "advance 8 c" "v2_base_address h"] read_u32_ahead[of "advance 16 c" "v2_address_count h"]
    by (simp_all add: ce ahead_append)
  show ?thesis
    using b[THEN conjunct1] b[THEN conjunct2, THEN conjunct1] by (simp add: v2_header_decode_def detect c_def[symmetric] reads cong: let_ok_weak_cong)
qed

text \<open>Directory entries are a codec of 20 bytes.\<close>

definition global_bytes :: "endian \<Rightarrow> global_data \<Rightarrow> bytes" where
  "global_bytes e g = to_bytes e 4 (unat (section_type g)) @ to_bytes e 8 (unat (file_offset g)) @ to_bytes e 8 (unat (file_size g))"

lemma global_encode_into_eq [enc_simps]: "global_encode_into g out = write_bytes (global_bytes (eendian out) g) out"
  by (simp add: global_encode_into_def enc_simps global_bytes_def)

interpretation global_codec: fixed_codec global_bytes global_decode_from "\<lambda>_. True" 20
proof unfold_locales
  fix x :: global_data and c
  assume "ahead c (global_bytes (cendian c) x)"
  then have a: "ahead c (to_bytes (cendian c) 4 (unat (section_type x)))"
    "ahead (advance 4 c) (to_bytes (cendian c) 8 (unat (file_offset x)))"
    "ahead (advance 12 c) (to_bytes (cendian c) 8 (unat (file_size x)))"
    by (simp_all add: global_bytes_def ahead_append)
  then show "global_decode_from c = Inr (x, advance (length (global_bytes (cendian c) x)) c)"
    using read_u32_ahead[of c "section_type x"] read_u64_ahead[of "advance 4 c" "file_offset x"]
      read_u64_ahead[of "advance 12 c" "file_size x"]
    by (simp add: global_decode_from_def global_bytes_def)
qed (simp add: global_bytes_def)

section \<open>The layout of a file to be written\<close>

text \<open>A section placed behind the previous one: at the first multiple of its alignment, with the given size.\<close>

definition placed :: "nat \<Rightarrow> nat \<Rightarrow> nat \<Rightarrow> usize_range \<Rightarrow> bool" where
  "placed previous_end alignment size_of r \<longleftrightarrow>
     fst r mod alignment = 0 \<and> previous_end \<le> fst r \<and> fst r < previous_end + alignment \<and> snd r = fst r + size_of"

lemma align_up_placed: "align_up n a = Some m \<Longrightarrow> k = m + len \<Longrightarrow> placed n a len (m, k)"
  using align_up_spec[of n a m] by (simp add: placed_def mod_eq_0_iff_dvd)

lemma placed_ends: "placed n a len r \<Longrightarrow> n \<le> fst r \<and> fst r \<le> snd r"
  by (simp add: placed_def)

definition uuid_ranges :: "write_layout \<Rightarrow> usize_range list" where
  "uuid_ranges l = (case wl_uuid l of None \<Rightarrow> [] | Some r \<Rightarrow> [r])"

lemma v2_write_layout_steps:
  assumes "v2_write_layout h uuid_size file_count strings_size info_size = Inr l"
  defines "n \<equiv> unat (v2_address_count h)" and "width \<equiv> unat (v2_address_offset_size h)"
    and "u_end \<equiv> wl_directory_end l + uuid_size"
  shows "wl_directory_end l = 20 + 20 * (length (wl_directory l) + 1)
    \<and> wl_uuid l = (if uuid_size = 0 then None else Some (wl_directory_end l, u_end))
    \<and> placed u_end width (n * width) (wl_address_offsets l)
    \<and> placed (snd (wl_address_offsets l)) 8 (n * 8) (wl_address_info_offsets l)
    \<and> placed (snd (wl_address_info_offsets l)) 4 (4 + unat file_count * 16) (wl_file_table l)
    \<and> wl_string_table l = (snd (wl_file_table l), snd (wl_file_table l) + strings_size)
    \<and> placed (snd (wl_string_table l)) 4 info_size (wl_function_info l)
    \<and> wl_file_size l = snd (wl_function_info l) \<and> wl_file_size l < 2 ^ 64
    \<and> wl_directory l = (case wl_uuid l of None \<Rightarrow> [] | Some r \<Rightarrow> [global_from_range GLOBAL_UUID r])
        @ [global_from_range GLOBAL_ADDRESS_OFFSETS (wl_address_offsets l),
           global_from_range GLOBAL_ADDRESS_INFO_OFFSETS (wl_address_info_offsets l),
           global_from_range GLOBAL_FILE_TABLE (wl_file_table l), global_from_range GLOBAL_STRING_TABLE (wl_string_table l),
           global_from_range GLOBAL_FUNCTION_INFO (wl_function_info l)]"
proof (cases "uuid_size = 0")
  case True
  then show ?thesis using assms(1)
    by (clarsimp simp: v2_write_layout_def Let_def ok_simps checked_range_def V2_ADDRESS_INFO_OFFSET_SIZE_def
      v2_file_table_size_def file_table_size_def V2_FILE_ENTRY_SIZE_def bind_eq_Some_conv GLOBAL_DATA_SIZE_def V2_HEADER_SIZE_def
      n_def width_def u_end_def align_up_placed)
next
  case False
  then show ?thesis using assms(1)
    by (clarsimp simp: v2_write_layout_def Let_def ok_simps checked_range_def V2_ADDRESS_INFO_OFFSET_SIZE_def
      v2_file_table_size_def file_table_size_def V2_FILE_ENTRY_SIZE_def bind_eq_Some_conv GLOBAL_DATA_SIZE_def V2_HEADER_SIZE_def
      n_def width_def u_end_def align_up_placed)
qed

lemma global_from_range_reads:
  "fst r \<le> snd r \<Longrightarrow> snd r < 2 ^ 64 \<Longrightarrow>
    (section_type (global_from_range kind r), unat (file_offset (global_from_range kind r)),
      unat (file_offset (global_from_range kind r)) + unat (file_size (global_from_range kind r))) = (kind, r)"
  by (cases r) (simp add: global_from_range_def unat_of_nat take_bit_nat_eq_self del: of_nat_diff)

section \<open>Properties\<close>

text \<open>C10: A directory that \<open>parse_directory\<close> accepts describes the file soundly: no section type occurs twice and all
  required ones occur; every section is non-empty, lies inside the input behind the directory and overlaps no
  other section; the address tables have the size that the header's function count and width call for, tables are
  aligned to their entries, and the string table starts with the empty string.\<close>

theorem parse_directory_accepts_sound:
  assumes "parse_directory bs e h = Inr d" and "length bs < 2 ^ 64"
  shows "directory_sound bs h d"
  using assms by (rule parse_directory_sound)

text \<open>C14: A version-2 header is 20 bytes long when written, and is read back unchanged, with its byte order, from any
  file that starts with it, on a host of either byte order.\<close>

theorem v2_header_roundtrip:
  assumes "v2_header_encode h e = Inr bs" and "length (bs @ rest) < 2 ^ 64"
  shows "length bs = V2_HEADER_SIZE \<and> v2_header_decode native (bs @ rest) = Inr (h, e)"
  using v2_header_decode_bytes[OF assms] assms(1) by (simp add: v2_header_encode_eq V2_HEADER_SIZE_def)

lemma v2_header_roundtrip_witness:
  "\<exists>bs. v2_header_decode Big (bs @ [1, 2]) = Inr (\<lparr>v2_address_offset_size = 2, v2_string_table_encoding = 0,
      v2_base_address = 0x1000, v2_address_count = 1\<rparr>, Little)"
  (is "\<exists>bs. _ = Inr (?h, Little)")
proof -
  obtain bs where bs: "v2_header_encode ?h Little = Inr bs" "length (bs @ [1, 2]) < 2 ^ 64"
    by (simp add: v2_header_encode_eq v2_validate_address_offset_size_def STRING_TABLE_ENCODING_DEFAULT_def)
  show ?thesis using v2_header_roundtrip[OF bs] by blast
qed

text \<open>C13: The layout \<open>write_layout\<close> computes for a file. Behind the header and the directory, which has one entry for each
  section and an end marker, come the build identifier if there is one, then the address table, the address-info table, the
  file table, the string table and the function records: each table has the size of its contents and starts behind the one
  before it, at the first multiple of its alignment (the address width, 8, 4 and 4; the strings follow the files directly). So
  the sections are in order and do not overlap. The entries of the directory give back the kind and the place of each section.
  The last one ends the file, and its end is below \<open>2 ^ 64\<close>.\<close>

theorem v2_write_layout_packs:
  assumes "v2_write_layout h uuid_size file_count strings_size info_size = Inr l"
  defines "sections \<equiv> uuid_ranges l @ [wl_address_offsets l, wl_address_info_offsets l, wl_file_table l, wl_string_table l, wl_function_info l]"
    and "kinds \<equiv> (if uuid_size = 0 then [] else [GLOBAL_UUID]) @ [GLOBAL_ADDRESS_OFFSETS, GLOBAL_ADDRESS_INFO_OFFSETS,
      GLOBAL_FILE_TABLE, GLOBAL_STRING_TABLE, GLOBAL_FUNCTION_INFO]"
    and "n \<equiv> unat (v2_address_count h)" and "width \<equiv> unat (v2_address_offset_size h)"
  shows "wl_directory_end l = 20 + 20 * (length kinds + 1)
    \<and> uuid_ranges l = (if uuid_size = 0 then [] else [(wl_directory_end l, wl_directory_end l + uuid_size)])
    \<and> fst (wl_address_offsets l) mod width = 0
    \<and> wl_directory_end l + uuid_size \<le> fst (wl_address_offsets l) \<and> fst (wl_address_offsets l) < wl_directory_end l + uuid_size + width
    \<and> snd (wl_address_offsets l) = fst (wl_address_offsets l) + n * width
    \<and> fst (wl_address_info_offsets l) mod 8 = 0
    \<and> snd (wl_address_offsets l) \<le> fst (wl_address_info_offsets l) \<and> fst (wl_address_info_offsets l) < snd (wl_address_offsets l) + 8
    \<and> snd (wl_address_info_offsets l) = fst (wl_address_info_offsets l) + n * 8
    \<and> fst (wl_file_table l) mod 4 = 0
    \<and> snd (wl_address_info_offsets l) \<le> fst (wl_file_table l) \<and> fst (wl_file_table l) < snd (wl_address_info_offsets l) + 4
    \<and> snd (wl_file_table l) = fst (wl_file_table l) + (4 + unat file_count * 16)
    \<and> wl_string_table l = (snd (wl_file_table l), snd (wl_file_table l) + strings_size)
    \<and> fst (wl_function_info l) mod 4 = 0
    \<and> snd (wl_string_table l) \<le> fst (wl_function_info l) \<and> fst (wl_function_info l) < snd (wl_string_table l) + 4
    \<and> snd (wl_function_info l) = fst (wl_function_info l) + info_size
    \<and> sorted_wrt (\<lambda>a b. fst a \<le> snd a \<and> snd a \<le> fst b) ((0, wl_directory_end l) # sections)
    \<and> map (\<lambda>e. (section_type e, unat (file_offset e), unat (file_offset e) + unat (file_size e))) (wl_directory l) = zip kinds sections
    \<and> wl_file_size l = snd (wl_function_info l) \<and> wl_file_size l < 2 ^ 64"
proof -
  note steps = v2_write_layout_steps[OF assms(1), folded n_def width_def]
  have placed: "placed (wl_directory_end l + uuid_size) width (n * width) (wl_address_offsets l)"
    "placed (snd (wl_address_offsets l)) 8 (n * 8) (wl_address_info_offsets l)"
    "placed (snd (wl_address_info_offsets l)) 4 (4 + unat file_count * 16) (wl_file_table l)"
    "placed (snd (wl_string_table l)) 4 info_size (wl_function_info l)"
    and strings: "wl_string_table l = (snd (wl_file_table l), snd (wl_file_table l) + strings_size)"
    and some: "wl_uuid l = (if uuid_size = 0 then None else Some (wl_directory_end l, wl_directory_end l + uuid_size))"
    and stop: "wl_file_size l = snd (wl_function_info l)" "wl_file_size l < 2 ^ 64"
    and the_end: "wl_directory_end l = 20 + 20 * (length (wl_directory l) + 1)"
    using steps by - (elim conjE, assumption)+
  have uuid: "uuid_ranges l = (if uuid_size = 0 then [] else [(wl_directory_end l, wl_directory_end l + uuid_size)])"
    by (simp add: uuid_ranges_def some)
  have directory: "wl_directory l = map (\<lambda>(kind, r). global_from_range kind r) (zip kinds sections)"
    using steps by (elim conjE) (simp add: kinds_def sections_def uuid_ranges_def some)
  note ends = placed_ends[OF placed(1)] placed_ends[OF placed(2)] placed_ends[OF placed(3)] placed_ends[OF placed(4)]
  have order: "sorted_wrt (\<lambda>a b. fst a \<le> snd a \<and> snd a \<le> fst b) ((0, wl_directory_end l) # sections)"
    using ends strings by (auto simp: sections_def uuid)
  have reads: "(section_type (global_from_range kind r), unat (file_offset (global_from_range kind r)),
      unat (file_offset (global_from_range kind r)) + unat (file_size (global_from_range kind r))) = (kind, r)"
    if "r \<in> set sections" for kind r
    using global_from_range_reads[of r kind] that ends strings stop by (auto simp: sections_def uuid split: if_splits)
  have entries: "map (\<lambda>e. (section_type e, unat (file_offset e), unat (file_offset e) + unat (file_size e))) (wl_directory l)
      = zip kinds sections"
    unfolding directory using reads by (auto simp: comp_def intro!: map_idI dest: set_zip_rightD)
  have "length (wl_directory l) = length kinds" by (simp add: directory kinds_def sections_def uuid)
  then have "wl_directory_end l = 20 + 20 * (length kinds + 1)" using the_end by simp
  then show ?thesis using placed[unfolded placed_def] strings uuid stop order entries
    by (intro conjI) (elim conjE, assumption)+
qed

lemma v2_write_layout_packs_witness:
  "\<exists>l. v2_write_layout \<lparr>v2_address_offset_size = 2, v2_string_table_encoding = 0, v2_base_address = 0x1000,
      v2_address_count = 3\<rparr> 20 2 9 39 = Inr l \<and> wl_function_info l = (264, 303) \<and> fst (wl_function_info l) mod 4 = 0"
proof -
  let ?h = "\<lparr>v2_address_offset_size = 2, v2_string_table_encoding = 0, v2_base_address = 0x1000, v2_address_count = 3\<rparr>"
  have "\<exists>l. v2_write_layout ?h 20 2 9 39 = Inr l \<and> wl_function_info l = (264, 303)"
    by (simp add: v2_write_layout_def Let_def checked_range_def V2_ADDRESS_INFO_OFFSET_SIZE_def v2_file_table_size_def
        file_table_size_def V2_FILE_ENTRY_SIZE_def GLOBAL_DATA_SIZE_def V2_HEADER_SIZE_def checked_add_def checked_mul_def
        align_up_def cong: let_ok_weak_cong)
  then obtain l where l: "v2_write_layout ?h 20 2 9 39 = Inr l" and info: "wl_function_info l = (264, 303)" by blast
  have "fst (wl_function_info l) mod 4 = 0" by (rule v2_write_layout_packs[OF l, THEN conjunct2, THEN conjunct2, THEN conjunct2,
      THEN conjunct2, THEN conjunct2, THEN conjunct2, THEN conjunct2, THEN conjunct2, THEN conjunct2, THEN conjunct2, THEN conjunct2,
      THEN conjunct2, THEN conjunct2, THEN conjunct2, THEN conjunct2, THEN conjunct1])
  then show ?thesis using l info by (intro exI[of _ l]) simp
qed

lemma parse_directory_accepts_sound_witness:
  "directory_sound (replicate 20 0 @ concat (map (global_bytes Little)
       [\<lparr>section_type = 1, file_offset = 140, file_size = 1\<rparr>, \<lparr>section_type = 2, file_offset = 144, file_size = 8\<rparr>,
        \<lparr>section_type = 4, file_offset = 152, file_size = 4\<rparr>, \<lparr>section_type = 3, file_offset = 156, file_size = 1\<rparr>,
        \<lparr>section_type = 5, file_offset = 160, file_size = 1\<rparr>, \<lparr>section_type = 0, file_offset = 0, file_size = 0\<rparr>]) @ replicate 21 0)
     \<lparr>v2_address_offset_size = 1, v2_string_table_encoding = 0, v2_base_address = 0x1000, v2_address_count = 1\<rparr>
     \<lparr>dir_entries = [\<lparr>section_type = 1, file_offset = 140, file_size = 1\<rparr>, \<lparr>section_type = 2, file_offset = 144, file_size = 8\<rparr>,
        \<lparr>section_type = 4, file_offset = 152, file_size = 4\<rparr>, \<lparr>section_type = 3, file_offset = 156, file_size = 1\<rparr>,
        \<lparr>section_type = 5, file_offset = 160, file_size = 1\<rparr>], dir_end_offset = 140\<rparr>"
  (is "directory_sound ?bs ?h ?d")
proof -
  have bs: "?bs = [0, 0, 0, 0, 0, 0, 0, 0, 0, 0, 0, 0, 0, 0, 0, 0, 0, 0, 0, 0, 1, 0, 0, 0, 140, 0, 0, 0, 0, 0, 0, 0, 1, 0, 0, 0,
      0, 0, 0, 0, 2, 0, 0, 0, 144, 0, 0, 0, 0, 0, 0, 0, 8, 0, 0, 0, 0, 0, 0, 0, 4, 0, 0, 0, 152, 0, 0, 0, 0, 0, 0,
      0, 4, 0, 0, 0, 0, 0, 0, 0, 3, 0, 0, 0, 156, 0, 0, 0, 0, 0, 0, 0, 1, 0, 0, 0, 0, 0, 0, 0, 5, 0, 0, 0, 160, 0,
      0, 0, 0, 0, 0, 0, 1, 0, 0, 0, 0, 0, 0, 0, 0, 0, 0, 0, 0, 0, 0, 0, 0, 0, 0, 0, 0, 0, 0, 0, 0, 0, 0, 0, 0, 0, 0,
      0, 0, 0, 0, 0, 0, 0, 0, 0, 0, 0, 0, 0, 0, 0, 0, 0, 0]"
    by code_simp
  have "parse_directory ?bs Little ?h = Inr ?d"
    unfolding bs
    by (simp cong: let_ok_weak_cong add: cursor_eval parse_directory_def cursor_at_def parse_entries.simps global_decode_from_def
      global_types checked_add_u64_def V2_HEADER_SIZE_def REQUIRED_TYPES_def validate_sections_def validate_section_def
      checked_mul_u64_def rem_nonzero_def checked_rem_u64_def saturating_sub_u64_def V2_FILE_ENTRY_SIZE_def nth_get_def V2_ADDRESS_INFO_OFFSET_SIZE_def)
  then show ?thesis by (rule parse_directory_accepts_sound) (simp add: global_bytes_def)
qed

end
