(* ===== verification/Encode.thy ===== *)
theory Encode
  imports Semantic V2
begin

text \<open>
  \<open>src/writer/encode.rs\<close>: the bytes of a whole file in either version, the fixed tables as
  \<open>prefix\<close> and the function records as \<open>function_info\<close>.
\<close>

record encoded_image =
  ei_prefix :: bytes
  ei_function_info :: bytes

definition image_into_bytes :: "encoded_image \<Rightarrow> bytes" where
  "image_into_bytes img = ei_prefix img @ ei_function_info img"

definition address_offset_width :: "u64 \<Rightarrow> u8" where
  "address_offset_width maximum =
     (if unat maximum < 2 ^ 8 then 1 else if unat maximum < 2 ^ 16 then 2
      else if unat maximum < 2 ^ 32 then 4 else 8)"

definition function_count :: "encoded_function list \<Rightarrow> u32 result" where
  "function_count functions =
     ok_or (u32_try_from (length functions)) (Limit ''function count'' (word_of_nat (length functions)) 0xFFFFFFFF)"

definition checked_table_size :: "nat \<Rightarrow> nat \<Rightarrow> string \<Rightarrow> nat result" where
  "checked_table_size count width ctx = ok_or (checked_mul count width) (Overflow ctx)"

definition narrow_v1 :: "nat \<Rightarrow> string \<Rightarrow> u32 result" where
  "narrow_v1 v field = ok_or (u32_try_from v) (V1LimitExceeded field (word_of_nat v))"

definition encode_function_step :: "u8 \<Rightarrow> nat \<Rightarrow> encoded_function \<Rightarrow> nat list \<times> encoder \<Rightarrow> (nat list \<times> encoder) result" where
  "encode_function_step string_width absolute_base fn = (\<lambda>(offsets, out).
     let_ok (ok_or (checked_add absolute_base (encoder_len out)) (Overflow ''FunctionInfo offset'')) (\<lambda>absolute.
     let_ok (ok_or (align_up absolute 4) (Overflow ''FunctionInfo alignment'')) (\<lambda>aligned.
     let_ok (ok_or (checked_sub aligned absolute) (Overflow ''FunctionInfo alignment padding'')) (\<lambda>padding.
     let_ok (ok_or (slice_get [0, 0, 0] 0 padding) (Overflow ''FunctionInfo alignment padding'')) (\<lambda>zeros.
     let_ok (encode_into fn string_width False (write_bytes zeros out)) (\<lambda>(_, out).
     Inr (offsets @ [aligned], out)))))))"

definition encode_function_section :: "encoded_function list \<Rightarrow> endian \<Rightarrow> u8 \<Rightarrow> nat \<Rightarrow> (nat list \<times> bytes) result" where
  "encode_function_section functions e string_width absolute_base =
     let_ok (fold_ok (encode_function_step string_width absolute_base) functions ([], encoder_new e))
       (\<lambda>(offsets, out). Inr (offsets, ebytes out))"

definition write_address_offsets :: "encoded_function list \<Rightarrow> u64 \<Rightarrow> u8 \<Rightarrow> encoder \<Rightarrow> encoder result" where
  "write_address_offsets functions base width out =
     let_ok (align_to (unat width) out) (\<lambda>out.
     fold_ok (\<lambda>fn out.
       let_ok (ok_or (checked_sub_u64 (r_start (ef_range fn)) base)
         (InvalidModel ''function address precedes the image base'')) (\<lambda>off. write_uint off width out)) functions out)"

definition write_file_table :: "(u64 \<times> u64) list \<Rightarrow> u8 \<Rightarrow> encoder \<Rightarrow> encoder result" where
  "write_file_table files string_width out =
     let_ok (ok_or (u32_try_from (length files)) (Limit ''file count'' (word_of_nat (length files)) 0xFFFFFFFF)) (\<lambda>count.
     fold_ok (\<lambda>(directory, basename) out.
       let_ok (write_uint directory string_width out) (write_uint basename string_width)) files (write_u32 count out))"

definition encode_v1 :: "writer_options \<Rightarrow> u64 \<Rightarrow> u8 \<Rightarrow> (u64 \<times> u64) list \<Rightarrow> bytes \<Rightarrow> encoded_function list
    \<Rightarrow> encoded_image result" where
  "encode_v1 options base width files strings functions =
     (if length (wo_build_id options) > MAX_UUID_SIZE then Inl (V1BuildIdTooLong (length (wo_build_id options)))
      else
        let_ok (function_count functions) (\<lambda>count.
        let_ok (checked_table_size (length functions) (unat width) ''v1 address'') (\<lambda>n.
        let_ok (ok_or (checked_add V1_HEADER_SIZE n) (Overflow ''v1 address table end'')) (\<lambda>address_end.
        let_ok (ok_or (align_up address_end 4) (Overflow ''v1 info alignment'')) (\<lambda>info_start.
        let_ok (checked_table_size (length functions) 4 ''v1 address-info'') (\<lambda>n.
        let_ok (ok_or (checked_add info_start n) (Overflow ''v1 address-info table end'')) (\<lambda>info_end.
        let_ok (ok_or (align_up info_end 4) (Overflow ''v1 file alignment'')) (\<lambda>file_start.
        let_ok (checked_table_size (length files) 8 ''v1 file'') (\<lambda>n.
        let_ok (ok_or (checked_add 4 n) (Overflow ''v1 file table size'')) (\<lambda>file_len.
        let_ok (ok_or (checked_add file_start file_len) (Overflow ''v1 string offset'')) (\<lambda>string_start.
        let_ok (ok_or (checked_add string_start (length strings)) (Overflow ''v1 FunctionInfo base'')) (\<lambda>function_base.
        let_ok (encode_function_section functions (wo_endian options) 4 function_base) (\<lambda>(function_offsets, function_bytes).
        let_ok (narrow_v1 string_start ''string-table offset'') (\<lambda>string_table_offset.
        let_ok (narrow_v1 (length strings) ''string-table size'') (\<lambda>string_table_size.
        let_ok (fixed_uuid_new (wo_build_id options)) (\<lambda>uuid.
        let_ok (v1_header_encode \<lparr>v1_address_offset_size = width, v1_base_address = base, v1_address_count = count,
            v1_string_table_offset = string_table_offset, v1_string_table_size = string_table_size,
            v1_uuid = uuid\<rparr> (wo_endian options)) (\<lambda>header.
        let_ok (write_address_offsets functions base width (write_bytes header (encoder_new (wo_endian options)))) (\<lambda>out.
        let_ok (align_to 4 out) (\<lambda>out.
        let_ok (fold_ok (\<lambda>off out. let_ok (narrow_v1 off ''FunctionInfo offset'') (\<lambda>off. Inr (write_u32 off out)))
          function_offsets out) (\<lambda>out.
        let_ok (align_to 4 out) (\<lambda>out.
        let_ok (write_file_table files 4 out) (\<lambda>out.
        Inr \<lparr>ei_prefix = ebytes (write_bytes strings out), ei_function_info = function_bytes\<rparr>))))))))))))))))))))))"

definition encode_v2 :: "writer_options \<Rightarrow> u64 \<Rightarrow> u8 \<Rightarrow> (u64 \<times> u64) list \<Rightarrow> bytes \<Rightarrow> encoded_function list
    \<Rightarrow> encoded_image result" where
  "encode_v2 options base width files strings functions =
     let_ok (encode_function_section functions (wo_endian options) 8 0) (\<lambda>(relative_offsets, function_bytes).
     let_ok (function_count functions) (\<lambda>count.
     let header = \<lparr>v2_address_offset_size = width, v2_string_table_encoding = STRING_TABLE_ENCODING_DEFAULT,
                   v2_base_address = base, v2_address_count = count\<rparr> in
     let_ok (ok_or (u32_try_from (length files)) (Limit ''file count'' (word_of_nat (length files)) 0xFFFFFFFF)) (\<lambda>file_count.
     let_ok (v2_write_layout header (length (wo_build_id options)) file_count (length strings) (length function_bytes)) (\<lambda>layout.
     let_ok (v2_header_encode header (wo_endian options)) (\<lambda>header_bytes.
     let out = write_bytes header_bytes (encoder_new (wo_endian options));
         out = fold global_encode_into (wl_directory layout) out;
         out = global_encode_into \<lparr>section_type = GLOBAL_END, file_offset = 0, file_size = 0\<rparr> out;
         out = (case wl_uuid layout of None \<Rightarrow> out | Some _ \<Rightarrow> write_bytes (wo_build_id options) out) in
     let_ok (align_to (unat width) out) (\<lambda>out.
     let_ok (write_address_offsets functions base width out) (\<lambda>out.
     let_ok (align_to 8 out) (\<lambda>out.
     let out = fold (\<lambda>off. write_u64 (word_of_nat off)) relative_offsets out in
     let_ok (align_to 4 out) (\<lambda>out.
     let_ok (write_file_table files 8 out) (\<lambda>out.
     let_ok (align_to 4 (write_bytes strings out)) (\<lambda>out.
     Inr \<lparr>ei_prefix = ebytes out, ei_function_info = function_bytes\<rparr>)))))))))))"

end
