(* ===== verification/Writer.thy ===== *)
theory Writer
  imports Encode
begin

text \<open>
  \<open>src/writer/mod.rs\<close>: the writer, from a builder to the bytes of a file. Writing to an
  \<open>impl Write\<close> is the concatenation of the image's two parts; the I/O itself is not modelled.
\<close>

definition encode_functions :: "'u string_env \<Rightarrow> gfunction list \<Rightarrow> 'u string_table
    \<Rightarrow> (encoded_function list \<times> 'u string_table) result" where
  "encode_functions env functions strings = map_state_ok (semantic_function env) functions strings"

definition encode_builder :: "'u string_env \<Rightarrow> 't gsym_builder \<Rightarrow> encoded_image result" where
  "encode_builder env b =
     let_ok (validate_file_table (b_files b)) (\<lambda>_.
     let_ok (validate_file_references b) (\<lambda>_.
     let options = b_options b;
         functions = finalize (b_functions b) options (b_function_set b) in
     let_ok (ok_or (nth_get functions 0) (InvalidModel ''at least one function is required'')) (\<lambda>first.
     let base = (case wo_base_address (bo_writer options) of None \<Rightarrow> r_start (fn_range first) | Some a \<Rightarrow> a) in
     if list_ex (\<lambda>fn. r_start (fn_range fn) < base) functions
     then Inl (InvalidModel ''function address precedes the selected image base'')
     else
       let width = address_offset_width (saturating_sub_u64 (r_start (fn_range (last functions))) base);
           strings = string_table_new env;
           (encoded_files, strings) = intern_files env (b_files b) strings in
       let_ok (encode_functions env functions strings) (\<lambda>(encoded_functions, strings).
       case wo_version (bo_writer options) of
         V1 \<Rightarrow> encode_v1 (bo_writer options) base width encoded_files (st_bytes strings) encoded_functions
       | V2 \<Rightarrow> encode_v2 (bo_writer options) base width encoded_files (st_bytes strings) encoded_functions))))"

definition builder_to_bytes :: "'u string_env \<Rightarrow> 't gsym_builder \<Rightarrow> bytes result" where
  "builder_to_bytes env b = let_ok (encode_builder env b) (\<lambda>img. Inr (image_into_bytes img))"

end
