(* ===== verification/Layout.thy ===== *)
theory Layout
  imports V2
begin

text \<open>
  \<open>src/reader/layout.rs\<close>: the parse of either file version into one \<open>ParsedLayout\<close>, the ranges of
  the tables in the input. Nothing past the fixed tables is looked at here.
\<close>

record parsed_layout =
  pl_version :: gsym_version
  pl_endian :: endian
  pl_address_offset_size :: u8
  pl_string_offset_size :: u8
  pl_base_address :: u64
  pl_address_count :: u32
  pl_build_id :: usize_range
  pl_address_offsets :: usize_range
  pl_address_info_offsets :: usize_range
  pl_file_table :: usize_range
  pl_string_table :: usize_range
  pl_function_info :: usize_range
  pl_file_count :: u32

definition range_len :: "usize_range \<Rightarrow> nat" where
  "range_len r = snd r - fst r"

definition parse_v1 :: "endian \<Rightarrow> bytes \<Rightarrow> parsed_layout result" where
  "parse_v1 native data =
     let_ok (v1_header_decode native data) (\<lambda>(header, e).
     let_ok (v1_layout_of header (length data)) (\<lambda>layout.
     let_ok (cursor_at data e (l1_file_table_offset layout)) (\<lambda>files.
     let_ok (read_u32 files) (\<lambda>(file_count, files).
     let_ok (v1_file_table_size file_count) (\<lambda>len.
     let_ok (ok_or (checked_add (l1_file_table_offset layout) len) (Overflow ''v1 file table end'')) (\<lambda>file_end.
     if file_end > fst (l1_string_table layout)
     then Inl (InvalidFormat ''v1 file table overlaps string table'')
     else
       let uuid_size = length (fixed_uuid_slice (v1_uuid header)) in
       Inr \<lparr>pl_version = V1, pl_endian = e, pl_address_offset_size = v1_address_offset_size header,
            pl_string_offset_size = V1_STRING_OFFSET_SIZE, pl_base_address = v1_base_address header,
            pl_address_count = v1_address_count header,
            pl_build_id = (28, saturating_add 28 uuid_size),
            pl_address_offsets = l1_address_offsets layout,
            pl_address_info_offsets = l1_address_info_offsets layout,
            pl_file_table = (l1_file_table_offset layout, file_end),
            pl_string_table = l1_string_table layout,
            pl_function_info = (l1_function_info_offset layout, length data),
            pl_file_count = file_count\<rparr>))))))"

text \<open>The closure \<open>range\<close> of \<open>parse_v2\<close>.\<close>

definition section_range :: "directory \<Rightarrow> u32 \<Rightarrow> usize_range result" where
  "section_range d kind =
     let_ok (ok_or (directory_get d kind) (MissingSection kind)) (\<lambda>entry.
     let start = unat (file_offset entry); len = unat (file_size entry) in
     let_ok (ok_or (checked_add start len) (Overflow ''section end'')) (\<lambda>stop.
     Inr (start, stop)))"

definition parse_v2 :: "endian \<Rightarrow> bytes \<Rightarrow> parsed_layout result" where
  "parse_v2 native data =
     let_ok (v2_header_decode native data) (\<lambda>(header, e).
     let_ok (parse_directory data e header) (\<lambda>d.
     let_ok (section_range d GLOBAL_FILE_TABLE) (\<lambda>file_table.
     let_ok (cursor_at data e (fst file_table)) (\<lambda>file_cursor.
     let_ok (read_u32 file_cursor) (\<lambda>(file_count, file_cursor).
     let_ok (v2_file_table_size file_count) (\<lambda>len.
     if len \<noteq> range_len file_table then Inl (InvalidFormat ''v2 file-table count does not match its size'')
     else
       let_ok (case directory_get d GLOBAL_UUID of
                 None \<Rightarrow> Inr (0, 0) | Some _ \<Rightarrow> section_range d GLOBAL_UUID) (\<lambda>build_id.
       let_ok (section_range d GLOBAL_ADDRESS_OFFSETS) (\<lambda>address_offsets.
       let_ok (section_range d GLOBAL_ADDRESS_INFO_OFFSETS) (\<lambda>address_info_offsets.
       let_ok (section_range d GLOBAL_STRING_TABLE) (\<lambda>string_table.
       let_ok (section_range d GLOBAL_FUNCTION_INFO) (\<lambda>function_info.
       Inr \<lparr>pl_version = V2, pl_endian = e, pl_address_offset_size = v2_address_offset_size header,
            pl_string_offset_size = V2_STRING_OFFSET_SIZE, pl_base_address = v2_base_address header,
            pl_address_count = v2_address_count header, pl_build_id = build_id,
            pl_address_offsets = address_offsets, pl_address_info_offsets = address_info_offsets,
            pl_file_table = file_table, pl_string_table = string_table,
            pl_function_info = function_info, pl_file_count = file_count\<rparr>)))))))))))"

definition layout_parse :: "endian \<Rightarrow> bytes \<Rightarrow> parsed_layout result" where
  "layout_parse native data =
     let_ok (detect_endian native data) (\<lambda>e.
     let_ok (read_u32 (cursor_new data e)) (\<lambda>(_, prefix).
     let_ok (read_u16 prefix) (\<lambda>(version, prefix).
     if version = V1_VERSION then parse_v1 native data
     else if version = V2_VERSION then parse_v2 native data
     else Inl (UnsupportedVersion version))))"

section \<open>What a parsed layout promises\<close>

definition inside :: "bytes \<Rightarrow> usize_range \<Rightarrow> bool" where
  "inside data r \<longleftrightarrow> fst r \<le> snd r \<and> snd r \<le> length data"

definition apart :: "usize_range \<Rightarrow> usize_range \<Rightarrow> bool" where
  "apart a b \<longleftrightarrow> snd a \<le> fst b \<or> snd b \<le> fst a"

definition pl_tables :: "parsed_layout \<Rightarrow> usize_range list" where
  "pl_tables l = [pl_address_offsets l, pl_address_info_offsets l, pl_file_table l, pl_string_table l, pl_function_info l]"

definition layout_sound :: "bytes \<Rightarrow> parsed_layout \<Rightarrow> bool" where
  "layout_sound data l \<longleftrightarrow>
     (\<forall>r \<in> set (pl_tables l). inside data r)
     \<and> sorted_wrt apart (pl_tables l)
     \<and> range_len (pl_address_offsets l) = unat (pl_address_count l) * unat (pl_address_offset_size l)
     \<and> fst (pl_address_offsets l) mod unat (pl_address_offset_size l) = 0
     \<and> range_len (pl_file_table l) = 4 + unat (pl_file_count l) * (2 * unat (pl_string_offset_size l))
     \<and> (case pl_version l of
          V1 \<Rightarrow> pl_string_offset_size l = 4 \<and> pl_address_offset_size l \<in> {1, 2, 4, 8}
            \<and> range_len (pl_address_info_offsets l) = unat (pl_address_count l) * 4
        | V2 \<Rightarrow> pl_string_offset_size l = 8 \<and> 1 \<le> pl_address_offset_size l \<and> pl_address_offset_size l \<le> 8
            \<and> range_len (pl_address_info_offsets l) = unat (pl_address_count l) * 8)"

lemma dvd_imp_mod: "k dvd n \<Longrightarrow> n mod k = (0 :: nat)"
  by simp

lemma parse_v1_sound:
  assumes "parse_v1 native data = Inr l"
  shows "layout_sound data l"
proof -
  from assms obtain h e lay c n c' len file_end where
    h: "v1_header_decode native data = Inr (h, e)" and lay: "v1_layout_of h (length data) = Inr lay"
    and n: "v1_file_table_size n = Inr len" "checked_add (l1_file_table_offset lay) len = Some file_end"
      "\<not> file_end > fst (l1_string_table lay)"
    and l: "pl_version l = V1" "pl_address_offset_size l = v1_address_offset_size h" "pl_string_offset_size l = 4"
      "pl_address_count l = v1_address_count h" "pl_address_offsets l = l1_address_offsets lay"
      "pl_address_info_offsets l = l1_address_info_offsets lay" "pl_file_table l = (l1_file_table_offset lay, file_end)"
      "pl_string_table l = l1_string_table lay" "pl_function_info l = (l1_function_info_offset lay, length data)"
      "pl_file_count l = n"
    by (auto simp: parse_v1_def Let_def ok_simps V1_STRING_OFFSET_SIZE_def split: if_splits)
  have w: "v1_address_offset_size h \<in> {1, 2, 4, 8}"
    using h by (auto simp: v1_header_decode_def v1_validate_address_offset_size_def split: if_splits)
  from lay obtain a_start a_end i_start i_end s where
    a: "align_up V1_HEADER_SIZE (unat (v1_address_offset_size h)) = Some a_start"
      "a_end = a_start + unat (v1_address_count h) * unat (v1_address_offset_size h)"
      "align_up a_end 4 = Some i_start" "i_end = i_start + unat (v1_address_count h) * 4"
      "align_up i_end 4 = Some (l1_file_table_offset lay)"
    and r: "l1_address_offsets lay = (a_start, a_end)" "l1_address_info_offsets lay = (i_start, i_end)"
      "l1_string_table lay = (s, l1_function_info_offset lay)" "s \<le> l1_function_info_offset lay"
      "l1_function_info_offset lay \<le> length data"
    by (auto simp: v1_layout_of_def Let_def ok_simps V1_ADDRESS_INFO_OFFSET_SIZE_def split: if_splits)
  have ord: "i_start \<ge> a_end" "l1_file_table_offset lay \<ge> i_end" "a_start mod unat (v1_address_offset_size h) = 0"
    using align_up_spec[OF a(1)] align_up_spec[OF a(3)] align_up_spec[OF a(5)] by auto
  have fe: "file_end = l1_file_table_offset lay + (4 + unat n * 8)" "file_end \<le> s"
    using n r(3) by (auto simp: v1_file_table_size_def file_table_size_def V1_FILE_ENTRY_SIZE_def ok_simps bind_eq_Some_conv)
  have "a_start \<le> a_end" "i_start \<le> i_end" using a(2,4) by auto
  then show ?thesis
    using w ord fe r a(2,4)
    by (simp add: layout_sound_def pl_tables_def l inside_def apart_def range_len_def)
qed

lemma section_range_entry:
  assumes "section_range d kind = Inr r"
  obtains entry where "entry \<in> set (dir_entries d)" "section_type entry = kind"
    "r = (unat (file_offset entry), section_end entry)"
proof -
  from assms obtain entry where e: "directory_get d kind = Some entry" "r = (unat (file_offset entry), section_end entry)"
    by (auto simp: section_range_def Let_def ok_simps section_end_def)
  from e(1) have "entry \<in> set (dir_entries d)" "section_type entry = kind"
    by (auto simp: directory_get_def find_Some_iff)
  then show thesis using e(2) that by blast
qed

lemma parse_v2_sound:
  assumes "parse_v2 native data = Inr l" and "length data < 2 ^ 64"
  shows "layout_sound data l"
proof -
  from assms(1) obtain h e d ft c n c' len a i st fi where
    h: "v2_header_decode native data = Inr (h, e)" and d: "parse_directory data e h = Inr d"
    and ft: "section_range d GLOBAL_FILE_TABLE = Inr ft" and n: "v2_file_table_size n = Inr len" "len = range_len ft"
    and a: "section_range d GLOBAL_ADDRESS_OFFSETS = Inr a" and i: "section_range d GLOBAL_ADDRESS_INFO_OFFSETS = Inr i"
    and st: "section_range d GLOBAL_STRING_TABLE = Inr st" and fi: "section_range d GLOBAL_FUNCTION_INFO = Inr fi"
    and l: "pl_version l = V2" "pl_address_offset_size l = v2_address_offset_size h" "pl_string_offset_size l = 8"
      "pl_address_count l = v2_address_count h" "pl_address_offsets l = a" "pl_address_info_offsets l = i"
      "pl_file_table l = ft" "pl_string_table l = st" "pl_function_info l = fi" "pl_file_count l = n"
    by (auto simp: parse_v2_def V2_STRING_OFFSET_SIZE_def split: if_splits)
  have w: "1 \<le> v2_address_offset_size h" "v2_address_offset_size h \<le> 8"
    using h by (auto simp: v2_header_decode_def v2_validate_address_offset_size_def split: if_splits)
  note sound = parse_directory_sound[OF d assms(2), unfolded directory_sound_def]
  have sep: "apart r r'" if "section_range d k = Inr r" "section_range d k' = Inr r'" "k \<noteq> k'" for r r' k k'
  proof -
    from that(1) obtain x where x: "x \<in> set (dir_entries d)" "section_type x = k" "r = (unat (file_offset x), section_end x)"
      by (rule section_range_entry)
    from that(2) obtain y where y: "y \<in> set (dir_entries d)" "section_type y = k'" "r' = (unat (file_offset y), section_end y)"
      by (rule section_range_entry)
    have "x \<noteq> y" using x(2) y(2) that(3) by auto
    then have "section_end x \<le> unat (file_offset y) \<or> section_end y \<le> unat (file_offset x)"
      using sound x(1) y(1) by blast
    then show ?thesis by (simp add: apart_def x(3) y(3))
  qed
  have ins: "inside data r" if "section_range d k = Inr r" for r k
    using that sound by (auto simp: inside_def section_end_def elim!: section_range_entry)
  have "sorted_wrt apart [a, i, ft, st, fi]"
    using sep[OF a i] sep[OF a ft] sep[OF a st] sep[OF a fi] sep[OF i ft] sep[OF i st] sep[OF i fi] sep[OF ft st]
      sep[OF ft fi] sep[OF st fi] by (simp add: global_types)
  moreover have "range_len a = unat (v2_address_count h) * unat (v2_address_offset_size h)"
    "fst a mod unat (v2_address_offset_size h) = 0" "range_len i = unat (v2_address_count h) * 8"
    using a i sound by (auto simp: section_ok_def range_len_def section_end_def elim!: section_range_entry)
  moreover have "len = 4 + unat n * 16"
    using n(1) by (auto simp: v2_file_table_size_def file_table_size_def V2_FILE_ENTRY_SIZE_def ok_simps bind_eq_Some_conv)
  ultimately show ?thesis
    using w n(2) ins[OF a] ins[OF i] ins[OF ft] ins[OF st] ins[OF fi]
    by (simp add: layout_sound_def l pl_tables_def)
qed

lemma parsed_layout_sound: "layout_parse native data = Inr l \<Longrightarrow> length data < 2 ^ 64 \<Longrightarrow> layout_sound data l"
  using parse_v1_sound parse_v2_sound by (auto simp: layout_parse_def split: if_splits)

text \<open>C11: When a file of either version parses, its five tables lie inside the input without overlapping, the
  address table, the address-info table and the file table have the sizes that the counts and entry widths call for,
  and the widths are ones the reader's table accesses handle.\<close>

theorem layout_parse_sound:
  assumes "layout_parse native data = Inr l" and "length data < 2 ^ 64"
  shows "layout_sound data l"
  by (rule parsed_layout_sound[OF assms])

lemma layout_parse_sound_witness:
  "layout_sound [77, 89, 83, 71, 1, 0, 1, 0, 0, 16, 0, 0, 0, 0, 0, 0, 1, 0, 0, 0, 60, 0, 0, 0, 1, 0, 0, 0, 0, 0, 0, 0, 0, 0,
      0, 0, 0, 0, 0, 0, 0, 0, 0, 0, 0, 0, 0, 0, 0, 0, 0, 0, 61, 0, 0, 0, 0, 0, 0, 0, 0]
     \<lparr>pl_version = V1, pl_endian = Little, pl_address_offset_size = 1, pl_string_offset_size = 4, pl_base_address = 0x1000,
      pl_address_count = 1, pl_build_id = (28, 28), pl_address_offsets = (48, 49), pl_address_info_offsets = (52, 56),
      pl_file_table = (56, 60), pl_string_table = (60, 61), pl_function_info = (61, 61), pl_file_count = 0\<rparr>"
  (is "layout_sound ?bs ?l")
proof -
  have "layout_parse Big ?bs = Inr ?l"
    by (simp cong: let_ok_weak_cong add: cursor_eval layout_parse_def detect_endian_def GSYM_MAGIC_def GSYM_CIGAM_def other_endian_def
      V1_VERSION_def parse_v1_def v1_header_decode_def v1_validate_address_offset_size_def MAX_UUID_SIZE_def fixed_uuid_new_def
      fixed_uuid_slice_def v1_layout_of_def V1_HEADER_SIZE_def align_up_def checked_mul_def V1_ADDRESS_INFO_OFFSET_SIZE_def
      v1_file_table_size_def file_table_size_def V1_FILE_ENTRY_SIZE_def cursor_at_def saturating_add_def V1_STRING_OFFSET_SIZE_def)
  then show ?thesis by (rule layout_parse_sound) simp
qed

end
