(* ===== verification/Reader.thy ===== *)
theory Reader
  imports Layout
begin

text \<open>
  \<open>src/reader.rs\<close> and \<open>src/reader/function.rs\<close>: the borrowed reader. A \<open>Gsym\<close> is the input and
  its parsed layout. What the sources take from other crates is the parameter \<open>env\<close>:
  \<open>typed_slice n e bs\<close> is zerocopy's \<open>ref_from_bytes\<close> at the unaligned \<open>n\<close>-byte integers of
  byte order \<open>e\<close> together with their \<open>get\<close>, and \<open>memchr_count\<close> the number of hits of
  \<open>memchr_iter\<close>. \<open>lawful_env\<close> states what both crates document. A \<open>SmallVec\<close> is a list.
\<close>

section \<open>Other crates\<close>

record reader_env =
  typed_slice :: "nat \<Rightarrow> endian \<Rightarrow> bytes \<Rightarrow> u64 list option"
  memchr_count :: "u8 \<Rightarrow> bytes \<Rightarrow> nat"

text \<open>\<open>as_chunks::<N>\<close>: the whole chunks of \<open>n\<close> bytes, the remainder left out.\<close>

function chunks :: "nat \<Rightarrow> 'a list \<Rightarrow> 'a list list" where
  "chunks n xs = (if 0 < n \<and> n \<le> length xs then take n xs # chunks n (drop n xs) else [])"
  by pat_completeness auto
termination
  by (relation "measure (\<lambda>(n, xs). length xs)") auto

declare chunks.simps [simp del]

definition typed_values :: "nat \<Rightarrow> endian \<Rightarrow> bytes \<Rightarrow> u64 list" where
  "typed_values n e bs = map (\<lambda>chunk. word_of_nat (from_bytes e chunk)) (chunks n bs)"

definition lawful_env :: "reader_env \<Rightarrow> bool" where
  "lawful_env env \<longleftrightarrow>
     (\<forall>n e bs. n \<in> {2, 4, 8} \<longrightarrow>
        typed_slice env n e bs = (if length bs mod n = 0 then Some (typed_values n e bs) else None))
     \<and> (\<forall>b bs. memchr_count env b bs = length (filter (\<lambda>x. x = b) bs))"

text \<open>One implementation with these laws, for evaluation.\<close>

definition plain_env :: reader_env where
  "plain_env = \<lparr>typed_slice = \<lambda>n e bs. if length bs mod n = 0 then Some (typed_values n e bs) else None,
     memchr_count = \<lambda>b bs. length (filter (\<lambda>x. x = b) bs)\<rparr>"

lemma lawful_plain_env: "lawful_env plain_env"
  by (simp add: lawful_env_def plain_env_def)

section \<open>Options and reports\<close>

record lookup_options =
  line_information :: bool
  inline_frames :: bool
  call_sites :: bool

definition lookup_options_default :: lookup_options where
  "lookup_options_default = \<lparr>line_information = True, inline_frames = True, call_sites = True\<rparr>"

record frame_lookup_options =
  frame_line_information :: bool
  frame_inline_frames :: bool

definition frame_lookup_options_default :: frame_lookup_options where
  "frame_lookup_options_default = \<lparr>frame_line_information = True, frame_inline_frames = True\<rparr>"

definition lookup_options_from :: "frame_lookup_options \<Rightarrow> lookup_options" where
  "lookup_options_from options =
     \<lparr>line_information = frame_line_information options, inline_frames = frame_inline_frames options,
      call_sites = False\<rparr>"

record verify_report =
  vr_functions :: nat
  vr_files :: nat
  vr_strings :: nat
  vr_function_info_bytes :: nat

record raw_inline_frame =
  rif_name :: u64
  rif_call_file :: file_index
  rif_call_line :: u32
  rif_start :: u64

text \<open>\<open>LookupScratch\<close> is its frame buffer.\<close>

type_synonym lookup_scratch = "raw_inline_frame list"

definition scratch_clear :: "lookup_scratch \<Rightarrow> lookup_scratch" where
  "scratch_clear scratch = []"

record gsym_header =
  gh_version :: gsym_version
  gh_endian :: endian
  gh_address_offset_size :: u8
  gh_base_address :: u64
  gh_address_count :: u32
  gh_build_id :: bytes

record gsym =
  g_data :: bytes
  g_layout :: parsed_layout

section \<open>Strings and files\<close>

definition position_of :: "('a \<Rightarrow> bool) \<Rightarrow> 'a list \<Rightarrow> nat option" where
  "position_of p xs = (let n = length (takeWhile (\<lambda>x. \<not> p x) xs) in if n < length xs then Some n else None)"

definition string_at :: "bytes \<Rightarrow> usize_range \<Rightarrow> u64 \<Rightarrow> bytes result" where
  "string_at data table off =
     let_ok (ok_or (checked_add (fst table) (unat off)) (Overflow ''string address'')) (\<lambda>start.
     if start \<ge> snd table then Inl (InvalidOffset (word_of_nat start) (length data))
     else
       let_ok (ok_or (slice_get data start (snd table)) (InvalidFormat ''string table is outside the file'')) (\<lambda>tail.
       let_ok (ok_or (position_of (\<lambda>byte. byte = 0) tail) (InvalidFormat ''unterminated string'')) (\<lambda>stop.
       ok_or (slice_get tail 0 stop) (InvalidFormat ''unterminated string''))))"

definition decode_pair :: "reader_env \<Rightarrow> nat \<Rightarrow> endian \<Rightarrow> bytes \<Rightarrow> (u64 \<times> u64) result" where
  "decode_pair env n e bs =
     (case typed_slice env n e bs of
        Some [directory, basename] \<Rightarrow> Inr (directory, basename)
      | _ \<Rightarrow> Inl (InvalidFormat ''file entry has an invalid typed layout''))"

definition file_at :: "reader_env \<Rightarrow> bytes \<Rightarrow> endian \<Rightarrow> u8 \<Rightarrow> usize_range \<Rightarrow> u32 \<Rightarrow> usize_range \<Rightarrow> file_index
    \<Rightarrow> (bytes \<times> bytes) result" where
  "file_at env data e string_offset_size file_table file_count string_table index =
     (if index \<ge> file_count
      then Inl (OutOfRange ''file index'' (ucast index) (ucast (if file_count = 0 then 0 else file_count - 1)))
      else
        let_ok (ok_or (checked_mul (unat string_offset_size) 2) (Overflow ''file entry size'')) (\<lambda>entry_size.
        let_ok (ok_or (checked_mul (unat index) entry_size) (Overflow ''file entry offset'')) (\<lambda>entry_offset.
        let_ok (ok_or (Option.bind (checked_add (fst file_table) 4) (\<lambda>start. checked_add start entry_offset))
          (Overflow ''file entry offset'')) (\<lambda>off.
        let_ok (ok_or (checked_add off entry_size) (Overflow ''file entry end'')) (\<lambda>stop.
        let_ok (ok_or (slice_get data off stop) (UnexpectedEof off entry_size (length data - off))) (\<lambda>bs.
        let_ok (if string_offset_size = 4 then decode_pair env 4 e bs
                else if string_offset_size = 8 then decode_pair env 8 e bs
                else Inl (OutOfRange ''string offset size'' (ucast string_offset_size) 8)) (\<lambda>(directory, basename).
        let_ok (string_at data string_table directory) (\<lambda>directory.
        let_ok (string_at data string_table basename) (\<lambda>basename.
        Inr (directory, basename))))))))))"

definition gsym_string :: "gsym \<Rightarrow> u64 \<Rightarrow> bytes result" where
  "gsym_string g off = string_at (g_data g) (pl_string_table (g_layout g)) off"

definition gsym_file :: "reader_env \<Rightarrow> gsym \<Rightarrow> file_index \<Rightarrow> (bytes \<times> bytes) result" where
  "gsym_file env g index =
     (let l = g_layout g in
      file_at env (g_data g) (pl_endian l) (pl_string_offset_size l) (pl_file_table l) (pl_file_count l)
        (pl_string_table l) index)"

section \<open>Parsing and the header\<close>

definition gsym_parse :: "endian \<Rightarrow> bytes \<Rightarrow> gsym result" where
  "gsym_parse native data =
     let_ok (layout_parse native data) (\<lambda>layout. Inr \<lparr>g_data = data, g_layout = layout\<rparr>)"

definition gsym_build_id :: "gsym \<Rightarrow> bytes" where
  "gsym_build_id g =
     (let r = pl_build_id (g_layout g) in
      case slice_get (g_data g) (fst r) (snd r) of None \<Rightarrow> [] | Some bs \<Rightarrow> bs)"

definition gsym_header_of :: "gsym \<Rightarrow> gsym_header" where
  "gsym_header_of g =
     (let l = g_layout g in
      \<lparr>gh_version = pl_version l, gh_endian = pl_endian l, gh_address_offset_size = pl_address_offset_size l,
       gh_base_address = pl_base_address l, gh_address_count = pl_address_count l,
       gh_build_id = gsym_build_id g\<rparr>)"

section \<open>Functions\<close>

record raw_function =
  raw_range :: address_range
  raw_name :: u64
  raw_data :: bytes
  raw_records :: bytes

record function_ref =
  fr_index :: nat
  fr_name :: bytes
  fr_all_data :: bytes
  fr_raw :: raw_function
  fr_layout :: parsed_layout

definition gsym_address :: "gsym \<Rightarrow> nat \<Rightarrow> u64 result" where
  "gsym_address g index =
     (let l = g_layout g; width = unat (pl_address_offset_size l) in
      let_ok (ok_or (checked_mul index width) (Overflow ''address table index'')) (\<lambda>delta.
      let_ok (ok_or (checked_add (fst (pl_address_offsets l)) delta) (Overflow ''address table offset'')) (\<lambda>off.
      let_ok (cursor_at (g_data g) (pl_endian l) off) (\<lambda>c.
      let_ok (read_uint (pl_address_offset_size l) c) (\<lambda>(v, c).
      ok_or (checked_add_u64 (pl_base_address l) v) (Overflow ''function address''))))))"

definition function_offset :: "gsym \<Rightarrow> nat \<Rightarrow> nat result" where
  "function_offset g index =
     (let l = g_layout g; width = (case pl_version l of V1 \<Rightarrow> 4 | V2 \<Rightarrow> 8) in
      let_ok (ok_or (checked_mul index (unat width)) (Overflow ''address-info table index'')) (\<lambda>delta.
      let_ok (ok_or (checked_add (fst (pl_address_info_offsets l)) delta)
        (Overflow ''address-info table offset'')) (\<lambda>off.
      let_ok (cursor_at (g_data g) (pl_endian l) off) (\<lambda>c.
      let_ok (read_uint width c) (\<lambda>(relative, c).
      let_ok (case pl_version l of
          V1 \<Rightarrow> Inr relative
        | V2 \<Rightarrow> ok_or (checked_add_u64 relative (word_of_nat (fst (pl_function_info l))))
                  (Overflow ''FunctionInfo offset'')) (\<lambda>absolute.
      Inr (unat absolute)))))))"

definition raw_function_at :: "gsym \<Rightarrow> nat \<Rightarrow> u64 \<Rightarrow> raw_function result" where
  "raw_function_at g index start =
     (let l = g_layout g in
      let_ok (function_offset g index) (\<lambda>off.
      let section_end = snd (pl_function_info l) in
      if off < fst (pl_function_info l) \<or> off \<ge> section_end
      then Inl (InvalidOffset (word_of_nat off) (length (g_data g)))
      else
        let_ok (ok_or (slice_get (g_data g) off section_end)
          (InvalidOffset (word_of_nat off) (length (g_data g)))) (\<lambda>data.
        let_ok (read_u32 (cursor_new data (pl_endian l))) (\<lambda>(len, c).
        let_ok (read_uint (pl_string_offset_size l) c) (\<lambda>(name_offset, c).
        if name_offset = 0 then Inl ZeroNameOffset
        else
          let_ok (ok_or (checked_add_u64 start (ucast len)) (Overflow ''function range'')) (\<lambda>stop.
          let_ok (ok_or (slice_get data (position c) (length data))
            (InvalidFormat ''function record header overruns its record'')) (\<lambda>records.
          Inr \<lparr>raw_range = mk_range start stop, raw_name = name_offset, raw_data = data, raw_records = records\<rparr>)))))))"

definition gsym_raw_function :: "gsym \<Rightarrow> nat \<Rightarrow> raw_function option result" where
  "gsym_raw_function g index =
     (if index \<ge> unat (pl_address_count (g_layout g)) then Inr None
      else
        let_ok (gsym_address g index) (\<lambda>start.
        let_ok (raw_function_at g index start) (\<lambda>raw. Inr (Some raw))))"

definition gsym_get_function :: "gsym \<Rightarrow> nat \<Rightarrow> function_ref option result" where
  "gsym_get_function g index =
     let_ok (gsym_raw_function g index) (\<lambda>raw. case raw of
       None \<Rightarrow> Inr None
     | Some raw \<Rightarrow>
         let_ok (gsym_string g (raw_name raw)) (\<lambda>name.
         Inr (Some \<lparr>fr_index = index, fr_name = name, fr_all_data = g_data g, fr_raw = raw,
                    fr_layout = g_layout g\<rparr>)))"

definition gsym_function :: "gsym \<Rightarrow> nat \<Rightarrow> function_ref result" where
  "gsym_function g index =
     let_ok (gsym_get_function g index) (\<lambda>fn.
     ok_or fn (FunctionIndexOutOfBounds index (unat (pl_address_count (g_layout g)))))"

definition ref_string :: "function_ref \<Rightarrow> u64 \<Rightarrow> bytes result" where
  "ref_string r off = string_at (fr_all_data r) (pl_string_table (fr_layout r)) off"

definition ref_file :: "reader_env \<Rightarrow> function_ref \<Rightarrow> file_index \<Rightarrow> (bytes \<times> bytes) result" where
  "ref_file env r index =
     (let l = fr_layout r in
      file_at env (fr_all_data r) (pl_endian l) (pl_string_offset_size l) (pl_file_table l) (pl_file_count l)
        (pl_string_table l) index)"

definition ref_decode_encoded :: "function_ref \<Rightarrow> encoded_function result" where
  "ref_decode_encoded r =
     decode_function (raw_data (fr_raw r)) (pl_endian (fr_layout r)) (pl_string_offset_size (fr_layout r))
       (r_start (raw_range (fr_raw r)))"

text \<open>The iterator over a function's records: the item and the new state.\<close>

record info_records =
  ir_cursor :: cursor
  ir_done :: bool

definition raw_function_records :: "raw_function \<Rightarrow> endian \<Rightarrow> info_records" where
  "raw_function_records raw e = \<lparr>ir_cursor = cursor_new (raw_records raw) e, ir_done = False\<rparr>"

definition info_records_next :: "info_records \<Rightarrow> info_record result option \<times> info_records" where
  "info_records_next it =
     (if ir_done it then (None, it)
      else case next_record (ir_cursor it) (ir_done it) of
        Inr (Some record, ended, c) \<Rightarrow> (Some (Inr record), \<lparr>ir_cursor = c, ir_done = ended\<rparr>)
      | Inr (None, ended, c) \<Rightarrow> (None, \<lparr>ir_cursor = c, ir_done = ended\<rparr>)
      | Inl err \<Rightarrow> (Some (Inl err), it\<lparr>ir_done := True\<rparr>))"

text \<open>The iterator over all functions.\<close>

record functions_iter =
  fi_gsym :: gsym
  fi_next :: nat

definition gsym_functions :: "gsym \<Rightarrow> functions_iter" where
  "gsym_functions g = \<lparr>fi_gsym = g, fi_next = 0\<rparr>"

definition functions_next :: "functions_iter \<Rightarrow> function_ref result option \<times> functions_iter" where
  "functions_next it =
     (if fi_next it \<ge> unat (pl_address_count (g_layout (fi_gsym it))) then (None, it)
      else (Some (gsym_function (fi_gsym it) (fi_next it)), it\<lparr>fi_next := saturating_add (fi_next it) 1\<rparr>))"

definition functions_size_hint :: "functions_iter \<Rightarrow> nat \<times> nat option" where
  "functions_size_hint it =
     (let n = unat (pl_address_count (g_layout (fi_gsym it))) - fi_next it in (n, Some n))"

section \<open>The address search\<close>

definition reader_partition_point :: "bytes \<Rightarrow> u64 \<Rightarrow> nat" where
  "reader_partition_point entries probe =
     partition_point (\<lambda>entry. ucast (hd entry) \<le> probe) (chunks 1 entries)"

definition typed_partition_point :: "reader_env \<Rightarrow> nat \<Rightarrow> endian \<Rightarrow> bytes \<Rightarrow> u64 \<Rightarrow> nat result" where
  "typed_partition_point env n e entries probe =
     let_ok (ok_or (typed_slice env n e entries) (InvalidFormat ''address table has an invalid typed layout''))
       (\<lambda>entries. Inr (partition_point (\<lambda>entry. entry \<le> probe) entries))"

function address_bisect :: "gsym \<Rightarrow> u64 \<Rightarrow> nat \<Rightarrow> nat \<Rightarrow> nat result" where
  "address_bisect g address low high =
     (if low < high then
        let middle = low + (high - low) div 2 in
        let_ok (gsym_address g middle) (\<lambda>a.
        if a \<le> address then address_bisect g address (middle + 1) high
        else address_bisect g address low middle)
      else Inr low)"
  by pat_completeness auto
termination
  by (relation "measure (\<lambda>(g, address, low, high). high - low)") auto

declare address_bisect.simps [simp del]

definition find_address_index :: "reader_env \<Rightarrow> gsym \<Rightarrow> u64 \<Rightarrow> nat option result" where
  "find_address_index env g address =
     (let l = g_layout g; r = pl_address_offsets l in
      if address < pl_base_address l \<or> pl_address_count l = 0 then Inr None
      else
        let count = unat (pl_address_count l);
            relative = saturating_sub_u64 address (pl_base_address l) in
        let_ok (ok_or (slice_get (g_data g) (fst r) (snd r))
          (InvalidOffset (word_of_nat (fst r)) (length (g_data g)))) (\<lambda>entries.
        let_ok (if pl_address_offset_size l = 1 then Inr (reader_partition_point entries relative)
                else if pl_address_offset_size l = 2 then typed_partition_point env 2 (pl_endian l) entries relative
                else if pl_address_offset_size l = 4 then typed_partition_point env 4 (pl_endian l) entries relative
                else if pl_address_offset_size l = 8 then typed_partition_point env 8 (pl_endian l) entries relative
                else address_bisect g address 0 count) (\<lambda>low.
        Inr (checked_sub low 1))))"

section \<open>Tables of integers in the input\<close>

text \<open>The unsigned integer of \<open>w\<close> bytes at an offset.\<close>

definition uint_at :: "endian \<Rightarrow> nat \<Rightarrow> bytes \<Rightarrow> nat \<Rightarrow> u64" where
  "uint_at e w bs off = word_of_nat (from_bytes e (take w (drop off bs)))"

lemma from_bytes_take_less:
  assumes "w \<le> 8" "off + w \<le> length bs"
  shows "from_bytes e (take w (drop off bs)) < 256 ^ w" "from_bytes e (take w (drop off bs)) < 2 ^ 64"
proof -
  show b: "from_bytes e (take w (drop off bs)) < 256 ^ w"
    using from_bytes_bound[of e "take w (drop off bs)"] assms(2) by simp
  have "(256 :: nat) ^ w \<le> 256 ^ 8" using assms(1) by (intro power_increasing) auto
  with b show "from_bytes e (take w (drop off bs)) < 2 ^ 64" by simp
qed

lemma unat_uint_at: "w \<le> 8 \<Longrightarrow> off + w \<le> length bs \<Longrightarrow> unat (uint_at e w bs off) = from_bytes e (take w (drop off bs))"
  using from_bytes_take_less(2) by (simp add: uint_at_def unat_word_of_nat_u64)

lemma read_uint_at:
  assumes "1 \<le> unat width" "unat width \<le> 8" and "position c + unat width \<le> length (cbytes c)" "length (cbytes c) < 2 ^ 64"
  shows "read_uint width c = Inr (uint_at (cendian c) (unat width) (cbytes c) (position c), advance (unat width) c)"
proof -
  let ?v = "uint_at (cendian c) (unat width) (cbytes c) (position c)"
  let ?bs = "take (unat width) (drop (position c) (cbytes c))"
  have u: "unat ?v = from_bytes (cendian c) ?bs" using assms(2,3) by (rule unat_uint_at)
  have "uint_fits width ?v"
    using assms from_bytes_take_less(1)[OF assms(2,3)] by (simp add: uint_fits_def u word_le_nat_alt)
  moreover have "uint_put width (cendian c) ?v = ?bs"
    using to_from_bytes[of "cendian c" ?bs] assms(3) by (simp add: uint_put_def u)
  moreover have "ahead c ?bs"
    unfolding ahead_def using assms(3,4) by (intro conjI exI[of _ "drop (unat width) (drop (position c) (cbytes c))"]) (simp_all del: drop_drop)
  ultimately show ?thesis using read_uint_ahead by metis
qed

lemma chunks_eq:
  assumes "0 < n"
  shows "chunks n xs = map (\<lambda>i. take n (drop (i * n) xs)) [0..<length xs div n]"
  using assms
proof (induction n xs rule: chunks.induct)
  case (1 n xs)
  show ?case
  proof (cases "n \<le> length xs")
    case False
    then show ?thesis by (simp add: chunks.simps[of n xs])
  next
    case True
    then have d: "length xs div n = Suc ((length xs - n) div n)" using 1(2) by (simp add: le_div_geq)
    have "chunks n xs = take n xs # map (\<lambda>i. take n (drop (i * n) (drop n xs))) [0..<(length xs - n) div n]"
      using 1 True by (simp add: chunks.simps[of n xs])
    also have "\<dots> = map (\<lambda>i. take n (drop (i * n) xs)) (0 # map Suc [0..<(length xs - n) div n])"
      by (simp add: add.commute)
    also have "0 # map Suc [0..<(length xs - n) div n] = [0..<length xs div n]"
      unfolding d map_Suc_upt by (simp add: upt_conv_Cons)
    finally show ?thesis .
  qed
qed

lemma partition_point_takeWhile:
  assumes "\<And>i j. i \<le> j \<Longrightarrow> j < length xs \<Longrightarrow> p (xs ! j) \<Longrightarrow> p (xs ! i)"
  shows "partition_point p xs = length (takeWhile p xs)"
proof -
  let ?k = "partition_point p xs"
  note b = bisect_partition[of 0 "length xs" "\<lambda>i. p (xs ! i)", simplified, OF assms, folded partition_point_def]
  have k: "?k \<le> length xs" using bisect_bounds[of 0 "length xs" "\<lambda>i. p (xs ! i)"] by (simp add: partition_point_def)
  show ?thesis
  proof (rule antisym)
    show "?k \<le> length (takeWhile p xs)"
    proof (rule ccontr)
      assume "\<not> ?thesis"
      then have "length (takeWhile p xs) < length xs" "length (takeWhile p xs) < ?k" using k by auto
      then show False using nth_length_takeWhile[of p xs] b by auto
    qed
    show "length (takeWhile p xs) \<le> ?k"
    proof (rule ccontr)
      assume "\<not> ?thesis"
      then have "?k < length (takeWhile p xs)" by simp
      then have "p (takeWhile p xs ! ?k)" "takeWhile p xs ! ?k = xs ! ?k"
        using set_takeWhileD[of "takeWhile p xs ! ?k" p xs] by (auto intro: takeWhile_nth)
      moreover have "?k < length xs" using \<open>?k < _\<close> length_takeWhile_le[of p xs] by linarith
      ultimately show False using b by auto
    qed
  qed
qed

lemma bisect_cong: "(\<And>i. low \<le> i \<Longrightarrow> i < high \<Longrightarrow> p i = q i) \<Longrightarrow> bisect p low high = bisect q low high"
proof (induction p low high rule: bisect.induct)
  case (1 p low high)
  show ?case
  proof (cases "low < high")
    case True
    define m where "m = low + (high - low) div 2"
    have m: "low \<le> m" "m < high" using True by (auto simp: m_def)
    then have "p m = q m" using "1.prems" by simp
    then show ?thesis
      using "1.IH"[OF True m_def] "1.prems" m True
      by (auto simp: bisect.simps[of p low high] bisect.simps[of q low high] m_def[symmetric] Let_def)
  qed (simp add: bisect.simps[of p low high] bisect.simps[of q low high])
qed

section \<open>The address table\<close>

lemma gsym_address_eq:
  assumes "layout_sound (g_data g) (g_layout g)" "length (g_data g) < 2 ^ 64" "i < unat (pl_address_count (g_layout g))"
  defines "w \<equiv> unat (pl_address_offset_size (g_layout g))"
  shows "gsym_address g i = ok_or (checked_add_u64 (pl_base_address (g_layout g))
      (uint_at (pl_endian (g_layout g)) w (g_data g) (fst (pl_address_offsets (g_layout g)) + i * w))) (Overflow ''function address'')"
proof -
  let ?l = "g_layout g"
  let ?off = "fst (pl_address_offsets ?l) + i * w"
  have w: "1 \<le> w" "w \<le> 8"
    using assms(1) by (auto simp: layout_sound_def w_def word_le_nat_alt split: gsym_version.splits)
  have "Suc i * w \<le> unat (pl_address_count ?l) * w" using assms(3) by (intro mult_le_mono1) simp
  then have off: "?off + w \<le> length (g_data g)"
    using assms(1) by (auto simp: layout_sound_def pl_tables_def inside_def range_len_def w_def[symmetric])
  then have "checked_mul i w = Some (i * w)" "checked_add (fst (pl_address_offsets ?l)) (i * w) = Some ?off"
    using assms(2) by (auto simp: checked_mul_def checked_add_def)
  moreover have "cursor_at (g_data g) (pl_endian ?l) ?off = Inr \<lparr>cbytes = g_data g, position = ?off, cendian = pl_endian ?l\<rparr>"
    using off by (simp add: cursor_at_def)
  ultimately show ?thesis
    using read_uint_at[of "pl_address_offset_size ?l" "\<lparr>cbytes = g_data g, position = ?off, cendian = pl_endian ?l\<rparr>"] w off assms(2)
    by (simp add: gsym_address_def Let_def w_def[symmetric])
qed

lemma address_bisect_eq:
  "(\<And>i. i < high \<Longrightarrow> gsym_address g i = Inr (a i)) \<Longrightarrow>
    address_bisect g address low high = Inr (bisect (\<lambda>i. a i \<le> address) low high)"
proof (induction g address low high rule: address_bisect.induct)
  case (1 g address low high)
  show ?case
  proof (cases "low < high")
    case True
    define m where "m = low + (high - low) div 2"
    have "m < high" using True by (simp add: m_def)
    then have a: "gsym_address g m = Inr (a m)" by (rule "1.prems")
    show ?thesis
      using "1.IH"[OF True m_def a] "1.prems" \<open>m < high\<close> True a
      by (simp add: address_bisect.simps[of g address low high] bisect.simps[of _ low high] m_def[symmetric] Let_def)
  qed (simp add: address_bisect.simps[of g address low high] bisect.simps[of _ low high])
qed

lemma typed_partition_point_eq:
  assumes "lawful_env env" "n \<in> {2, 4, 8}" "length entries = count * n"
  shows "typed_partition_point env n e entries probe =
    Inr (partition_point (\<lambda>v. v \<le> probe) (map (\<lambda>i. uint_at e n entries (i * n)) [0..<count]))"
proof -
  have n: "0 < n" using assms(2) by auto
  have "typed_slice env n e entries = (if length entries mod n = 0 then Some (typed_values n e entries) else None)"
    using assms(1,2) unfolding lawful_env_def by blast
  then have "typed_slice env n e entries = Some (typed_values n e entries)" by (simp add: assms(3))
  moreover have "typed_values n e entries = map (\<lambda>i. uint_at e n entries (i * n)) [0..<count]"
    using n assms(3) by (simp add: typed_values_def chunks_eq uint_at_def)
  ultimately show ?thesis by (simp add: typed_partition_point_def)
qed

lemma reader_partition_point_eq:
  "reader_partition_point entries probe =
    partition_point (\<lambda>v. v \<le> probe) (map (\<lambda>i. uint_at e 1 entries (i * 1)) [0..<length entries])"
proof -
  have "ucast (hd (take 1 (drop i entries))) = uint_at e 1 entries i" if "i < length entries" for i
  proof -
    have "take 1 (drop i entries) = [entries ! i]" using that by (simp add: take_Suc_conv_app_nth Cons_nth_drop_Suc[symmetric])
    then show ?thesis by (simp add: uint_at_def from_bytes_def split: endian.split)
  qed
  then show ?thesis
    unfolding reader_partition_point_def partition_point_def
    by (simp add: chunks_eq) (rule bisect_cong, simp)
qed

lemma find_address_index_eq:
  assumes "lawful_env env" "layout_sound (g_data g) (g_layout g)" "length (g_data g) < 2 ^ 64"
    and "map_ok (gsym_address g) [0..<unat (pl_address_count (g_layout g))] = Inr addrs" "sorted addrs"
  shows "find_address_index env g address = Inr (checked_sub (length (takeWhile (\<lambda>a. a \<le> address) addrs)) 1)"
proof -
  let ?l = "g_layout g"
  define count w base e where d: "count = unat (pl_address_count ?l)" "w = unat (pl_address_offset_size ?l)"
    "base = pl_base_address ?l" "e = pl_endian ?l"
  define rel where "rel i = uint_at e w (g_data g) (fst (pl_address_offsets ?l) + i * w)" for i
  have len: "length addrs = count" using map_ok_length[OF assms(4)] by (simp add: d)
  have addr: "gsym_address g i = Inr (addrs ! i)" if "i < count" for i
    using map_ok_nth[OF assms(4), of i] that by (simp add: d)
  then have "checked_add_u64 base (rel i) = Some (addrs ! i)" if "i < count" for i
    using gsym_address_eq[OF assms(2,3), of i, symmetric] that by (simp add: d rel_def ok_simps)
  note sum = checked_add_u64_Some[OF this]
  show ?thesis
  proof (cases "address < base \<or> pl_address_count ?l = 0")
    case True
    have "takeWhile (\<lambda>a. a \<le> address) addrs = []"
    proof (cases addrs)
      case (Cons a as)
      then have "count > 0" "a = addrs ! 0" using len by auto
      then have "base \<le> a" "pl_address_count ?l \<noteq> 0" using sum[of 0] by (auto simp: d)
      then show ?thesis using True Cons by auto
    qed simp
    then show ?thesis using True by (simp add: find_address_index_def Let_def d checked_sub_def)
  next
    case False
    define entries where "entries = take (count * w) (drop (fst (pl_address_offsets ?l)) (g_data g))"
    have tab: "fst (pl_address_offsets ?l) + count * w = snd (pl_address_offsets ?l)"
      "snd (pl_address_offsets ?l) \<le> length (g_data g)"
      using assms(2) by (auto simp: layout_sound_def pl_tables_def inside_def range_len_def d)
    then have slice: "slice_get (g_data g) (fst (pl_address_offsets ?l)) (snd (pl_address_offsets ?l)) = Some entries"
      unfolding entries_def slice_get_def by (auto simp: tab(1)[symmetric])
    have elen: "length entries = count * w" using tab by (simp add: entries_def)
    have ent: "uint_at e w entries (i * w) = rel i" if "i < count" for i
    proof -
      have "Suc i * w \<le> count * w" using that by (intro mult_le_mono1) simp
      then show ?thesis by (simp add: uint_at_def rel_def entries_def drop_take min_def add.commute)
    qed
    have "base \<le> address" using False by (simp add: d not_less)
    then have le: "rel i \<le> address - base \<longleftrightarrow> addrs ! i \<le> address" if "i < count" for i
      using sum[OF that] by (auto simp: word_le_nat_alt unat_sub_u64)
    have mono: "addrs ! i \<le> address" if "i \<le> j" "j < length addrs" "addrs ! j \<le> address" for i j
      using assms(5) that by (meson order.trans sorted_nth_mono)
    have pp: "bisect (\<lambda>i. addrs ! i \<le> address) 0 count = length (takeWhile (\<lambda>a. a \<le> address) addrs)"
      using partition_point_takeWhile[of addrs "\<lambda>a. a \<le> address"] mono by (simp add: partition_point_def len)
    have tab_pp: "partition_point (\<lambda>v. v \<le> address - base) (map (\<lambda>i. uint_at e w entries (i * w)) [0..<count])
        = length (takeWhile (\<lambda>a. a \<le> address) addrs)"
      unfolding partition_point_def pp[symmetric] by (simp, rule bisect_cong) (simp add: ent le)
    have sub: "saturating_sub_u64 address base = address - base" using \<open>base \<le> address\<close> by (simp add: saturating_sub_u64_def)
    have small: "pl_address_offset_size ?l = k \<longleftrightarrow> w = unat k" for k by (auto simp: d intro: unat_eqI)
    have "address_bisect g address 0 count = Inr (length (takeWhile (\<lambda>a. a \<le> address) addrs))"
      using address_bisect_eq[of count g "\<lambda>i. addrs ! i", OF addr] by (simp add: pp)
    moreover have "reader_partition_point entries (address - base) = length (takeWhile (\<lambda>a. a \<le> address) addrs)" if "w = 1"
      using reader_partition_point_eq[of entries "address - base" e] tab_pp elen that by simp
    moreover have "typed_partition_point env w e entries (address - base) = Inr (length (takeWhile (\<lambda>a. a \<le> address) addrs))"
      if "w \<in> {2, 4, 8}"
      using typed_partition_point_eq[OF assms(1) that elen] tab_pp by simp
    ultimately show ?thesis
      using False by (auto simp: find_address_index_def Let_def d(1,3,4)[symmetric] slice small sub)
  qed
qed

section \<open>Properties\<close>

text \<open>C8: The address search of a parsed file with a sorted address table returns the index of the last function that starts
  at or before the address, and none when there is none: for every entry width, by the typed slices or by
  the bisection for odd widths, in either byte order.\<close>

theorem find_address_index_last:
  assumes "lawful_env env" "layout_sound (g_data g) (g_layout g)" "length (g_data g) < 2 ^ 64"
    and "map_ok (gsym_address g) [0..<unat (pl_address_count (g_layout g))] = Inr addrs" "sorted addrs"
  shows "find_address_index env g address = Inr (checked_sub (length (takeWhile (\<lambda>a. a \<le> address) addrs)) 1)"
  by (rule find_address_index_eq[OF assms])

lemma find_address_index_last_witness:
  "find_address_index plain_env
     \<lparr>g_data = [0, 0, 0x10, 0, 0, 0x30] @ replicate 23 0,
      g_layout = \<lparr>pl_version = V2, pl_endian = Big, pl_address_offset_size = 3, pl_string_offset_size = 8, pl_base_address = 0x1000,
        pl_address_count = 2, pl_build_id = (0, 0), pl_address_offsets = (0, 6), pl_address_info_offsets = (6, 22),
        pl_file_table = (22, 26), pl_string_table = (26, 27), pl_function_info = (27, 29), pl_file_count = 0\<rparr>\<rparr> 0x102f = Inr (Some 0)"
  (is "find_address_index plain_env ?g _ = _")
proof -
  have zeros: "replicate 5 (0 :: u8) = [0, 0, 0, 0, 0]" by (simp add: eval_nat_numeral)
  have a: "map_ok (gsym_address ?g) [0..<unat (pl_address_count (g_layout ?g))] = Inr [0x1010, 0x1030]"
    by (simp cong: let_ok_weak_cong add: gsym_address_def cursor_eval checked_mul_def cursor_at_def checked_add_u64_def upt_rec zeros)
  show ?thesis
    using find_address_index_last[OF lawful_plain_env _ _ a, of "0x102f"]
    by (simp add: layout_sound_def pl_tables_def inside_def apart_def range_len_def checked_sub_def)
qed

end
