(* ===== verification/Lookup.thy ===== *)
theory Lookup
  imports Reader
begin

text \<open>
  \<open>src/reader/lookup.rs\<close>: address lookup. \<open>matching_function\<close> finds the function,
  \<open>scan_records\<close> picks the payloads the request needs, \<open>scan_inline_node\<close> walks the encoded
  inline tree and collects the frames that cover the address, and \<open>emit_frames\<close> turns them into
  frames, innermost first. A visitor is a function on the caller's state.
\<close>

record scanned_records =
  sr_line :: "line_entry option"
  sr_inline :: "bytes option"
  sr_call_sites :: "bytes option"

definition scanned_default :: scanned_records where
  "scanned_default = \<lparr>sr_line = None, sr_inline = None, sr_call_sites = None\<rparr>"

record frame_request =
  fq_address :: u64
  fq_options :: lookup_options
  fq_function :: raw_function

record prepared_frames =
  pf_function_name :: bytes
  pf_directory :: bytes
  pf_basename :: bytes
  pf_line :: u32
  pf_count :: nat
  pf_call_sites :: "bytes option"

section \<open>The matching function\<close>

text \<open>The first loop steps back to the first function with the address, the second forward over
  the functions that share it.\<close>

fun first_with_start :: "gsym \<Rightarrow> u64 \<Rightarrow> nat \<Rightarrow> nat result" where
  "first_with_start g first_start 0 = Inr 0"
| "first_with_start g first_start (Suc index) =
     let_ok (gsym_address g index) (\<lambda>a.
     if a = first_start then first_with_start g first_start index else Inr (Suc index))"

function matching_from :: "gsym \<Rightarrow> u64 \<Rightarrow> u64 \<Rightarrow> nat \<Rightarrow> raw_function option result" where
  "matching_from g address first_start index =
     (if index < unat (pl_address_count (g_layout g)) then
        let_ok (raw_function_at g index first_start) (\<lambda>raw.
        if range_is_empty (raw_range raw) \<or> range_contains (raw_range raw) address then Inr (Some raw)
        else
          let index = index + 1 in
          if index \<ge> unat (pl_address_count (g_layout g)) then Inr None
          else
            let_ok (gsym_address g index) (\<lambda>a.
            if a \<noteq> first_start then Inr None else matching_from g address first_start index))
      else Inr None)"
  by pat_completeness auto
termination
  by (relation "measure (\<lambda>(g, address, first_start, index). unat (pl_address_count (g_layout g)) - index)") auto

declare matching_from.simps [simp del]

definition matching_function :: "reader_env \<Rightarrow> gsym \<Rightarrow> u64 \<Rightarrow> raw_function option result" where
  "matching_function env g address =
     let_ok (find_address_index env g address) (\<lambda>found. case found of
       None \<Rightarrow> Inr None
     | Some index \<Rightarrow>
         let_ok (gsym_address g index) (\<lambda>first_start.
         let_ok (first_with_start g first_start index) (\<lambda>index.
         matching_from g address first_start index)))"

section \<open>Records\<close>

definition scan_record :: "gsym \<Rightarrow> frame_request \<Rightarrow> info_record \<Rightarrow> scanned_records \<Rightarrow> scanned_records result" where
  "scan_record g request record scanned =
     (case rec_kind record of
        LineTable \<Rightarrow>
          (if line_information (fq_options request) then
             let_ok (line_lookup (rec_payload record) (pl_endian (g_layout g))
                      (r_start (raw_range (fq_function request))) (fq_address request)) (\<lambda>row.
             Inr (scanned\<lparr>sr_line := row\<rparr>))
           else Inr scanned)
      | Inline \<Rightarrow>
          Inr (if inline_frames (fq_options request) then scanned\<lparr>sr_inline := Some (rec_payload record)\<rparr> else scanned)
      | Merged \<Rightarrow> Inr scanned
      | Unknown _ \<Rightarrow> Inr scanned
      | CallSite \<Rightarrow>
          Inr (if call_sites (fq_options request)
               then scanned\<lparr>sr_call_sites := Some (rec_payload record)\<rparr> else scanned))"

lemma info_records_next_less:
  "info_records_next it = (Some (Inr record), it') \<Longrightarrow> remaining (ir_cursor it') < remaining (ir_cursor it)"
  by (auto simp: info_records_next_def split: if_splits sum.splits option.splits
      dest!: next_record_moved moved_remaining)

function scan_loop :: "gsym \<Rightarrow> frame_request \<Rightarrow> scanned_records \<Rightarrow> info_records \<Rightarrow> scanned_records result" where
  "scan_loop g request scanned it =
     (case info_records_next it of
        (None, it) \<Rightarrow> Inr scanned
      | (Some (Inl err), it) \<Rightarrow> Inl err
      | (Some (Inr record), it) \<Rightarrow> let_ok (scan_record g request record scanned) (\<lambda>scanned. scan_loop g request scanned it))"
  by pat_completeness auto
termination
  by (relation "measure (\<lambda>(g, request, scanned, it). remaining (ir_cursor it))")
     (auto dest: info_records_next_less[OF sym])

declare scan_loop.simps [simp del]

definition scan_records :: "gsym \<Rightarrow> frame_request \<Rightarrow> scanned_records result" where
  "scan_records g request =
     (let options = fq_options request in
      if \<not> line_information options \<and> \<not> inline_frames options \<and> \<not> call_sites options
      then Inr scanned_default
      else scan_loop g request scanned_default
             (raw_function_records (fq_function request) (pl_endian (g_layout g))))"

section \<open>The inline tree\<close>

text \<open>The \<open>for\<close> loop over the ranges of a node: whether the address is contained, the first start.\<close>

fun scan_ranges :: "u64 \<Rightarrow> u64 \<Rightarrow> bool \<Rightarrow> nat \<Rightarrow> bool \<Rightarrow> u64 option \<Rightarrow> cursor
    \<Rightarrow> (bool \<times> u64 option \<times> cursor) result" where
  "scan_ranges base address collect 0 hit first_start c = Inr (hit, first_start, c)"
| "scan_ranges base address collect (Suc n) hit first_start c =
     let_ok (read_uleb c) (\<lambda>(off, c).
     let_ok (ok_or (checked_add_u64 base off) (Overflow ''inline range start'')) (\<lambda>s.
     let_ok (read_uleb c) (\<lambda>(len, c).
     let_ok (ok_or (checked_add_u64 s len) (Overflow ''inline range end'')) (\<lambda>e.
     let first_start = (case first_start of None \<Rightarrow> Some s | Some f \<Rightarrow> Some f);
         hit = (if collect then hit \<or> s \<le> address \<and> address < e else hit) in
     scan_ranges base address collect n hit first_start c))))"

text \<open>\<open>scan_children\<close> is the \<open>loop\<close> over the children of a node.\<close>

function (sequential, domintros)
  scan_inline_node :: "u8 \<Rightarrow> u64 \<Rightarrow> u64 \<Rightarrow> bool \<Rightarrow> nat \<Rightarrow> lookup_scratch \<Rightarrow> cursor
    \<Rightarrow> (bool \<times> bool \<times> lookup_scratch \<times> cursor) result" and
  scan_children :: "u8 \<Rightarrow> u64 \<Rightarrow> u64 \<Rightarrow> bool \<Rightarrow> bool \<Rightarrow> nat \<Rightarrow> lookup_scratch \<Rightarrow> cursor
    \<Rightarrow> (lookup_scratch \<times> cursor) result" where
  "scan_inline_node osize address base collect depth frames c =
     let_ok (check_inline_depth depth) (\<lambda>_.
     let_ok (read_uleb c) (\<lambda>(count, c).
     if count = 0 then Inr (False, False, frames, c)
     else if unat count > remaining c div 2
     then Inl (InvalidFormat ''inline range count exceeds remaining payload'')
     else
       let_ok (scan_ranges base address collect (unat count) False None c) (\<lambda>(hit, first_start, c).
       let_ok (ok_or first_start (InvalidFormat ''inline node declares no address range'')) (\<lambda>first_start.
       let_ok (read_u8 c) (\<lambda>(has_children, c).
       let_ok (read_uint osize c) (\<lambda>(name, c).
       let_ok (read_uleb c) (\<lambda>(call_file, c).
       let_ok (read_uleb c) (\<lambda>(call_line, c).
       let matched = collect \<and> hit; original_len = length frames in
       let_ok (if matched \<and> name \<noteq> 0 then
           let_ok (u32_or_out_of_range call_file ''inline call-file index'') (\<lambda>call_file.
           let_ok (u32_or_out_of_range call_line ''inline call-line'') (\<lambda>call_line.
           Inr (frames @ [\<lparr>rif_name = name, rif_call_file = call_file, rif_call_line = call_line,
                           rif_start = first_start\<rparr>])))
         else Inr frames) (\<lambda>frames.
       let_ok (if has_children \<noteq> 0 then scan_children osize address first_start matched False depth frames c
               else Inr (frames, c)) (\<lambda>(frames, c).
       Inr (True, matched, if \<not> matched then take original_len frames else frames, c)))))))))))"
| "scan_children osize address child_base matched found_child depth frames c =
     let_ok (scan_inline_node osize address child_base (matched \<and> \<not> found_child) (depth + 1) frames c)
       (\<lambda>(present, child_matched, frames, c).
     if \<not> present then Inr (frames, c)
     else scan_children osize address child_base matched (found_child \<or> child_matched) depth frames c)"
  by pat_completeness auto


lemma scan_ranges_moved:
  "scan_ranges base address collect n hit fs c = Inr (hit', fs', c') \<Longrightarrow> position c \<le> length (cbytes c)
    \<Longrightarrow> moved 0 c c'"
proof (induction n arbitrary: hit fs c)
  case 0
  then show ?case by (simp add: moved_def)
next
  case (Suc n)
  from Suc.prems(1) obtain off c1 s len c2 e hit2 fs2 where
    r: "read_uleb c = Inr (off, c1)" "read_uleb c1 = Inr (len, c2)"
    and l: "scan_ranges base address collect n hit2 fs2 c2 = Inr (hit', fs', c')"
    by (auto simp: Let_def)
  note m = read_uleb_moved[OF r(1)] read_uleb_moved[OF r(2)]
  then have "position c2 \<le> length (cbytes c2)" by (simp add: moved_def)
  from Suc.IH[OF l this] m show ?case by (auto simp: moved_def)
qed

lemma scan_inline_moved:
  "scan_inline_node_scan_children_dom (Inl (osize, address, base, collect, depth, fr, c))
    \<Longrightarrow> scan_inline_node osize address base collect depth fr c = Inr out \<Longrightarrow> moved 1 c (snd (snd (snd out)))"
  "scan_inline_node_scan_children_dom (Inr (osize, address, cb, mt, fc, depth, fr, c))
    \<Longrightarrow> scan_children osize address cb mt fc depth fr c = Inr (fr', c') \<Longrightarrow> moved 1 c c'"
proof (induction osize address base collect depth fr c and osize address cb mt fc depth fr c
    arbitrary: out and fr' c' rule: scan_inline_node_scan_children.pinduct)
  case (1 osize address base collect depth fr c)
  note dom = 1(1)
  have e: "scan_inline_node osize address base collect depth fr c = Inr out" by fact
  then obtain u n c1 where d: "check_inline_depth depth = Inr u" "read_uleb c = Inr (n, c1)"
    unfolding scan_inline_node.psimps[OF dom] by auto
  note m1 = read_uleb_moved[OF d(2)]
  show ?case
  proof (cases "n = 0")
    case True
    then show ?thesis using e m1 unfolding scan_inline_node.psimps[OF dom] d by auto
  next
    case n: False
    have cnt: "\<not> unat n > remaining c1 div 2"
      using e n unfolding scan_inline_node.psimps[OF dom] d by (auto split: if_splits)
    with e n obtain hit fso c2 fs hc c3 nm c4 cf c5 cl c6 where
      r: "scan_ranges base address collect (unat n) False None c1 = Inr (hit, fso, c2)"
        "ok_or fso (InvalidFormat ''inline node declares no address range'') = Inr fs"
        "read_u8 c2 = Inr (hc, c3)" "read_uint osize c3 = Inr (nm, c4)" "read_uleb c4 = Inr (cf, c5)"
        "read_uleb c5 = Inr (cl, c6)"
      unfolding scan_inline_node.psimps[OF dom] d by (auto simp: Let_def)
    have "position c1 \<le> length (cbytes c1)" using m1 by (simp add: moved_def)
    from scan_ranges_moved[OF r(1) this] have m6: "moved 1 c c6"
      using m1 read_u8_moved[OF r(3)] read_uint_moved[OF r(4)] read_uleb_moved[OF r(5)] read_uleb_moved[OF r(6)]
      by (auto simp: moved_def)
    note e' = e[unfolded scan_inline_node.psimps[OF dom] d r let_ok_Inr prod.case if_not_P[OF n] if_not_P[OF cnt] Let_def]
    then obtain fr1 where f: "(if (collect \<and> hit) \<and> nm \<noteq> 0 then
           let_ok (u32_or_out_of_range cf ''inline call-file index'') (\<lambda>call_file.
           let_ok (u32_or_out_of_range cl ''inline call-line'') (\<lambda>call_line.
           Inr (fr @ [\<lparr>rif_name = nm, rif_call_file = call_file, rif_call_line = call_line, rif_start = fs\<rparr>])))
         else Inr fr) = Inr fr1" by blast
    show ?thesis
    proof (cases "hc = 0")
      case True
      then show ?thesis using e' m6 by auto
    next
      case hc: False
      then obtain fr2 c7 where sc: "scan_children osize address fs (collect \<and> hit) False depth fr1 c6 = Inr (fr2, c7)"
        and c7: "c7 = snd (snd (snd out))"
        using e'[unfolded f] by auto
      have "moved 1 c6 c7"
        by (rule 1(2)[OF d refl n cnt r(1) refl refl r(2) r(3) refl r(4) refl r(5) refl r(6) refl refl refl f hc sc])
      then show ?thesis using m6 by (auto simp: moved_def c7)
    qed
  qed
next
  case (2 osize address cb mt fc depth fr c)
  note dom = 2(1)
  have e: "scan_children osize address cb mt fc depth fr c = Inr (fr', c')" by fact
  then obtain p m fr1 c1 where d: "scan_inline_node osize address cb (mt \<and> \<not> fc) (depth + 1) fr c = Inr (p, m, fr1, c1)"
    unfolding scan_children.psimps[OF dom] by auto
  have m1: "moved 1 c c1" using 2(2)[OF d] by simp
  show ?case
  proof (cases p)
    case False
    then show ?thesis using e m1 unfolding scan_children.psimps[OF dom] d by simp
  next
    case True
    then have p: "\<not> \<not> p" by simp
    from True e have l: "scan_children osize address cb mt (fc \<or> m) depth fr1 c1 = Inr (fr', c')"
      unfolding scan_children.psimps[OF dom] d by simp
    have "moved 1 c1 c'" by (rule 2(3)[OF d refl refl refl p l])
    then show ?thesis using m1 by (auto simp: moved_def)
  qed
qed

lemma scan_ranges_remaining:
  "scan_ranges base address collect n hit fs c = Inr (hit', fs', c') \<Longrightarrow> remaining c' \<le> remaining c"
proof (induction n arbitrary: hit fs c)
  case (Suc n)
  from Suc.prems obtain off c1 s len c2 e hit2 fs2 where
    r: "read_uleb c = Inr (off, c1)" "read_uleb c1 = Inr (len, c2)"
    and l: "scan_ranges base address collect n hit2 fs2 c2 = Inr (hit', fs', c')"
    by (auto simp: Let_def)
  from Suc.IH[OF l] r[THEN read_uleb_moved, THEN moved_remaining] show ?case by simp
qed simp

lemma scan_inline_total: "All scan_inline_node_scan_children_dom"
  by (relation "measure (\<lambda>x. case x of Inl (osize, address, base, collect, depth, fr, c) \<Rightarrow> remaining c
        | Inr (osize, address, cb, mt, fc, depth, fr, c) \<Rightarrow> Suc (remaining c))")
     (auto dest!: scan_ranges_remaining read_u8_moved read_uint_moved read_uleb_moved
        scan_inline_moved(1) moved_remaining)

termination scan_inline_node
  by (rule scan_inline_total)

declare scan_inline_node.simps [simp del] scan_children.simps [simp del]


section \<open>Frames\<close>

definition prepare_frames :: "reader_env \<Rightarrow> gsym \<Rightarrow> frame_request \<Rightarrow> lookup_scratch
    \<Rightarrow> (prepared_frames \<times> lookup_scratch) result" where
  "prepare_frames env g request scratch =
     let_ok (scan_records g request) (\<lambda>records.
     let fn = fq_function request in
     let_ok (gsym_string g (raw_name fn)) (\<lambda>function_name.
     let_ok (case sr_line records of
         Some row \<Rightarrow> let_ok (gsym_file env g (row_file row)) (\<lambda>(directory, basename). Inr (directory, basename, row_line row))
       | None \<Rightarrow> Inr ([], [], 0)) (\<lambda>(directory, basename, line_number).
     let_ok (case sr_inline records of
         Some payload \<Rightarrow>
           let_ok (scan_inline_node (pl_string_offset_size (g_layout g)) (fq_address request)
               (r_start (raw_range fn)) True 0 scratch (cursor_new payload (pl_endian (g_layout g))))
             (\<lambda>(present, _, scratch, c).
             if \<not> present \<or> \<not> cursor_is_empty c then Inl (InvalidFormat ''malformed inline-info payload'')
             else Inr scratch)
       | None \<Rightarrow> Inr scratch) (\<lambda>scratch.
     Inr (\<lparr>pf_function_name = function_name, pf_directory = directory, pf_basename = basename,
           pf_line = line_number, pf_count = max (length scratch) 1, pf_call_sites = sr_call_sites records\<rparr>,
          scratch)))))"

text \<open>One frame of the loop; \<open>callee\<close> is the next deeper node.\<close>

definition frame_at :: "reader_env \<Rightarrow> gsym \<Rightarrow> frame_request \<Rightarrow> prepared_frames \<Rightarrow> nat \<Rightarrow> raw_inline_frame
    \<Rightarrow> raw_inline_frame option \<Rightarrow> lookup_frame result" where
  "frame_at env g request prepared index node callee =
     let_ok (case callee of
         Some callee \<Rightarrow> let_ok (gsym_file env g (rif_call_file callee)) (\<lambda>(directory, basename).
           Inr (directory, basename, rif_call_line callee))
       | None \<Rightarrow> Inr (pf_directory prepared, pf_basename prepared, pf_line prepared)) (\<lambda>(directory, basename, ln).
     let_ok (if rif_name node = 0 then Inr (pf_function_name prepared) else gsym_string g (rif_name node)) (\<lambda>name.
     Inr \<lparr>frame_name = name, frame_directory = directory, frame_basename = basename, frame_line = ln,
          frame_offset = saturating_sub_u64 (fq_address request) (rif_start node), frame_inlined = (index \<noteq> 0)\<rparr>))"

definition emit_frames :: "reader_env \<Rightarrow> gsym \<Rightarrow> frame_request \<Rightarrow> prepared_frames \<Rightarrow> lookup_scratch
    \<Rightarrow> (lookup_frame \<Rightarrow> 's \<Rightarrow> 's) \<Rightarrow> 's \<Rightarrow> 's result" where
  "emit_frames env g request prepared nodes visitor s =
     (if nodes = [] then
        Inr (visitor \<lparr>frame_name = pf_function_name prepared, frame_directory = pf_directory prepared,
               frame_basename = pf_basename prepared, frame_line = pf_line prepared,
               frame_offset = saturating_sub_u64 (fq_address request) (r_start (raw_range (fq_function request))),
               frame_inlined = False\<rparr> s)
      else
        fold_ok (\<lambda>(index, node) s.
            let_ok (frame_at env g request prepared index node (nth_get nodes (index + 1)))
              (\<lambda>frame. Inr (visitor frame s)))
          (rev (zip [0..<length nodes] nodes)) s)"

definition visit_function_frames :: "reader_env \<Rightarrow> gsym \<Rightarrow> frame_request \<Rightarrow> lookup_scratch
    \<Rightarrow> (lookup_frame \<Rightarrow> 's \<Rightarrow> 's) \<Rightarrow> 's \<Rightarrow> (bytes option \<times> lookup_scratch \<times> 's) result" where
  "visit_function_frames env g request scratch visitor s =
     let_ok (prepare_frames env g request scratch) (\<lambda>(prepared, scratch).
     let_ok (emit_frames env g request prepared scratch visitor s) (\<lambda>s.
     Inr (pf_call_sites prepared, scratch, s)))"

definition for_each_frame :: "reader_env \<Rightarrow> gsym \<Rightarrow> u64 \<Rightarrow> frame_lookup_options \<Rightarrow> lookup_scratch
    \<Rightarrow> (lookup_frame \<Rightarrow> 's \<Rightarrow> 's) \<Rightarrow> 's \<Rightarrow> (bool \<times> lookup_scratch \<times> 's) result" where
  "for_each_frame env g address options scratch visitor s =
     (let scratch = scratch_clear scratch in
      let_ok (matching_function env g address) (\<lambda>found. case found of
        None \<Rightarrow> Inr (False, scratch, s)
      | Some fn \<Rightarrow>
          let_ok (visit_function_frames env g
              \<lparr>fq_address = address, fq_options = lookup_options_from options, fq_function = fn\<rparr> scratch visitor s)
            (\<lambda>(_, scratch, s). Inr (True, scratch, s))))"

section \<open>Call-site patterns and the lookup\<close>

fun read_patterns :: "gsym \<Rightarrow> u8 \<Rightarrow> bool \<Rightarrow> nat \<Rightarrow> bytes list \<Rightarrow> cursor \<Rightarrow> (bytes list \<times> cursor) result" where
  "read_patterns g osize selected 0 output c = Inr (output, c)"
| "read_patterns g osize selected (Suc n) output c =
     let_ok (read_uint osize c) (\<lambda>(off, c).
     let_ok (if selected then let_ok (gsym_string g off) (\<lambda>s. Inr (output @ [s])) else Inr output) (\<lambda>output.
     read_patterns g osize selected n output c))"

fun read_call_sites :: "gsym \<Rightarrow> u8 \<Rightarrow> u64 \<Rightarrow> nat \<Rightarrow> bytes list \<Rightarrow> cursor \<Rightarrow> (bytes list \<times> cursor) result" where
  "read_call_sites g osize ret 0 output c = Inr (output, c)"
| "read_call_sites g osize ret (Suc n) output c =
     let_ok (read_u64 c) (\<lambda>(candidate, c).
     let_ok (read_u8 c) (\<lambda>(_, c).
     let_ok (read_u32 c) (\<lambda>(regex_count, c).
     let_ok (read_patterns g osize (candidate = ret) (unat regex_count) output c) (\<lambda>(output, c).
     read_call_sites g osize ret n output c))))"

definition read_call_site_patterns :: "bytes \<Rightarrow> endian \<Rightarrow> u8 \<Rightarrow> u64 \<Rightarrow> gsym \<Rightarrow> bytes list \<Rightarrow> bytes list result" where
  "read_call_site_patterns payload e osize ret g output =
     let_ok (read_u32 (cursor_new payload e)) (\<lambda>(count, c).
     let_ok (read_call_sites g osize ret (unat count) output c) (\<lambda>(output, c).
     if \<not> cursor_is_empty c then Inl (InvalidFormat ''trailing call-site bytes'') else Inr output))"

definition finish_lookup :: "gsym \<Rightarrow> u64 \<Rightarrow> raw_function \<Rightarrow> bytes option \<Rightarrow> lookup_frame list \<Rightarrow> lookup_result result" where
  "finish_lookup g address fn call_site_payload frames =
     let_ok (case call_site_payload of
         None \<Rightarrow> Inr []
       | Some payload \<Rightarrow>
           read_call_site_patterns payload (pl_endian (g_layout g)) (pl_string_offset_size (g_layout g))
             (saturating_sub_u64 address (r_start (raw_range fn))) g []) (\<lambda>patterns.
     Inr \<lparr>lookup_address = address, lookup_function = raw_range fn, lookup_frames = frames,
          lookup_patterns = patterns\<rparr>)"

definition lookup_with_options :: "reader_env \<Rightarrow> gsym \<Rightarrow> u64 \<Rightarrow> lookup_options \<Rightarrow> lookup_scratch
    \<Rightarrow> (lookup_result option \<times> lookup_scratch) result" where
  "lookup_with_options env g address options scratch =
     (let scratch = scratch_clear scratch in
      let_ok (matching_function env g address) (\<lambda>found. case found of
        None \<Rightarrow> Inr (None, scratch)
      | Some fn \<Rightarrow>
          let request = \<lparr>fq_address = address, fq_options = options, fq_function = fn\<rparr> in
          let_ok (prepare_frames env g request scratch) (\<lambda>(prepared, scratch).
          let_ok (emit_frames env g request prepared scratch (\<lambda>frame frames. frames @ [frame]) []) (\<lambda>frames.
          let_ok (finish_lookup g address fn (pf_call_sites prepared) frames) (\<lambda>result.
          Inr (Some result, scratch))))))"

definition gsym_lookup :: "reader_env \<Rightarrow> gsym \<Rightarrow> u64 \<Rightarrow> lookup_result option result" where
  "gsym_lookup env g address =
     let_ok (lookup_with_options env g address lookup_options_default []) (\<lambda>(result, _). Inr result)"

lemma raw_function_at_start: "raw_function_at g i start = Inr raw \<Longrightarrow> r_start (raw_range raw) = start"
  by (auto simp: raw_function_at_def Let_def split: if_splits)

lemma gsym_raw_function_Some:
  assumes "gsym_raw_function g i = Inr (Some raw)"
  shows "i < unat (pl_address_count (g_layout g)) \<and> gsym_address g i = Inr (r_start (raw_range raw))
    \<and> raw_function_at g i (r_start (raw_range raw)) = Inr raw"
  using assms by (auto simp: gsym_raw_function_def split: if_splits dest: raw_function_at_start)

lemma first_with_start_eq:
  "(\<And>i. i < index \<Longrightarrow> gsym_address g i = Inr (addr i)) \<Longrightarrow>
    \<exists>j \<le> index. first_with_start g s index = Inr j \<and> (\<forall>i. j \<le> i \<and> i < index \<longrightarrow> addr i = s) \<and> (0 < j \<longrightarrow> addr (j - 1) \<noteq> s)"
proof (induction index)
  case (Suc index)
  show ?case
  proof (cases "addr index = s")
    case True
    then obtain j where "j \<le> index" "first_with_start g s index = Inr j" "\<forall>i. j \<le> i \<and> i < index \<longrightarrow> addr i = s"
      "0 < j \<longrightarrow> addr (j - 1) \<noteq> s"
      using Suc by auto
    then show ?thesis using Suc.prems[of index] True by (intro exI[of _ j]) (auto simp: less_Suc_eq)
  next
    case False
    then show ?thesis using Suc.prems[of index] by (intro exI[of _ "Suc index"]) auto
  qed
qed simp

lemma matching_from_eq:
  assumes "\<And>i. i < length raws \<Longrightarrow> gsym_raw_function g i = Inr (Some (raws ! i))"
    and "length raws = unat (pl_address_count (g_layout g))"
    and "index < length raws" "r_start (raw_range (raws ! index)) = s"
  shows "matching_from g address s index = Inr (find (\<lambda>r. range_is_empty (raw_range r) \<or> range_contains (raw_range r) address)
      (takeWhile (\<lambda>r. r_start (raw_range r) = s) (drop index raws)))"
  using assms
proof (induction g address s index rule: matching_from.induct)
  case (1 g address s index)
  let ?p = "\<lambda>r. range_is_empty (raw_range r) \<or> range_contains (raw_range r) address"
  have raw: "raw_function_at g index s = Inr (raws ! index)" and idx: "index < unat (pl_address_count (g_layout g))"
    using gsym_raw_function_Some[OF "1.prems"(1)[OF "1.prems"(3)]] "1.prems"(4) by auto
  have drop: "drop index raws = raws ! index # drop (Suc index) raws" using "1.prems"(3) by (simp add: Cons_nth_drop_Suc)
  show ?case
  proof (cases "?p (raws ! index)")
    case True
    then show ?thesis using raw idx drop "1.prems"(4) by (simp add: matching_from.simps[of g address s index])
  next
    case np: False
    show ?thesis
    proof (cases "Suc index < length raws")
      case False
      then show ?thesis
        using raw idx drop "1.prems" np "1.prems"(2) by (simp add: matching_from.simps[of g address s index] Let_def)
    next
      case True
      then have a: "gsym_address g (index + 1) = Inr (r_start (raw_range (raws ! Suc index)))"
        using gsym_raw_function_Some[OF "1.prems"(1)[OF True]] by simp
      show ?thesis
      proof (cases "r_start (raw_range (raws ! Suc index)) = s")
        case eq: True
        have "matching_from g address s (index + 1) = Inr (find ?p (takeWhile (\<lambda>r. r_start (raw_range r) = s) (drop (Suc index) raws)))"
          using "1.IH"[OF idx raw np refl _ a _ "1.prems"(1,2)] True eq "1.prems"(2) by simp
        then show ?thesis
          using raw idx drop "1.prems"(4) np True a eq "1.prems"(2) by (simp add: matching_from.simps[of g address s index] Let_def)
      next
        case ne: False
        have "drop (Suc index) raws = raws ! Suc index # drop (Suc (Suc index)) raws" using True by (simp add: Cons_nth_drop_Suc)
        then show ?thesis
          using raw idx drop "1.prems"(4) np True a ne "1.prems"(2) by (simp add: matching_from.simps[of g address s index] Let_def)
      qed
    qed
  qed
qed

lemma sorted_filter_eq_takeWhile:
  "sorted (map f xs) \<Longrightarrow> \<forall>x \<in> set xs. s \<le> f x \<Longrightarrow> filter (\<lambda>x. f x = s) xs = takeWhile (\<lambda>x. f x = s) xs" for s :: "'a :: linorder"
proof (induction xs)
  case (Cons x xs)
  show ?case
  proof (cases "f x = s")
    case False
    then have "s < f x" using Cons.prems(2) by auto
    then have "\<forall>y \<in> set xs. f y \<noteq> s" using Cons.prems(1) by auto
    then show ?thesis using False by (auto simp: filter_empty_conv)
  qed (use Cons in auto)
qed simp

text \<open>The function a lookup of an address selects among the functions of a file: of those that start at the greatest
  start at or before the address, the first one that is empty or covers it.\<close>

definition select_function :: "raw_function list \<Rightarrow> u64 \<Rightarrow> raw_function option" where
  "select_function raws address =
     (case takeWhile (\<lambda>a. a \<le> address) (map (\<lambda>r. r_start (raw_range r)) raws) of
        [] \<Rightarrow> None
      | starts \<Rightarrow> find (\<lambda>r. range_is_empty (raw_range r) \<or> range_contains (raw_range r) address)
          (filter (\<lambda>r. r_start (raw_range r) = last starts) raws))"

lemma matching_function_eq:
  assumes "lawful_env env" "layout_sound (g_data g) (g_layout g)" "length (g_data g) < 2 ^ 64"
    and fns: "map_ok (gsym_raw_function g) [0..<unat (pl_address_count (g_layout g))] = Inr (map Some raws)"
    and sorted: "sorted (map (\<lambda>r. r_start (raw_range r)) raws)"
  shows "matching_function env g address = Inr (select_function raws address)"
proof -
  let ?start = "\<lambda>r. r_start (raw_range r)" and ?addrs = "map (\<lambda>r. r_start (raw_range r)) raws"
  let ?ts = "takeWhile (\<lambda>a. a \<le> address) ?addrs"
  have len: "length raws = unat (pl_address_count (g_layout g))" using map_ok_length[OF fns] by simp
  have fn: "gsym_raw_function g i = Inr (Some (raws ! i))" if "i < length raws" for i
    using map_ok_nth[OF fns, of i] that len by simp
  note raw = gsym_raw_function_Some[OF fn]
  have "map_ok (gsym_address g) [0..<unat (pl_address_count (g_layout g))] = Inr ?addrs"
    using raw len by (auto simp: map_ok_Inr_iff list_all2_conv_all_nth)
  note find = find_address_index_eq[OF assms(1-3) this sorted, of address]
  show ?thesis
  proof (cases ?ts rule: rev_cases)
    case Nil
    then show ?thesis using find by (simp add: matching_function_def select_function_def checked_sub_def)
  next
    case (snoc ys s)
    let ?k = "length ys"
    have k: "?k < length raws" using length_takeWhile_le[of "\<lambda>a. a \<le> address" ?addrs] snoc by simp
    have s: "?start (raws ! ?k) = s"
      using takeWhile_nth[of ?k "\<lambda>a. a \<le> address" ?addrs] snoc k by simp
    obtain j where j: "j \<le> ?k" "first_with_start g s ?k = Inr j" "\<forall>i. j \<le> i \<and> i < ?k \<longrightarrow> ?start (raws ! i) = s"
      "0 < j \<longrightarrow> ?start (raws ! (j - 1)) \<noteq> s"
      using first_with_start_eq[of ?k g "\<lambda>i. ?start (raws ! i)" s] raw k by auto
    have js: "?start (raws ! j) = s" using j(1,3) s by (cases "j = ?k") auto
    have mono: "?start (raws ! a) \<le> ?start (raws ! b)" if "a \<le> b" "b < length raws" for a b
      using sorted_nth_mono[OF sorted, of a b] that by simp
    have "filter (\<lambda>r. ?start r = s) (take j raws) = []"
    proof -
      have "?start (raws ! i) \<noteq> s" if "i < j" for i
      proof
        assume e: "?start (raws ! i) = s"
        have "?start (raws ! i) \<le> ?start (raws ! (j - 1))" "?start (raws ! (j - 1)) \<le> ?start (raws ! j)"
          using that j(1) k by (auto intro!: mono)
        then show False using e js j(4) that by auto
      qed
      then show ?thesis by (fastforce simp: filter_empty_conv in_set_conv_nth)
    qed
    moreover have "filter (\<lambda>r. ?start r = s) (drop j raws) = takeWhile (\<lambda>r. ?start r = s) (drop j raws)"
    proof (rule sorted_filter_eq_takeWhile)
      show "sorted (map ?start (drop j raws))" using sorted sorted_wrt_drop[of "(\<le>)" ?addrs j] by (simp add: drop_map)
      show "\<forall>r \<in> set (drop j raws). s \<le> ?start r"
        using mono js j(1) k by (auto simp: in_set_conv_nth)
    qed
    ultimately have filt: "filter (\<lambda>r. ?start r = s) raws = takeWhile (\<lambda>r. ?start r = s) (drop j raws)"
      by (metis append_Nil append_take_drop_id filter_append)
    have "matching_from g address s j = Inr (find (\<lambda>r. range_is_empty (raw_range r) \<or> range_contains (raw_range r) address)
        (filter (\<lambda>r. ?start r = s) raws))"
      unfolding filt by (rule matching_from_eq[OF fn len]) (use j k js in auto)
    moreover have "gsym_address g ?k = Inr s" using raw[OF k] s by simp
    ultimately show ?thesis
      using find snoc j(2) by (cases ys) (auto simp: matching_function_def select_function_def checked_sub_def)
  qed
qed

section \<open>Properties\<close>

text \<open>C9: In a file whose function records can be read and whose address table is sorted, the function that a lookup works
  on is the one the specification \<open>select_function\<close> names: among the functions with the greatest start at or before
  the address, aliases included, the first in file order that has no size or covers the address, and none if
  there is no such function.\<close>

theorem matching_function_selects:
  assumes "lawful_env env" "layout_sound (g_data g) (g_layout g)" "length (g_data g) < 2 ^ 64"
    and "map_ok (gsym_raw_function g) [0..<unat (pl_address_count (g_layout g))] = Inr (map Some raws)"
    and "sorted (map (\<lambda>r. r_start (raw_range r)) raws)"
  shows "matching_function env g address = Inr (select_function raws address)"
  by (rule matching_function_eq[OF assms])

lemma matching_function_selects_witness:
  "matching_function plain_env
     \<lparr>g_data = [0x10, 0x10, 0, 0] @ [20, 0, 0, 0, 28, 0, 0, 0] @ [0, 97, 0, 0] @ [0, 0, 0, 0] @ [4, 0, 0, 0, 1, 0, 0, 0] @ [16, 0, 0, 0, 1, 0, 0, 0],
      g_layout = \<lparr>pl_version = V1, pl_endian = Little, pl_address_offset_size = 1, pl_string_offset_size = 4, pl_base_address = 0x1000,
        pl_address_count = 2, pl_build_id = (0, 0), pl_address_offsets = (0, 2), pl_address_info_offsets = (4, 12),
        pl_file_table = (16, 20), pl_string_table = (12, 16), pl_function_info = (20, 36), pl_file_count = 0\<rparr>\<rparr> 0x1018
   = Inr (Some \<lparr>raw_range = mk_range 0x1010 0x1020, raw_name = 1, raw_data = [16, 0, 0, 0, 1, 0, 0, 0], raw_records = []\<rparr>)"
  (is "matching_function plain_env ?g _ = Inr (Some ?second)")
proof -
  let ?first = "\<lparr>raw_range = mk_range 0x1010 0x1014, raw_name = 1,
    raw_data = [4, 0, 0, 0, 1, 0, 0, 0, 16, 0, 0, 0, 1, 0, 0, 0], raw_records = [16, 0, 0, 0, 1, 0, 0, 0]\<rparr>"
  have r: "map_ok (gsym_raw_function ?g) [0..<unat (pl_address_count (g_layout ?g))] = Inr (map Some [?first, ?second])"
    by (simp cong: let_ok_weak_cong add: gsym_raw_function_def raw_function_at_def function_offset_def gsym_address_def cursor_eval
        checked_mul_def cursor_at_def checked_add_u64_def upt_rec)
  show ?thesis
    using matching_function_selects[OF lawful_plain_env _ _ r, of "0x1018"]
    by (simp add: layout_sound_def pl_tables_def inside_def apart_def range_len_def select_function_def range_is_empty_def range_contains_def
        range_size_def range_is_valid_def saturating_sub_u64_def)
qed

end
