(* ===== verification/Owned.thy ===== *)
theory Owned
  imports Lookup
begin

text \<open>
  \<open>src/reader/owned.rs\<close> and the verification of \<open>src/reader.rs\<close>: the semantic checks on decoded
  functions, the conversion into the owned model, and \<open>verify\<close> over the whole file. The slice
  \<open>verified_files\<close> that the checks mutate is threaded through them. The constant parameter
  \<open>VALIDATE\<close> is a flag.
\<close>

section \<open>Checks\<close>

definition option_lines :: "line_entry list option \<Rightarrow> line_entry list" where
  "option_lines v = (case v of None \<Rightarrow> [] | Some ls \<Rightarrow> ls)"

fun validate_inline_ranges :: "address_range list \<Rightarrow> encoded_inline_node \<Rightarrow> unit result" where
  "validate_inline_ranges parents (EncodedInlineNode ranges name cfile cline children) =
     (if ranges = [] \<or> list_ex (\<lambda>r. \<not> range_is_valid r \<or> range_is_empty r
           \<or> \<not> list_ex (\<lambda>parent. contains_range parent r) parents) ranges
      then Inl (InvalidFormat ''inline range is empty, reversed, or outside its parent'')
      else fold_ok (\<lambda>child _. validate_inline_ranges ranges child) children ())"

definition validate_semantics :: "encoded_function \<Rightarrow> address_range option \<Rightarrow> unit result" where
  "validate_semantics fn merged_parent =
     (let r = ef_range fn in
      if \<not> range_is_valid r then Inl (InvalidFormat ''reversed function range'')
      else if (case merged_parent of None \<Rightarrow> False | Some parent \<Rightarrow> r \<noteq> parent)
      then Inl (InvalidFormat ''merged function range differs from its parent'')
      else if list_ex (\<lambda>ln. row_address ln < r_start r \<or> \<not> range_is_empty r \<and> row_address ln \<ge> r_end r)
          (option_lines (ef_lines fn))
      then Inl (InvalidFormat ''line address is outside its function'')
      else
        let_ok (case ef_inline fn of None \<Rightarrow> Inr () | Some inline \<Rightarrow> validate_inline_ranges [r] inline) (\<lambda>_.
        let len = range_size r in
        if list_ex (\<lambda>site. len \<noteq> 0 \<and> ecs_return_offset site \<ge> len) (ef_call_sites fn)
        then Inl (InvalidFormat ''call-site return offset is outside its function'')
        else Inr ()))"

definition verify_file :: "reader_env \<Rightarrow> function_ref \<Rightarrow> file_index \<Rightarrow> bool list \<Rightarrow> bool list result" where
  "verify_file env r index verified =
     (if nth_get verified (unat index) = Some True then Inr verified
      else let_ok (ref_file env r index) (\<lambda>_. Inr (verified[unat index := True])))"

fun validate_inline_strings :: "reader_env \<Rightarrow> function_ref \<Rightarrow> encoded_inline_node \<Rightarrow> bool list \<Rightarrow> bool list result" where
  "validate_inline_strings env r (EncodedInlineNode ranges name cfile cline children) verified =
     let_ok (if name \<noteq> 0 then ref_string r name else Inr []) (\<lambda>_.
     let_ok (verify_file env r cfile verified) (\<lambda>verified.
     fold_ok (\<lambda>child verified. validate_inline_strings env r child verified) children verified))"

fun owned_validate_at :: "reader_env \<Rightarrow> function_ref \<Rightarrow> address_range option \<Rightarrow> nat \<Rightarrow> encoded_function
    \<Rightarrow> bool list \<Rightarrow> bool list result" where
  "owned_validate_at env r merged_parent depth (EncodedFunction rng name lns inline merged sites) verified =
     let_ok (check_merged_depth depth) (\<lambda>_.
     let_ok (validate_semantics (EncodedFunction rng name lns inline merged sites) merged_parent) (\<lambda>_.
     let_ok (ref_string r name) (\<lambda>_.
     let_ok (fold_ok (\<lambda>ln verified. verify_file env r (row_file ln) verified) (option_lines lns) verified) (\<lambda>verified.
     let_ok (case inline of None \<Rightarrow> Inr verified | Some node \<Rightarrow> validate_inline_strings env r node verified) (\<lambda>verified.
     let_ok (fold_ok (\<lambda>site _. fold_ok (\<lambda>off _. let_ok (ref_string r off) (\<lambda>_. Inr ())) (ecs_match_regex site) ())
       sites ()) (\<lambda>_.
     fold_ok (\<lambda>m verified. owned_validate_at env r (Some rng) (depth + 1) m verified) merged verified))))))"

definition owned_validate :: "reader_env \<Rightarrow> function_ref \<Rightarrow> encoded_function \<Rightarrow> bool list \<Rightarrow> bool list result" where
  "owned_validate env r fn verified = owned_validate_at env r None 0 fn verified"

section \<open>The owned model\<close>

fun owned_decode_inline :: "reader_env \<Rightarrow> bool \<Rightarrow> function_ref \<Rightarrow> encoded_inline_node \<Rightarrow> inline_node result" where
  "owned_decode_inline env validate r (EncodedInlineNode ranges name cfile cline children) =
     let_ok (if validate then let_ok (ref_file env r cfile) (\<lambda>_. Inr ()) else Inr ()) (\<lambda>_.
     let_ok (if name = 0 then Inr [] else ref_string r name) (\<lambda>name.
     let_ok (map_ok (\<lambda>child. owned_decode_inline env validate r child) children) (\<lambda>children.
     Inr (InlineNode ranges name cfile cline children))))"

definition owned_decode_call_site :: "function_ref \<Rightarrow> encoded_call_site \<Rightarrow> call_site result" where
  "owned_decode_call_site r site =
     let_ok (map_ok (ref_string r) (ecs_match_regex site)) (\<lambda>regexes.
     Inr \<lparr>return_offset = ecs_return_offset site, site_flags = ecs_flags site, match_regex = regexes\<rparr>)"

fun owned_decode_at :: "reader_env \<Rightarrow> bool \<Rightarrow> function_ref \<Rightarrow> address_range option \<Rightarrow> nat \<Rightarrow> encoded_function
    \<Rightarrow> gfunction result" where
  "owned_decode_at env validate r merged_parent depth (EncodedFunction rng name lns inline merged sites) =
     let_ok (if validate then
         let_ok (check_merged_depth depth) (\<lambda>_.
         let_ok (validate_semantics (EncodedFunction rng name lns inline merged sites) merged_parent) (\<lambda>_.
         fold_ok (\<lambda>ln _. let_ok (ref_file env r (row_file ln)) (\<lambda>_. Inr ())) (option_lines lns) ()))
       else Inr ()) (\<lambda>_.
     let_ok (map_ok (\<lambda>m. owned_decode_at env validate r (Some rng) (depth + 1) m) merged) (\<lambda>merged.
     let_ok (map_ok (owned_decode_call_site r) sites) (\<lambda>sites.
     let_ok (ref_string r name) (\<lambda>name.
     let_ok (case inline of None \<Rightarrow> Inr None
       | Some node \<Rightarrow> let_ok (owned_decode_inline env validate r node) (\<lambda>node. Inr (Some node))) (\<lambda>inline.
     Inr (Function rng name (option_lines lns) inline merged sites))))))"

definition owned_decode :: "reader_env \<Rightarrow> function_ref \<Rightarrow> encoded_function \<Rightarrow> gfunction result" where
  "owned_decode env r fn = owned_decode_at env True r None 0 fn"

definition owned_decode_validated :: "reader_env \<Rightarrow> function_ref \<Rightarrow> encoded_function \<Rightarrow> gfunction result" where
  "owned_decode_validated env r fn = owned_decode_at env False r None 0 fn"

definition ref_decode :: "reader_env \<Rightarrow> function_ref \<Rightarrow> gfunction result" where
  "ref_decode env r = let_ok (ref_decode_encoded r) (owned_decode env r)"

section \<open>Verification\<close>

text \<open>The loop over the functions: the previous address, the verified files and the visitor's state.\<close>

definition verify_step :: "reader_env \<Rightarrow> gsym \<Rightarrow> (function_ref \<Rightarrow> encoded_function \<Rightarrow> 's \<Rightarrow> 's result) \<Rightarrow> nat
    \<Rightarrow> u64 option \<times> bool list \<times> 's \<Rightarrow> (u64 option \<times> bool list \<times> 's) result" where
  "verify_step env g visitor index = (\<lambda>(previous, verified, s).
     let_ok (gsym_address g index) (\<lambda>address.
     if (case previous of None \<Rightarrow> False | Some v \<Rightarrow> address < v)
     then Inl (InvalidFormat ''address table is not sorted'')
     else
       let_ok (gsym_function g index) (\<lambda>fn.
       let_ok (ref_decode_encoded fn) (\<lambda>decoded.
       let_ok (owned_validate env fn decoded verified) (\<lambda>verified.
       let_ok (visitor fn decoded s) (\<lambda>s.
       Inr (Some address, verified, s)))))))"

definition verify_with :: "reader_env \<Rightarrow> gsym \<Rightarrow> (function_ref \<Rightarrow> encoded_function \<Rightarrow> 's \<Rightarrow> 's result) \<Rightarrow> 's
    \<Rightarrow> (verify_report \<times> 's) result" where
  "verify_with env g visitor s =
     (let l = g_layout g in
      if nth_get (g_data g) (fst (pl_string_table l)) \<noteq> Some 0
      then Inl (InvalidFormat ''GSYM string table does not begin with an empty string'')
      else
        let_ok (if pl_file_count l > 0 then
            let_ok (gsym_file env g 0) (\<lambda>(directory, basename).
            if directory \<noteq> [] \<or> basename \<noteq> [] then Inl (InvalidFormat ''file-table index zero must be empty'')
            else Inr ())
          else Inr ()) (\<lambda>_.
        let verified = (replicate (unat (pl_file_count l)) False)[0 := True] in
        let_ok (fold_ok (verify_step env g visitor) [0..<unat (pl_address_count l)] (None, verified, s))
          (\<lambda>(_, verified, s).
        let_ok (fold_ok (\<lambda>(index, done) _. if done then Inr ()
              else let_ok (gsym_file env g (word_of_nat index)) (\<lambda>_. Inr ()))
            (zip [0..<unat (pl_file_count l)] verified) ()) (\<lambda>_.
        Inr (\<lparr>vr_functions = unat (pl_address_count l), vr_files = unat (pl_file_count l),
              vr_strings = memchr_count env 0
                (case slice_get (g_data g) (fst (pl_string_table l)) (snd (pl_string_table l)) of
                   None \<Rightarrow> [] | Some bs \<Rightarrow> bs),
              vr_function_info_bytes = range_len (pl_function_info l)\<rparr>, s)))))"

definition gsym_verify :: "reader_env \<Rightarrow> gsym \<Rightarrow> verify_report result" where
  "gsym_verify env g = let_ok (verify_with env g (\<lambda>_ _. Inr) ()) (\<lambda>(report, _). Inr report)"

definition decode_all_verified :: "reader_env \<Rightarrow> gsym \<Rightarrow> (verify_report \<times> gfunction list) result" where
  "decode_all_verified env g =
     verify_with env g (\<lambda>r encoded functions.
       let_ok (owned_decode_validated env r encoded) (\<lambda>fn. Inr (functions @ [fn]))) []"

end
