(* ===== verification/Transform.thy ===== *)
theory Transform
  imports Writer Owned
begin

text \<open>
  \<open>src/transform.rs\<close>: decoding a whole file into a semantic model, building a file from such a
  model with the file table cut down to what is referenced, and the partition into segments of a
  target size. The search for a segment's end takes the encoder of a window of functions as the
  argument \<open>enc\<close>; \<open>segments\<close> passes \<open>builder_for_functions\<close> followed by \<open>to_bytes\<close>.
\<close>

section \<open>Decoding\<close>

record decoded_gsym =
  dg_source_version :: gsym_version
  dg_source_endian :: endian
  dg_base_address :: u64
  dg_build_id :: bytes
  dg_files :: "file_entry list"
  dg_functions :: "gfunction list"

record transcode_options =
  to_version :: "gsym_version option"
  to_endian :: "endian option"

definition decode_file_entry :: "reader_env \<Rightarrow> gsym \<Rightarrow> nat \<Rightarrow> file_entry result" where
  "decode_file_entry env g index =
     let_ok (ok_or (u32_try_from index) (Overflow ''file index'')) (\<lambda>index.
     let_ok (gsym_file env g index) (\<lambda>(directory, basename).
     Inr \<lparr>file_directory = directory, file_basename = basename\<rparr>))"

definition decode_all :: "reader_env \<Rightarrow> gsym \<Rightarrow> decoded_gsym result" where
  "decode_all env g =
     let_ok (decode_all_verified env g) (\<lambda>(report, functions).
     let header = gsym_header_of g in
     let_ok (map_ok (decode_file_entry env g) [0..<vr_files report]) (\<lambda>files.
     Inr \<lparr>dg_source_version = gh_version header, dg_source_endian = gh_endian header,
          dg_base_address = gh_base_address header, dg_build_id = gh_build_id header,
          dg_files = (if vr_files report = 0 then [file_entry_default] else []) @ files,
          dg_functions = functions\<rparr>))"

section \<open>Used files\<close>

definition mark_file :: "file_index \<Rightarrow> bool list \<Rightarrow> bool list result" where
  "mark_file index used =
     (if unat index < length used then Inr (used[unat index := True])
      else Inl (InvalidModel ''function references a missing file''))"

fun mark_inline_files :: "nat \<Rightarrow> inline_node \<Rightarrow> bool list \<Rightarrow> bool list result" where
  "mark_inline_files depth (InlineNode ranges name cfile cline children) used =
     let_ok (check_inline_depth depth) (\<lambda>_.
     let_ok (mark_file cfile used) (\<lambda>used.
     fold_ok (\<lambda>child used. mark_inline_files (depth + 1) child used) children used))"

fun mark_function_files_at :: "nat \<Rightarrow> gfunction \<Rightarrow> bool list \<Rightarrow> bool list result" where
  "mark_function_files_at depth (Function rng name lns inline merged sites) used =
     let_ok (check_merged_depth depth) (\<lambda>_.
     let_ok (fold_ok (\<lambda>ln used. mark_file (row_file ln) used) lns used) (\<lambda>used.
     let_ok (case inline of None \<Rightarrow> Inr used | Some node \<Rightarrow> mark_inline_files 0 node used) (\<lambda>used.
     fold_ok (\<lambda>m used. mark_function_files_at (depth + 1) m used) merged used)))"

definition mark_function_files :: "gfunction \<Rightarrow> bool list \<Rightarrow> bool list result" where
  "mark_function_files fn used = mark_function_files_at 0 fn used"

definition used_files :: "file_entry list \<Rightarrow> gfunction list \<Rightarrow> bool list result" where
  "used_files files functions =
     (if (case nth_get files 0 of None \<Rightarrow> True | Some f \<Rightarrow> f \<noteq> file_entry_default)
      then Inl (InvalidModel ''file-table index zero must be empty'')
      else fold_ok mark_function_files functions ((replicate (length files) False)[0 := True]))"

section \<open>Remapping\<close>

definition remap_file :: "file_index list \<Rightarrow> file_index \<Rightarrow> file_index result" where
  "remap_file remap index =
     ok_or (nth_get remap (unat index)) (InvalidModel ''function references a missing file'')"

fun remap_inline_files :: "file_index list \<Rightarrow> nat \<Rightarrow> inline_node \<Rightarrow> inline_node result" where
  "remap_inline_files remap depth (InlineNode ranges name cfile cline children) =
     let_ok (check_inline_depth depth) (\<lambda>_.
     let_ok (remap_file remap cfile) (\<lambda>cfile.
     let_ok (map_ok (\<lambda>child. remap_inline_files remap (depth + 1) child) children) (\<lambda>children.
     Inr (InlineNode ranges name cfile cline children))))"

definition remap_line :: "file_index list \<Rightarrow> line_entry \<Rightarrow> line_entry result" where
  "remap_line remap ln = let_ok (remap_file remap (row_file ln)) (\<lambda>f. Inr (ln\<lparr>row_file := f\<rparr>))"

fun remap_function_files_at :: "file_index list \<Rightarrow> nat \<Rightarrow> gfunction \<Rightarrow> gfunction result" where
  "remap_function_files_at remap depth (Function rng name lns inline merged sites) =
     let_ok (check_merged_depth depth) (\<lambda>_.
     let_ok (map_ok (remap_line remap) lns) (\<lambda>lns.
     let_ok (case inline of None \<Rightarrow> Inr None
       | Some node \<Rightarrow> let_ok (remap_inline_files remap 0 node) (\<lambda>node. Inr (Some node))) (\<lambda>inline.
     let_ok (map_ok (\<lambda>m. remap_function_files_at remap (depth + 1) m) merged) (\<lambda>merged.
     Inr (Function rng name lns inline merged sites)))))"

definition remap_function_files :: "file_index list \<Rightarrow> gfunction \<Rightarrow> gfunction result" where
  "remap_function_files remap fn = remap_function_files_at remap 0 fn"

section \<open>Building\<close>

definition new_builder :: "'t file_env \<Rightarrow> gsym_version \<Rightarrow> endian \<Rightarrow> u64 \<Rightarrow> bytes \<Rightarrow> transcode_options \<Rightarrow> 't gsym_builder" where
  "new_builder env source_version source_endian base_address build_id options =
     builder_set_function_set Preserve
       (builder_repair_zero_sized False
         (builder_set_build_id build_id
           (builder_set_base_address base_address
             (builder_set_endian (case to_endian options of None \<Rightarrow> source_endian | Some e \<Rightarrow> e)
               (builder_set_version (case to_version options of None \<Rightarrow> source_version | Some v \<Rightarrow> v)
                 (builder_new env))))))"

text \<open>The loop over the files from index 1 on, with \<open>remap\<close> and the builder as its state.\<close>

definition add_used_file :: "'t file_env \<Rightarrow> bool list \<Rightarrow> nat \<times> file_entry
    \<Rightarrow> file_index list \<times> 't gsym_builder \<Rightarrow> (file_index list \<times> 't gsym_builder) result" where
  "add_used_file env used = (\<lambda>(old, f) (remap, b).
     if nth_get used old = Some True \<and> old < length remap
     then let_ok (add_file env f b) (\<lambda>(index, b). Inr (remap[old := index], b))
     else Inr (remap, b))"

definition add_remapped :: "file_index list \<Rightarrow> gfunction \<Rightarrow> 't gsym_builder \<Rightarrow> 't gsym_builder result" where
  "add_remapped remap fn b = let_ok (remap_function_files remap fn) (\<lambda>fn. add_function fn b)"

definition builder_for_functions :: "'t file_env \<Rightarrow> decoded_gsym \<Rightarrow> gfunction list \<Rightarrow> transcode_options
    \<Rightarrow> 't gsym_builder result" where
  "builder_for_functions env d functions options =
     let_ok (used_files (dg_files d) functions) (\<lambda>used.
     let b = new_builder env (dg_source_version d) (dg_source_endian d) (dg_base_address d) (dg_build_id d) options;
         remap = replicate (length (dg_files d)) 0 in
     let_ok (fold_ok (add_used_file env used) (drop 1 (zip [0..<length (dg_files d)] (dg_files d))) (remap, b))
       (\<lambda>(remap, b).
     fold_ok (add_remapped remap) functions b))"

definition to_builder :: "'t file_env \<Rightarrow> decoded_gsym \<Rightarrow> transcode_options \<Rightarrow> 't gsym_builder result" where
  "to_builder env d options = builder_for_functions env d (dg_functions d) options"

text \<open>\<open>into_builder\<close> moves the files and functions out instead of cloning them.\<close>

definition into_builder :: "'t file_env \<Rightarrow> decoded_gsym \<Rightarrow> transcode_options \<Rightarrow> 't gsym_builder result" where
  "into_builder env d options =
     let_ok (used_files (dg_files d) (dg_functions d)) (\<lambda>used.
     let b = new_builder env (dg_source_version d) (dg_source_endian d) (dg_base_address d) (dg_build_id d) options;
         remap = replicate (length (dg_files d)) 0 in
     let_ok (fold_ok (add_used_file env used) (drop 1 (zip [0..<length (dg_files d)] (dg_files d))) (remap, b))
       (\<lambda>(remap, b).
     fold_ok (add_remapped remap) (dg_functions d) b))"

definition transcode :: "'t file_env \<Rightarrow> 'u string_env \<Rightarrow> decoded_gsym \<Rightarrow> transcode_options \<Rightarrow> bytes result" where
  "transcode fenv senv d options = let_ok (into_builder fenv d options) (builder_to_bytes senv)"

definition gsym_transcode :: "reader_env \<Rightarrow> 't file_env \<Rightarrow> 'u string_env \<Rightarrow> gsym \<Rightarrow> transcode_options \<Rightarrow> bytes result" where
  "gsym_transcode renv fenv senv g options = let_ok (decode_all renv g) (\<lambda>d. transcode fenv senv d options)"

section \<open>Segments\<close>

record gsym_segment =
  seg_first_address :: u64
  seg_end_address :: u64
  seg_function_count :: nat
  seg_bytes :: bytes

definition window :: "gfunction list \<Rightarrow> nat \<Rightarrow> nat \<Rightarrow> gfunction list result" where
  "window functions start stop =
     ok_or (slice_get functions start stop) (InvalidModel ''segment partition is out of range'')"

text \<open>The first loop doubles the window until it is too large: the best end so far with its bytes,
  and the first end found too large with its size.\<close>

record segment_search =
  ss_best :: nat
  ss_best_bytes :: bytes
  ss_ceiling :: nat
  ss_ceiling_size :: "nat option"

function grow_segment :: "(gfunction list \<Rightarrow> bytes result) \<Rightarrow> gfunction list \<Rightarrow> nat \<Rightarrow> nat \<Rightarrow> nat \<Rightarrow> segment_search
    \<Rightarrow> segment_search result" where
  "grow_segment enc functions start target span s =
     (if ss_best s < length functions then
        let candidate = min (saturating_add (saturating_add start 1) span) (length functions) in
        if candidate \<le> ss_best s then Inr s
        else
          let_ok (let_ok (window functions start candidate) enc) (\<lambda>bs.
          if length bs > target
          then Inr (s\<lparr>ss_ceiling := candidate, ss_ceiling_size := Some (length bs)\<rparr>)
          else grow_segment enc functions start target (saturating_mul span 2)
                 (s\<lparr>ss_best := candidate, ss_best_bytes := bs\<rparr>))
      else Inr s)"
  by pat_completeness auto
termination
  by (relation "measure (\<lambda>(enc, functions, start, target, span, s). length functions - ss_best s)") auto

text \<open>The estimate of the next end from the two measured sizes.\<close>

definition estimate_end :: "nat \<Rightarrow> nat \<Rightarrow> nat \<Rightarrow> segment_search \<Rightarrow> nat option" where
  "estimate_end target low high s =
     Option.bind (ss_ceiling_size s) (\<lambda>size'.
     Option.bind (checked_sub size' (length (ss_best_bytes s))) (\<lambda>growth.
     Option.bind (checked_sub target (length (ss_best_bytes s))) (\<lambda>available.
     Option.bind (checked_sub (ss_ceiling s) (ss_best s)) (\<lambda>distance.
     Option.bind (checked_mul available distance) (\<lambda>scaled.
     Option.bind (if growth = 0 then None else Some (scaled div growth)) (\<lambda>step.
     map_option (\<lambda>index. max low (min high index)) (checked_add (ss_best s) step)))))))"

lemma estimate_end_bounds: "estimate_end target low high s = Some e \<Longrightarrow> low \<le> high \<Longrightarrow> low \<le> e \<and> e \<le> high"
  by (auto simp: estimate_end_def bind_eq_Some_conv)

definition probe_index :: "nat \<Rightarrow> nat \<Rightarrow> nat \<Rightarrow> nat \<Rightarrow> segment_search \<Rightarrow> nat" where
  "probe_index target probes low high s =
     (let midpoint = low + (high - low) div 2 in
      if probes mod 3 = 2 then midpoint
      else case estimate_end target low high s of None \<Rightarrow> midpoint | Some e \<Rightarrow> e)"

lemma probe_index_bounds:
  assumes "low \<le> high"
  shows "low \<le> probe_index target probes low high s \<and> probe_index target probes low high s \<le> high"
proof -
  have "low + (high - low) div 2 \<le> high" using assms by linarith
  then show ?thesis using estimate_end_bounds[OF _ assms]
    by (auto simp: probe_index_def Let_def split: option.split)
qed

text \<open>The second loop bisects. Its variable \<open>low\<close> is \<open>best + 1\<close> before the loop and after every
  step, so the model reads it off \<open>best\<close>.\<close>

function bisect_segment :: "(gfunction list \<Rightarrow> bytes result) \<Rightarrow> gfunction list \<Rightarrow> nat \<Rightarrow> nat \<Rightarrow> nat \<Rightarrow> nat
    \<Rightarrow> segment_search \<Rightarrow> segment_search result" where
  "bisect_segment enc functions start target probes high s =
     (let low = ss_best s + 1 in
      if low \<le> high \<and> high \<le> length functions then
        let middle = probe_index target probes low high s in
        let_ok (let_ok (window functions start middle) enc) (\<lambda>bs.
        if length bs \<le> target
        then bisect_segment enc functions start target (saturating_add probes 1) high
               (s\<lparr>ss_best := middle, ss_best_bytes := bs\<rparr>)
        else bisect_segment enc functions start target (saturating_add probes 1) (middle - 1)
               (s\<lparr>ss_ceiling := middle, ss_ceiling_size := Some (length bs)\<rparr>))
      else Inr s)"
  by pat_completeness auto
termination
proof (relation "measure (\<lambda>(enc, functions, start, target, probes, high, s). Suc high - ss_best s)", goal_cases)
  case (2 enc fns start target probes high s low middle bs)
  then have "low \<le> middle" "middle \<le> high" using probe_index_bounds[of low high target probes s] by auto
  then show ?case using 2 by auto
next
  case (3 enc fns start target probes high s low middle bs)
  then have "low \<le> middle" "middle \<le> high" using probe_index_bounds[of low high target probes s] by auto
  then show ?case using 3 by auto
qed simp

declare grow_segment.simps [simp del] bisect_segment.simps [simp del]

definition segment_end_address :: "gfunction list \<Rightarrow> gfunction list \<Rightarrow> nat \<Rightarrow> u64" where
  "segment_end_address functions selected best =
     (case nth_get functions best of
        Some next_fn \<Rightarrow> r_start (fn_range next_fn)
      | None \<Rightarrow>
          if range_is_empty (fn_range (last selected)) then - 1
          else Max (set (map (\<lambda>fn. r_end (fn_range fn)) selected)))"

definition search_segment :: "(gfunction list \<Rightarrow> bytes result) \<Rightarrow> gfunction list \<Rightarrow> nat \<Rightarrow> nat \<Rightarrow> segment_search result" where
  "search_segment enc functions target start =
     (let minimum = start + 1 in
      let_ok (let_ok (window functions start minimum) enc) (\<lambda>bs.
      let_ok (grow_segment enc functions start target 1
          \<lparr>ss_best = minimum, ss_best_bytes = bs, ss_ceiling = length functions + 1, ss_ceiling_size = None\<rparr>) (\<lambda>s.
      bisect_segment enc functions start target 0 (ss_ceiling s - 1) s)))"


lemma window_eq: "window functions start stop = Inr w \<longleftrightarrow>
    start \<le> stop \<and> stop \<le> length functions \<and> w = take (stop - start) (drop start functions)"
  by (auto simp: window_def ok_simps)

lemma grow_segment_best: "grow_segment enc fns start target span s = Inr s' \<Longrightarrow> ss_best s \<le> ss_best s'"
proof (induction enc fns start target span s rule: grow_segment.induct)
  case (1 enc fns start target span s)
  let ?c = "min (saturating_add (saturating_add start 1) span) (length fns)"
  note eq = grow_segment.simps[of enc fns start target span s]
  show ?case
  proof (cases "ss_best s < length fns \<and> \<not> ?c \<le> ss_best s")
    case True
    with "1.prems" obtain bs where bs: "let_ok (window fns start ?c) enc = Inr bs"
      by (auto simp: eq Let_def ok_simps)
    show ?thesis
    proof (cases "length bs > target")
      case True
      then show ?thesis using "1.prems" \<open>ss_best s < length fns \<and> _\<close> bs by (auto simp: eq Let_def)
    next
      case False
      then show ?thesis
        using "1.IH"[OF _ refl _ bs False] "1.prems" True bs by (auto simp: eq Let_def)
    qed
  qed (use "1.prems" in \<open>auto simp: eq Let_def split: if_splits\<close>)
qed

lemma bisect_segment_best:
  "bisect_segment enc fns start target probes high s = Inr s' \<Longrightarrow> ss_best s \<le> ss_best s'"
proof (induction enc fns start target probes high s rule: bisect_segment.induct)
  case (1 enc fns start target probes high s)
  note eq = bisect_segment.simps[of enc fns start target probes high s]
  let ?low = "ss_best s + 1"
  let ?m = "probe_index target probes ?low high s"
  show ?case
  proof (cases "?low \<le> high \<and> high \<le> length fns")
    case True
    then have m: "?low \<le> ?m" using probe_index_bounds by blast
    from "1.prems" True obtain bs where bs: "let_ok (window fns start ?m) enc = Inr bs"
      by (auto simp: eq Let_def ok_simps)
    show ?thesis
    proof (cases "length bs \<le> target")
      case fits: True
      then show ?thesis
        using "1.IH"(1)[OF refl True refl bs fits] "1.prems" True bs m by (auto simp: eq Let_def)
    next
      case False
      then show ?thesis
        using "1.IH"(2)[OF refl True refl bs False] "1.prems" True bs by (auto simp: eq Let_def)
    qed
  qed (use "1.prems" in \<open>auto simp: eq Let_def split: if_splits\<close>)
qed

lemma search_segment_best: "search_segment enc fns target start = Inr s \<Longrightarrow> start < ss_best s"
  by (auto simp: search_segment_def Let_def dest!: grow_segment_best bisect_segment_best)

function segment_loop :: "(gfunction list \<Rightarrow> bytes result) \<Rightarrow> gfunction list \<Rightarrow> nat \<Rightarrow> nat \<Rightarrow> gsym_segment list result" where
  "segment_loop enc functions target start =
     (if start < length functions then
        let_ok (search_segment enc functions target start) (\<lambda>s.
        let_ok (window functions start (ss_best s)) (\<lambda>selected.
        if selected = [] then Inl (InvalidModel ''segment partition is empty'')
        else
          let_ok (segment_loop enc functions target (ss_best s)) (\<lambda>segments.
          Inr (\<lparr>seg_first_address = r_start (fn_range (hd selected)),
                seg_end_address = segment_end_address functions selected (ss_best s),
                seg_function_count = length selected, seg_bytes = ss_best_bytes s\<rparr> # segments))))
      else Inr [])"
  by pat_completeness auto
termination
  by (relation "measure (\<lambda>(enc, fns, target, start). length fns - start)") (auto dest: search_segment_best)

declare segment_loop.simps [simp del]

definition segments_of :: "(gfunction list \<Rightarrow> bytes result) \<Rightarrow> gfunction list \<Rightarrow> nat \<Rightarrow> gsym_segment list result" where
  "segments_of enc functions target =
     (if target = 0 then Inl (InvalidModel ''segment target size must not be zero'')
      else if functions = [] then Inl (InvalidModel ''at least one function is required'')
      else segment_loop enc (sort_key (\<lambda>fn. (r_start (fn_range fn), r_end (fn_range fn))) functions) target 0)"

definition segments :: "'t file_env \<Rightarrow> 'u string_env \<Rightarrow> decoded_gsym \<Rightarrow> nat \<Rightarrow> transcode_options
    \<Rightarrow> gsym_segment list result" where
  "segments fenv senv d target options =
     segments_of (\<lambda>w. let_ok (builder_for_functions fenv d w options) (builder_to_bytes senv)) (dg_functions d) target"

end
