(* ===== verification/LineProgram.thy ===== *)
theory LineProgram
  imports Leb
begin

text \<open>
  \<open>src/convert/dwarf/lines.rs\<close>, the scanner of a DWARF line program: it walks the opcodes and records
  the offset at which each sequence starts. The opcode numbers are gimli's constants, a parameter
  (\<open>line_codes\<close>). A cursor is a position in the program, which is below its length, so
  that \<open>saturating_add(1)\<close> on it is \<open>Suc\<close>.
\<close>

record line_codes =
  lns_copy :: u8
  lns_negate_stmt :: u8
  lns_set_basic_block :: u8
  lns_const_add_pc :: u8
  lns_fixed_advance_pc :: u8
  lns_set_prologue_end :: u8
  lns_set_epilogue_begin :: u8
  lne_end_sequence :: u8

section \<open>Reading\<close>

definition read_line_byte :: "bytes \<Rightarrow> nat \<Rightarrow> (u8 \<times> nat) result" where
  "read_line_byte program cursor =
     let_ok (ok_or (nth_get program cursor) (malformed ''DWARF line program'' ''truncated instruction'')) (\<lambda>byte.
     Inr (byte, Suc cursor))"

definition take_line_bytes :: "bytes \<Rightarrow> nat \<Rightarrow> nat \<Rightarrow> nat result" where
  "take_line_bytes program cursor len =
     let_ok (ok_or (checked_add cursor len) (Overflow ''DWARF line instruction length'')) (\<lambda>stop.
     let_ok (ok_or (slice_get program cursor stop) (malformed ''DWARF line program'' ''truncated instruction'')) (\<lambda>_.
     Inr stop))"

text \<open>The \<open>for\<close> loop over the shifts.\<close>

fun read_line_uleb_loop :: "bytes \<Rightarrow> nat list \<Rightarrow> u64 \<Rightarrow> nat \<Rightarrow> (u64 \<times> nat) result" where
  "read_line_uleb_loop program [] v cursor = Inl (malformed ''DWARF line program'' ''overlong ULEB128 operand'')"
| "read_line_uleb_loop program (shift # shifts) v cursor =
     let_ok (read_line_byte program cursor) (\<lambda>(byte, cursor).
     let payload = ucast (byte AND 0x7f) in
     if shift = 63 \<and> payload > 1 then Inl (malformed ''DWARF line program'' ''overflowing ULEB128 operand'')
     else
       let v = v OR push_bit shift payload in
       if byte AND 0x80 = 0 then Inr (v, cursor) else read_line_uleb_loop program shifts v cursor)"

definition read_line_uleb :: "bytes \<Rightarrow> nat \<Rightarrow> (u64 \<times> nat) result" where
  "read_line_uleb program cursor = read_line_uleb_loop program [0, 7, 14, 21, 28, 35, 42, 49, 56, 63] 0 cursor"

section \<open>The scan\<close>

fun skip_operands :: "bytes \<Rightarrow> nat \<Rightarrow> nat \<Rightarrow> nat result" where
  "skip_operands program 0 cursor = Inr cursor"
| "skip_operands program (Suc n) cursor =
     let_ok (read_line_uleb program cursor) (\<lambda>(_, cursor). skip_operands program n cursor)"

text \<open>An extended opcode: whether it ends the sequence, and the position behind it.\<close>

definition scan_extended :: "line_codes \<Rightarrow> bytes \<Rightarrow> nat \<Rightarrow> (bool \<times> nat) result" where
  "scan_extended codes program cursor =
     let_ok (read_line_uleb program cursor) (\<lambda>(len, cursor).
     let len = unat len in
     if len = 0 then Inl (malformed ''DWARF line program'' ''zero-length extended opcode'')
     else
       let_ok (map_err (\<lambda>_. malformed ''DWARF line program'' ''truncated extended opcode'') (read_line_byte program cursor))
         (\<lambda>(subopcode, cursor).
       let_ok (take_line_bytes program cursor (len - 1)) (\<lambda>cursor.
       Inr (subopcode = lne_end_sequence codes, cursor))))"

definition scan_standard :: "line_codes \<Rightarrow> bytes \<Rightarrow> bytes \<Rightarrow> u8 \<Rightarrow> nat \<Rightarrow> nat result" where
  "scan_standard codes program standard_opcode_lengths opcode cursor =
     (if opcode = lns_fixed_advance_pc codes then take_line_bytes program cursor 2
      else if opcode \<in> {lns_copy codes, lns_negate_stmt codes, lns_set_basic_block codes, lns_const_add_pc codes,
        lns_set_prologue_end codes, lns_set_epilogue_begin codes} then Inr cursor
      else skip_operands program (unat (case_option 0 id (nth_get standard_opcode_lengths (unat opcode - 1)))) cursor)"

lemma read_line_byte_moves: "read_line_byte program cursor = Inr (b, cursor') \<Longrightarrow> cursor' = Suc cursor \<and> cursor < length program"
  by (auto simp: read_line_byte_def ok_simps)

lemma read_line_uleb_loop_moves: "read_line_uleb_loop program shifts v cursor = Inr (w, cursor') \<Longrightarrow> cursor < cursor'"
  by (induction shifts arbitrary: v cursor)
    (force simp: Let_def ok_simps split: if_splits dest: read_line_byte_moves)+

lemma skip_operands_moves: "skip_operands program n cursor = Inr cursor' \<Longrightarrow> cursor \<le> cursor'"
proof (induction n arbitrary: cursor)
  case (Suc n)
  then obtain v c where c: "read_line_uleb program cursor = Inr (v, c)" "skip_operands program n c = Inr cursor'" by auto
  show ?case using read_line_uleb_loop_moves[OF c(1)[unfolded read_line_uleb_def]] Suc.IH[OF c(2)] by simp
qed simp

lemma take_line_bytes_moves: "take_line_bytes program cursor n = Inr cursor' \<Longrightarrow> cursor' = cursor + n"
  by (auto simp: take_line_bytes_def ok_simps)

lemma scan_extended_moves:
  assumes "scan_extended codes program cursor = Inr (ends, cursor')"
  shows "cursor < cursor'"
proof -
  obtain len c1 sub c2 where c: "read_line_uleb program cursor = Inr (len, c1)" "read_line_byte program c1 = Inr (sub, c2)"
    "take_line_bytes program c2 (unat len - 1) = Inr cursor'"
    using assms by (auto simp: scan_extended_def Let_def ok_simps split: if_splits)
  show ?thesis using read_line_uleb_loop_moves[OF c(1)[unfolded read_line_uleb_def]] read_line_byte_moves[OF c(2)]
      take_line_bytes_moves[OF c(3)] by simp
qed

lemma scan_standard_moves: "scan_standard codes program lens opcode cursor = Inr cursor' \<Longrightarrow> cursor \<le> cursor'"
  by (auto simp: scan_standard_def split: if_splits dest: take_line_bytes_moves skip_operands_moves)

text \<open>The \<open>while\<close> loop; \<open>opcode_base\<close> and above are special opcodes without operands.\<close>

function scan_line_loop :: "line_codes \<Rightarrow> bytes \<Rightarrow> bytes \<Rightarrow> u8 \<Rightarrow> u64 \<Rightarrow> nat \<Rightarrow> u64 \<Rightarrow> u64 list \<Rightarrow> u64 list result" where
  "scan_line_loop codes program standard_opcode_lengths opcode_base program_offset cursor sequence_start output =
     (if cursor < length program then
        let_ok (read_line_byte program cursor) (\<lambda>(opcode, cursor).
        if opcode = 0 then
          let_ok (scan_extended codes program cursor) (\<lambda>(ends, cursor).
          if ends then
            let_ok (ok_or (checked_add_u64 program_offset (word_of_nat cursor)) (Overflow ''DWARF line sequence offset''))
              (\<lambda>next_start.
            scan_line_loop codes program standard_opcode_lengths opcode_base program_offset cursor next_start
              (output @ [sequence_start]))
          else scan_line_loop codes program standard_opcode_lengths opcode_base program_offset cursor sequence_start output)
        else if opcode < opcode_base then
          let_ok (scan_standard codes program standard_opcode_lengths opcode cursor) (\<lambda>cursor.
          scan_line_loop codes program standard_opcode_lengths opcode_base program_offset cursor sequence_start output)
        else scan_line_loop codes program standard_opcode_lengths opcode_base program_offset cursor sequence_start output)
      else Inr output)"
  by pat_completeness auto
termination scan_line_loop
  by (relation "measure (\<lambda>(codes, program, lens, base, off, cursor, start, out). length program - cursor)")
    (auto dest!: read_line_byte_moves scan_extended_moves scan_standard_moves)

declare scan_line_loop.simps [simp del]

definition scan_line_sequence_offsets :: "line_codes \<Rightarrow> bytes \<Rightarrow> bytes \<Rightarrow> u8 \<Rightarrow> u64 \<Rightarrow> u64 list result" where
  "scan_line_sequence_offsets codes program standard_opcode_lengths opcode_base program_offset =
     scan_line_loop codes program standard_opcode_lengths opcode_base program_offset 0 program_offset []"


section \<open>Programs as lists of instructions\<close>

text \<open>The instructions of a line program as the DWARF standard lists them, their bytes, and the
  sequence starts that an assembled program has: one entry per \<open>DW_LNE_end_sequence\<close>, which is
  where the first instruction behind the previous one begins.\<close>

datatype line_op =
    Special u8
  | Standard u8 "u64 list"
  | FixedAdvance u8 u8
  | Extended u8 bytes

fun line_op_bytes :: "line_codes \<Rightarrow> line_op \<Rightarrow> bytes" where
  "line_op_bytes codes (Special opcode) = [opcode]"
| "line_op_bytes codes (Standard opcode operands) = opcode # concat (map (\<lambda>v. uleb_bytes (unat v)) operands)"
| "line_op_bytes codes (FixedAdvance low high) = [lns_fixed_advance_pc codes, low, high]"
| "line_op_bytes codes (Extended subopcode payload) =
     0 # uleb_bytes (Suc (length payload)) @ subopcode # payload"

text \<open>What the header says of an instruction: the opcode classes, and the operand counts of the
  opcodes that are not in the fixed list.\<close>

definition no_operands :: "line_codes \<Rightarrow> u8 set" where
  "no_operands codes = {lns_copy codes, lns_negate_stmt codes, lns_set_basic_block codes, lns_const_add_pc codes,
     lns_set_prologue_end codes, lns_set_epilogue_begin codes}"

fun line_op_fits :: "line_codes \<Rightarrow> bytes \<Rightarrow> u8 \<Rightarrow> line_op \<Rightarrow> bool" where
  "line_op_fits codes lens base (Special opcode) \<longleftrightarrow> opcode \<noteq> 0 \<and> base \<le> opcode"
| "line_op_fits codes lens base (Standard opcode operands) \<longleftrightarrow>
     opcode \<noteq> 0 \<and> opcode < base \<and> opcode \<noteq> lns_fixed_advance_pc codes
     \<and> length operands = (if opcode \<in> no_operands codes then 0
         else unat (case_option 0 id (nth_get lens (unat opcode - 1))))"
| "line_op_fits codes lens base (FixedAdvance low high) \<longleftrightarrow>
     lns_fixed_advance_pc codes \<noteq> 0 \<and> lns_fixed_advance_pc codes < base"
| "line_op_fits codes lens base (Extended subopcode payload) \<longleftrightarrow> True"

fun ends_sequence :: "line_codes \<Rightarrow> line_op \<Rightarrow> bool" where
  "ends_sequence codes (Extended subopcode payload) \<longleftrightarrow> subopcode = lne_end_sequence codes"
| "ends_sequence codes _ \<longleftrightarrow> False"

fun sequence_starts :: "line_codes \<Rightarrow> nat \<Rightarrow> nat \<Rightarrow> line_op list \<Rightarrow> nat list" where
  "sequence_starts codes start place [] = []"
| "sequence_starts codes start place (op # ops) =
     (let behind = place + length (line_op_bytes codes op) in
      if ends_sequence codes op then start # sequence_starts codes behind behind ops
      else sequence_starts codes start behind ops)"

lemma nth_drop_append: "drop i xs = ys @ zs \<Longrightarrow> k < length ys \<Longrightarrow> i + k < length xs \<and> xs ! (i + k) = ys ! k"
proof -
  assume a: "drop i xs = ys @ zs" "k < length ys"
  have "length xs - i = length ys + length zs" using arg_cong[OF a(1), of length] by simp
  then have "i + k < length xs" using a(2) by simp
  moreover have "xs ! (i + k) = drop i xs ! k" using calculation by (simp add: nth_drop)
  ultimately show ?thesis using a by (simp add: nth_append)
qed

lemma drop_behind: "drop i xs = ys @ zs \<Longrightarrow> drop (i + length ys) xs = zs"
  by (metis add.commute append_eq_conv_conj drop_drop)

lemma read_line_byte_at: "drop i program = b # rest \<Longrightarrow> read_line_byte program i = Inr (b, Suc i)"
  using nth_drop_append[of i program "[b]" rest 0] by (simp add: read_line_byte_def nth_get_def)

lemma take_line_bytes_at:
  assumes "drop i program = ys @ rest" and "length program < 2 ^ 64" and "i \<le> length program"
  shows "take_line_bytes program i (length ys) = Inr (i + length ys)"
proof -
  have "length program - i = length ys + length rest" using arg_cong[OF assms(1), of length] by simp
  then have "i + length ys \<le> length program" using assms(3) by linarith
  then show ?thesis using assms(2) by (simp add: take_line_bytes_def checked_add_def slice_get_def)
qed

lemma line_shifts: "[0, 7, 14, 21, 28, 35, 42, 49, 56, 63] = map ((*) 7) [0..<10]"
  by (simp add: upt_rec)

lemma read_line_uleb_loop_at:
  assumes "drop i program = uleb_bytes n @ rest" and "0 < n \<or> k = 0" and "unat v < 2 ^ (7 * k)"
    and "unat v + n * 2 ^ (7 * k) < 2 ^ 64"
  shows "read_line_uleb_loop program (map ((*) 7) [k..<10]) v i
    = Inr (word_of_nat (unat v + n * 2 ^ (7 * k)), i + length (uleb_bytes n))"
  using assms
proof (induction n arbitrary: k v i rule: uleb_bytes.induct)
  case (1 n)
  let ?s = "7 * k" and ?p = "n mod 128"
  note tot = "1.prems"(4)
  have s64: "?s < 64"
  proof (cases "k = 0")
    case False
    then have "2 ^ ?s \<le> n * 2 ^ ?s" using "1.prems"(2) by simp
    then have "(2::nat) ^ ?s < 2 ^ 64" using tot by linarith
    then show ?thesis by (simp only: power_strict_increasing_iff one_less_numeral_iff semiring_norm)
  qed simp
  then have k: "[k..<10] = k # [Suc k..<10]" by (simp add: upt_rec)
  have "?p * 2 ^ ?s \<le> n * 2 ^ ?s" by simp
  then have fit: "unat v + ?p * 2 ^ ?s < 2 ^ 64" using tot by linarith
  define b where "b = (word_of_nat (if n < 128 then n else 128 + n mod 128) :: u8)"
  define tl where "tl = (if n < 128 then [] else uleb_bytes (n div 128))"
  have split: "uleb_bytes n = b # tl" by (simp add: uleb_bytes.simps[of n] b_def tl_def)
  have bn: "unat b = (if n < 128 then n else 128 + n mod 128)" by (auto simp: b_def unat_word_of_nat_u8)
  have r: "read_line_byte program i = Inr (b, Suc i)" using "1.prems"(1) by (intro read_line_byte_at) (simp add: split)
  have d: "drop (Suc i) program = tl @ rest" using drop_behind[of i program "[b]" "tl @ rest"] "1.prems"(1) by (simp add: split)
  have pl: "ucast (b AND 0x7f) = (word_of_nat ?p :: u64)"
    by (rule unat_eqI) (simp add: byte_low7 bn unat_word_of_nat_u64 del: of_nat_unat)
  define v' where "v' = v OR push_bit ?s (word_of_nat ?p :: u64)"
  have v': "unat v' = unat v + ?p * 2 ^ ?s" unfolding v'_def by (rule join_u64(1)[OF "1.prems"(3) fit s64]) simp
  have last: "\<not> (?s = 63 \<and> (word_of_nat ?p :: u64) > 1)"
  proof (rule notI, elim conjE)
    assume "?s = 63" "(word_of_nat ?p :: u64) > 1"
    then have "1 < ?p" by (simp add: word_less_nat_alt unat_word_of_nat_u64 del: of_nat_unat)
    then have "2 * 2 ^ ?s \<le> ?p * 2 ^ ?s" by (intro mult_right_mono) simp_all
    with fit \<open>?s = 63\<close> show False by simp
  qed
  have step: "read_line_uleb_loop program (map ((*) 7) [k..<10]) v i =
      (if n < 128 then Inr (v', Suc i) else read_line_uleb_loop program (map ((*) 7) [Suc k..<10]) v' (Suc i))"
    using last byte_continues_iff[of b] bn
    by (simp only: k list.map read_line_uleb_loop.simps r let_ok_Inr case_prod_conv Let_def pl v'_def[symmetric] if_False)
       (auto split: if_splits)
  show ?case
  proof (cases "n < 128")
    case True
    have "v' = word_of_nat (unat v + n * 2 ^ ?s)"
      using True v' tot by (intro unat_eqI) (simp only: unat_word_of_nat_u64 mod_less)
    then show ?thesis using True step by (simp add: split tl_def)
  next
    case False
    have sum: "unat v' + n div 128 * 2 ^ (7 * Suc k) = unat v + n * 2 ^ ?s"
    proof -
      have "(p + 128 * q) * m = p * m + q * (m * 128)" for p q m :: nat by (simp add: algebra_simps)
      from this[of ?p "n div 128" "2 ^ ?s"] show ?thesis unfolding v' by (simp add: power_add)
    qed
    have "unat v' < 2 ^ (7 * Suc k)"
    proof -
      have "?p * 2 ^ ?s \<le> 127 * 2 ^ ?s" by simp
      then have "unat v' < 128 * 2 ^ ?s" using "1.prems"(3) v' by linarith
      then show ?thesis by (simp add: power_add)
    qed
    then have "read_line_uleb_loop program (map ((*) 7) [Suc k..<10]) v' (Suc i)
        = Inr (word_of_nat (unat v + n * 2 ^ ?s), Suc i + length (uleb_bytes (n div 128)))"
      using "1.IH"[OF False, of "Suc i" "Suc k" v'] False d tot unfolding sum by (simp add: tl_def)
    then show ?thesis using False step by (simp add: split tl_def)
  qed
qed

lemma read_line_uleb_at:
  "drop i program = uleb_bytes (unat v) @ rest \<Longrightarrow> read_line_uleb program i = Inr (v, i + length (uleb_bytes (unat v)))"
  using read_line_uleb_loop_at[of i program "unat v" rest 0 0] unsigned_less[of v]
  by (simp add: read_line_uleb_def line_shifts)

lemma skip_operands_at:
  "drop i program = concat (map (\<lambda>v. uleb_bytes (unat (v :: u64))) vs) @ rest
    \<Longrightarrow> skip_operands program (length vs) i = Inr (i + length (concat (map (\<lambda>v. uleb_bytes (unat v)) vs)))"
proof (induction vs arbitrary: i)
  case (Cons v vs)
  have r: "read_line_uleb program i = Inr (v, i + length (uleb_bytes (unat v)))"
    using Cons.prems by (intro read_line_uleb_at) simp
  have "drop (i + length (uleb_bytes (unat v))) program = concat (map (\<lambda>v. uleb_bytes (unat v)) vs) @ rest"
    using Cons.prems by (intro drop_behind) simp
  from Cons.IH[OF this] show ?case by (simp add: r add.assoc)
qed simp


lemma scan_standard_at:
  assumes "line_op_fits codes lens base op" and "drop (Suc i) program = tl (line_op_bytes codes op) @ rest"
    and "length program < 2 ^ 64" and "Suc i \<le> length program"
    and "(\<exists>opcode operands. op = Standard opcode operands) \<or> (\<exists>l h. op = FixedAdvance l h)"
  shows "scan_standard codes program lens (hd (line_op_bytes codes op)) (Suc i)
    = Inr (i + length (line_op_bytes codes op))"
proof (cases op)
  case (Standard opcode operands)
  have "skip_operands program (length operands) (Suc i)
      = Inr (Suc i + length (concat (map (\<lambda>v. uleb_bytes (unat v)) operands)))"
    using assms(2) by (intro skip_operands_at) (simp add: Standard)
  then show ?thesis using assms(1) by (auto simp: Standard scan_standard_def no_operands_def split: if_splits)
next
  case (FixedAdvance l h)
  show ?thesis
    using take_line_bytes_at[of "Suc i" program "[l, h]" rest] assms(2-4)
    by (simp add: FixedAdvance scan_standard_def numeral_2_eq_2)
qed (use assms(5) in auto)

lemma scan_extended_at:
  assumes "drop (Suc i) program = tl (line_op_bytes codes (Extended sub payload)) @ rest"
    and "length program < 2 ^ 64" and "Suc i \<le> length program"
  shows "scan_extended codes program (Suc i)
    = Inr (sub = lne_end_sequence codes, i + length (line_op_bytes codes (Extended sub payload)))"
proof -
  let ?n = "Suc (length payload)" and ?j = "Suc i + length (uleb_bytes (Suc (length payload)))"
  have len: "length program - Suc i = length (uleb_bytes ?n) + ?n + length rest"
    using arg_cong[OF assms(1), of length] by simp
  then have fit: "?n < 2 ^ 64" "?j + ?n \<le> length program" using assms(2,3) by linarith+
  then have n: "unat (word_of_nat ?n :: u64) = ?n" by (intro unat_word_of_nat_u64)
  have r1: "read_line_uleb program (Suc i) = Inr (word_of_nat ?n, ?j)"
    using read_line_uleb_at[of "Suc i" program "word_of_nat ?n" "sub # payload @ rest"] assms(1)
    unfolding n by (simp del: of_nat_Suc)
  have d: "drop ?j program = sub # payload @ rest" using assms(1) by (intro drop_behind) simp
  have r2: "read_line_byte program ?j = Inr (sub, Suc ?j)" by (rule read_line_byte_at[OF d])
  have "drop (Suc ?j) program = payload @ rest" using drop_behind[of ?j program "[sub]" "payload @ rest"] d by simp
  then have r3: "take_line_bytes program (Suc ?j) (length payload) = Inr (Suc ?j + length payload)"
    using fit assms(2) by (intro take_line_bytes_at) simp_all
  show ?thesis using r1 r2 r3 n
    by (simp add: scan_extended_def Let_def del: of_nat_Suc)
qed

lemma line_op_bytes_nonempty: "line_op_bytes codes op \<noteq> []"
  by (cases op) auto

lemma scan_line_loop_at:
  assumes "\<forall>op\<in>set ops. line_op_fits codes lens base op"
    and "drop i program = concat (map (line_op_bytes codes) ops)" and "i \<le> length program"
    and "unat off + length program < 2 ^ 64" and "unat start = unat off + from"
  shows "scan_line_loop codes program lens base off i start out
    = Inr (out @ map word_of_nat (sequence_starts codes (unat off + from) (unat off + i) ops))"
  using assms(1-3,5)
proof (induction ops arbitrary: i start "from" out)
  case Nil
  then show ?case by (simp add: scan_line_loop.simps)
next
  case (Cons op ops)
  let ?bs = "line_op_bytes codes op" and ?j = "i + length (line_op_bytes codes op)"
  let ?rest = "concat (map (line_op_bytes codes) ops)"
  have len64: "length program < 2 ^ 64" using assms(4) by linarith
  have d: "drop i program = ?bs @ ?rest" using Cons.prems(2) by simp
  obtain opcode tl where bs: "?bs = opcode # tl" using line_op_bytes_nonempty[of codes op] by (cases ?bs) auto
  have lt: "i < length program" using d bs by (cases "i < length program") auto
  have r: "read_line_byte program i = Inr (opcode, Suc i)" using d bs by (intro read_line_byte_at) simp
  have dt: "drop (Suc i) program = tl @ ?rest" using drop_behind[of i program "[opcode]" "tl @ ?rest"] d bs by simp
  have dj: "drop ?j program = ?rest" by (rule drop_behind[OF d])
  have "length program - i = length ?bs + length ?rest" using arg_cong[OF d, of length] by simp
  then have j: "?j \<le> length program" using lt by linarith
  have ops: "\<forall>op\<in>set ops. line_op_fits codes lens base op" and fits: "line_op_fits codes lens base op"
    using Cons.prems(1) by auto
  note go = Cons.IH[OF ops dj j]
  show ?case
  proof (cases op)
    case (Special x)
    then have "opcode = x" "?j = Suc i" using bs by auto
    moreover have "x \<noteq> 0" "\<not> x < base" using Special fits by auto
    ultimately show ?thesis using Special lt r go[OF Cons.prems(4), of out]
      by (subst scan_line_loop.simps) (simp add: add.assoc)
  next
    case (Extended sub payload)
    have e: "scan_extended codes program (Suc i) = Inr (sub = lne_end_sequence codes, ?j)"
      using scan_extended_at[of i program codes sub payload ?rest] dt lt len64
      unfolding Extended[symmetric] bs by simp
    have "opcode = 0" using bs Extended by simp
    show ?thesis
    proof (cases "sub = lne_end_sequence codes")
      case True
      define next_start where "next_start = off + word_of_nat ?j"
      have w: "unat (word_of_nat ?j :: u64) = ?j" using j len64 by (intro unat_word_of_nat_u64) linarith
      have sum: "unat off + unat (word_of_nat ?j :: u64) < 2 ^ 64" unfolding w using j assms(4) by linarith
      then have c: "checked_add_u64 off (word_of_nat ?j) = Some next_start"
        unfolding checked_add_u64_def next_start_def by (simp only: if_True)
      have u: "unat next_start = unat off + ?j" unfolding next_start_def unat_add_u64[OF sum] w ..
      have st: "start = word_of_nat (unat off + from)" unfolding Cons.prems(4)[symmetric] by simp
      have "scan_line_loop codes program lens base off i start out
          = scan_line_loop codes program lens base off ?j next_start (out @ [start])"
        using lt r e True \<open>opcode = 0\<close> c by (subst scan_line_loop.simps) simp
      also have "\<dots> = Inr (out @ [start] @ map word_of_nat (sequence_starts codes (unat off + ?j) (unat off + ?j) ops))"
        using go[OF u, of "out @ [start]"] by simp
      finally show ?thesis using True Extended st by (simp add: Let_def add.assoc)
    next
      case False
      then show ?thesis using lt r e \<open>opcode = 0\<close> go[OF Cons.prems(4), of out] Extended
        by (subst scan_line_loop.simps) (simp add: add.assoc)
    qed
  next
    case (Standard x operands)
    have s: "scan_standard codes program lens opcode (Suc i) = Inr ?j"
      using scan_standard_at[of codes lens base op i program ?rest] fits dt lt len64 Standard
      unfolding bs by simp
    have "opcode \<noteq> 0" "opcode < base" using bs Standard fits by auto
    then show ?thesis using lt r s go[OF Cons.prems(4), of out] Standard
      by (subst scan_line_loop.simps) (simp add: add.assoc)
  next
    case (FixedAdvance l h)
    have s: "scan_standard codes program lens opcode (Suc i) = Inr ?j"
      using scan_standard_at[of codes lens base op i program ?rest] fits dt lt len64 FixedAdvance
      unfolding bs by simp
    have "opcode \<noteq> 0" "opcode < base" using bs FixedAdvance fits by auto
    then show ?thesis using lt r s go[OF Cons.prems(4), of out] FixedAdvance
      by (subst scan_line_loop.simps) (simp add: add.assoc)
  qed
qed

text \<open>C27: scanning a line program finds where every sequence starts. For any list of instructions
  that fits the opcode tables, the offsets returned are those of the first instruction of each
  terminated sequence, in order.\<close>

theorem scan_finds_sequence_starts:
  assumes "\<forall>op\<in>set ops. line_op_fits codes lens base op"
    and "unat off + length (concat (map (line_op_bytes codes) ops)) < 2 ^ 64"
  shows "scan_line_sequence_offsets codes (concat (map (line_op_bytes codes) ops)) lens base off
    = Inr (map word_of_nat (sequence_starts codes (unat off) (unat off) ops))"
  unfolding scan_line_sequence_offsets_def
  using scan_line_loop_at[OF assms(1), of 0 _ off off 0 "[]"] assms(2) by simp

text \<open>The opcode numbers of the DWARF standard, and a program of two sequences.\<close>

definition dwarf_line_codes :: line_codes where
  "dwarf_line_codes = \<lparr>lns_copy = 1, lns_negate_stmt = 6, lns_set_basic_block = 7, lns_const_add_pc = 8,
     lns_fixed_advance_pc = 9, lns_set_prologue_end = 10, lns_set_epilogue_begin = 11, lne_end_sequence = 1\<rparr>"

definition sample_line_ops :: "line_op list" where
  "sample_line_ops = [Extended 2 [0, 16, 0, 0], Standard 1 [], Standard 2 [300], Special 20, Extended 1 [],
     FixedAdvance 4 0, Standard 4 [2], Special 255, Extended 1 [], Standard 6 []]"

lemma scan_finds_sequence_starts_witness:
  "scan_line_sequence_offsets dwarf_line_codes (concat (map (line_op_bytes dwarf_line_codes) sample_line_ops))
     [0, 1, 1, 1, 1, 0, 0, 0, 1, 0, 0, 1] 13 1000 = Inr [1000, 1015]"
proof -
  note eval = sample_line_ops_def dwarf_line_codes_def uleb_bytes.simps no_operands_def nth_get_def
  have "\<forall>op\<in>set sample_line_ops. line_op_fits dwarf_line_codes [0, 1, 1, 1, 1, 0, 0, 0, 1, 0, 0, 1] 13 op"
    by (simp add: eval)
  from scan_finds_sequence_starts[OF this, of 1000] show ?thesis by (simp add: eval Let_def)
qed

end
