(* ===== verification/Gimli.thy ===== *)
theory Gimli
  imports LineProgram Builder
begin

text \<open>
  What the converter uses of the gimli crate, which is not part of the sources. The values that gimli
  hands out and whose public fields or accessors the sources read are records of exactly those fields:
  a unit, its header, a line program and its header, a debugging information entry. Everything gimli
  computes is a field of the record \<open>gimli\<close>, an argument of every definition that uses it. A section
  reader is used only through \<open>to_slice\<close>, so it is the outcome of that call. A fallible iterator is the
  list of its items and the error that ends it, if one does. A gimli error is its message.
\<close>

type_synonym 'a gimli_result = "string + 'a"
type_synonym reader = "bytes gimli_result"
type_synonym 'a stream = "'a list \<times> string option"

text \<open>\<open>gimli_error\<close> of \<open>src/convert/dwarf.rs\<close>, and \<open>map_err(gimli_error)\<close>.\<close>

definition gimli_error :: "string \<Rightarrow> error" where
  "gimli_error message = Dwarf message"

definition from_gimli :: "'a gimli_result \<Rightarrow> 'a result" where
  "from_gimli r = (case r of Inl message \<Rightarrow> Inl (gimli_error message) | Inr v \<Rightarrow> Inr v)"

text \<open>A \<open>while let Some(x) = items.next().map_err(gimli_error)?\<close> loop, with the state its body changes.\<close>

definition for_each :: "('a \<Rightarrow> 's \<Rightarrow> 's result) \<Rightarrow> 'a stream \<Rightarrow> 's \<Rightarrow> 's result" where
  "for_each body items state =
     let_ok (fold_ok body (fst items) state) (\<lambda>state.
     case snd items of None \<Rightarrow> Inr state | Some message \<Rightarrow> Inl (gimli_error message))"

section \<open>Constants and attribute values\<close>

datatype dw_tag = DW_TAG_subprogram | DW_TAG_inlined_subroutine | DW_TAG_call_site | DW_TAG_other nat

datatype dw_at =
    DW_AT_name | DW_AT_linkage_name | DW_AT_MIPS_linkage_name | DW_AT_abstract_origin | DW_AT_specification
  | DW_AT_decl_file | DW_AT_decl_line | DW_AT_call_file | DW_AT_call_line | DW_AT_call_return_pc
  | DW_AT_call_origin | DW_AT_LLVM_STMT_SEQUENCE

text \<open>The variants of \<open>AttributeValue\<close> that the sources match on; the others carry what gimli reads.\<close>

datatype 'v attribute_value =
    FileIndex u64 | UnitRef nat | DebugInfoRef nat | DebugInfoRefSup nat | DebugStrRefSup nat
  | SecOffset nat | DebugLineRef nat | OtherValue 'v

section \<open>Line programs\<close>

record 'v line_file =
  lf_path_name :: "'v attribute_value"
  lf_directory_index :: u64

record line_row =
  lr_address :: u64
  lr_file_index :: u64
  lr_line :: "u64 option" \<comment> \<open>\<open>NonZeroU64\<close>\<close>
  lr_end_sequence :: bool

record 'v line_header =
  lh_version :: u16
  lh_initial_length_size :: u8
  lh_word_size :: u8
  lh_offset :: nat
  lh_header_length :: nat
  lh_opcode_base :: u8
  lh_standard_opcode_lengths :: reader
  lh_raw_program :: reader
  lh_file_names :: "'v line_file list"
  lh_file :: "u64 \<Rightarrow> 'v line_file option"
  lh_directory :: "u64 \<Rightarrow> 'v attribute_value option"

text \<open>\<open>lp_final_header\<close> is the header once every row has been read.\<close>

record 'v line_program =
  lp_header :: "'v line_header"
  lp_rows :: "line_row stream"
  lp_final_header :: "'v line_header"

section \<open>Units and entries\<close>

text \<open>\<open>uh_key\<close> is the section and the offset of the header, \<open>uh_length\<close> its
  \<open>length_including_self\<close>.\<close>

record unit_header =
  uh_key :: "nat \<times> nat"
  uh_debug_info_offset :: "nat option"
  uh_length :: nat
  uh_version :: u16
  uh_dwarf64 :: bool

record 'v dwarf_unit =
  u_header :: unit_header
  u_dwo_id :: "u64 option"
  u_comp_dir :: "reader option"
  u_line_program :: "'v line_program option"

record 'v die =
  die_depth :: int
  die_tag :: dw_tag
  die_offset :: nat
  die_attr :: "dw_at \<Rightarrow> 'v attribute_value option"

text \<open>A position of \<open>EntriesRaw\<close>: the abbreviation read there (\<open>None\<close> for a null entry), the outcome of
  reading its attributes one by one, and the entry read there.\<close>

record 'v raw_entry =
  raw_abbreviation :: "dw_tag option gimli_result"
  raw_attributes :: "unit gimli_result"
  raw_die :: "'v die gimli_result"

section \<open>Operations\<close>

record ('d, 'v) gimli =
  g_line_codes :: line_codes
  g_sup :: "'d \<Rightarrow> 'd option"
  g_is_dwo :: "'d \<Rightarrow> bool" \<comment> \<open>\<open>file_type\<close>\<close>
  g_debug_line_is_empty :: "'d \<Rightarrow> bool"
  g_first_line_program :: "'d \<Rightarrow> 'v dwarf_unit \<Rightarrow> 'v line_program gimli_result"
  g_units :: "'d \<Rightarrow> unit_header stream"
  g_unit :: "'d \<Rightarrow> unit_header \<Rightarrow> 'v dwarf_unit gimli_result"
  g_to_unit_offset :: "nat \<Rightarrow> unit_header \<Rightarrow> nat option"
  g_entries_raw :: "'v dwarf_unit \<Rightarrow> 'v raw_entry list gimli_result"
  g_entries_raw_at :: "'v dwarf_unit \<Rightarrow> nat \<Rightarrow> unit gimli_result"
  g_read_entry :: "'v dwarf_unit \<Rightarrow> nat \<Rightarrow> 'v die option gimli_result"
  g_no_entry :: "nat \<Rightarrow> string" \<comment> \<open>\<open>NoEntryAtGivenOffset\<close>\<close>
  g_entries_at_offset :: "'v dwarf_unit \<Rightarrow> nat \<Rightarrow> 'v die stream gimli_result"
  g_attr_string :: "'d \<Rightarrow> 'v dwarf_unit \<Rightarrow> 'v attribute_value \<Rightarrow> reader gimli_result"
  g_attr_address :: "'d \<Rightarrow> 'v dwarf_unit \<Rightarrow> 'v attribute_value \<Rightarrow> u64 option gimli_result"
  g_udata_value :: "'v attribute_value \<Rightarrow> u64 option"
  g_die_ranges :: "'d \<Rightarrow> 'v dwarf_unit \<Rightarrow> 'v die \<Rightarrow> (u64 \<times> u64) stream gimli_result"
  g_is_tombstone :: "'v dwarf_unit \<Rightarrow> u64 \<Rightarrow> bool"
  g_copy_relocated :: "'v dwarf_unit \<Rightarrow> 'v dwarf_unit \<Rightarrow> 'v dwarf_unit"

section \<open>Facts about streams\<close>

lemma from_gimli_simps [simp]: "from_gimli (Inl m) = Inl (gimli_error m)" "from_gimli (Inr v) = Inr v"
  by (simp_all add: from_gimli_def)

lemma from_gimli_eq_Inr [ok_simps]: "from_gimli r = Inr v \<longleftrightarrow> r = Inr v"
  by (cases r) auto

lemma for_each_eq_Inr [ok_simps]:
  "for_each body items s = Inr t \<longleftrightarrow> fold_ok body (fst items) s = Inr t \<and> snd items = None"
  by (auto simp: for_each_def ok_simps split: option.splits)

lemma for_each_invariant:
  "for_each body items s = Inr t \<Longrightarrow> I s
    \<Longrightarrow> (\<And>x u v. x \<in> set (fst items) \<Longrightarrow> I u \<Longrightarrow> body x u = Inr v \<Longrightarrow> I v) \<Longrightarrow> I t"
  by (auto simp: ok_simps intro: fold_ok_invariant)

end
