(* ===== verification/Diagnostics.thy ===== *)
theory Diagnostics
  imports Finalize
begin

text \<open>
  \<open>src/convert/diagnostic.rs\<close>: the warnings of a conversion and their messages, and
  \<open>ConversionStats\<close> of \<open>src/convert/elf/mod.rs\<close>.
\<close>

datatype conversion_warning =
    EmbeddedDebugData string
  | Debuginfod "string option" string \<comment> \<open>endpoint, reason\<close>
  | SplitDwarfUnavailable u64 "string list" \<comment> \<open>DWO id, reasons\<close>
  | NoInlineRecords
  | MalformedRanges bool string \<comment> \<open>stopped, reason\<close>
  | RejectedRange address_range
  | InvalidStatementSequence u64 u64 \<comment> \<open>DIE offset, sequence offset\<close>
  | LineSequenceMismatch nat nat \<comment> \<open>sequences, offsets\<close>
  | MissingLineFile u64 u64 \<comment> \<open>address, index\<close>
  | UnrepresentableLine u64 u64 \<comment> \<open>address, line\<close>
  | MissingInlineCallFile u64 u64 \<comment> \<open>DIE offset, index\<close>
  | InvalidInlineCallLine u64 u64 \<comment> \<open>DIE offset, line\<close>
  | InvalidDeclarationFile u64 u64 \<comment> \<open>DIE offset, index\<close>
  | InvalidDeclarationLine u64 u64 \<comment> \<open>DIE offset, line\<close>

text \<open>The format specification \<open>:#x\<close>.\<close>

definition hex_char :: "nat \<Rightarrow> char" where
  "hex_char d = (if d < 10 then char_of (48 + d) else char_of (87 + d))"

fun hexadecimal :: "nat \<Rightarrow> string" where
  "hexadecimal n = (if n < 16 then [hex_char n] else hexadecimal (n div 16) @ [hex_char (n mod 16)])"

declare hexadecimal.simps [simp del]

definition hex :: "u64 \<Rightarrow> string" where
  "hex v = ''0x'' @ hexadecimal (unat v)"

fun reasons_text :: "bool \<Rightarrow> string list \<Rightarrow> string" where
  "reasons_text first [] = ''''"
| "reasons_text first (reason # reasons) = (if first then '': '' else ''; '') @ reason @ reasons_text False reasons"

fun warning_text :: "conversion_warning \<Rightarrow> string" where
  "warning_text (EmbeddedDebugData reason) = ''ignoring malformed .gnu_debugdata: '' @ reason"
| "warning_text (Debuginfod endpoint reason) =
     ''debuginfod'' @ (case endpoint of None \<Rightarrow> '''' | Some e \<Rightarrow> '' '' @ e) @ '': '' @ reason"
| "warning_text (SplitDwarfUnavailable dwo_id reasons) =
     ''split DWARF unit '' @ hex dwo_id @ '' has no usable .dwo or .dwp data'' @ reasons_text True reasons"
| "warning_text NoInlineRecords = ''no valid DWARF inline records were found''"
| "warning_text (MalformedRanges stopped reason) =
     (if stopped then ''stopped at'' else ''skipping'') @ '' malformed DWARF ranges: '' @ reason"
| "warning_text (RejectedRange r) =
     ''skipping non-live or invalid DWARF range '' @ hex (r_start r) @ ''..'' @ hex (r_end r)"
| "warning_text (InvalidStatementSequence die_offset sequence_offset) =
     ''function DIE at '' @ hex die_offset @ '' has an invalid DW_AT_LLVM_stmt_sequence value ''
       @ hex sequence_offset @ ''; using matching rows from other sequences''"
| "warning_text (LineSequenceMismatch sequences offsets) =
     ''could not associate '' @ decimal sequences @ '' line sequences with '' @ decimal offsets
       @ '' statement-sequence offsets''"
| "warning_text (MissingLineFile address index) =
     ''ignoring DWARF line row at '' @ hex address @ '' with missing file index '' @ decimal (unat index)"
| "warning_text (UnrepresentableLine address ln) =
     ''ignoring DWARF line row at '' @ hex address @ '' with unrepresentable line number '' @ decimal (unat ln)"
| "warning_text (MissingInlineCallFile die_offset index) =
     ''inline DIE at '' @ hex die_offset @ '' references missing DW_AT_call_file index '' @ decimal (unat index)"
| "warning_text (InvalidInlineCallLine die_offset ln) =
     ''inline DIE at '' @ hex die_offset @ '' has unrepresentable DW_AT_call_line value '' @ decimal (unat ln)"
| "warning_text (InvalidDeclarationFile die_offset index) =
     ''function DIE at '' @ hex die_offset @ '' has invalid DW_AT_decl_file index '' @ decimal (unat index)"
| "warning_text (InvalidDeclarationLine die_offset ln) =
     ''function DIE at '' @ hex die_offset @ '' has unrepresentable DW_AT_decl_line value '' @ decimal (unat ln)"

record conversion_stats =
  st_symbol_functions :: nat
  st_dwarf_functions :: nat
  st_split_dwarf_units :: nat
  st_line_rows :: nat
  st_inline_nodes :: nat
  st_rejected_ranges :: nat

definition conversion_stats_default :: conversion_stats where
  "conversion_stats_default = \<lparr>st_symbol_functions = 0, st_dwarf_functions = 0, st_split_dwarf_units = 0,
     st_line_rows = 0, st_inline_nodes = 0, st_rejected_ranges = 0\<rparr>"

end
