(* ===== verification/DwarfLines.thy ===== *)
theory DwarfLines
  imports Gimli Diagnostics "HOL-Library.AList"
begin

text \<open>
  \<open>src/convert/dwarf/lines.rs\<close>: the lines of a compilation unit. The rows of its line program are read
  and sorted, their files interned into the builder, and \<open>for_range\<close> gives a function the rows of its
  range. A \<open>HashMap\<close> is an association list. \<open>usize::try_from\<close> of a \<open>u64\<close> does not fail.
\<close>

section \<open>Attributes\<close>

text \<open>\<open>attribute_reader\<close> and \<open>attribute_bytes\<close> of \<open>src/convert/dwarf/references.rs\<close>.\<close>

definition attribute_reader :: "('d, 'v) gimli \<Rightarrow> 'd \<Rightarrow> 'v dwarf_unit \<Rightarrow> 'v attribute_value \<Rightarrow> reader option result" where
  "attribute_reader G dwarf u v =
     (if (case v of DebugStrRefSup _ \<Rightarrow> True | _ \<Rightarrow> False) \<and> g_sup G dwarf = None then Inr None
      else let_ok (from_gimli (g_attr_string G dwarf u v)) (\<lambda>r. Inr (Some r)))"

definition attribute_bytes :: "('d, 'v) gimli \<Rightarrow> 'd \<Rightarrow> 'v dwarf_unit \<Rightarrow> 'v attribute_value \<Rightarrow> bytes result" where
  "attribute_bytes G dwarf u v =
     let_ok (attribute_reader G dwarf u v) (\<lambda>r. case r of None \<Rightarrow> Inr [] | Some r \<Rightarrow> from_gimli r)"

text \<open>\<open>unsigned_attribute\<close> and \<open>file_index_attribute\<close> of \<open>src/convert/dwarf.rs\<close>.\<close>

definition unsigned_attribute :: "('d, 'v) gimli \<Rightarrow> 'v die \<Rightarrow> dw_at \<Rightarrow> u64 option" where
  "unsigned_attribute G die name = Option.bind (die_attr die name) (g_udata_value G)"

definition file_index_attribute :: "('d, 'v) gimli \<Rightarrow> 'v die \<Rightarrow> dw_at \<Rightarrow> u64 option" where
  "file_index_attribute G die name =
     (case die_attr die name of
        Some (FileIndex index) \<Rightarrow> Some index
      | Some v \<Rightarrow> g_udata_value G v
      | None \<Rightarrow> None)"

section \<open>The data\<close>

record sequenced_line =
  sl_entry :: line_entry
  sl_sequence :: "u64 option"

record line_sequence_range =
  ls_range :: address_range
  ls_sequence :: "u64 option"

record file_indices =
  fi_dense :: "file_index option list"
  fi_overflow :: "(u64 \<times> file_index) list"

definition file_indices_default :: file_indices where
  "file_indices_default = \<lparr>fi_dense = [], fi_overflow = []\<rparr>"

definition file_indices_is_empty :: "file_indices \<Rightarrow> bool" where
  "file_indices_is_empty files \<longleftrightarrow> list_all (\<lambda>slot. slot = None) (fi_dense files) \<and> fi_overflow files = []"

definition file_indices_get :: "file_indices \<Rightarrow> u64 \<Rightarrow> file_index option" where
  "file_indices_get files index =
     (case Option.bind (nth_get (fi_dense files) (unat index)) id of
        Some f \<Rightarrow> Some f
      | None \<Rightarrow> map_of (fi_overflow files) index)"

definition file_indices_insert :: "u64 \<Rightarrow> file_index \<Rightarrow> file_indices \<Rightarrow> file_indices" where
  "file_indices_insert index f files =
     (if unat index < length (fi_dense files) then files\<lparr>fi_dense := (fi_dense files)[unat index := Some f]\<rparr>
      else files\<lparr>fi_overflow := AList.update index f (fi_overflow files)\<rparr>)"

record unit_lines =
  ul_entries :: "sequenced_line list"
  ul_files :: file_indices
  ul_sequences :: "line_sequence_range list"

section \<open>The rows of a function\<close>

text \<open>\<open>is_none_or\<close> of a requested sequence: none is requested, or the row's is the requested one.\<close>

definition selects :: "u64 option \<Rightarrow> u64 option \<Rightarrow> bool" where
  "selects selected sequence \<longleftrightarrow> (case selected of None \<Rightarrow> True | Some s \<Rightarrow> sequence = Some s)"

definition rows_in :: "sequenced_line list \<Rightarrow> nat \<Rightarrow> nat \<Rightarrow> u64 option \<Rightarrow> line_entry list" where
  "rows_in entries start stop selected =
     map sl_entry (filter (\<lambda>ln. selects selected (sl_sequence ln))
       (case slice_get entries start stop of None \<Rightarrow> [] | Some rows \<Rightarrow> rows))"

text \<open>The row in force at the start of the range, moved there.\<close>

definition clamped_row :: "unit_lines \<Rightarrow> address_range \<Rightarrow> nat \<Rightarrow> u64 option \<Rightarrow> line_entry option" where
  "clamped_row unit_lines r start selected =
     Option.bind
       (find (\<lambda>sequence. selects selected (ls_sequence sequence) \<and> range_contains (ls_range sequence) (r_start r))
         (ul_sequences unit_lines))
       (\<lambda>sequence.
         let clamping = (case selected of Some s \<Rightarrow> Some s | None \<Rightarrow> ls_sequence sequence) in
         map_option (\<lambda>previous. (sl_entry previous)\<lparr>row_address := r_start r\<rparr>)
           (find (\<lambda>ln. selects clamping (sl_sequence ln)) (rev (take start (ul_entries unit_lines)))))"

definition for_range :: "unit_lines \<Rightarrow> address_range \<Rightarrow> u64 option \<Rightarrow> line_entry list \<times> bool" where
  "for_range unit_lines r requested =
     (let sequence_exists = (case requested of None \<Rightarrow> True
            | Some s \<Rightarrow> list_ex (\<lambda>sequence. ls_sequence sequence = Some s) (ul_sequences unit_lines));
          selected = (if sequence_exists then requested else None);
          start = partition_point (\<lambda>ln. row_address (sl_entry ln) < r_start r) (ul_entries unit_lines);
          stop = partition_point (\<lambda>ln. row_address (sl_entry ln) < r_end r) (ul_entries unit_lines);
          output = rows_in (ul_entries unit_lines) start stop selected;
          output = (if (case output of [] \<Rightarrow> True | row # _ \<Rightarrow> row_address row > r_start r)
            then (case clamped_row unit_lines r start selected of None \<Rightarrow> output | Some row \<Rightarrow> row # output)
            else output);
          output = compact_line_rows output in
      (output, requested \<noteq> None \<and> \<not> sequence_exists \<and> output \<noteq> []))"

section \<open>Paths\<close>

definition SLASH :: u8 where "SLASH = 47"
definition BACKSLASH :: u8 where "BACKSLASH = 92"
definition COLON :: u8 where "COLON = 58"

definition is_separator :: "u8 \<Rightarrow> bool" where
  "is_separator byte \<longleftrightarrow> byte = SLASH \<or> byte = BACKSLASH"

fun windows_drive :: "bytes \<Rightarrow> bool" where
  "windows_drive (_ # colon # separator # _) \<longleftrightarrow> colon = COLON \<and> is_separator separator"
| "windows_drive _ \<longleftrightarrow> False"

fun windows_share :: "bytes \<Rightarrow> bool" where
  "windows_share (first # second # third # rest) \<longleftrightarrow>
     is_separator first \<and> first = second \<and> \<not> is_separator third \<and> list_ex is_separator rest"
| "windows_share _ \<longleftrightarrow> False"

definition is_absolute_path :: "bytes \<Rightarrow> bool" where
  "is_absolute_path path \<longleftrightarrow> starts_with path [SLASH] \<or> windows_drive path \<or> windows_share path"

definition append_path :: "bytes \<Rightarrow> bytes \<Rightarrow> bytes" where
  "append_path path component =
     (if component = [] then path
      else if path \<noteq> [] \<and> last path \<noteq> SLASH \<and> \<not> starts_with component [SLASH] then path @ SLASH # component
      else path @ component)"

text \<open>\<open>rposition\<close>: the last position of a byte.\<close>

definition rposition :: "('a \<Rightarrow> bool) \<Rightarrow> 'a list \<Rightarrow> nat option" where
  "rposition p xs = find (\<lambda>i. p (xs ! i)) (rev [0..<length xs])"

definition split_path :: "bytes \<Rightarrow> bytes \<times> bytes" where
  "split_path path =
     (case rposition (\<lambda>byte. byte = SLASH) path of
        None \<Rightarrow> ([], path)
      | Some separator \<Rightarrow>
          let directory = take (separator + 1) path; basename = drop (separator + 1) path;
              directory = (if separator = 0 then directory
                else if directory \<noteq> [] \<and> last directory = SLASH then butlast directory else directory) in
          (directory, basename))"

section \<open>Interning files\<close>

text \<open>\<open>map(Reader::to_slice).transpose()\<close>.\<close>

definition optional_slice :: "reader option \<Rightarrow> bytes option result" where
  "optional_slice r = (case r of None \<Rightarrow> Inr None | Some r \<Rightarrow> let_ok (from_gimli r) (\<lambda>path. Inr (Some path)))"

definition file_path :: "('d, 'v) gimli \<Rightarrow> 'd \<Rightarrow> 'v dwarf_unit \<Rightarrow> 'v line_header \<Rightarrow> 'v line_file \<Rightarrow> bytes \<Rightarrow> bytes result" where
  "file_path G dwarf u header f filename_directory =
     (let implicit_comp_dir = (lh_version header < 5 \<and> lf_directory_index f = 0) in
      let_ok (case lh_directory header (lf_directory_index f) of
          Some v \<Rightarrow> if \<not> implicit_comp_dir then attribute_reader G dwarf u v else Inr None
        | None \<Rightarrow> Inr None) (\<lambda>directory_reader.
      let_ok (case directory_reader of Some r \<Rightarrow> from_gimli r | None \<Rightarrow> Inr []) (\<lambda>directory.
      let needs_comp_dir = (lh_version header < 5 \<or> lf_directory_index f \<noteq> 0) in
      let_ok (if needs_comp_dir \<and> \<not> is_absolute_path directory then optional_slice (u_comp_dir u) else Inr None) (\<lambda>comp_dir.
      let path = (case comp_dir of None \<Rightarrow> [] | Some comp_dir \<Rightarrow> append_path [] comp_dir) in
      Inr (append_path (append_path path directory) filename_directory)))))"

definition intern_file :: "'t file_env \<Rightarrow> ('d, 'v) gimli \<Rightarrow> 'd \<Rightarrow> 'v dwarf_unit \<Rightarrow> 'v line_header \<Rightarrow> 'v line_file
    \<Rightarrow> 't gsym_builder \<Rightarrow> (file_index option \<times> 't gsym_builder) result" where
  "intern_file env G dwarf u header f b =
     let_ok (attribute_reader G dwarf u (lf_path_name f)) (\<lambda>filename_reader.
     case filename_reader of None \<Rightarrow> Inr (None, b) | Some filename_reader \<Rightarrow>
     let_ok (from_gimli filename_reader) (\<lambda>filename.
     if filename = [] then Inr (None, b)
     else
       let (filename_directory, basename) = split_path filename in
       if basename = [] then Inr (None, b)
       else
         let_ok (if is_absolute_path filename then Inr filename_directory
           else file_path G dwarf u header f filename_directory) (\<lambda>directory.
         let_ok (add_file env \<lparr>file_directory = directory, file_basename = basename\<rparr> b) (\<lambda>(index, b).
         Inr (Some index, b)))))"

definition intern_header_file :: "'t file_env \<Rightarrow> ('d, 'v) gimli \<Rightarrow> 'd \<Rightarrow> 'v dwarf_unit \<Rightarrow> 'v line_header \<Rightarrow> 'v line_file
    \<Rightarrow> file_indices \<times> 't gsym_builder \<Rightarrow> (file_indices \<times> 't gsym_builder) result" where
  "intern_header_file env G dwarf u header f state =
     (let (files, b) = state in
      let_ok (intern_file env G dwarf u header f b) (\<lambda>(slot, b).
      Inr (files\<lparr>fi_dense := fi_dense files @ [slot]\<rparr>, b)))"

definition intern_header_files :: "'t file_env \<Rightarrow> ('d, 'v) gimli \<Rightarrow> 'd \<Rightarrow> 'v dwarf_unit \<Rightarrow> 'v line_header
    \<Rightarrow> 't gsym_builder \<Rightarrow> (file_indices \<times> 't gsym_builder) result" where
  "intern_header_files env G dwarf u header b =
     (let files = (if lh_version header \<le> 4 then file_indices_default\<lparr>fi_dense := [None]\<rparr> else file_indices_default) in
      fold_ok (intern_header_file env G dwarf u header) (lh_file_names header) (files, b))"

section \<open>Reading the line program\<close>

definition statement_sequence_offset :: "('d, 'v) gimli \<Rightarrow> 'v dwarf_unit \<Rightarrow> 'v die \<Rightarrow> u64 option" where
  "statement_sequence_offset G u die =
     Option.bind
       (case die_attr die DW_AT_LLVM_STMT_SEQUENCE of
          Some (SecOffset offset) \<Rightarrow> Some (word_of_nat offset)
        | Some (DebugLineRef offset) \<Rightarrow> Some (word_of_nat offset)
        | Some v \<Rightarrow> g_udata_value G v
        | None \<Rightarrow> None)
       (\<lambda>v. let invalid = (if uh_dwarf64 (u_header u) then - 1 else 0xFFFFFFFF) in
            if v \<noteq> invalid then Some v else None)"

definition line_sequence_offsets :: "line_codes \<Rightarrow> 'v line_header \<Rightarrow> u64 list result" where
  "line_sequence_offsets codes header =
     let_ok (from_gimli (lh_raw_program header)) (\<lambda>program.
     let_ok (from_gimli (lh_standard_opcode_lengths header)) (\<lambda>standard_opcode_lengths.
     let_ok (ok_or
       (Option.bind (checked_add_u64 (word_of_nat (lh_offset header)) (ucast (lh_initial_length_size header))) (\<lambda>offset.
        Option.bind (checked_add_u64 offset 2) (\<lambda>offset.
        Option.bind (checked_add_u64 offset (if lh_version header \<ge> 5 then 2 else 0)) (\<lambda>offset.
        Option.bind (checked_add_u64 offset (ucast (lh_word_size header))) (\<lambda>offset.
        checked_add_u64 offset (word_of_nat (lh_header_length header)))))))
       (Overflow ''DWARF line-program offset'')) (\<lambda>program_offset.
     scan_line_sequence_offsets codes program standard_opcode_lengths (lh_opcode_base header) program_offset)))"

record raw_line =
  rl_address :: u64
  rl_file_index :: u64
  rl_line :: u64
  rl_sequence :: nat

record row_state =
  rs_lines :: "raw_line list"
  rs_ranges :: "line_sequence_range list"
  rs_start :: "u64 option"
  rs_count :: nat
  rs_completed :: nat

definition read_row :: "u64 list result \<Rightarrow> line_row \<Rightarrow> row_state \<Rightarrow> row_state" where
  "read_row offsets row s =
     (let sequence = (case offsets of Inl _ \<Rightarrow> None | Inr offsets \<Rightarrow> nth_get offsets (rs_count s)) in
      if lr_end_sequence row then
        let start = case_option 0 id (rs_start s);
            ranges = (if start < lr_address row
              then rs_ranges s @ [\<lparr>ls_range = mk_range start (lr_address row), ls_sequence = sequence\<rparr>] else rs_ranges s) in
        s\<lparr>rs_start := None, rs_ranges := ranges, rs_count := saturating_add (rs_count s) 1,
          rs_completed := length (rs_lines s)\<rparr>
      else
        s\<lparr>rs_start := Some (case_option (lr_address row) id (rs_start s)),
          rs_lines := rs_lines s @ [\<lparr>rl_address = lr_address row, rl_file_index = lr_file_index row,
            rl_line = case_option 0 id (lr_line row), rl_sequence = rs_count s\<rparr>]\<rparr>)"

definition row_state_new :: row_state where
  "row_state_new = \<lparr>rs_lines = [], rs_ranges = [], rs_start = None, rs_count = 0, rs_completed = 0\<rparr>"

text \<open>The state of the loop that resolves the rows: the files, the builder, the warnings and the output.\<close>

record 't resolve_state =
  re_files :: file_indices
  re_builder :: "'t gsym_builder"
  re_warnings :: "conversion_warning list"
  re_output :: "sequenced_line list"

text \<open>The file of a row: found, interned now, or missing, in which case the row is dropped.\<close>

definition row_file_index :: "'t file_env \<Rightarrow> ('d, 'v) gimli \<Rightarrow> 'd \<Rightarrow> 'v dwarf_unit \<Rightarrow> 'v line_header \<Rightarrow> raw_line
    \<Rightarrow> 't resolve_state \<Rightarrow> (file_index option \<times> 't resolve_state) result" where
  "row_file_index env G dwarf u header row s =
     (case file_indices_get (re_files s) (rl_file_index row) of
        Some f \<Rightarrow> Inr (Some f, s)
      | None \<Rightarrow>
         (case lh_file header (rl_file_index row) of
            None \<Rightarrow> Inr (None, s\<lparr>re_warnings := re_warnings s @ [MissingLineFile (rl_address row) (rl_file_index row)]\<rparr>)
          | Some entry \<Rightarrow>
              let_ok (intern_file env G dwarf u header entry (re_builder s)) (\<lambda>(slot, b).
              case slot of
                None \<Rightarrow> Inr (None, s\<lparr>re_builder := b\<rparr>)
              | Some f \<Rightarrow> Inr (Some f, s\<lparr>re_builder := b, re_files := file_indices_insert (rl_file_index row) f (re_files s)\<rparr>))))"

definition resolve_row :: "'t file_env \<Rightarrow> ('d, 'v) gimli \<Rightarrow> 'd \<Rightarrow> 'v dwarf_unit \<Rightarrow> 'v line_header \<Rightarrow> u64 list
    \<Rightarrow> raw_line \<Rightarrow> 't resolve_state \<Rightarrow> 't resolve_state result" where
  "resolve_row env G dwarf u header offsets row s =
     let_ok (row_file_index env G dwarf u header row s) (\<lambda>(found, s).
     case found of
       None \<Rightarrow> Inr s
     | Some f \<Rightarrow>
        (case u32_try_from (unat (rl_line row)) of
           None \<Rightarrow> Inr (s\<lparr>re_warnings := re_warnings s @ [UnrepresentableLine (rl_address row) (rl_line row)]\<rparr>)
         | Some ln \<Rightarrow>
             Inr (s\<lparr>re_output := re_output s @
               [\<lparr>sl_entry = \<lparr>row_address = rl_address row, row_file = f, row_line = ln\<rparr>,
                 sl_sequence = nth_get offsets (rl_sequence row)\<rparr>]\<rparr>)))"

text \<open>\<open>Vec::dedup\<close>.\<close>

definition dedup :: "'a list \<Rightarrow> 'a list" where
  "dedup = dedup_by (\<lambda>current previous. (current = previous, current, previous))"

definition resolve_rows :: "'t file_env \<Rightarrow> ('d, 'v) gimli \<Rightarrow> 'd \<Rightarrow> 'v dwarf_unit \<Rightarrow> 'v line_header \<Rightarrow> u64 list
    \<Rightarrow> raw_line list \<Rightarrow> line_sequence_range list \<Rightarrow> 't gsym_builder \<Rightarrow> conversion_warning list
    \<Rightarrow> (unit_lines \<times> 't gsym_builder \<times> conversion_warning list) result" where
  "resolve_rows env G dwarf u header offsets raw_lines ranges b warnings =
     let_ok (intern_header_files env G dwarf u header b) (\<lambda>(files, b).
     let_ok (fold_ok (resolve_row env G dwarf u header offsets) raw_lines
         \<lparr>re_files = files, re_builder = b, re_warnings = warnings, re_output = []\<rparr>) (\<lambda>s.
     Inr (\<lparr>ul_entries = dedup (sort_key (\<lambda>row. row_address (sl_entry row)) (re_output s)),
           ul_files = re_files s, ul_sequences = ranges\<rparr>, re_builder s, re_warnings s)))"

definition collect_program :: "'t file_env \<Rightarrow> ('d, 'v) gimli \<Rightarrow> 'd \<Rightarrow> 'v dwarf_unit \<Rightarrow> 'v line_program
    \<Rightarrow> 't gsym_builder \<Rightarrow> conversion_warning list
    \<Rightarrow> (unit_lines \<times> 't gsym_builder \<times> conversion_warning list) result" where
  "collect_program env G dwarf u program b warnings =
     (let offsets = line_sequence_offsets (g_line_codes G) (lp_header program) in
      let_ok (for_each (\<lambda>row s. Inr (read_row offsets row s)) (lp_rows program) row_state_new) (\<lambda>rows.
      let_ok offsets (\<lambda>offsets.
      let warnings = (if length offsets \<noteq> rs_count rows
            then warnings @ [LineSequenceMismatch (rs_count rows) (length offsets)] else warnings) in
      resolve_rows env G dwarf u (lp_final_header program) offsets (take (rs_completed rows) (rs_lines rows))
        (rs_ranges rows) b warnings)))"

definition collect_lines :: "'t file_env \<Rightarrow> ('d, 'v) gimli \<Rightarrow> 'd \<Rightarrow> 'v dwarf_unit
    \<Rightarrow> 't gsym_builder \<Rightarrow> conversion_warning list
    \<Rightarrow> (unit_lines \<times> 't gsym_builder \<times> conversion_warning list) result" where
  "collect_lines env G dwarf u b warnings =
     (case u_line_program u of
        Some program \<Rightarrow> collect_program env G dwarf u program b warnings
      | None \<Rightarrow>
          if g_is_dwo G dwarf \<and> (uh_version (u_header u) = 4 \<or> uh_version (u_header u) = 5)
            \<and> \<not> g_debug_line_is_empty G dwarf
          then let_ok (from_gimli (g_first_line_program G dwarf u)) (\<lambda>program.
            collect_program env G dwarf u program b warnings)
          else Inr (\<lparr>ul_entries = [], ul_files = file_indices_default, ul_sequences = []\<rparr>, b, warnings))"

end
