(* ===== verification/DwarfRefs.thy ===== *)
theory DwarfRefs
  imports DwarfLines
begin

text \<open>
  \<open>src/convert/dwarf/references.rs\<close>: names and declaration lines found by following references between
  debugging entries, with the set of visited entries and the two caches of \<open>DwarfResolver\<close>. The caches are a
  component of their own (\<open>cached_unit\<close>, \<open>cached_entry\<close>); they return what the uncached lookups return
  (\<open>cached_unit_transparent\<close>, \<open>cached_entry_transparent\<close>), which the resolution functions are written with.
  The depth limit of 64 is the recursion argument: what is left of it, so \<open>depth >= 64\<close> is \<open>0\<close>.
\<close>

section \<open>Visited entries\<close>

datatype debug_source = MainSource | SupplementarySource

type_synonym die_key = "debug_source \<times> nat"

datatype visited_dies = Small "die_key list" | Large "die_key set"

definition visited_dies_default :: visited_dies where
  "visited_dies_default = Small []"

text \<open>The \<open>inline_size\<close> of the \<open>SmallVec\<close>.\<close>

definition SMALL_SIZE :: nat where "SMALL_SIZE = 4"

fun visited_insert :: "die_key \<Rightarrow> visited_dies \<Rightarrow> bool \<times> visited_dies" where
  "visited_insert key (Small keys) =
     (if key \<in> set keys then (False, Small keys)
      else if length keys < SMALL_SIZE then (True, Small (keys @ [key]))
      else (True, Large (set (keys @ [key]))))"
| "visited_insert key (Large keys) = (key \<notin> keys, Large (insert key keys))"

section \<open>Units and entries\<close>

definition absolute_entry_offset :: "'v dwarf_unit \<Rightarrow> nat \<Rightarrow> nat result" where
  "absolute_entry_offset u offset =
     ok_or (Option.bind (uh_debug_info_offset (u_header u)) (\<lambda>base. checked_add base offset))
       (Overflow ''DWARF entry offset'')"

fun unit_containing :: "('d, 'v) gimli \<Rightarrow> 'd \<Rightarrow> nat \<Rightarrow> unit_header list \<Rightarrow> ('v dwarf_unit \<times> nat) option result" where
  "unit_containing G dwarf target [] =
     (case snd (g_units G dwarf) of None \<Rightarrow> Inr None | Some message \<Rightarrow> Inl (gimli_error message))"
| "unit_containing G dwarf target (header # headers) =
     (case uh_debug_info_offset header of
        None \<Rightarrow> unit_containing G dwarf target headers
      | Some start \<Rightarrow>
          let_ok (ok_or (checked_add start (uh_length header)) (Overflow ''DWARF unit end'')) (\<lambda>stop.
          if start \<le> target \<and> target < stop
          then let_ok (from_gimli (g_unit G dwarf header)) (\<lambda>u. Inr (Some (u, target - start)))
          else unit_containing G dwarf target headers))"

definition unit_containing_offset :: "('d, 'v) gimli \<Rightarrow> 'd \<Rightarrow> nat \<Rightarrow> ('v dwarf_unit \<times> nat) option result" where
  "unit_containing_offset G dwarf target = unit_containing G dwarf target (fst (g_units G dwarf))"

text \<open>An entry read without the cache.\<close>

definition unit_entry :: "('d, 'v) gimli \<Rightarrow> 'v dwarf_unit \<Rightarrow> nat \<Rightarrow> 'v die result" where
  "unit_entry G u offset =
     let_ok (from_gimli (g_entries_raw_at G u offset)) (\<lambda>_.
     let_ok (from_gimli (g_read_entry G u offset)) (\<lambda>entry.
     ok_or entry (gimli_error (g_no_entry G offset))))"

section \<open>The caches of the resolver\<close>

text \<open>The deque of the most recently used units, the first one in front.\<close>

definition UNIT_CAPACITY :: nat where "UNIT_CAPACITY = 8"

fun find_cached_unit :: "('d, 'v) gimli \<Rightarrow> nat \<Rightarrow> 'v dwarf_unit list \<Rightarrow> (nat \<times> nat) option" where
  "find_cached_unit G target [] = None"
| "find_cached_unit G target (u # cached) =
     (case g_to_unit_offset G target (u_header u) of
        Some offset \<Rightarrow> Some (0, offset)
      | None \<Rightarrow> map_option (\<lambda>(index, offset). (Suc index, offset)) (find_cached_unit G target cached))"

definition cached_unit :: "('d, 'v) gimli \<Rightarrow> 'd \<Rightarrow> nat \<Rightarrow> 'v dwarf_unit list
    \<Rightarrow> ('v dwarf_unit \<times> nat) option result \<times> 'v dwarf_unit list" where
  "cached_unit G dwarf target cached =
     (case find_cached_unit G target cached of
        Some (index, offset) \<Rightarrow>
          (Inr (Some (cached ! index, offset)), cached ! index # take index cached @ drop (Suc index) cached)
      | None \<Rightarrow>
          (case unit_containing_offset G dwarf target of
             Inl err \<Rightarrow> (Inl err, cached)
           | Inr None \<Rightarrow> (Inr None, cached)
           | Inr (Some (u, offset)) \<Rightarrow>
               (Inr (Some (u, offset)), u # (if length cached = UNIT_CAPACITY then butlast cached else cached))))"

text \<open>The direct-mapped table of entries. The hasher is a parameter. A slot is emptied before its entry is read.\<close>

definition ENTRY_CACHE_CAPACITY :: nat where "ENTRY_CACHE_CAPACITY = 128"

type_synonym entry_key = "(nat \<times> nat) \<times> nat"
type_synonym 'v entry_cache = "(entry_key \<times> 'v die) option list"

definition entry_index :: "(entry_key \<Rightarrow> u64) \<Rightarrow> entry_key \<Rightarrow> nat" where
  "entry_index hash key = unat (hash key AND (word_of_nat ENTRY_CACHE_CAPACITY - 1))"

definition cached_entry :: "('d, 'v) gimli \<Rightarrow> (entry_key \<Rightarrow> u64) \<Rightarrow> 'v dwarf_unit \<Rightarrow> nat \<Rightarrow> 'v entry_cache
    \<Rightarrow> 'v die result \<times> 'v entry_cache" where
  "cached_entry G hash u offset cached =
     (case from_gimli (g_entries_raw_at G u offset) of
        Inl err \<Rightarrow> (Inl err, cached)
      | Inr _ \<Rightarrow>
          let key = (uh_key (u_header u), offset); index = entry_index hash key in
          case Option.bind (nth_get cached index) (\<lambda>slot. Option.bind slot (\<lambda>(cached_key, entry).
              if cached_key = key then Some entry else None)) of
            Some entry \<Rightarrow> (Inr entry, cached)
          | None \<Rightarrow>
              let cached = (if cached = [] then replicate ENTRY_CACHE_CAPACITY None else cached);
                  cached = cached[index := None] in
              case from_gimli (g_read_entry G u offset) of
                Inl err \<Rightarrow> (Inl err, cached)
              | Inr None \<Rightarrow> (Inl (gimli_error (g_no_entry G offset)), cached)
              | Inr (Some entry) \<Rightarrow> (Inr entry, cached[index := Some (key, entry)]))"

section \<open>Names\<close>

text \<open>The first of the attributes with a name that is not empty.\<close>

fun own_name :: "('d, 'v) gimli \<Rightarrow> 'd \<Rightarrow> 'v dwarf_unit \<Rightarrow> 'v die \<Rightarrow> dw_at list \<Rightarrow> bytes option result" where
  "own_name G dwarf u entry [] = Inr None"
| "own_name G dwarf u entry (attribute # attributes) =
     (case die_attr entry attribute of
        None \<Rightarrow> own_name G dwarf u entry attributes
      | Some v \<Rightarrow> let_ok (attribute_bytes G dwarf u v) (\<lambda>bytes.
          if bytes \<noteq> [] then Inr (Some bytes) else own_name G dwarf u entry attributes))"

definition name_attributes :: "dw_at list" where
  "name_attributes = [DW_AT_linkage_name, DW_AT_MIPS_linkage_name, DW_AT_name]"

definition reference_attributes :: "dw_at list" where
  "reference_attributes = [DW_AT_abstract_origin, DW_AT_specification]"

text \<open>The recursive call is the argument \<open>resolve\<close> of the functions it goes through.\<close>

type_synonym ('d, 'v) name_resolver =
  "'d \<Rightarrow> 'v dwarf_unit \<Rightarrow> 'v die \<Rightarrow> debug_source \<Rightarrow> visited_dies \<Rightarrow> (bytes option \<times> visited_dies) result"

definition resolve_absolute_name :: "('d, 'v) gimli \<Rightarrow> ('d, 'v) name_resolver \<Rightarrow> 'd \<Rightarrow> nat \<Rightarrow> debug_source
    \<Rightarrow> visited_dies \<Rightarrow> (bytes option \<times> visited_dies) result" where
  "resolve_absolute_name G resolve dwarf target source visited =
     (let (new, visited) = visited_insert (source, target) visited in
      if \<not> new then Inr (None, visited)
      else let_ok (unit_containing_offset G dwarf target) (\<lambda>found.
        case found of None \<Rightarrow> Inr (None, visited)
        | Some (u, offset) \<Rightarrow> let_ok (unit_entry G u offset) (\<lambda>referenced. resolve dwarf u referenced source visited)))"

definition resolve_unit_name :: "('d, 'v) gimli \<Rightarrow> ('d, 'v) name_resolver \<Rightarrow> 'd \<Rightarrow> 'v dwarf_unit \<Rightarrow> nat \<Rightarrow> debug_source
    \<Rightarrow> visited_dies \<Rightarrow> (bytes option \<times> visited_dies) result" where
  "resolve_unit_name G resolve dwarf u offset source visited =
     let_ok (absolute_entry_offset u offset) (\<lambda>absolute.
     let (new, visited) = visited_insert (source, absolute) visited in
     if \<not> new then Inr (None, visited)
     else let_ok (unit_entry G u offset) (\<lambda>referenced. resolve dwarf u referenced source visited))"

definition resolve_sup_name :: "('d, 'v) gimli \<Rightarrow> ('d, 'v) name_resolver \<Rightarrow> 'd \<Rightarrow> nat
    \<Rightarrow> visited_dies \<Rightarrow> (bytes option \<times> visited_dies) result" where
  "resolve_sup_name G resolve dwarf offset visited =
     (case g_sup G dwarf of
        None \<Rightarrow> Inr (None, visited)
      | Some supplementary \<Rightarrow> resolve_absolute_name G resolve supplementary offset SupplementarySource visited)"

definition resolve_value :: "('d, 'v) gimli \<Rightarrow> ('d, 'v) name_resolver \<Rightarrow> 'd \<Rightarrow> 'v dwarf_unit \<Rightarrow> debug_source
    \<Rightarrow> 'v attribute_value option \<Rightarrow> visited_dies \<Rightarrow> (bytes option \<times> visited_dies) result" where
  "resolve_value G resolve dwarf u source v visited =
     (case v of
        Some (UnitRef offset) \<Rightarrow> resolve_unit_name G resolve dwarf u offset source visited
      | Some (DebugInfoRef offset) \<Rightarrow> resolve_absolute_name G resolve dwarf offset MainSource visited
      | Some (DebugInfoRefSup offset) \<Rightarrow> resolve_sup_name G resolve dwarf offset visited
      | _ \<Rightarrow> Inr (None, visited))"

fun resolve_references :: "('d, 'v) gimli \<Rightarrow> ('d, 'v) name_resolver \<Rightarrow> 'd \<Rightarrow> 'v dwarf_unit \<Rightarrow> 'v die \<Rightarrow> debug_source
    \<Rightarrow> dw_at list \<Rightarrow> visited_dies \<Rightarrow> (bytes option \<times> visited_dies) result" where
  "resolve_references G resolve dwarf u entry source [] visited = Inr (None, visited)"
| "resolve_references G resolve dwarf u entry source (attribute # attributes) visited =
     let_ok (resolve_value G resolve dwarf u source (die_attr entry attribute) visited) (\<lambda>(name, visited).
     case name of
       Some name \<Rightarrow> Inr (Some name, visited)
     | None \<Rightarrow> resolve_references G resolve dwarf u entry source attributes visited)"

primrec resolve_name_inner :: "('d, 'v) gimli \<Rightarrow> nat \<Rightarrow> ('d, 'v) name_resolver" where
  "resolve_name_inner G 0 = (\<lambda>dwarf u entry source visited. Inr (None, visited))"
| "resolve_name_inner G (Suc left) = (\<lambda>dwarf u entry source visited.
     let_ok (own_name G dwarf u entry name_attributes) (\<lambda>name.
     case name of
       Some name \<Rightarrow> Inr (Some name, visited)
     | None \<Rightarrow> resolve_references G (resolve_name_inner G left) dwarf u entry source reference_attributes visited))"

definition DEPTH_LIMIT :: nat where "DEPTH_LIMIT = 64"

definition resolve_name :: "('d, 'v) gimli \<Rightarrow> 'd \<Rightarrow> 'v dwarf_unit \<Rightarrow> 'v die \<Rightarrow> nat \<Rightarrow> bytes option result" where
  "resolve_name G dwarf u entry depth =
     let_ok (resolve_name_inner G (DEPTH_LIMIT - depth) dwarf u entry MainSource visited_dies_default) (\<lambda>(name, _). Inr name)"

definition resolve_reference_name :: "('d, 'v) gimli \<Rightarrow> 'd \<Rightarrow> 'v dwarf_unit \<Rightarrow> 'v attribute_value \<Rightarrow> nat \<Rightarrow> visited_dies
    \<Rightarrow> (bytes option \<times> visited_dies) result" where
  "resolve_reference_name G dwarf u reference depth visited =
     resolve_value G (resolve_name_inner G (DEPTH_LIMIT - (depth + 1))) dwarf u MainSource (Some reference) visited"

section \<open>Declaration lines\<close>

text \<open>The state of \<open>DeclarationResolver\<close>.\<close>

record 't declaration_state =
  ds_builder :: "'t gsym_builder"
  ds_warnings :: "conversion_warning list"
  ds_visited :: visited_dies

type_synonym ('d, 'v, 't) line_resolver =
  "'d \<Rightarrow> 'v dwarf_unit \<Rightarrow> 'v die \<Rightarrow> file_indices \<Rightarrow> debug_source \<Rightarrow> 't declaration_state
    \<Rightarrow> (line_entry option \<times> 't declaration_state) result"

definition declared_here :: "('d, 'v) gimli \<Rightarrow> 'v dwarf_unit \<Rightarrow> 'v die \<Rightarrow> file_indices \<Rightarrow> 't declaration_state
    \<Rightarrow> (line_entry option \<times> 't declaration_state) result" where
  "declared_here G u entry files s =
     (case (file_index_attribute G entry DW_AT_decl_file, unsigned_attribute G entry DW_AT_decl_line) of
        (Some file_index, Some line_number) \<Rightarrow>
          (case (file_indices_get files file_index, u32_try_from (unat line_number)) of
             (Some f, Some ln) \<Rightarrow> Inr (Some \<lparr>row_address = 0, row_file = f, row_line = ln\<rparr>, s)
           | (None, _) \<Rightarrow> let_ok (absolute_entry_offset u (die_offset entry)) (\<lambda>offset.
               Inr (None, s\<lparr>ds_warnings := ds_warnings s @ [InvalidDeclarationFile (word_of_nat offset) file_index]\<rparr>))
           | (_, None) \<Rightarrow> let_ok (absolute_entry_offset u (die_offset entry)) (\<lambda>offset.
               Inr (None, s\<lparr>ds_warnings := ds_warnings s @ [InvalidDeclarationLine (word_of_nat offset) line_number]\<rparr>)))
      | _ \<Rightarrow> Inr (None, s))"

definition declaration_absolute :: "'t file_env \<Rightarrow> ('d, 'v) gimli \<Rightarrow> ('d, 'v, 't) line_resolver \<Rightarrow> 'd \<Rightarrow> nat \<Rightarrow> debug_source
    \<Rightarrow> 't declaration_state \<Rightarrow> (line_entry option \<times> 't declaration_state) result" where
  "declaration_absolute env G resolve dwarf target source s =
     (let (new, visited) = visited_insert (source, target) (ds_visited s); s = s\<lparr>ds_visited := visited\<rparr> in
      if \<not> new then Inr (None, s)
      else let_ok (unit_containing_offset G dwarf target) (\<lambda>found.
        case found of None \<Rightarrow> Inr (None, s)
        | Some (u, offset) \<Rightarrow>
            let_ok (unit_entry G u offset) (\<lambda>referenced.
            let_ok (case u_line_program u of
                None \<Rightarrow> Inr (file_indices_default, ds_builder s)
              | Some program \<Rightarrow> intern_header_files env G dwarf u (lp_header program) (ds_builder s)) (\<lambda>(files, b).
            resolve dwarf u referenced files source (s\<lparr>ds_builder := b\<rparr>)))))"

definition declaration_unit :: "('d, 'v) gimli \<Rightarrow> ('d, 'v, 't) line_resolver \<Rightarrow> 'd \<Rightarrow> 'v dwarf_unit \<Rightarrow> nat \<Rightarrow> file_indices
    \<Rightarrow> debug_source \<Rightarrow> 't declaration_state \<Rightarrow> (line_entry option \<times> 't declaration_state) result" where
  "declaration_unit G resolve dwarf u offset files source s =
     let_ok (absolute_entry_offset u offset) (\<lambda>absolute.
     let (new, visited) = visited_insert (source, absolute) (ds_visited s); s = s\<lparr>ds_visited := visited\<rparr> in
     if \<not> new then Inr (None, s)
     else let_ok (unit_entry G u offset) (\<lambda>referenced. resolve dwarf u referenced files source s))"

definition declaration_value :: "'t file_env \<Rightarrow> ('d, 'v) gimli \<Rightarrow> ('d, 'v, 't) line_resolver \<Rightarrow> 'd \<Rightarrow> 'v dwarf_unit \<Rightarrow> file_indices
    \<Rightarrow> debug_source \<Rightarrow> 'v attribute_value option \<Rightarrow> 't declaration_state \<Rightarrow> (line_entry option \<times> 't declaration_state) result" where
  "declaration_value env G resolve dwarf u files source v s =
     (case v of
        Some (UnitRef offset) \<Rightarrow> declaration_unit G resolve dwarf u offset files source s
      | Some (DebugInfoRef offset) \<Rightarrow> declaration_absolute env G resolve dwarf offset MainSource s
      | Some (DebugInfoRefSup offset) \<Rightarrow>
          (case g_sup G dwarf of None \<Rightarrow> Inr (None, s)
           | Some supplementary \<Rightarrow> declaration_absolute env G resolve supplementary offset SupplementarySource s)
      | _ \<Rightarrow> Inr (None, s))"

fun declaration_references :: "'t file_env \<Rightarrow> ('d, 'v) gimli \<Rightarrow> ('d, 'v, 't) line_resolver \<Rightarrow> 'd \<Rightarrow> 'v dwarf_unit \<Rightarrow> 'v die
    \<Rightarrow> file_indices \<Rightarrow> debug_source \<Rightarrow> dw_at list \<Rightarrow> 't declaration_state \<Rightarrow> (line_entry option \<times> 't declaration_state) result" where
  "declaration_references env G resolve dwarf u entry files source [] s = Inr (None, s)"
| "declaration_references env G resolve dwarf u entry files source (attribute # attributes) s =
     let_ok (declaration_value env G resolve dwarf u files source (die_attr entry attribute) s) (\<lambda>(ln, s).
     case ln of
       Some ln \<Rightarrow> Inr (Some ln, s)
     | None \<Rightarrow> declaration_references env G resolve dwarf u entry files source attributes s)"

primrec declaration_resolve :: "'t file_env \<Rightarrow> ('d, 'v) gimli \<Rightarrow> nat \<Rightarrow> ('d, 'v, 't) line_resolver" where
  "declaration_resolve env G 0 = (\<lambda>dwarf u entry files source s. Inr (None, s))"
| "declaration_resolve env G (Suc left) = (\<lambda>dwarf u entry files source s.
     let_ok (declared_here G u entry files s) (\<lambda>(ln, s).
     case ln of
       Some ln \<Rightarrow> Inr (Some ln, s)
     | None \<Rightarrow> declaration_references env G (declaration_resolve env G left) dwarf u entry files source reference_attributes s))"

definition resolve_declaration_line :: "'t file_env \<Rightarrow> ('d, 'v) gimli \<Rightarrow> 'd \<Rightarrow> 'v dwarf_unit \<Rightarrow> 'v die \<Rightarrow> file_indices
    \<Rightarrow> 't gsym_builder \<Rightarrow> conversion_warning list
    \<Rightarrow> (line_entry option \<times> 't gsym_builder \<times> conversion_warning list) result" where
  "resolve_declaration_line env G dwarf u entry files b warnings =
     let_ok (declaration_resolve env G DEPTH_LIMIT dwarf u entry files MainSource
       \<lparr>ds_builder = b, ds_warnings = warnings, ds_visited = visited_dies_default\<rparr>) (\<lambda>(ln, s).
     Inr (ln, ds_builder s, ds_warnings s))"


section \<open>The set of visited entries\<close>

fun visited_set :: "visited_dies \<Rightarrow> die_key set" where
  "visited_set (Small keys) = set keys"
| "visited_set (Large keys) = keys"

lemma visited_insert_set:
  "visited_set (snd (visited_insert key visited)) = insert key (visited_set visited)
    \<and> (fst (visited_insert key visited) \<longleftrightarrow> key \<notin> visited_set visited)"
  by (cases visited) auto

text \<open>The keys are inserted one after the other; the answers are those of one set.\<close>

fun insert_all :: "die_key list \<Rightarrow> visited_dies \<Rightarrow> bool list \<times> visited_dies" where
  "insert_all [] visited = ([], visited)"
| "insert_all (key # keys) visited =
     (let (new, visited) = visited_insert key visited; (news, visited) = insert_all keys visited in (new # news, visited))"

fun set_insert_all :: "die_key list \<Rightarrow> die_key set \<Rightarrow> bool list \<times> die_key set" where
  "set_insert_all [] keys = ([], keys)"
| "set_insert_all (key # rest) keys = (let (news, result) = set_insert_all rest (insert key keys) in ((key \<notin> keys) # news, result))"

lemma insert_all_set: "map_prod id visited_set (insert_all keys visited) = set_insert_all keys (visited_set visited)"
proof (induction keys arbitrary: visited)
  case (Cons key keys)
  obtain new v where v: "visited_insert key visited = (new, v)" by (cases "visited_insert key visited")
  have s: "visited_set v = insert key (visited_set visited)" "new \<longleftrightarrow> key \<notin> visited_set visited"
    using visited_insert_set[of key visited] by (simp_all add: v)
  show ?case using Cons.IH[of v] by (simp add: v s case_prod_unfold Let_def prod_eq_iff map_prod_def)
qed simp

section \<open>The caches are transparent\<close>

text \<open>What gimli documents of units: the unit parsed from a header has that header, an offset is converted only
  where it is inside the unit, and the units of a section lie one behind the other.\<close>

definition lawful_units :: "('d, 'v) gimli \<Rightarrow> 'd \<Rightarrow> bool" where
  "lawful_units G dwarf \<longleftrightarrow>
     (\<forall>header u. g_unit G dwarf header = Inr u \<longrightarrow> u_header u = header)
     \<and> (\<forall>header target offset. g_to_unit_offset G target header = Some offset \<longrightarrow>
          (\<exists>start. uh_debug_info_offset header = Some start \<and> start \<le> target \<and> target < start + uh_length header
            \<and> offset = target - start))
     \<and> sorted_wrt (\<lambda>h k. \<forall>s t. uh_debug_info_offset h = Some s \<longrightarrow> uh_debug_info_offset k = Some t \<longrightarrow> s + uh_length h \<le> t)
         (fst (g_units G dwarf))"

lemma unit_containing_here:
  assumes "unit_containing G dwarf target headers = Inr (Some (u, offset))"
    and "\<And>header u. g_unit G dwarf header = Inr u \<Longrightarrow> u_header u = header"
    and "sorted_wrt (\<lambda>h k. \<forall>s t. uh_debug_info_offset h = Some s \<longrightarrow> uh_debug_info_offset k = Some t \<longrightarrow> s + uh_length h \<le> t) headers"
  shows "u_header u \<in> set headers \<and> (\<exists>start. uh_debug_info_offset (u_header u) = Some start \<and> start \<le> target
      \<and> target < start + uh_length (u_header u) \<and> offset = target - start
      \<and> (\<forall>other. start \<le> other \<and> other < start + uh_length (u_header u) \<longrightarrow>
            unit_containing G dwarf other headers = Inr (Some (u, other - start))))"
  using assms(1,3)
proof (induction headers)
  case Nil
  then show ?case by (auto split: option.splits)
next
  case (Cons header headers)
  show ?case
  proof (cases "uh_debug_info_offset header")
    case None
    then show ?thesis using Cons by auto
  next
    case (Some start)
    then have stop: "checked_add start (uh_length header) = Some (start + uh_length header)"
      using Cons.prems(1) by (auto simp: checked_add_def split: if_splits)
    show ?thesis
    proof (cases "start \<le> target \<and> target < start + uh_length header")
      case True
      then have u: "g_unit G dwarf header = Inr u" "offset = target - start" using Cons.prems(1) Some stop by (auto simp: ok_simps)
      then have "u_header u = header" using assms(2) by blast
      then show ?thesis using Some stop True u by auto
    next
      case False
      then have rest: "unit_containing G dwarf target headers = Inr (Some (u, offset))" using Cons.prems(1) Some stop by auto
      obtain start' where s: "u_header u \<in> set headers" "uh_debug_info_offset (u_header u) = Some start'" "start' \<le> target"
        "target < start' + uh_length (u_header u)" "offset = target - start'"
        "\<forall>other. start' \<le> other \<and> other < start' + uh_length (u_header u) \<longrightarrow>
            unit_containing G dwarf other headers = Inr (Some (u, other - start'))"
        using Cons.IH[OF rest] Cons.prems(2) by auto
      have "start + uh_length header \<le> start'" using Cons.prems(2) s(1,2) Some by auto
      then have "unit_containing G dwarf other (header # headers) = unit_containing G dwarf other headers" if "start' \<le> other" for other
        using Some stop that by simp
      then show ?thesis using s by auto
    qed
  qed
qed

text \<open>The invariant of the unit cache: at most eight units, each the answer for every offset converted by it.\<close>

definition unit_cache_ok :: "('d, 'v) gimli \<Rightarrow> 'd \<Rightarrow> 'v dwarf_unit list \<Rightarrow> bool" where
  "unit_cache_ok G dwarf cached \<longleftrightarrow> length cached \<le> UNIT_CAPACITY
     \<and> (\<forall>u \<in> set cached. \<forall>target offset. g_to_unit_offset G target (u_header u) = Some offset \<longrightarrow>
          unit_containing_offset G dwarf target = Inr (Some (u, offset)))"

lemma find_cached_unit_Some:
  "find_cached_unit G target cached = Some (index, offset) \<Longrightarrow>
    index < length cached \<and> g_to_unit_offset G target (u_header (cached ! index)) = Some offset"
  by (induction cached arbitrary: index) (auto split: option.splits)

lemma cached_unit_ok:
  assumes "lawful_units G dwarf" and "unit_cache_ok G dwarf cached"
  shows "fst (cached_unit G dwarf target cached) = unit_containing_offset G dwarf target
    \<and> unit_cache_ok G dwarf (snd (cached_unit G dwarf target cached))"
proof (cases "find_cached_unit G target cached")
  case (Some p)
  then obtain index offset where p: "p = (index, offset)" by (cases p)
  note f = find_cached_unit_Some[OF Some[unfolded p]]
  define front where "front = cached ! index # take index cached @ drop (Suc index) cached"
  have m: "set front \<subseteq> set cached" "length front = length cached"
    using f nth_mem[of index cached] by (auto simp: front_def dest: in_set_takeD in_set_dropD)
  have hit: "unit_containing_offset G dwarf target = Inr (Some (cached ! index, offset))"
    using assms(2) f nth_mem[of index cached] unfolding unit_cache_ok_def by blast
  have "unit_cache_ok G dwarf front" using assms(2) m unfolding unit_cache_ok_def by (metis subsetD)
  then show ?thesis by (simp add: cached_unit_def Some p front_def hit)
next
  case None
  show ?thesis
  proof (cases "\<exists>u offset. unit_containing_offset G dwarf target = Inr (Some (u, offset))")
    case False
    then show ?thesis using assms(2) None
      by (auto simp: cached_unit_def split: sum.splits option.splits)
  next
    case True
    then obtain u offset where u: "unit_containing_offset G dwarf target = Inr (Some (u, offset))" by blast
    have law: "\<And>header u. g_unit G dwarf header = Inr u \<Longrightarrow> u_header u = header"
      "\<And>header target offset. g_to_unit_offset G target header = Some offset \<Longrightarrow>
          \<exists>start. uh_debug_info_offset header = Some start \<and> start \<le> target \<and> target < start + uh_length header
            \<and> offset = target - start"
      using assms(1) unfolding lawful_units_def by blast+
    note here = unit_containing_here[OF u[unfolded unit_containing_offset_def] law(1)]
    have new: "unit_containing_offset G dwarf t = Inr (Some (u, off))" if "g_to_unit_offset G t (u_header u) = Some off" for t off
      using here law(2)[OF that] assms(1) unfolding lawful_units_def unit_containing_offset_def by force
    have "set (butlast cached) \<subseteq> set cached" by (auto dest: in_set_butlastD)
    then show ?thesis using assms(2) new u None
      unfolding cached_unit_def unit_cache_ok_def by (auto simp: subset_iff UNIT_CAPACITY_def)
  qed
qed

text \<open>What the entry cache relies on: units with the same key read the same entries.\<close>

definition lawful_entries :: "('d, 'v) gimli \<Rightarrow> 'v dwarf_unit set \<Rightarrow> bool" where
  "lawful_entries G units \<longleftrightarrow> (\<forall>u \<in> units. \<forall>u' \<in> units. uh_key (u_header u) = uh_key (u_header u') \<longrightarrow>
     g_read_entry G u = g_read_entry G u')"

definition entry_cache_ok :: "('d, 'v) gimli \<Rightarrow> 'v dwarf_unit set \<Rightarrow> 'v entry_cache \<Rightarrow> bool" where
  "entry_cache_ok G units cached \<longleftrightarrow> (cached = [] \<or> length cached = ENTRY_CACHE_CAPACITY)
     \<and> (\<forall>key offset entry. Some ((key, offset), entry) \<in> set cached \<longrightarrow>
          (\<exists>u \<in> units. uh_key (u_header u) = key \<and> g_read_entry G u offset = Inr (Some entry)))"

lemma entry_index_less: "entry_index hash key < ENTRY_CACHE_CAPACITY"
proof -
  have "hash key AND 127 = take_bit 7 (hash key)" by (simp add: take_bit_eq_mask mask_eq_exp_minus_1)
  moreover have "unat (take_bit 7 (hash key)) = unat (hash key) mod 128"
    by (simp only: unsigned_take_bit_eq) (simp add: take_bit_eq_mod)
  ultimately show ?thesis by (simp add: entry_index_def ENTRY_CACHE_CAPACITY_def)
qed

lemma cached_entry_ok:
  assumes "lawful_entries G units" and "u \<in> units" and "entry_cache_ok G units cached"
  shows "fst (cached_entry G hash u offset cached) = unit_entry G u offset
    \<and> entry_cache_ok G units (snd (cached_entry G hash u offset cached))"
proof (cases "g_entries_raw_at G u offset")
  case (Inr unit)
  define key where "key = (uh_key (u_header u), offset)"
  define index where "index = entry_index hash key"
  let ?hit = "Option.bind (nth_get cached index) (\<lambda>slot. Option.bind slot (\<lambda>(cached_key, entry).
              if cached_key = key then Some entry else None))"
  note eq = cached_entry_def[of G hash u offset cached, folded key_def, unfolded Let_def, folded index_def] 
  show ?thesis
  proof (cases ?hit)
    case (Some entry)
    then have "nth_get cached index = Some (Some (key, entry))" by (auto split: bind_splits if_splits)
    then have "Some (key, entry) \<in> set cached" by (metis nth_get_eq_Some nth_mem)
    then obtain u' where u': "u' \<in> units" "uh_key (u_header u') = uh_key (u_header u)" "g_read_entry G u' offset = Inr (Some entry)"
      using assms(3) unfolding entry_cache_ok_def key_def by blast
    then have "g_read_entry G u offset = Inr (Some entry)" using assms(1,2) unfolding lawful_entries_def by metis
    then show ?thesis using assms(3) Some Inr by (simp add: eq unit_entry_def)
  next
    case None
    define cached' where "cached' = (if cached = [] then replicate ENTRY_CACHE_CAPACITY None else cached)[index := None]"
    have len: "length cached' = ENTRY_CACHE_CAPACITY"
      using assms(3) by (auto simp: cached'_def entry_cache_ok_def)
    have sub: "x \<in> set cached' \<Longrightarrow> x = None \<or> x \<in> set cached" for x
      using set_update_subset_insert[of "if cached = [] then replicate ENTRY_CACHE_CAPACITY None else cached" index None]
      by (auto simp: cached'_def split: if_splits)
    have ok: "entry_cache_ok G units cached'"
      using assms(3) len sub unfolding entry_cache_ok_def by (metis option.distinct(1))
    have new: "entry_cache_ok G units (cached'[index := Some (key, entry)])" if "g_read_entry G u offset = Inr (Some entry)" for entry
    proof -
      have "x = Some (key, entry) \<or> x \<in> set cached'" if "x \<in> set (cached'[index := Some (key, entry)])" for x
        using that set_update_subset_insert[of cached' index "Some (key, entry)"] by blast
      then show ?thesis using ok len that assms(2) unfolding entry_cache_ok_def key_def
        by (metis length_list_update option.inject prod.inject)
    qed
    have miss: "cached_entry G hash u offset cached = (case from_gimli (g_read_entry G u offset) of
                Inl err \<Rightarrow> (Inl err, cached')
              | Inr None \<Rightarrow> (Inl (gimli_error (g_no_entry G offset)), cached')
              | Inr (Some entry) \<Rightarrow> (Inr entry, cached'[index := Some (key, entry)]))"
      by (simp only: eq Inr None from_gimli_simps sum.case option.case cached'_def)
    show ?thesis
    proof (cases "g_read_entry G u offset")
      case (Inr found)
      show ?thesis
      proof (cases found)
        case (Some entry)
        then show ?thesis using new Inr \<open>g_entries_raw_at G u offset = _\<close> by (simp add: miss unit_entry_def)
      qed (use ok Inr \<open>g_entries_raw_at G u offset = _\<close> in \<open>simp add: miss unit_entry_def\<close>)
    qed (use ok Inr in \<open>simp add: miss unit_entry_def\<close>)
  qed
qed (simp add: cached_entry_def unit_entry_def assms(3))


section \<open>What a resolved name is\<close>

text \<open>One reference from an entry to another, as \<open>resolve_value\<close> follows it.\<close>

inductive die_refers :: "('d, 'v) gimli \<Rightarrow> 'd \<times> 'v dwarf_unit \<times> 'v die \<Rightarrow> 'd \<times> 'v dwarf_unit \<times> 'v die \<Rightarrow> bool"
  for G where
  same_unit: "attribute \<in> set reference_attributes \<Longrightarrow> die_attr entry attribute = Some (UnitRef offset)
    \<Longrightarrow> unit_entry G u offset = Inr found \<Longrightarrow> die_refers G (dwarf, u, entry) (dwarf, u, found)"
| same_file: "attribute \<in> set reference_attributes \<Longrightarrow> die_attr entry attribute = Some (DebugInfoRef target)
    \<Longrightarrow> unit_containing_offset G dwarf target = Inr (Some (v, offset)) \<Longrightarrow> unit_entry G v offset = Inr found
    \<Longrightarrow> die_refers G (dwarf, u, entry) (dwarf, v, found)"
| supplementary: "attribute \<in> set reference_attributes \<Longrightarrow> die_attr entry attribute = Some (DebugInfoRefSup target)
    \<Longrightarrow> g_sup G dwarf = Some other \<Longrightarrow> unit_containing_offset G other target = Inr (Some (v, offset))
    \<Longrightarrow> unit_entry G v offset = Inr found \<Longrightarrow> die_refers G (dwarf, u, entry) (other, v, found)"

definition name_reached :: "('d, 'v) gimli \<Rightarrow> 'd \<times> 'v dwarf_unit \<times> 'v die \<Rightarrow> bytes \<Rightarrow> bool" where
  "name_reached G start name \<longleftrightarrow> name \<noteq> [] \<and> (\<exists>dwarf u entry. (die_refers G)\<^sup>*\<^sup>* start (dwarf, u, entry)
     \<and> own_name G dwarf u entry name_attributes = Inr (Some name))"

definition sound_resolver :: "('d, 'v) gimli \<Rightarrow> ('d, 'v) name_resolver \<Rightarrow> bool" where
  "sound_resolver G resolve \<longleftrightarrow> (\<forall>dwarf u entry source visited name visited'.
     resolve dwarf u entry source visited = Inr (Some name, visited') \<longrightarrow> name_reached G (dwarf, u, entry) name)"

lemma sound_resolverD:
  "sound_resolver G resolve \<Longrightarrow> resolve dwarf u entry source visited = Inr (Some name, visited') \<Longrightarrow> name_reached G (dwarf, u, entry) name"
  unfolding sound_resolver_def by blast

lemma own_name_nonempty: "own_name G dwarf u entry attributes = Inr (Some name) \<Longrightarrow> name \<noteq> []"
  by (induction attributes) (auto split: option.splits if_splits)

lemma name_reached_step: "die_refers G a b \<Longrightarrow> name_reached G b name \<Longrightarrow> name_reached G a name"
  unfolding name_reached_def by (meson converse_rtranclp_into_rtranclp)

lemma resolve_absolute_found:
  assumes "resolve_absolute_name G resolve dwarf target source visited = Inr (Some name, visited')" and "sound_resolver G resolve"
  shows "\<exists>u offset found. unit_containing_offset G dwarf target = Inr (Some (u, offset)) \<and> unit_entry G u offset = Inr found
    \<and> name_reached G (dwarf, u, found) name"
  using assms(1) unfolding resolve_absolute_name_def
  by (auto simp: Let_def case_prod_unfold split: if_splits option.splits) (rule sound_resolverD[OF assms(2)], assumption)

lemma resolve_unit_found:
  assumes "resolve_unit_name G resolve dwarf u offset source visited = Inr (Some name, visited')" and "sound_resolver G resolve"
  shows "\<exists>found. unit_entry G u offset = Inr found \<and> name_reached G (dwarf, u, found) name"
  using assms(1) unfolding resolve_unit_name_def
  by (auto simp: Let_def case_prod_unfold split: if_splits) (rule sound_resolverD[OF assms(2)], assumption)

lemma resolve_value_found:
  assumes "resolve_value G resolve dwarf u source (die_attr entry attribute) visited = Inr (Some name, visited')"
    and "sound_resolver G resolve" and "attribute \<in> set reference_attributes"
  shows "\<exists>next. die_refers G (dwarf, u, entry) next \<and> name_reached G next name"
proof (cases "die_attr entry attribute")
  case None
  then show ?thesis using assms(1) by (simp add: resolve_value_def)
next
  case (Some v)
  show ?thesis
  proof (cases v)
    case (UnitRef offset)
    then have r: "resolve_unit_name G resolve dwarf u offset source visited = Inr (Some name, visited')"
      using assms(1) Some by (simp add: resolve_value_def)
    obtain found where f: "unit_entry G u offset = Inr found" "name_reached G (dwarf, u, found) name"
      using resolve_unit_found[OF r assms(2)] by blast
    have "die_refers G (dwarf, u, entry) (dwarf, u, found)"
      by (rule die_refers.same_unit[OF assms(3) Some[unfolded UnitRef] f(1)])
    then show ?thesis using f(2) by blast
  next
    case (DebugInfoRef target)
    then have r: "resolve_absolute_name G resolve dwarf target MainSource visited = Inr (Some name, visited')"
      using assms(1) Some by (simp add: resolve_value_def)
    obtain v offset found where v: "unit_containing_offset G dwarf target = Inr (Some (v, offset))" "unit_entry G v offset = Inr found"
      "name_reached G (dwarf, v, found) name" using resolve_absolute_found[OF r assms(2)] by blast
    have "die_refers G (dwarf, u, entry) (dwarf, v, found)"
      by (rule die_refers.same_file[OF assms(3) Some[unfolded DebugInfoRef] v(1,2)])
    then show ?thesis using v(3) by blast
  next
    case (DebugInfoRefSup target)
    then obtain other where other: "g_sup G dwarf = Some other"
      and r: "resolve_absolute_name G resolve other target SupplementarySource visited = Inr (Some name, visited')"
      using assms(1) Some by (auto simp: resolve_value_def resolve_sup_name_def split: option.splits)
    obtain v offset found where v: "unit_containing_offset G other target = Inr (Some (v, offset))" "unit_entry G v offset = Inr found"
      "name_reached G (other, v, found) name" using resolve_absolute_found[OF r assms(2)] by blast
    have "die_refers G (dwarf, u, entry) (other, v, found)"
      by (rule die_refers.supplementary[OF assms(3) Some[unfolded DebugInfoRefSup] other v(1,2)])
    then show ?thesis using v(3) by blast
  qed (use assms(1) Some in \<open>simp_all add: resolve_value_def\<close>)
qed

lemma resolve_references_found:
  "resolve_references G resolve dwarf u entry source attributes visited = Inr (Some name, visited')
    \<Longrightarrow> sound_resolver G resolve \<Longrightarrow> set attributes \<subseteq> set reference_attributes
    \<Longrightarrow> name_reached G (dwarf, u, entry) name"
proof (induction attributes arbitrary: visited)
  case (Cons attribute attributes)
  obtain found visited1 where r: "resolve_value G resolve dwarf u source (die_attr entry attribute) visited = Inr (found, visited1)"
    using Cons.prems(1) by auto
  show ?case
  proof (cases found)
    case None
    then show ?thesis using Cons.IH[of visited1] Cons.prems r by simp
  next
    case (Some n)
    then have n: "n = name" using Cons.prems(1) r by simp
    have m: "attribute \<in> set reference_attributes" using Cons.prems(3) by simp
    show ?thesis using resolve_value_found[OF r[unfolded Some n] Cons.prems(2) m] name_reached_step by blast
  qed
qed simp

lemma resolve_name_inner_sound: "sound_resolver G (resolve_name_inner G left)"
proof (induction left)
  case 0
  then show ?case by (simp add: sound_resolver_def)
next
  case (Suc left)
  show ?case unfolding sound_resolver_def
  proof (intro allI impI)
    fix dwarf u entry source visited name visited'
    assume r: "resolve_name_inner G (Suc left) dwarf u entry source visited = Inr (Some name, visited')"
    then obtain own where own: "own_name G dwarf u entry name_attributes = Inr own"
      by (cases "own_name G dwarf u entry name_attributes") simp_all
    note r = r[unfolded resolve_name_inner.simps own let_ok_Inr]
    show "name_reached G (dwarf, u, entry) name"
    proof (cases own)
      case None
      show ?thesis
        by (rule resolve_references_found[OF r[unfolded None option.case] Suc.IH order_refl])
    next
      case (Some n)
      then have n: "own_name G dwarf u entry name_attributes = Inr (Some name)" using r own by simp
      then show ?thesis using own_name_nonempty[OF n] unfolding name_reached_def by (intro conjI exI) (auto intro: rtranclp.rtrancl_refl)
    qed
  qed
qed

lemma resolve_name_reached:
  assumes "resolve_name G dwarf u entry depth = Inr (Some name)"
  shows "name_reached G (dwarf, u, entry) name"
proof -
  obtain visited where "resolve_name_inner G (DEPTH_LIMIT - depth) dwarf u entry MainSource visited_dies_default = Inr (Some name, visited)"
    using assms by (auto simp: resolve_name_def)
  then show ?thesis by (rule sound_resolverD[OF resolve_name_inner_sound])
qed

lemma resolve_own_name:
  "own_name G dwarf u entry name_attributes = Inr (Some name) \<Longrightarrow> depth < DEPTH_LIMIT
    \<Longrightarrow> resolve_name G dwarf u entry depth = Inr (Some name)"
  by (cases "DEPTH_LIMIT - depth") (auto simp: resolve_name_def)


section \<open>Properties\<close>

text \<open>C29: The set of visited entries answers as a set does, before and after it spills from four keys in place to a hash
  set: over any sequence of insertions the answers are whether the key was new.\<close>

theorem visited_dies_refine_set:
  "map_prod id visited_set (insert_all keys visited_dies_default) = set_insert_all keys {}"
  using insert_all_set[of keys visited_dies_default] by (simp add: visited_dies_default_def)

text \<open>A sequence of cached lookups.\<close>

fun cached_units :: "('d, 'v) gimli \<Rightarrow> 'd \<Rightarrow> nat list \<Rightarrow> 'v dwarf_unit list
    \<Rightarrow> ('v dwarf_unit \<times> nat) option result list \<times> 'v dwarf_unit list" where
  "cached_units G dwarf [] cached = ([], cached)"
| "cached_units G dwarf (target # targets) cached =
     (let (found, cached) = cached_unit G dwarf target cached; (founds, cached) = cached_units G dwarf targets cached in
      (found # founds, cached))"

fun cached_entries :: "('d, 'v) gimli \<Rightarrow> (entry_key \<Rightarrow> u64) \<Rightarrow> ('v dwarf_unit \<times> nat) list \<Rightarrow> 'v entry_cache
    \<Rightarrow> 'v die result list \<times> 'v entry_cache" where
  "cached_entries G hash [] cached = ([], cached)"
| "cached_entries G hash ((u, offset) # requests) cached =
     (let (found, cached) = cached_entry G hash u offset cached; (founds, cached) = cached_entries G hash requests cached in
      (found # founds, cached))"

lemma cached_units_ok:
  "lawful_units G dwarf \<Longrightarrow> unit_cache_ok G dwarf cached
    \<Longrightarrow> fst (cached_units G dwarf targets cached) = map (unit_containing_offset G dwarf) targets
      \<and> unit_cache_ok G dwarf (snd (cached_units G dwarf targets cached))"
proof (induction targets arbitrary: cached)
  case (Cons target targets)
  then show ?case using cached_unit_ok[OF Cons.prems, of target] by (simp add: Let_def case_prod_unfold)
qed simp

lemma cached_entries_ok:
  "lawful_entries G (fst ` set requests \<union> units) \<Longrightarrow> entry_cache_ok G (fst ` set requests \<union> units) cached
    \<Longrightarrow> fst (cached_entries G hash requests cached) = map (\<lambda>(u, offset). unit_entry G u offset) requests"
proof (induction requests arbitrary: cached units)
  case (Cons request requests)
  obtain u offset where r: "request = (u, offset)" by (cases request)
  have e: "fst ` set (request # requests) \<union> units = fst ` set requests \<union> insert u units" by (auto simp: r)
  note step = cached_entry_ok[OF Cons.prems(1) _ Cons.prems(2), of u hash offset]
  show ?case using step Cons.IH[of "insert u units" "snd (cached_entry G hash u offset cached)"] Cons.prems(1) unfolding e
    by (simp add: r Let_def case_prod_unfold)
qed simp

text \<open>C30: The cache of units is transparent: over any sequence of lookups the eight most recently used units answer what
  a walk over all units answers, errors included, and never hold more than eight.\<close>

theorem cached_units_transparent:
  assumes "lawful_units G dwarf"
  shows "fst (cached_units G dwarf targets []) = map (unit_containing_offset G dwarf) targets
    \<and> length (snd (cached_units G dwarf targets [])) \<le> UNIT_CAPACITY"
  using cached_units_ok[OF assms, of "[]" targets] by (simp add: unit_cache_ok_def)

text \<open>C31: The direct-mapped cache of entries is transparent for every hash: over any sequence of requests it answers what
  reading each entry answers, errors included.\<close>

theorem cached_entries_transparent:
  assumes "lawful_entries G (fst ` set requests)"
  shows "fst (cached_entries G hash requests []) = map (\<lambda>(u, offset). unit_entry G u offset) requests"
  using cached_entries_ok[of G requests "{}" "[]" hash] assms by (simp add: entry_cache_ok_def)

text \<open>C32: A resolved name is a name: it is not empty, and it is the own name of an entry reached from the start by a chain
  of abstract origins and specifications, across units and into the supplementary file. An entry with a name of its
  own keeps it.\<close>

theorem resolve_name_sound:
  "(resolve_name G dwarf u entry 0 = Inr (Some name) \<longrightarrow> name_reached G (dwarf, u, entry) name)
    \<and> (own_name G dwarf u entry name_attributes = Inr (Some name) \<longrightarrow> resolve_name G dwarf u entry 0 = Inr (Some name))"
  using resolve_name_reached[of G dwarf u entry 0 name] resolve_own_name[of G dwarf u entry name 0] by (simp add: DEPTH_LIMIT_def)

section \<open>A main and a supplementary file\<close>

text \<open>One unit each. In the main file the entry at 5 refers to the one at 10, which refers to the one at 20 of the
  supplementary file, which refers to the one at 10 of its own file, the only one with a name.\<close>

definition sample_header :: "nat \<Rightarrow> unit_header" where
  "sample_header file_number = \<lparr>uh_key = (file_number, 0), uh_debug_info_offset = Some 0, uh_length = 100, uh_version = 4, uh_dwarf64 = False\<rparr>"

definition sample_unit :: "nat \<Rightarrow> bytes dwarf_unit" where
  "sample_unit file_number = \<lparr>u_header = sample_header file_number, u_dwo_id = None, u_comp_dir = None, u_line_program = None\<rparr>"

definition sample_die :: "dw_at \<Rightarrow> bytes attribute_value \<Rightarrow> bytes die" where
  "sample_die name v = \<lparr>die_depth = 0, die_tag = DW_TAG_subprogram, die_offset = 0, die_attr = [name \<mapsto> v]\<rparr>"

definition sample_read :: "bytes dwarf_unit \<Rightarrow> nat \<Rightarrow> bytes die option gimli_result" where
  "sample_read u offset =
     (if fst (uh_key (u_header u)) = 0
      then Inr (if offset = 5 then Some (sample_die DW_AT_abstract_origin (UnitRef 10))
        else if offset = 10 then Some (sample_die DW_AT_abstract_origin (DebugInfoRefSup 20)) else None)
      else Inr (if offset = 20 then Some (sample_die DW_AT_abstract_origin (DebugInfoRef 10))
        else if offset = 10 then Some (sample_die DW_AT_name (OtherValue [102])) else None))"

definition sample_gimli :: "(nat, bytes) gimli" where
  "sample_gimli = \<lparr>g_line_codes = dwarf_line_codes, g_sup = (\<lambda>d. if d = 0 then Some 1 else None), g_is_dwo = (\<lambda>_. False),
     g_debug_line_is_empty = (\<lambda>_. True), g_first_line_program = (\<lambda>_ _. Inl []), g_units = (\<lambda>d. ([sample_header d], None)),
     g_unit = (\<lambda>d h. Inr \<lparr>u_header = h, u_dwo_id = None, u_comp_dir = None, u_line_program = None\<rparr>),
     g_to_unit_offset = (\<lambda>target h. case uh_debug_info_offset h of None \<Rightarrow> None
       | Some start \<Rightarrow> if start \<le> target \<and> target < start + uh_length h then Some (target - start) else None),
     g_entries_raw = (\<lambda>_. Inr []), g_entries_raw_at = (\<lambda>_ _. Inr ()), g_read_entry = sample_read, g_no_entry = (\<lambda>_. []),
     g_entries_at_offset = (\<lambda>_ _. Inr ([], None)),
     g_attr_string = (\<lambda>_ _ v. Inr (Inr (case v of OtherValue bs \<Rightarrow> bs | _ \<Rightarrow> []))), g_attr_address = (\<lambda>_ _ _. Inr None),
     g_udata_value = (\<lambda>_. None), g_die_ranges = (\<lambda>_ _ _. Inr ([], None)), g_is_tombstone = (\<lambda>_ _. False),
     g_copy_relocated = (\<lambda>u _. u)\<rparr>"

lemmas sample_dwarf = sample_gimli_def sample_read_def sample_die_def sample_unit_def sample_header_def
  unit_entry_def unit_containing_offset_def checked_add_def absolute_entry_offset_def name_attributes_def reference_attributes_def
  attribute_bytes_def attribute_reader_def

lemma cached_units_transparent_witness:
  "fst (cached_units sample_gimli 1 [20, 30, 200] []) = [Inr (Some (sample_unit 1, 20)), Inr (Some (sample_unit 1, 30)), Inr None]"
proof -
  have "lawful_units sample_gimli 1" by (auto simp: lawful_units_def sample_gimli_def split: option.splits if_splits)
  from cached_units_transparent[OF this, of "[20, 30, 200]"] show ?thesis by (simp add: sample_dwarf)
qed

lemma cached_entries_transparent_witness:
  "fst (cached_entries sample_gimli (\<lambda>_. 7) [(sample_unit 1, 10), (sample_unit 0, 5), (sample_unit 1, 10), (sample_unit 1, 11)] [])
    = [Inr (sample_die DW_AT_name (OtherValue [102])), Inr (sample_die DW_AT_abstract_origin (UnitRef 10)),
       Inr (sample_die DW_AT_name (OtherValue [102])), Inl (gimli_error [])]"
proof -
  have "lawful_entries sample_gimli (fst ` set [(sample_unit 1, 10), (sample_unit 0, 5), (sample_unit 1, 10), (sample_unit 1, 11)])"
    by (auto simp: lawful_entries_def sample_unit_def sample_header_def)
  from cached_entries_transparent[OF this, of "\<lambda>_. 7"] show ?thesis by (simp add: sample_dwarf)
qed

lemma resolve_name_sound_witness:
  "resolve_name sample_gimli 1 (sample_unit 1) (sample_die DW_AT_name (OtherValue [102])) 0 = Inr (Some [102])
    \<and> name_reached sample_gimli (1, sample_unit 1, sample_die DW_AT_name (OtherValue [102])) [102]"
proof -
  have own: "own_name sample_gimli 1 (sample_unit 1) (sample_die DW_AT_name (OtherValue [102])) name_attributes = Inr (Some [102])"
    by (simp add: sample_dwarf)
  show ?thesis
    using resolve_name_sound[of sample_gimli 1 "sample_unit 1" "sample_die DW_AT_name (OtherValue [102])" "[102]"] own by blast
qed

text \<open>C33: A reference inside the supplementary file is recorded as one of the main file, so that an offset visited in the main
  file hides the entry at the same offset of the supplementary file: the name is reachable and is not found.\<close>

lemma supplementary_offset_hidden:
  "resolve_name sample_gimli 0 (sample_unit 0) (sample_die DW_AT_abstract_origin (UnitRef 10)) 0 = Inr None
    \<and> name_reached sample_gimli (0, sample_unit 0, sample_die DW_AT_abstract_origin (UnitRef 10)) [102]"
proof
  have "DEPTH_LIMIT = Suc (Suc (Suc (Suc 60)))" by (simp add: DEPTH_LIMIT_def)
  then obtain k where left: "DEPTH_LIMIT = Suc (Suc (Suc (Suc k)))" by blast
  show "resolve_name sample_gimli 0 (sample_unit 0) (sample_die DW_AT_abstract_origin (UnitRef 10)) 0 = Inr None"
    by (simp add: resolve_name_def left sample_dwarf resolve_value_def resolve_unit_name_def
        resolve_sup_name_def resolve_absolute_name_def visited_dies_default_def SMALL_SIZE_def cong: let_ok_weak_cong)
  let ?e = "\<lambda>v. sample_die DW_AT_abstract_origin v"
  have a: "DW_AT_abstract_origin \<in> set reference_attributes" by (simp add: reference_attributes_def)
  have "die_refers sample_gimli (0, sample_unit 0, ?e (UnitRef 10)) (0, sample_unit 0, ?e (DebugInfoRefSup 20))"
    by (rule die_refers.same_unit[OF a, where offset = 10]) (simp_all add: sample_dwarf)
  moreover have "die_refers sample_gimli (0, sample_unit 0, ?e (DebugInfoRefSup 20)) (1, sample_unit 1, ?e (DebugInfoRef 10))"
    by (rule die_refers.supplementary[OF a, where target = 20 and offset = 20]) (simp_all add: sample_dwarf)
  moreover have "die_refers sample_gimli (1, sample_unit 1, ?e (DebugInfoRef 10)) (1, sample_unit 1, sample_die DW_AT_name (OtherValue [102]))"
    by (rule die_refers.same_file[OF a, where target = 10 and offset = 10]) (simp_all add: sample_dwarf)
  ultimately have "(die_refers sample_gimli)\<^sup>*\<^sup>* (0, sample_unit 0, ?e (UnitRef 10)) (1, sample_unit 1, sample_die DW_AT_name (OtherValue [102]))"
    by (meson converse_rtranclp_into_rtranclp rtranclp.rtrancl_refl)
  moreover have "own_name sample_gimli 1 (sample_unit 1) (sample_die DW_AT_name (OtherValue [102])) name_attributes = Inr (Some [102])"
    by (simp add: sample_dwarf)
  ultimately show "name_reached sample_gimli (0, sample_unit 0, ?e (UnitRef 10)) [102]"
    unfolding name_reached_def by blast
qed

end
