(* ===== verification/DwarfDies.thy ===== *)
theory DwarfDies
  imports DwarfRefs
begin

text \<open>
  \<open>src/convert/dwarf/dies.rs\<close>: inline nodes and call sites below a subprogram. The descendants come in depth-first
  order with their depths; a stack of open frames turns them into a forest. Stacks are lists with the top first.
\<close>

section \<open>Ranges\<close>

definition coalesce_ranges :: "address_range list \<Rightarrow> address_range list" where
  "coalesce_ranges ranges = dedup_by (\<lambda>r previous.
     if r_start r \<le> r_end previous then (True, r, previous\<lparr>r_end := max (r_end previous) (r_end r)\<rparr>)
     else (False, r, previous)) (sort ranges)"

definition keep_range :: "address_range list \<Rightarrow> u64 \<times> u64 \<Rightarrow> address_range list \<Rightarrow> address_range list" where
  "keep_range parent_ranges r valid_ranges =
     (if fst r < snd r \<and> list_ex (\<lambda>parent. contains_range parent (mk_range (fst r) (snd r))) parent_ranges
      then valid_ranges @ [mk_range (fst r) (snd r)] else valid_ranges)"

section \<open>Nodes\<close>

definition call_file_of :: "('d, 'v) gimli \<Rightarrow> 'v dwarf_unit \<Rightarrow> 'v die \<Rightarrow> file_indices \<Rightarrow> conversion_warning list
    \<Rightarrow> (file_index \<times> conversion_warning list) result" where
  "call_file_of G u entry files warnings =
     (case file_index_attribute G entry DW_AT_call_file of
        None \<Rightarrow> Inr (0, warnings)
      | Some dwarf_index \<Rightarrow>
         (case file_indices_get files dwarf_index of
            Some index \<Rightarrow> Inr (index, warnings)
          | None \<Rightarrow> let_ok (absolute_entry_offset u (die_offset entry)) (\<lambda>offset.
              Inr (0, warnings @ [MissingInlineCallFile (word_of_nat offset) dwarf_index]))))"

definition call_line_of :: "('d, 'v) gimli \<Rightarrow> 'v dwarf_unit \<Rightarrow> 'v die \<Rightarrow> conversion_warning list
    \<Rightarrow> (u32 \<times> conversion_warning list) result" where
  "call_line_of G u entry warnings =
     (let call_line = (case unsigned_attribute G entry DW_AT_call_line of None \<Rightarrow> 0 | Some v \<Rightarrow> v) in
      case u32_try_from (unat call_line) of
        Some ln \<Rightarrow> Inr (ln, warnings)
      | None \<Rightarrow> let_ok (absolute_entry_offset u (die_offset entry)) (\<lambda>offset.
          Inr (0, warnings @ [InvalidInlineCallLine (word_of_nat offset) call_line])))"

definition make_inline_node :: "('d, 'v) gimli \<Rightarrow> 'd \<Rightarrow> 'v dwarf_unit \<Rightarrow> 'v die \<Rightarrow> address_range list \<Rightarrow> file_indices
    \<Rightarrow> conversion_warning list \<Rightarrow> (inline_node option \<times> conversion_warning list) result" where
  "make_inline_node G dwarf u entry parent_ranges files warnings =
     let_ok (resolve_name G dwarf u entry 0) (\<lambda>name.
     case name of None \<Rightarrow> Inr (None, warnings) | Some name \<Rightarrow>
     let_ok (from_gimli (g_die_ranges G dwarf u entry)) (\<lambda>ranges.
     let_ok (for_each (\<lambda>r valid_ranges. Inr (keep_range parent_ranges r valid_ranges)) ranges []) (\<lambda>valid_ranges.
     let valid_ranges = coalesce_ranges valid_ranges in
     if valid_ranges = [] then Inr (None, warnings)
     else
       let_ok (call_file_of G u entry files warnings) (\<lambda>(call_file, warnings).
       let_ok (call_line_of G u entry warnings) (\<lambda>(call_line, warnings).
       Inr (Some (InlineNode valid_ranges name call_file call_line []), warnings))))))"

definition make_call_site :: "('d, 'v) gimli \<Rightarrow> 'd \<Rightarrow> 'v dwarf_unit \<Rightarrow> 'v die \<Rightarrow> address_range \<Rightarrow> call_site option result" where
  "make_call_site G dwarf u entry function_range =
     (case die_attr entry DW_AT_call_return_pc of
        None \<Rightarrow> Inr None
      | Some v \<Rightarrow>
          let_ok (from_gimli (g_attr_address G dwarf u v)) (\<lambda>return_pc.
          case return_pc of None \<Rightarrow> Inr None | Some return_pc \<Rightarrow>
          if \<not> range_contains function_range return_pc then Inr None
          else
            case checked_sub_u64 return_pc (r_start function_range) of None \<Rightarrow> Inr None | Some offset \<Rightarrow>
            let_ok (case die_attr entry DW_AT_call_origin of
                None \<Rightarrow> Inr []
              | Some origin \<Rightarrow> let_ok (resolve_reference_name G dwarf u origin 0 visited_dies_default) (\<lambda>(name, _).
                  Inr (case name of None \<Rightarrow> [] | Some name \<Rightarrow> [name]))) (\<lambda>patterns.
            Inr (Some \<lparr>return_offset = offset, site_flags = 0, match_regex = patterns\<rparr>))))"

section \<open>The stacks\<close>

type_synonym inline_stack = "(int \<times> inline_node) list"
type_synonym site_stack = "(int \<times> call_site) list"

fun add_children :: "inline_node list \<Rightarrow> inline_node \<Rightarrow> inline_node" where
  "add_children nodes (InlineNode ranges name cfile cline children) = InlineNode ranges name cfile cline (children @ nodes)"

fun finish_inline :: "inline_stack \<Rightarrow> inline_node list \<Rightarrow> inline_stack \<times> inline_node list" where
  "finish_inline [] roots = ([], roots)"
| "finish_inline [(depth, node)] roots = ([], roots @ [node])"
| "finish_inline ((depth, node) # (parent_depth, parent) # stack) roots = ((parent_depth, add_children [node] parent) # stack, roots)"

lemma finish_inline_length: "length (fst (finish_inline stack roots)) = length stack - 1"
  by (cases "(stack, roots)" rule: finish_inline.cases) auto

text \<open>The two \<open>while\<close> loops around it: down to a depth, and until the stack is empty.\<close>

function finish_while :: "(int \<Rightarrow> bool) \<Rightarrow> inline_stack \<Rightarrow> inline_node list \<Rightarrow> inline_stack \<times> inline_node list" where
  "finish_while p stack roots =
     (if stack \<noteq> [] \<and> p (fst (hd stack))
      then finish_while p (fst (finish_inline stack roots)) (snd (finish_inline stack roots)) else (stack, roots))"
  by pat_completeness auto
termination
  by (relation "measure (\<lambda>(p, stack, roots). length stack)") (auto simp: finish_inline_length case_prod_unfold)

declare finish_while.simps [simp del]

fun finish_call_sites :: "site_stack \<Rightarrow> int \<Rightarrow> call_site list \<Rightarrow> site_stack \<times> call_site list" where
  "finish_call_sites [] next_depth output = ([], output)"
| "finish_call_sites ((depth, site) # stack) next_depth output =
     (if depth \<ge> next_depth then finish_call_sites stack next_depth (output @ [site]) else ((depth, site) # stack, output))"

section \<open>The traversal\<close>

record ('d, 'v) detail_context =
  dc_dwarf :: 'd
  dc_unit :: "'v dwarf_unit"
  dc_range :: address_range
  dc_files :: file_indices
  dc_inlines :: bool
  dc_call_sites :: bool

record descend_state =
  d_inline_stack :: inline_stack
  d_site_stack :: site_stack
  d_inlines :: "inline_node list"
  d_call_sites :: "call_site list"
  d_count :: nat
  d_warnings :: "conversion_warning list"

definition close_frames :: "int \<Rightarrow> descend_state \<Rightarrow> descend_state" where
  "close_frames depth s =
     (let (sites, call_sites) = finish_call_sites (d_site_stack s) depth (d_call_sites s);
          (inlines, roots) = finish_while (\<lambda>frame_depth. depth \<le> frame_depth) (d_inline_stack s) (d_inlines s) in
      s\<lparr>d_site_stack := sites, d_call_sites := call_sites, d_inline_stack := inlines, d_inlines := roots\<rparr>)"

definition open_call_site :: "('d, 'v) gimli \<Rightarrow> ('d, 'v) detail_context \<Rightarrow> 'v die \<Rightarrow> descend_state \<Rightarrow> descend_state result" where
  "open_call_site G ctx entry s =
     (if dc_call_sites ctx \<and> die_tag entry = DW_TAG_call_site
      then let_ok (make_call_site G (dc_dwarf ctx) (dc_unit ctx) entry (dc_range ctx)) (\<lambda>site.
        Inr (case site of None \<Rightarrow> s | Some site \<Rightarrow> s\<lparr>d_site_stack := (die_depth entry, site) # d_site_stack s\<rparr>))
      else Inr s)"

definition parent_ranges :: "('d, 'v) detail_context \<Rightarrow> inline_stack \<Rightarrow> address_range list" where
  "parent_ranges ctx stack = (case stack of [] \<Rightarrow> [dc_range ctx] | (_, node) # _ \<Rightarrow> node_ranges node)"

definition open_inline :: "('d, 'v) gimli \<Rightarrow> ('d, 'v) detail_context \<Rightarrow> 'v die \<Rightarrow> descend_state \<Rightarrow> descend_state result" where
  "open_inline G ctx entry s =
     (if dc_inlines ctx \<and> die_tag entry = DW_TAG_inlined_subroutine
      then let_ok (make_inline_node G (dc_dwarf ctx) (dc_unit ctx) entry (parent_ranges ctx (d_inline_stack s)) (dc_files ctx)
          (d_warnings s)) (\<lambda>(node, warnings).
        case node of
          None \<Rightarrow> Inr (s\<lparr>d_warnings := warnings\<rparr>)
        | Some node \<Rightarrow>
            let_ok (check_inline_depth (saturating_add (length (d_inline_stack s)) 1)) (\<lambda>_.
            Inr (s\<lparr>d_warnings := warnings, d_count := saturating_add (d_count s) 1,
              d_inline_stack := (die_depth entry, node) # d_inline_stack s\<rparr>)))
      else Inr s)"

definition visit_descendant :: "('d, 'v) gimli \<Rightarrow> ('d, 'v) detail_context \<Rightarrow> 'v die \<Rightarrow> descend_state \<Rightarrow> descend_state result" where
  "visit_descendant G ctx entry s =
     let_ok (open_call_site G ctx entry (close_frames (die_depth entry) s)) (open_inline G ctx entry)"

fun visit_descendants :: "('d, 'v) gimli \<Rightarrow> ('d, 'v) detail_context \<Rightarrow> int \<Rightarrow> string option \<Rightarrow> 'v die list
    \<Rightarrow> descend_state \<Rightarrow> descend_state result" where
  "visit_descendants G ctx root_depth failure [] s =
     (case failure of None \<Rightarrow> Inr s | Some message \<Rightarrow> Inl (gimli_error message))"
| "visit_descendants G ctx root_depth failure (entry # entries) s =
     (if die_depth entry \<le> root_depth then Inr s
      else let_ok (visit_descendant G ctx entry s) (visit_descendants G ctx root_depth failure entries))"

definition descend_state_new :: "conversion_warning list \<Rightarrow> descend_state" where
  "descend_state_new warnings = \<lparr>d_inline_stack = [], d_site_stack = [], d_inlines = [], d_call_sites = [], d_count = 0,
     d_warnings = warnings\<rparr>"

definition finish_descendants :: "int \<Rightarrow> descend_state \<Rightarrow> descend_state" where
  "finish_descendants root_depth s =
     (let (inlines, roots) = finish_while (\<lambda>_. True) (d_inline_stack s) (d_inlines s);
          (sites, call_sites) = finish_call_sites (d_site_stack s) root_depth (d_call_sites s) in
      s\<lparr>d_site_stack := sites, d_call_sites := call_sites, d_inline_stack := inlines, d_inlines := roots\<rparr>)"

definition collect_descendants :: "('d, 'v) gimli \<Rightarrow> ('d, 'v) detail_context \<Rightarrow> nat \<Rightarrow> conversion_warning list \<Rightarrow> descend_state result" where
  "collect_descendants G ctx offset warnings =
     let_ok (from_gimli (g_entries_at_offset G (dc_unit ctx) offset)) (\<lambda>(entries, failure).
     case entries of
       [] \<Rightarrow> (case failure of None \<Rightarrow> Inr (descend_state_new warnings) | Some message \<Rightarrow> Inl (gimli_error message))
     | root # entries \<Rightarrow>
         let_ok (visit_descendants G ctx (die_depth root) failure entries (descend_state_new warnings)) (\<lambda>s.
         Inr (finish_descendants (die_depth root) s)))"

definition extract_subprogram_details :: "('d, 'v) gimli \<Rightarrow> ('d, 'v) detail_context \<Rightarrow> nat \<Rightarrow> bytes \<Rightarrow> conversion_warning list
    \<Rightarrow> (inline_node option \<times> call_site list \<times> nat \<times> conversion_warning list) result" where
  "extract_subprogram_details G ctx offset function_name warnings =
     (if \<not> dc_inlines ctx \<and> \<not> dc_call_sites ctx then Inr (None, [], 0, warnings)
      else let_ok (collect_descendants G ctx offset warnings) (\<lambda>s.
        Inr (if d_inlines s \<noteq> [] then Some (InlineNode [dc_range ctx] function_name 0 0 (d_inlines s)) else None,
          d_call_sites s, d_count s, d_warnings s)))"

section \<open>Coalesced ranges\<close>

definition live_range :: "address_range \<Rightarrow> bool" where
  "live_range r \<longleftrightarrow> r_start r < r_end r"

text \<open>Sorted, and with a gap between each range and the next.\<close>

fun separated :: "address_range list \<Rightarrow> bool" where
  "separated [] \<longleftrightarrow> True"
| "separated [r] \<longleftrightarrow> live_range r"
| "separated (r # s # rest) \<longleftrightarrow> live_range r \<and> r_end r < r_start s \<and> separated (s # rest)"

lemma range_contains_live: "live_range r \<Longrightarrow> range_contains r a \<longleftrightarrow> r_start r \<le> a \<and> a < r_end r"
  by (auto simp: range_contains_def live_range_def range_is_valid_def)

abbreviation coalesce_step :: "address_range \<Rightarrow> address_range \<Rightarrow> bool \<times> address_range \<times> address_range" where
  "coalesce_step \<equiv> (\<lambda>r previous.
     if r_start r \<le> r_end previous then (True, r, previous\<lparr>r_end := max (r_end previous) (r_end r)\<rparr>)
     else (False, r, previous))"

lemma coalesce_from:
  assumes "sorted (map r_start (previous # rest))" and "\<forall>r \<in> set (previous # rest). live_range r"
  shows "separated (dedup_from coalesce_step previous rest)
    \<and> r_start (hd (dedup_from coalesce_step previous rest)) = r_start previous
    \<and> dedup_from coalesce_step previous rest \<noteq> []
    \<and> (\<forall>a. (\<exists>r \<in> set (dedup_from coalesce_step previous rest). range_contains r a)
          \<longleftrightarrow> (\<exists>r \<in> set (previous # rest). range_contains r a))"
  using assms
proof (induction rest arbitrary: previous)
  case (Cons r rest)
  show ?case
  proof (cases "r_start r \<le> r_end previous")
    case True
    define joined where "joined = previous\<lparr>r_end := max (r_end previous) (r_end r)\<rparr>"
    have live: "live_range joined" "r_start joined = r_start previous" "r_start previous \<le> r_start r" "live_range previous" "live_range r"
      using Cons.prems by (auto simp: joined_def live_range_def max_def)
    have join: "range_contains joined a \<longleftrightarrow> range_contains previous a \<or> range_contains r a" for a
      using live True unfolding range_contains_live[OF live(1)] range_contains_live[OF live(4)] range_contains_live[OF live(5)]
      by (auto simp: joined_def max_def)
    have "sorted (map r_start (joined # rest))" using Cons.prems(1) live(2) by simp
    moreover have "\<forall>r \<in> set (joined # rest). live_range r" using Cons.prems(2) live(1) by simp
    ultimately have ih: "separated (dedup_from coalesce_step joined rest)
        \<and> r_start (hd (dedup_from coalesce_step joined rest)) = r_start joined
        \<and> dedup_from coalesce_step joined rest \<noteq> []
        \<and> (\<forall>a. (\<exists>r \<in> set (dedup_from coalesce_step joined rest). range_contains r a)
              \<longleftrightarrow> (\<exists>r \<in> set (joined # rest). range_contains r a))"
      by (rule Cons.IH)
    have "dedup_from coalesce_step previous (r # rest) = dedup_from coalesce_step joined rest"
      using True by (simp add: joined_def)
    then show ?thesis using ih live(2) join by auto
  next
    case False
    have "sorted (map r_start (r # rest))" "\<forall>r \<in> set (r # rest). live_range r" using Cons.prems by auto
    note ih = Cons.IH[OF this]
    have d: "dedup_from coalesce_step previous (r # rest) = previous # dedup_from coalesce_step r rest"
      using False by simp
    obtain first others where fo: "dedup_from coalesce_step r rest = first # others"
      using ih by (cases "dedup_from coalesce_step r rest") auto
    have "separated (previous # first # others)" using ih fo False Cons.prems(2) by (simp add: not_le)
    then show ?thesis unfolding d using ih fo by auto
  qed
qed simp

lemma coalesce_ranges_spec:
  assumes "\<forall>r \<in> set ranges. live_range r"
  shows "separated (coalesce_ranges ranges)
    \<and> (\<forall>a. (\<exists>r \<in> set (coalesce_ranges ranges). range_contains r a) \<longleftrightarrow> (\<exists>r \<in> set ranges. range_contains r a))
    \<and> (coalesce_ranges ranges = [] \<longleftrightarrow> ranges = [])"
proof (cases "sort ranges")
  case Nil
  then have "ranges = []" by (metis length_0_conv length_sort)
  then show ?thesis by (simp add: coalesce_ranges_def dedup_by_def)
next
  case (Cons previous rest)
  have "sorted (sort ranges)" by simp
  then have s: "sorted (map r_start (previous # rest))" unfolding Cons
    by (auto simp: sorted_wrt_map intro: range_le_start elim!: sorted_wrt_mono_rel[rotated])
  have m: "set (previous # rest) = set ranges" using arg_cong[OF Cons, of set] by simp
  have eq: "coalesce_ranges ranges = dedup_from coalesce_step previous rest"
    unfolding coalesce_ranges_def dedup_by_def Cons by simp
  have ne: "ranges \<noteq> []" using m by auto
  have "\<forall>r \<in> set (previous # rest). live_range r" unfolding m by (rule assms)
  from coalesce_from[OF s this, unfolded m] show ?thesis unfolding eq using ne by blast
qed

section \<open>Properties\<close>

text \<open>C37: Overlapping, adjacent and repeated ranges are merged: for ranges that are not empty, the result is sorted with a
  gap between each range and the next, and covers the same addresses.\<close>

theorem coalesce_ranges_exact:
  assumes "\<forall>r \<in> set ranges. live_range r"
  shows "separated (coalesce_ranges ranges)
    \<and> (\<forall>a. (\<exists>r \<in> set (coalesce_ranges ranges). range_contains r a) \<longleftrightarrow> (\<exists>r \<in> set ranges. range_contains r a))"
  using coalesce_ranges_spec[OF assms] by blast

lemma coalesce_ranges_exact_witness:
  "separated (coalesce_ranges [mk_range 0x20 0x30, mk_range 0x10 0x18, mk_range 0x14 0x24, mk_range 0x40 0x48, mk_range 0x48 0x50])
    \<and> (\<exists>r \<in> set (coalesce_ranges [mk_range 0x20 0x30, mk_range 0x10 0x18, mk_range 0x14 0x24, mk_range 0x40 0x48, mk_range 0x48 0x50]).
        range_contains r 0x1c)"
proof -
  let ?ranges = "[mk_range 0x20 0x30, mk_range 0x10 0x18, mk_range 0x14 0x24, mk_range 0x40 0x48, mk_range 0x48 0x50]"
  have "\<forall>r \<in> set ?ranges. live_range r" by (simp add: live_range_def)
  note spec = coalesce_ranges_exact[OF this]
  have "range_contains (mk_range 0x14 0x24) 0x1c" by (simp add: range_contains_def range_is_valid_def)
  then have "\<exists>r \<in> set ?ranges. range_contains r 0x1c" by simp
  then show ?thesis using spec by blast
qed

section \<open>A subprogram with an inlined call\<close>

definition sample_entry :: "int \<Rightarrow> dw_tag \<Rightarrow> bytes \<Rightarrow> bytes die" where
  "sample_entry depth tag name = \<lparr>die_depth = depth, die_tag = tag, die_offset = 10, die_attr = [DW_AT_name \<mapsto> OtherValue name]\<rparr>"

definition sample_subprogram :: "bytes die" where
  "sample_subprogram = sample_entry 1 DW_TAG_subprogram [102]"

definition sample_import :: "(nat, bytes) gimli" where
  "sample_import = sample_gimli\<lparr>
     g_entries_raw := (\<lambda>_. Inr [\<lparr>raw_abbreviation = Inr (Some DW_TAG_subprogram), raw_attributes = Inr (), raw_die = Inr sample_subprogram\<rparr>]),
     g_entries_at_offset := (\<lambda>_ _. Inr ([sample_subprogram, sample_entry 2 DW_TAG_inlined_subroutine [103]], None)),
     g_die_ranges := (\<lambda>_ _ entry. Inr ([if die_tag entry = DW_TAG_subprogram then (0x1000, 0x1010) else (0x1004, 0x1008)], None))\<rparr>"

lemmas sample_entry_eval = sample_dwarf sample_entry_def sample_subprogram_def sample_import_def

lemma sample_name: "resolve_name sample_import 2 u (sample_entry depth tag (c # name)) 0 = Inr (Some (c # name))"
proof (rule resolve_own_name)
  show "own_name sample_import 2 u (sample_entry depth tag (c # name)) name_attributes = Inr (Some (c # name))"
    by (simp add: sample_entry_eval)
qed (simp add: DEPTH_LIMIT_def)

lemma sample_details:
  "extract_subprogram_details sample_import \<lparr>dc_dwarf = 2, dc_unit = sample_unit 2, dc_range = mk_range 0x1000 0x1010,
      dc_files = file_indices_default, dc_inlines = True, dc_call_sites = True\<rparr> 10 [102] []
    = Inr (Some (InlineNode [mk_range 0x1000 0x1010] [102] 0 0 [InlineNode [mk_range 0x1004 0x1008] [103] 0 0 []]), [], 1, [])"
  using sample_name[of "sample_unit 2" 2 DW_TAG_inlined_subroutine 103 "[]"]
  by (simp add: extract_subprogram_details_def collect_descendants_def descend_state_new_def visit_descendant_def close_frames_def
      finish_while.simps open_call_site_def open_inline_def make_inline_node_def parent_ranges_def keep_range_def coalesce_ranges_def
      for_each_def contains_range_def range_is_valid_def call_file_of_def call_line_of_def unsigned_attribute_def file_index_attribute_def
      check_inline_depth_def MAX_INLINE_DEPTH_def saturating_add_def finish_descendants_def dedup_by_def u32_try_from_def sample_entry_eval
      cong: let_ok_weak_cong)

end
