(* ===== verification/Readback.thy ===== *)
theory Readback
  imports Transform
begin

text \<open>
  What a reader finds of the strings and functions that \<open>src/writer/semantic.rs\<close> encoded: the strings at the
  offsets that interning returned, and the functions that \<open>src/reader/owned.rs\<close> converts back.
\<close>

section \<open>Reading strings back\<close>

text \<open>What a reader finds at the offset of an interned string: the bytes up to its first zero byte. For the strings
  of a file these are all its bytes.\<close>

abbreviation until_nul :: "bytes \<Rightarrow> bytes" where
  "until_nul s \<equiv> takeWhile (\<lambda>b. b \<noteq> 0) s"

lemma until_nul_id: "0 \<notin> set s \<Longrightarrow> until_nul s = s"
  unfolding takeWhile_eq_all_conv by metis

lemma string_text_drop:
  assumes "string_invar env table" "(h, x) \<in> ht_contents (string_entries env) (st_entries table)"
  shows "\<exists>rest. drop (se_offset x) (st_bytes table) = string_text (st_bytes table) x @ 0 # rest"
proof -
  note e = string_invar_entry(1,2)[OF assms]
  have "drop (se_offset x) (st_bytes table) = string_text (st_bytes table) x @ drop (se_len x) (drop (se_offset x) (st_bytes table))"
    by (simp add: string_text_def del: drop_drop)
  moreover have "drop (se_len x) (drop (se_offset x) (st_bytes table)) = 0 # drop (Suc (se_offset x + se_len x)) (st_bytes table)"
    using Cons_nth_drop_Suc[OF e(1)] e(2) by (simp add: add.commute)
  ultimately show ?thesis by metis
qed

lemma string_at_nul:
  assumes "slice_get data a b = Some bs" "b < 2 ^ 64" "drop (unat off) bs = s @ 0 # rest"
  shows "string_at data (a, b) off = Inr (until_nul s)"
proof -
  have bs: "a \<le> b" "b \<le> length data" "bs = take (b - a) (drop a data)" using assms(1) by (simp_all add: ok_simps)
  have o: "unat off < length bs" using assms(3) by (metis drop_all list.distinct(1) append_is_Nil_conv not_le)
  then have lt: "a + unat off < b" using bs by simp
  have tail: "take (b - (a + unat off)) (drop (a + unat off) data) = s @ 0 # rest"
    using assms(3) by (simp add: bs(3) drop_take add.commute)
  have tw: "takeWhile (\<lambda>x. x \<noteq> 0) (s @ 0 # rest) = until_nul s" by (induction s) auto
  have pos: "position_of (\<lambda>byte. byte = 0) (s @ 0 # rest) = Some (length (until_nul s))"
    using length_takeWhile_le[of "\<lambda>x. x \<noteq> 0" s] by (simp add: position_of_def tw Let_def le_imp_less_Suc trans_le_add1)
  have pre: "take (length (until_nul s)) (s @ 0 # rest) = until_nul s"
    unfolding tw[symmetric] by (rule takeWhile_eq_take[symmetric])
  have "slice_get data (a + unat off) b = Some (s @ 0 # rest)" using lt bs(2) tail by (simp add: slice_get_def)
  moreover have "slice_get (s @ 0 # rest) 0 (length (until_nul s)) = Some (until_nul s)"
    using pre length_takeWhile_le[of "\<lambda>x. x \<noteq> 0" s] by (simp add: slice_get_def trans_le_add1)
  ultimately show ?thesis using lt assms(2) pos by (simp add: string_at_def checked_add_def)
qed

lemma string_at_known:
  assumes "string_invar env table" "string_known env table off s" "slice_get data a b = Some (st_bytes table)" "b < 2 ^ 64"
  shows "string_at data (a, b) off = Inr (until_nul s)"
proof -
  obtain x where x: "x \<in> snd ` ht_contents (string_entries env) (st_entries table)" "off = word_of_nat (se_offset x)"
      "string_text (st_bytes table) x = s"
    by (rule string_knownE[OF assms(2)])
  obtain h where "(h, x) \<in> ht_contents (string_entries env) (st_entries table)" using x(1) by force
  from string_text_drop[OF assms(1) this] obtain rest where "drop (unat off) (st_bytes table) = s @ 0 # rest"
    unfolding x(2,3) string_offset_unat[OF assms(1) x(1)] by blast
  then show ?thesis by (rule string_at_nul[OF assms(3,4)])
qed

section \<open>Properties\<close>

text \<open>C26: Strings that the writer interns one after the other are found by the reader, in the string section of a file
  that holds the table, at the offsets interning returned, up to a zero byte in them; strings interned before stay
  where they are; and two strings share an offset exactly when they are equal.\<close>

theorem interned_strings_readable:
  assumes "string_invar env table" "map_state (intern env) ss table = (offs, table')"
    and "slice_get data a b = Some (st_bytes table')" "b < 2 ^ 64"
  shows "list_all2 (\<lambda>off s. string_at data (a, b) off = Inr (takeWhile (\<lambda>b. b \<noteq> 0) s)) offs ss
    \<and> (\<forall>off s. string_known env table off s \<longrightarrow> string_known env table' off s)
    \<and> (\<forall>m n. m < length ss \<and> n < length ss \<longrightarrow> (offs ! m = offs ! n \<longleftrightarrow> ss ! m = ss ! n))
    \<and> map_state (intern env) ss table' = (offs, table')"
proof -
  have "length (st_bytes table') \<le> b" using assms(3) by (auto simp: ok_simps)
  then have f: "string_fits table'" using assms(4) by (simp add: string_fits_def)
  have m: "map_state_ok (\<lambda>s table. Inr (intern env s table)) ss table = Inr (offs, table')"
    by (simp add: map_state_ok_total assms(2))
  have e: "string_set.extends env table table'" "list_all2 (string_known env table') offs ss"
    using string_set.add_list[OF m assms(1) f] by simp_all
  have inv: "string_invar env table'" using string_set.extends_ok[OF e(1)] by simp
  have "list_all2 (\<lambda>off s. string_at data (a, b) off = Inr (until_nul s)) offs ss"
    by (rule list_all2_mono[OF e(2)]) (rule string_at_known[OF inv _ assms(3,4)])
  then show ?thesis
    using string_set.extends_known[OF e(1)] string_set.add_list_injective[OF m assms(1) f]
      string_set.add_list_again[OF m assms(1) f]
    by (simp add: map_state_ok_total)
qed

lemma interned_strings_readable_witness:
  "\<exists>table'. map_state (intern \<lparr>string_entries = list_table, bytes_hash = \<lambda>s. word_of_nat (length s)\<rparr>)
      [[97, 98], [], [99, 0, 100], [97, 98]] (string_table_new \<lparr>string_entries = list_table, bytes_hash = \<lambda>s. word_of_nat (length s)\<rparr>)
      = ([1, 0, 4, 1], table')
    \<and> string_at (7 # st_bytes table') (1, 9) 4 = Inr [99]"
  (is "\<exists>table'. map_state (intern ?env) ?ss ?t = (?offs, table') \<and> _")
proof -
  have inv: "string_invar ?env ?t" by (simp add: string_invar_new lawful_list_table)
  obtain t' where t': "map_state (intern ?env) ?ss ?t = (?offs, t')" "st_bytes t' = [0, 97, 98, 0, 99, 0, 100, 0]"
    by (simp add: intern_def find_hashed_def string_table_new_def record_string_def list_table_def interned_def checked_add_def slice_get_def)
  have "list_all2 (\<lambda>off s. string_at (7 # st_bytes t') (1, 9) off = Inr (takeWhile (\<lambda>b. b \<noteq> 0) s)) ?offs ?ss"
    using interned_strings_readable[OF inv t'(1), of "7 # st_bytes t'" 1 9] by (simp add: t'(2) slice_get_def)
  then show ?thesis using t'(1) by auto
qed

section \<open>Functions in the semantic encoding\<close>

text \<open>What a reader sees of a function: every string up to its first zero byte.\<close>

fun cut_inline :: "inline_node \<Rightarrow> inline_node" where
  "cut_inline (InlineNode ranges name cfile cline children) =
     InlineNode ranges (until_nul name) cfile cline (map cut_inline children)"

definition cut_call_site :: "call_site \<Rightarrow> call_site" where
  "cut_call_site site = site\<lparr>match_regex := map until_nul (match_regex site)\<rparr>"

fun cut_function :: "gfunction \<Rightarrow> gfunction" where
  "cut_function (Function rng name lns inline merged sites) =
     Function rng (until_nul name) lns (map_option cut_inline inline) (map cut_function merged) (map cut_call_site sites)"

text \<open>\<open>table_in env r strings\<close>: the file of the function \<open>r\<close> has the bytes of \<open>strings\<close> as its string section.\<close>

definition table_in :: "'u string_env \<Rightarrow> function_ref \<Rightarrow> 'u string_table \<Rightarrow> bool" where
  "table_in env r strings \<longleftrightarrow> string_invar env strings
     \<and> slice_get (fr_all_data r) (fst (pl_string_table (fr_layout r))) (snd (pl_string_table (fr_layout r))) = Some (st_bytes strings)
     \<and> snd (pl_string_table (fr_layout r)) < 2 ^ 64"

lemma table_in_string: "table_in env r strings \<Longrightarrow> string_known env strings off s \<Longrightarrow> ref_string r off = Inr (until_nul s)"
  using string_at_known[of env strings off s "fr_all_data r" "fst (pl_string_table (fr_layout r))" "snd (pl_string_table (fr_layout r))"]
  by (simp add: table_in_def ref_string_def)

lemma table_in_zero:
  assumes "table_in env r strings" "string_known env strings 0 s"
  shows "s = []"
proof -
  have i: "string_invar env strings" "string_known env strings 0 []" using assms(1) by (simp_all add: table_in_def string_invar_def)
  then have "string_fits strings" by (simp add: string_invar_def string_fits_def)
  then show ?thesis using string_set.known_unique[OF i(1) _ assms(2) i(2)] by simp
qed

lemma let_intern: "(let (y, s) = m in k y s) = let_ok (Inr m) (\<lambda>(y, s). k y s)"
  by simp

lemmas intern_grows = string_set.grows_add

lemma map_ok_all2: "list_all2 (\<lambda>x y. f y = Inr (g x)) xs ys \<Longrightarrow> map_ok f ys = Inr (map g xs)"
  by (induction rule: list_all2_induct) auto

text \<open>How an encoded node, call site or function stands for one of the model: field by field, with every string
  replaced by an offset at which it is known.\<close>

fun inline_known :: "(u64 \<Rightarrow> bytes \<Rightarrow> bool) \<Rightarrow> inline_node \<Rightarrow> encoded_inline_node \<Rightarrow> bool" where
  "inline_known known (InlineNode ranges name cfile cline children) out \<longleftrightarrow>
     ein_ranges out = ranges \<and> known (ein_name out) name \<and> ein_call_file out = cfile \<and> ein_call_line out = cline
     \<and> list_all2 (\<lambda>child. inline_known known child) children (ein_children out)"

definition site_known :: "(u64 \<Rightarrow> bytes \<Rightarrow> bool) \<Rightarrow> call_site \<Rightarrow> encoded_call_site \<Rightarrow> bool" where
  "site_known known site out \<longleftrightarrow> ecs_return_offset out = return_offset site \<and> ecs_flags out = site_flags site
     \<and> list_all2 (\<lambda>s off. known off s) (match_regex site) (ecs_match_regex out)"

fun function_known :: "(u64 \<Rightarrow> bytes \<Rightarrow> bool) \<Rightarrow> gfunction \<Rightarrow> encoded_function \<Rightarrow> bool" where
  "function_known known (Function rng name lns inline merged sites) out \<longleftrightarrow>
     ef_range out = rng \<and> known (ef_name out) name \<and> option_lines (ef_lines out) = lns
     \<and> rel_option (inline_known known) inline (ef_inline out)
     \<and> list_all2 (\<lambda>m. function_known known m) merged (ef_merged out)
     \<and> list_all2 (site_known known) sites (ef_call_sites out)"

lemma function_known_fields:
  assumes "function_known known fn out"
  shows "ef_range out = fn_range fn" "known (ef_name out) (fn_name fn)" "option_lines (ef_lines out) = fn_lines fn"
    "rel_option (inline_known known) (fn_inline fn) (ef_inline out)" "list_all2 (site_known known) (fn_call_sites fn) (ef_call_sites out)"
  using assms by (cases fn; simp)+

text \<open>The semantic encoding produces what stands for its input.\<close>

lemma semantic_inline_grows:
  "string_set.grows env (semantic_inline env node) (\<lambda>strings. inline_known (string_known env strings) node)"
proof (induction node)
  case (InlineNode ranges name cfile cline children)
  have eq: "semantic_inline env (InlineNode ranges name cfile cline children) =
      (\<lambda>strings. let_ok (Inr (intern env name strings)) (\<lambda>(name, strings).
        let_ok (map_state_ok (\<lambda>child strings. semantic_inline env child strings) children strings) (\<lambda>(children, strings).
        Inr (EncodedInlineNode ranges name cfile cline children, strings))))"
    by (rule ext) (simp add: Let_def case_prod_unfold)
  have ch: "string_set.grows env (map_state_ok (\<lambda>child strings. semantic_inline env child strings) children)
      (\<lambda>strings outs. list_all2 (\<lambda>child. inline_known (string_known env strings) child) children outs)"
    by (rule string_set.grows_map) (rule InlineNode.IH)
  show ?case
    unfolding eq
    by (rule string_set.grows_bind[OF intern_grows], rule string_set.grows_bind[OF ch], rule string_set.grows_return) simp
qed

lemma semantic_call_site_grows:
  "string_set.grows env (\<lambda>strings. Inr (semantic_call_site env site strings)) (\<lambda>strings. site_known (string_known env strings) site)"
proof -
  have eq: "(\<lambda>strings. Inr (semantic_call_site env site strings)) =
      (\<lambda>strings. let_ok (map_state_ok (\<lambda>s strings. Inr (intern env s strings)) (match_regex site) strings) (\<lambda>(regexes, strings).
        Inr (\<lparr>ecs_return_offset = return_offset site, ecs_flags = site_flags site, ecs_match_regex = regexes\<rparr>, strings)))"
    by (rule ext) (simp add: semantic_call_site_def map_state_ok_total case_prod_unfold Let_def)
  have m: "string_set.grows env (map_state_ok (\<lambda>s strings. Inr (intern env s strings)) (match_regex site))
      (\<lambda>strings offs. list_all2 (\<lambda>s off. string_known env strings off s) (match_regex site) offs)"
    by (rule string_set.grows_map) (rule intern_grows)
  show ?thesis
    unfolding eq by (rule string_set.grows_bind[OF m], rule string_set.grows_return) (simp add: site_known_def)
qed

lemma semantic_function_at_grows:
  "string_set.grows env (semantic_function_at env depth fn) (\<lambda>strings. function_known (string_known env strings) fn)"
proof (induction fn arbitrary: depth)
  case (Function rng name lns inline merged sites)
  let ?inline = "\<lambda>strings. case inline of None \<Rightarrow> Inr (None, strings)
       | Some node \<Rightarrow> let_ok (semantic_inline env node strings) (\<lambda>(node, strings). Inr (Some node, strings))"
  have i: "string_set.grows env ?inline (\<lambda>strings. rel_option (inline_known (string_known env strings)) inline)"
  proof (cases inline)
    case None
    then show ?thesis by (simp add: string_set.grows_return)
  next
    case (Some node)
    show ?thesis unfolding Some option.case
      by (rule string_set.grows_bind[OF semantic_inline_grows], rule string_set.grows_return) simp
  qed
  have m: "string_set.grows env (map_state_ok (\<lambda>m strings. semantic_function_at env (depth + 1) m strings) merged)
      (\<lambda>strings outs. list_all2 (\<lambda>m. function_known (string_known env strings) m) merged outs)"
    by (rule string_set.grows_map) (rule Function.IH)
  have c: "string_set.grows env (map_state_ok (\<lambda>site strings. Inr (semantic_call_site env site strings)) sites)
      (\<lambda>strings outs. list_all2 (\<lambda>site. site_known (string_known env strings) site) sites outs)"
    by (rule string_set.grows_map) (rule semantic_call_site_grows)
  show ?case
  proof (cases "check_merged_depth depth")
    case (Inl e)
    have "semantic_function_at env depth (Function rng name lns inline merged sites) = (\<lambda>strings. Inl e)"
      by (rule ext) (simp add: Inl)
    then show ?thesis by (simp add: string_set.grows_fail)
  next
    case (Inr u)
    have eq: "semantic_function_at env depth (Function rng name lns inline merged sites) =
      (\<lambda>strings. let_ok (Inr (intern env name strings)) (\<lambda>(name, strings).
        let_ok (?inline strings) (\<lambda>(inline, strings).
        let_ok (map_state_ok (\<lambda>m strings. semantic_function_at env (depth + 1) m strings) merged strings) (\<lambda>(merged, strings).
        let_ok (map_state_ok (\<lambda>site strings. Inr (semantic_call_site env site strings)) sites strings) (\<lambda>(sites, strings).
        Inr (EncodedFunction rng name (if lns \<noteq> [] then Some lns else None) inline merged sites, strings))))))"
      by (rule ext) (simp add: Inr Let_def case_prod_unfold map_state_ok_total)
    show ?thesis
      unfolding eq
      by (rule string_set.grows_bind[OF intern_grows], rule string_set.grows_bind[OF i], rule string_set.grows_bind[OF m],
          rule string_set.grows_bind[OF c], rule string_set.grows_return) (simp add: option_lines_def)
  qed
qed

text \<open>And the reader converts what stands for a function back into it.\<close>

lemma inline_known_decode:
  assumes "table_in env r strings"
  shows "inline_known (string_known env strings) node out \<Longrightarrow> owned_decode_inline renv False r out = Inr (cut_inline node)"
proof (induction node arbitrary: out)
  case (InlineNode ranges name cfile cline children)
  obtain off outs where out: "out = EncodedInlineNode ranges off cfile cline outs" "string_known env strings off name"
    "list_all2 (\<lambda>child. inline_known (string_known env strings) child) children outs"
    using InlineNode.prems by (cases out) simp
  have "list_all2 (\<lambda>child out. owned_decode_inline renv False r out = Inr (cut_inline child)) children outs"
    using out(3) InlineNode.IH by (auto simp: list_all2_conv_all_nth)
  then have "map_ok (owned_decode_inline renv False r) outs = Inr (map cut_inline children)" by (rule map_ok_all2)
  then show ?case using table_in_string[OF assms out(2)] table_in_zero[OF assms, of name] out(1,2) by auto
qed

lemma site_known_decode:
  assumes "table_in env r strings" "site_known (string_known env strings) site out"
  shows "owned_decode_call_site r out = Inr (cut_call_site site)"
proof -
  have "map_ok (ref_string r) (ecs_match_regex out) = Inr (map until_nul (match_regex site))"
    by (rule map_ok_all2, rule list_all2_mono[of "\<lambda>s off. string_known env strings off s"])
      (use assms in \<open>auto simp: site_known_def dest: table_in_string\<close>)
  then show ?thesis using assms(2) by (simp add: owned_decode_call_site_def cut_call_site_def site_known_def)
qed

lemma function_known_decode:
  assumes "table_in env r strings"
  shows "function_known (string_known env strings) fn out \<Longrightarrow> owned_decode_at renv False r p d out = Inr (cut_function fn)"
proof (induction fn arbitrary: p d out)
  case (Function rng name lns inline merged sites)
  obtain off elns node outs souts where out: "out = EncodedFunction rng off elns node outs souts" "string_known env strings off name"
    "option_lines elns = lns" "rel_option (inline_known (string_known env strings)) inline node"
    "list_all2 (\<lambda>m. function_known (string_known env strings) m) merged outs" "list_all2 (site_known (string_known env strings)) sites souts"
    using Function.prems by (cases out) simp
  have "list_all2 (\<lambda>m out. owned_decode_at renv False r (Some rng) (d + 1) out = Inr (cut_function m)) merged outs"
    using out(5) Function.IH by (auto simp: list_all2_conv_all_nth)
  then have "map_ok (\<lambda>m. owned_decode_at renv False r (Some rng) (d + 1) m) outs = Inr (map cut_function merged)"
    by (rule map_ok_all2)
  moreover have "map_ok (owned_decode_call_site r) souts = Inr (map cut_call_site sites)"
    by (rule map_ok_all2, rule list_all2_mono[OF out(6)]) (rule site_known_decode[OF assms])
  moreover have "(case node of None \<Rightarrow> Inr None
       | Some node \<Rightarrow> let_ok (owned_decode_inline renv False r node) (\<lambda>node. Inr (Some node))) = Inr (map_option cut_inline inline)"
    using out(4) inline_known_decode[OF assms] by (cases inline; cases node) auto
  ultimately show ?case using table_in_string[OF assms out(2)] out(1,3) by simp
qed

end
