(* ===== verification/LookupSpec.thy ===== *)
theory LookupSpec
  imports Lookup
begin

text \<open>
  The specification of a lookup and the proof that \<open>src/reader/lookup.rs\<close> meets it: the scan of an encoded
  inline tree against the decoded tree, the scan of the records against the decoded function, and the
  whole lookup against \<open>lookup_spec\<close>.
\<close>

section \<open>The frames that cover an address\<close>

definition covers :: "u64 \<Rightarrow> address_range list \<Rightarrow> bool" where
  "covers address rs \<longleftrightarrow> list_ex (\<lambda>r. r_start r \<le> address \<and> address < r_end r) rs"

text \<open>The named nodes on the path from the root to the innermost node that covers the address, outermost
  first; among siblings that cover it, the first.\<close>

fun covering_frames :: "u64 \<Rightarrow> encoded_inline_node \<Rightarrow> raw_inline_frame list"
  and covering_children :: "u64 \<Rightarrow> encoded_inline_node list \<Rightarrow> raw_inline_frame list" where
  "covering_frames address (EncodedInlineNode rs name call_file call_line children) =
     (if covers address rs then
        (if name \<noteq> 0 then [\<lparr>rif_name = name, rif_call_file = call_file, rif_call_line = call_line,
            rif_start = r_start (hd rs)\<rparr>] else [])
        @ covering_children address children
      else [])"
| "covering_children address [] = []"
| "covering_children address (child # children) =
     (if covers address (ein_ranges child) then covering_frames address child else covering_children address children)"

lemma covering_frames_none: "\<not> covers address (ein_ranges node) \<Longrightarrow> covering_frames address node = []"
  by (cases node) simp

lemma scan_ranges_decode:
  "decode_ranges_loop n base rs0 c = Inr (rs, c') \<Longrightarrow>
    \<exists>new. rs = rs0 @ new \<and> length new = n
      \<and> scan_ranges base address collect n hit fs c =
          Inr (hit \<or> collect \<and> covers address new, case fs of Some f \<Rightarrow> Some f | None \<Rightarrow> if new = [] then None else Some (r_start (hd new)), c')"
proof (induction n arbitrary: rs0 c hit fs)
  case 0
  then show ?case by (auto simp: covers_def split: option.split)
next
  case (Suc n)
  from Suc.prems obtain off c1 s len c2 e where
    r: "read_uleb c = Inr (off, c1)" "checked_add_u64 base off = Some s" "read_uleb c1 = Inr (len, c2)"
      "checked_add_u64 s len = Some e"
    and l: "decode_ranges_loop n base (rs0 @ [mk_range s e]) c2 = Inr (rs, c')"
    by (auto simp: ok_simps split: if_splits)
  let ?hit = "if collect then hit \<or> s \<le> address \<and> address < e else hit"
  let ?fs = "case fs of None \<Rightarrow> Some s | Some f \<Rightarrow> Some f"
  from Suc.IH[OF l, of ?hit ?fs] obtain new where new: "rs = (rs0 @ [mk_range s e]) @ new" "length new = n"
    "scan_ranges base address collect n ?hit ?fs c2 = Inr (?hit \<or> collect \<and> covers address new,
       case ?fs of Some f \<Rightarrow> Some f | None \<Rightarrow> if new = [] then None else Some (r_start (hd new)), c')"
    by blast
  show ?case
    using new by (intro exI[of _ "mk_range s e # new"]) (auto simp: r Let_def covers_def split: option.split)
qed

lemma scan_inline_decode:
  "decode_inline osize base depth c = Inr (node, c') \<Longrightarrow>
     scan_inline_node osize address base collect depth frames c =
       Inr (ein_ranges node \<noteq> [], collect \<and> covers address (ein_ranges node),
         frames @ (if collect then covering_frames address node else []), c')"
  "decode_children osize rs cb depth ch c = Inr (chs, c') \<Longrightarrow>
     \<exists>new. chs = ch @ new \<and> (\<forall>matched found frames. scan_children osize address cb matched found depth frames c =
       Inr (frames @ (if matched \<and> \<not> found then covering_children address new else []), c'))"
proof (induction osize base depth c and osize rs cb depth ch c arbitrary: node c' collect frames and chs c'
    rule: decode_inline_decode_children.induct)
  case (1 osize base depth c)
  note eq = decode_inline.simps[of osize base depth c]
  note seq = scan_inline_node.simps[of osize address base collect depth frames c]
  from "1.prems" obtain rs c1 where d: "check_inline_depth depth = Inr ()" "decode_ranges c base = Inr (rs, c1)"
    by (auto simp: eq)
  from d(2) obtain n c0 where n: "read_uleb c = Inr (n, c0)" "\<not> unat n > remaining c0 div 2"
    and dl: "decode_ranges_loop (unat n) base [] c0 = Inr (rs, c1)"
    by (auto simp: decode_ranges_def split: if_splits)
  from scan_ranges_decode[OF dl, of address collect False None] have len: "length rs = unat n"
    and sr: "scan_ranges base address collect (unat n) False None c0 =
      Inr (collect \<and> covers address rs, if rs = [] then None else Some (r_start (hd rs)), c1)"
    by auto
  show ?case
  proof (cases "rs = []")
    case True
    then have "n = 0" using len by (simp add: unat_eq_zero)
    then show ?thesis using "1.prems" True d n dl by (auto simp: eq seq encoded_inline_default_def covers_def)
  next
    case False
    then have n0: "n \<noteq> 0" using len by auto
    from False "1.prems" d obtain hc c2 nm c3 cf c4 cl c5 f l where
      r: "read_u8 c1 = Inr (hc, c2)" "read_uint osize c2 = Inr (nm, c3)" "read_uleb c3 = Inr (cf, c4)"
        "read_uleb c4 = Inr (cl, c5)" "u32_or_out_of_range cf ''inline call-file index'' = Inr f"
        "u32_or_out_of_range cl ''inline call-line'' = Inr l"
      by (auto simp: eq)
    note facts = d(1) n n0 sr r False
    show ?thesis
    proof (cases "hc = 0")
      case True
      then show ?thesis
        using "1.prems" d by (auto simp: eq seq facts Let_def cong: let_ok_weak_cong)
    next
      case hc: False
      then obtain chs where dc: "decode_children osize rs (r_start (hd rs)) depth [] c5 = Inr (chs, c')"
        and node: "node = EncodedInlineNode rs nm f l chs"
        using "1.prems" d r False by (auto simp: eq)
      note IH = "1.IH"[OF d(1) d(2) refl False r(1) refl r(2) refl r(3) refl r(4) refl r(5,6) hc dc]
      show ?thesis using hc IH by (auto simp: node seq facts Let_def cong: let_ok_weak_cong)
    qed
  qed
next
  case (2 osize rs cb depth ch c)
  note eq = decode_children.simps[of osize rs cb depth ch c]
  note seq = scan_children.simps[of osize address cb _ _ depth _ c]
  from "2.prems" obtain child c1 where d: "decode_inline osize cb (depth + 1) c = Inr (child, c1)" by (auto simp: eq)
  note scan = "2.IH"(1)[OF d, unfolded One_nat_def add_Suc_right add_0_right]
  show ?case
  proof (cases "ein_ranges child = []")
    case True
    then have "chs = ch" "c' = c1" using "2.prems" d by (auto simp: eq)
    then show ?thesis using True scan by (simp add: seq covering_frames_none covers_def)
  next
    case False
    with "2.prems" d have o: "\<not> outside_parent rs (ein_ranges child)"
      and l: "decode_children osize rs cb depth (ch @ [child]) c1 = Inr (chs, c')"
      by (auto simp: eq split: if_splits)
    from "2.IH"(2)[OF d refl False o l] obtain new where new: "chs = (ch @ [child]) @ new"
      "\<And>matched found frames. scan_children osize address cb matched found depth frames c1 =
         Inr (frames @ (if matched \<and> \<not> found then covering_children address new else []), c')"
      by blast
    show ?thesis
      by (intro exI[of _ "child # new"]) (use new False in \<open>auto simp: seq scan covering_frames_none\<close>)
  qed
qed

section \<open>A lookup on the encoded records\<close>

text \<open>The same input from \<open>k\<close> bytes on.\<close>

definition rebased :: "nat \<Rightarrow> cursor \<Rightarrow> cursor \<Rightarrow> bool" where
  "rebased k c d \<longleftrightarrow> cbytes d = drop k (cbytes c) \<and> position c = position d + k \<and> cendian d = cendian c
     \<and> position c \<le> length (cbytes c)"

lemma take_array_rebased:
  assumes "take_array n c = Inr (bs, c')" and "rebased k c d"
  shows "take_array n d = Inr (bs, d\<lparr>position := position d + n\<rparr>) \<and> rebased k c' (d\<lparr>position := position d + n\<rparr>)"
  using assms by (auto simp: take_array_def rebased_def Let_def add.commute split: if_splits)

lemma read_u32_rebased:
  assumes "read_u32 c = Inr (v, c')" and "rebased k c d"
  obtains d' where "read_u32 d = Inr (v, d')" and "rebased k c' d'"
proof -
  from assms(1) obtain bs c1 where t: "take_array 4 c = Inr (bs, c1)" "v = word_of_nat (from_bytes (cendian c1) bs)" "c' = c1"
    by (auto simp: read_u32_def)
  have "cendian c1 = cendian c" using t(1) by (auto simp: take_array_def Let_def split: if_splits)
  then show thesis
    using take_array_rebased[OF t(1) assms(2)] t assms(2) by (intro that) (auto simp: read_u32_def rebased_def)
qed

lemma cursor_take_rebased:
  assumes "cursor_take n c = Inr (bs, c')" and "rebased k c d"
  obtains d' where "cursor_take n d = Inr (bs, d')" and "rebased k c' d'"
proof -
  from assms have "cursor_take n d = Inr (bs, d\<lparr>position := position d + n\<rparr>)"
    and "rebased k c' (d\<lparr>position := position d + n\<rparr>)"
    by (auto simp: cursor_take_def rebased_def checked_add_def slice_get_def add.commute split: if_splits)
  then show thesis using that by blast
qed

lemma next_record_rebased:
  assumes "next_record c ended = Inr (rec, ended', c')" and "rebased k c d"
  obtains d' where "next_record d ended = Inr (rec, ended', d')" and "rebased k c' d'"
proof (cases ended)
  case True
  then show thesis using assms that by (auto simp: next_record_def)
next
  case False
  with assms(1) obtain kind c1 len c2 where r: "read_u32 c = Inr (kind, c1)" "read_u32 c1 = Inr (len, c2)"
    by (auto simp: next_record_def)
  obtain d1 where d1: "read_u32 d = Inr (kind, d1)" "rebased k c1 d1" by (rule read_u32_rebased[OF r(1) assms(2)])
  obtain d2 where d2: "read_u32 d1 = Inr (len, d2)" "rebased k c2 d2" by (rule read_u32_rebased[OF r(2) d1(2)])
  show thesis
  proof (cases "kind = INFO_END")
    case True
    then show thesis using assms False r d1 d2 that by (auto simp: next_record_def split: if_splits)
  next
    case kind: False
    with assms(1) False r obtain payload where p: "cursor_take (unat len) c2 = Inr (payload, c')"
      "rec = Some \<lparr>rec_kind = info_from_raw kind, rec_payload = payload\<rparr>" "\<not> ended'"
      by (auto simp: next_record_def)
    obtain d3 where d3: "cursor_take (unat len) d2 = Inr (payload, d3)" "rebased k c' d3"
      by (rule cursor_take_rebased[OF p(1) d2(2)])
    then show thesis using that[of d3] p False kind d1 d2 by (auto simp: next_record_def)
  qed
qed

text \<open>What the scan of the records must have found for a function that decodes to \<open>fn\<close>.\<close>

definition scanned_matches :: "gsym \<Rightarrow> frame_request \<Rightarrow> encoded_function \<Rightarrow> scanned_records \<Rightarrow> bool" where
  "scanned_matches g request fn scanned \<longleftrightarrow>
     (let l = g_layout g; e = pl_endian l; osize = pl_string_offset_size l; opts = fq_options request;
          base = r_start (raw_range (fq_function request)) in
      sr_line scanned = (if line_information opts then Option.bind (ef_lines fn) (last_row_le (fq_address request)) else None)
      \<and> (case sr_inline scanned of
           None \<Rightarrow> inline_frames opts \<longrightarrow> ef_inline fn = None
         | Some p \<Rightarrow> inline_frames opts \<and> (\<exists>node. ef_inline fn = Some node \<and> decode_inline_record osize base p e = Inr node))
      \<and> (case sr_call_sites scanned of
           None \<Rightarrow> call_sites opts \<longrightarrow> ef_call_sites fn = []
         | Some p \<Rightarrow> call_sites opts \<and> decode_call_sites p e osize = Inr (ef_call_sites fn)))"

lemma line_lookup_decoded: "line_decode bs e base = Inr rows \<Longrightarrow> line_lookup bs e base addr = Inr (last_row_le addr rows)"
  using line_parse_feed[of "cursor_new bs e" base rows, where 'z = "line_entry option"]
  by (simp add: line_decode_def line_lookup_def feed_lookup last_row_le_def)

lemma scan_record_matches:
  assumes "scanned_matches g request fn0 scanned" and "fn0 = EncodedFunction r n l i m s"
    and "base = r_start (raw_range (fq_function request))" "e = pl_endian (g_layout g)" "osize = pl_string_offset_size (g_layout g)"
  shows "rec_kind rec = LineTable \<Longrightarrow> line_decode (rec_payload rec) e base = Inr ls \<Longrightarrow>
      \<exists>sc. scan_record g request rec scanned = Inr sc \<and> scanned_matches g request (set_lines (Some ls) fn0) sc"
    and "rec_kind rec = Inline \<Longrightarrow> decode_inline_record osize base (rec_payload rec) e = Inr node \<Longrightarrow>
      \<exists>sc. scan_record g request rec scanned = Inr sc \<and> scanned_matches g request (set_inline (Some node) fn0) sc"
    and "rec_kind rec = Merged \<Longrightarrow>
      \<exists>sc. scan_record g request rec scanned = Inr sc \<and> scanned_matches g request (set_merged ms fn0) sc"
    and "rec_kind rec = CallSite \<Longrightarrow> decode_call_sites (rec_payload rec) e osize = Inr ss \<Longrightarrow>
      \<exists>sc. scan_record g request rec scanned = Inr sc \<and> scanned_matches g request (set_call_sites ss fn0) sc"
proof -
  assume "rec_kind rec = LineTable" "line_decode (rec_payload rec) e base = Inr ls"
  then show "\<exists>sc. scan_record g request rec scanned = Inr sc \<and> scanned_matches g request (set_lines (Some ls) fn0) sc"
    using line_lookup_decoded[of "rec_payload rec" e base ls "fq_address request"] assms
    by (auto simp: scan_record_def scanned_matches_def Let_def split: option.splits)
qed (use assms in \<open>auto simp: scan_record_def scanned_matches_def Let_def split: option.splits\<close>)

lemma scan_loop_matches:
  "decode_records osize base depth seen ended fn0 c = Inr (fn, c') \<Longrightarrow> rebased k c (ir_cursor it) \<Longrightarrow> ir_done it = ended
    \<Longrightarrow> scanned_matches g request fn0 scanned \<Longrightarrow> base = r_start (raw_range (fq_function request))
    \<Longrightarrow> cendian c = pl_endian (g_layout g) \<Longrightarrow> osize = pl_string_offset_size (g_layout g)
    \<Longrightarrow> \<exists>scanned'. scan_loop g request scanned it = Inr scanned' \<and> scanned_matches g request fn scanned'"
proof (induction "remaining c" arbitrary: c seen ended fn0 it scanned rule: less_induct)
  case less
  note eq = decode_records.simps[of osize base depth seen ended fn0 c]
  note seq = scan_loop.simps[of g request scanned it]
  obtain r0 n0 l0 i0 m0 s0 where fn0: "fn0 = EncodedFunction r0 n0 l0 i0 m0 s0" by (cases fn0)
  from less.prems(1) obtain rec ended' c1 where nr: "next_record c ended = Inr (rec, ended', c1)" by (auto simp: eq)
  obtain d1 where d1: "next_record (ir_cursor it) ended = Inr (rec, ended', d1)" "rebased k c1 d1"
    by (rule next_record_rebased[OF nr less.prems(2)])
  show ?case
  proof (cases rec)
    case None
    then have "fn = fn0" using less.prems(1) nr by (simp add: eq)
    then show ?thesis using less.prems(3,4) d1(1) None by (cases ended) (simp_all add: seq info_records_next_def)
  next
    case (Some r)
    have c1: "remaining c1 < remaining c" "cendian c1 = cendian c"
      using next_record_moved[of c ended r ended' c1] nr Some by (auto simp: moved_def remaining_def)
    have ended: "\<not> ended" using nr Some by (auto simp: next_record_def)
    have it: "info_records_next it = (Some (Inr r), \<lparr>ir_cursor = d1, ir_done = ended'\<rparr>)"
      using d1(1) less.prems(3) Some ended by (simp add: info_records_next_def)
    from less.prems(1) nr Some obtain seen' where "observe (rec_kind r) seen = Inr seen'" by (auto simp: eq)
    note e = less.prems(1)[unfolded eq nr Some let_ok_Inr prod.case option.case this]
    have step: ?thesis if "scan_record g request r scanned = Inr sc" "scanned_matches g request fn1 sc"
      "decode_records osize base depth seen' ended' fn1 c1 = Inr (fn, c')" for sc fn1
      using less.hyps[OF c1(1) that(3), of "\<lparr>ir_cursor = d1, ir_done = ended'\<rparr>" sc] d1(2) that less.prems(5-7) c1(2)
      by (simp add: seq it)
    note match = scan_record_matches[OF less.prems(4) fn0 less.prems(5) less.prems(6)[folded c1(2)] less.prems(7)]
    show ?thesis
    proof (cases "rec_kind r")
      case LineTable
      then obtain ls where "line_decode (rec_payload r) (cendian c1) base = Inr ls"
        "decode_records osize base depth seen' ended' (set_lines (Some ls) fn0) c1 = Inr (fn, c')"
        using e by auto
      then show ?thesis using match(1)[OF LineTable] step by blast
    next
      case Inline
      then obtain node where "decode_inline_record osize base (rec_payload r) (cendian c1) = Inr node"
        "decode_records osize base depth seen' ended' (set_inline (Some node) fn0) c1 = Inr (fn, c')"
        using e by auto
      then show ?thesis using match(2)[OF Inline] step by blast
    next
      case Merged
      then obtain ms where "decode_records osize base depth seen' ended' (set_merged ms fn0) c1 = Inr (fn, c')"
        using e by auto
      then show ?thesis using match(3)[OF Merged] step by blast
    next
      case CallSite
      then obtain ss where "decode_call_sites (rec_payload r) (cendian c1) osize = Inr ss"
        "decode_records osize base depth seen' ended' (set_call_sites ss fn0) c1 = Inr (fn, c')"
        using e by auto
      then show ?thesis using match(4)[OF CallSite] step by blast
    next
      case (Unknown n)
      then show ?thesis using e by simp
    qed
  qed
qed

lemma decode_records_header:
  "decode_records osize base depth seen ended fn0 c = Inr (fn, c') \<Longrightarrow> ef_name fn = ef_name fn0 \<and> ef_range fn = ef_range fn0"
proof (induction "remaining c" arbitrary: c seen ended fn0 rule: less_induct)
  case less
  note eq = decode_records.simps[of osize base depth seen ended fn0 c]
  from less.prems obtain rec ended' c1 where nr: "next_record c ended = Inr (rec, ended', c1)" by (auto simp: eq)
  show ?case
  proof (cases rec)
    case None
    then show ?thesis using less.prems nr by (simp add: eq)
  next
    case (Some r)
    have "remaining c1 < remaining c" using next_record_moved[of c ended r ended' c1] nr Some by (auto simp: moved_def remaining_def)
    note IH = less.hyps[OF this]
    have set_fields: "ef_name (set_lines a fn0) = ef_name fn0" "ef_range (set_lines a fn0) = ef_range fn0"
      "ef_name (set_inline b fn0) = ef_name fn0" "ef_range (set_inline b fn0) = ef_range fn0"
      "ef_name (set_merged m fn0) = ef_name fn0" "ef_range (set_merged m fn0) = ef_range fn0"
      "ef_name (set_call_sites s fn0) = ef_name fn0" "ef_range (set_call_sites s fn0) = ef_range fn0" for a b m s
      by (cases fn0; simp)+
    show ?thesis
      using less.prems[unfolded eq nr Some let_ok_Inr prod.case option.case]
      by (cases "rec_kind r") (auto dest!: IH simp: set_fields)
  qed
qed

lemma scan_records_matches:
  assumes raw: "raw_function_at g index start = Inr raw" and "fq_function request = raw"
    and fn: "decode_function (raw_data raw) (pl_endian (g_layout g)) (pl_string_offset_size (g_layout g)) start = Inr fn"
  shows "\<exists>scanned. scan_records g request = Inr scanned \<and> scanned_matches g request fn scanned \<and> ef_name fn = raw_name raw
    \<and> ef_range fn = raw_range raw"
proof -
  let ?e = "pl_endian (g_layout g)" and ?osize = "pl_string_offset_size (g_layout g)"
  from raw obtain len c1 c2 stop where
    h: "read_u32 (cursor_new (raw_data raw) ?e) = Inr (len, c1)" "read_uint ?osize c1 = Inr (raw_name raw, c2)"
      "raw_name raw \<noteq> 0" "checked_add_u64 start (ucast len) = Some stop"
    and recs: "raw_records raw = drop (position c2) (raw_data raw)" "raw_range raw = mk_range start stop"
    by (auto simp: raw_function_at_def Let_def ok_simps split: if_splits)
  let ?fn0 = "EncodedFunction (mk_range start stop) (raw_name raw) None None [] []"
  from fn obtain c' where d: "decode_records ?osize start 0 0 False ?fn0 c2 = Inr (fn, c')"
    by (auto simp: decode_function_def decode_from.simps h split: if_splits)
  have c2: "cbytes c2 = raw_data raw" "position c2 \<le> length (raw_data raw)" "cendian c2 = ?e"
    using read_u32_moved[OF h(1)] read_uint_moved[OF h(2)] by (auto simp: moved_def cursor_new_def)
  have reb: "rebased (position c2) c2 (cursor_new (raw_records raw) ?e)"
    using c2 by (simp add: rebased_def recs(1) cursor_new_def)
  have fields: "ef_name fn = raw_name raw \<and> ef_range fn = raw_range raw"
    using decode_records_header[OF d] by (simp add: recs(2))
  show ?thesis
  proof (cases "line_information (fq_options request) \<or> inline_frames (fq_options request) \<or> call_sites (fq_options request)")
    case False
    then show ?thesis using fields
      by (auto simp: scan_records_def Let_def scanned_matches_def scanned_default_def)
  next
    case True
    let ?it = "raw_function_records raw ?e"
    have m: "scanned_matches g request ?fn0 scanned_default"
      by (auto simp: scanned_matches_def scanned_default_def Let_def)
    have it: "rebased (position c2) c2 (ir_cursor ?it)" "ir_done ?it = False"
      using reb by (simp_all add: raw_function_records_def)
    have base: "start = r_start (raw_range (fq_function request))" using raw_function_at_start[OF raw] assms(2) by simp
    obtain sc where sc: "scan_loop g request scanned_default ?it = Inr sc" "scanned_matches g request fn sc"
      using scan_loop_matches[OF d it m base c2(3) refl] by blast
    have "scan_records g request = Inr sc" using True sc(1) by (auto simp: scan_records_def Let_def assms(2))
    then show ?thesis using sc(2) fields by blast
  qed
qed

section \<open>The specification of a lookup\<close>

text \<open>What a lookup reports, read off the decoded function: its rows, its inline tree and its call sites. A frame's
  source position is the call site recorded in the next inner node, the innermost frame's is the line row.\<close>

definition inline_frame :: "reader_env \<Rightarrow> gsym \<Rightarrow> u64 \<Rightarrow> bytes \<times> bytes \<times> u32 \<Rightarrow> raw_inline_frame list \<Rightarrow> nat \<Rightarrow> lookup_frame result" where
  "inline_frame env g address site nodes i =
     let_ok (if Suc i < length nodes
             then let_ok (gsym_file env g (rif_call_file (nodes ! Suc i))) (\<lambda>(directory, basename).
                    Inr (directory, basename, rif_call_line (nodes ! Suc i)))
             else Inr site) (\<lambda>(directory, basename, ln).
     let_ok (gsym_string g (rif_name (nodes ! i))) (\<lambda>name.
     Inr \<lparr>frame_name = name, frame_directory = directory, frame_basename = basename, frame_line = ln,
          frame_offset = saturating_sub_u64 address (rif_start (nodes ! i)), frame_inlined = (i \<noteq> 0)\<rparr>))"

definition lookup_spec :: "reader_env \<Rightarrow> gsym \<Rightarrow> u64 \<Rightarrow> lookup_options \<Rightarrow> encoded_function \<Rightarrow> lookup_result result" where
  "lookup_spec env g address options fn =
     (let row = (if line_information options then Option.bind (ef_lines fn) (last_row_le address) else None);
          nodes = (if inline_frames options then (case ef_inline fn of None \<Rightarrow> [] | Some node \<Rightarrow> covering_frames address node) else []);
          delta = saturating_sub_u64 address (r_start (ef_range fn));
          sites = (if call_sites options then filter (\<lambda>site. ecs_return_offset site = delta) (ef_call_sites fn) else []) in
      let_ok (gsym_string g (ef_name fn)) (\<lambda>name.
      let_ok (case row of None \<Rightarrow> Inr ([], [], 0)
              | Some row \<Rightarrow> let_ok (gsym_file env g (row_file row)) (\<lambda>(directory, basename). Inr (directory, basename, row_line row)))
        (\<lambda>(directory, basename, ln).
      let_ok (if nodes = []
              then Inr [\<lparr>frame_name = name, frame_directory = directory, frame_basename = basename, frame_line = ln,
                         frame_offset = delta, frame_inlined = False\<rparr>]
              else map_ok (inline_frame env g address (directory, basename, ln) nodes) (rev [0..<length nodes])) (\<lambda>frames.
      let_ok (map_ok (gsym_string g) (concat (map ecs_match_regex sites))) (\<lambda>patterns.
      Inr \<lparr>lookup_address = address, lookup_function = ef_range fn, lookup_frames = frames, lookup_patterns = patterns\<rparr>)))))"

lemma read_patterns_decoded:
  "read_many (read_uint osize) n c = Inr (offs, c') \<Longrightarrow>
    read_patterns g osize selected n out c = let_ok (map_ok (gsym_string g) (if selected then offs else [])) (\<lambda>ss. Inr (out @ ss, c'))"
proof (induction n arbitrary: c offs out)
  case (Suc n)
  then obtain off c1 rest where r: "read_uint osize c = Inr (off, c1)" "read_many (read_uint osize) n c1 = Inr (rest, c')"
    "offs = off # rest" by auto
  show ?case
    using Suc.IH[OF r(2)] r by (cases "gsym_string g off"; cases "map_ok (gsym_string g) rest") auto
qed simp

lemma read_call_sites_decoded:
  "read_many (decode_call_site osize) n c = Inr (sites, c') \<Longrightarrow>
    read_call_sites g osize delta n out c =
      let_ok (map_ok (gsym_string g) (concat (map ecs_match_regex (filter (\<lambda>site. ecs_return_offset site = delta) sites))))
        (\<lambda>ss. Inr (out @ ss, c'))"
proof (induction n arbitrary: c sites out)
  case (Suc n)
  then obtain site c4 rest where s: "decode_call_site osize c = Inr (site, c4)" "read_many (decode_call_site osize) n c4 = Inr (rest, c')"
    "sites = site # rest" by auto
  from s(1) obtain ret c1 flags c2 count c3 offs where
    r: "read_u64 c = Inr (ret, c1)" "read_u8 c1 = Inr (flags, c2)" "read_u32 c2 = Inr (count, c3)"
      "read_many (read_uint osize) (unat count) c3 = Inr (offs, c4)"
      "site = \<lparr>ecs_return_offset = ret, ecs_flags = flags, ecs_match_regex = offs\<rparr>"
    by (auto simp: decode_call_site_def split: if_splits)
  let ?rest = "concat (map ecs_match_regex (filter (\<lambda>site. ecs_return_offset site = delta) rest))"
  show ?case
    using Suc.IH[OF s(2)] r read_patterns_decoded[OF r(4), of g "ret = delta" out] s(3)
    by (cases "map_ok (gsym_string g) offs"; cases "map_ok (gsym_string g) ?rest") (auto simp: map_ok_append)
qed simp

lemma read_call_site_patterns_decoded:
  assumes "decode_call_sites payload e osize = Inr sites"
  shows "read_call_site_patterns payload e osize delta g [] =
    map_ok (gsym_string g) (concat (map ecs_match_regex (filter (\<lambda>site. ecs_return_offset site = delta) sites)))"
proof -
  from assms obtain count c c' where "read_u32 (cursor_new payload e) = Inr (count, c)"
    and "read_many (decode_call_site osize) (unat count) c = Inr (sites, c')" "cursor_is_empty c'"
    by (auto simp: decode_call_sites_def Let_def split: if_splits)
  then show ?thesis
    using read_call_sites_decoded[of osize "unat count" c sites c' g delta "[]"]
    by (cases "map_ok (gsym_string g) (concat (map ecs_match_regex (filter (\<lambda>site. ecs_return_offset site = delta) sites)))")
      (auto simp: read_call_site_patterns_def)
qed

lemma covering_frames_named:
  "frame \<in> set (covering_frames address node) \<Longrightarrow> rif_name frame \<noteq> 0"
  "frame \<in> set (covering_children address children) \<Longrightarrow> rif_name frame \<noteq> 0"
  by (induction address node and address children rule: covering_frames_covering_children.induct) (auto split: if_splits)

lemma rev_zip_upt: "rev (zip [0..<length xs] xs) = map (\<lambda>i. (i, xs ! i)) (rev [0..<length xs])"
  by (simp add: rev_map[symmetric]) (rule nth_equalityI, auto)

lemma emit_frames_spec:
  assumes "nodes \<noteq> []" and "\<forall>node \<in> set nodes. rif_name node \<noteq> 0"
  shows "emit_frames env g request prepared nodes (\<lambda>frame frames. frames @ [frame]) [] =
    map_ok (inline_frame env g (fq_address request) (pf_directory prepared, pf_basename prepared, pf_line prepared) nodes)
      (rev [0..<length nodes])"
proof -
  let ?h = "\<lambda>(index, node). frame_at env g request prepared index node (nth_get nodes (index + 1))"
  have "emit_frames env g request prepared nodes (\<lambda>frame frames. frames @ [frame]) []
      = fold_ok (\<lambda>x s. let_ok (?h x) (\<lambda>y. Inr (s @ [y]))) (rev (zip [0..<length nodes] nodes)) []"
    using assms(1) by (simp add: emit_frames_def case_prod_unfold)
  also have "\<dots> = map_ok ?h (rev (zip [0..<length nodes] nodes))"
    by (cases "map_ok ?h (rev (zip [0..<length nodes] nodes))") (simp_all add: fold_ok_collect)
  also have "\<dots> = map_ok (inline_frame env g (fq_address request) (pf_directory prepared, pf_basename prepared, pf_line prepared) nodes)
      (rev [0..<length nodes])"
    unfolding rev_zip_upt map_ok_map
    using assms(2) by (intro map_ok_cong) (auto simp: frame_at_def inline_frame_def nth_get_def)
  finally show ?thesis .
qed

lemma lookup_refines:
  assumes found: "matching_function env g address = Inr (Some raw)"
    and raw: "raw_function_at g index start = Inr raw"
    and fn: "decode_function (raw_data raw) (pl_endian (g_layout g)) (pl_string_offset_size (g_layout g)) start = Inr fn"
  shows "let_ok (lookup_with_options env g address options scratch) (\<lambda>(result, _). Inr result) =
    let_ok (lookup_spec env g address options fn) (\<lambda>result. Inr (Some result))"
proof -
  let ?l = "g_layout g"
  let ?e = "pl_endian ?l" and ?osize = "pl_string_offset_size ?l"
  define request where "request = \<lparr>fq_address = address, fq_options = options, fq_function = raw\<rparr>"
  obtain scanned where sc: "scan_records g request = Inr scanned" and m: "scanned_matches g request fn scanned"
    and hdr: "ef_name fn = raw_name raw" "ef_range fn = raw_range raw"
    using scan_records_matches[OF raw _ fn, of request] by (auto simp: request_def)
  have start: "r_start (raw_range raw) = start" using raw by (rule raw_function_at_start)
  define nodes where "nodes = (if inline_frames options then (case ef_inline fn of None \<Rightarrow> [] | Some node \<Rightarrow> covering_frames address node) else [])"
  have named: "\<forall>node \<in> set nodes. rif_name node \<noteq> 0"
  proof
    fix frame assume "frame \<in> set nodes"
    then show "rif_name frame \<noteq> 0"
      unfolding nodes_def
      by (cases "inline_frames options"; cases "ef_inline fn") (simp_all only: if_True if_False option.case list.set empty_iff not_False_eq_True covering_frames_named(1))
  qed
  have scan: "(case sr_inline scanned of
         Some payload \<Rightarrow>
           let_ok (scan_inline_node ?osize address start True 0 [] (cursor_new payload ?e))
             (\<lambda>(present, _, scratch, c).
             if \<not> present \<or> \<not> cursor_is_empty c then Inl (InvalidFormat ''malformed inline-info payload'')
             else Inr scratch)
       | None \<Rightarrow> Inr []) = Inr nodes"
  proof (cases "sr_inline scanned")
    case None
    then have "nodes = []" using m by (auto simp: scanned_matches_def Let_def nodes_def request_def)
    then show ?thesis using None by simp
  next
    case (Some p)
    with m obtain node where opt: "inline_frames options" and node: "ef_inline fn = Some node"
      and d: "decode_inline_record ?osize start p ?e = Inr node"
      by (auto simp: scanned_matches_def Let_def request_def start)
    then obtain c where c: "decode_inline ?osize start 0 (cursor_new p ?e) = Inr (node, c)" "ein_ranges node \<noteq> []" "cursor_is_empty c"
      by (auto simp: decode_inline_record_def split: if_splits)
    show ?thesis
      using scan_inline_decode(1)[OF c(1), of address True "[]"] c(2,3) Some opt node by (simp add: nodes_def)
  qed
  define row where "row = (if line_information options then Option.bind (ef_lines fn) (last_row_le address) else None)"
  have row: "sr_line scanned = row" using m by (simp add: scanned_matches_def Let_def request_def row_def)
  define delta where "delta = saturating_sub_u64 address start"
  define wanted where "wanted = concat (map ecs_match_regex
    (if call_sites options then filter (\<lambda>site. ecs_return_offset site = delta) (ef_call_sites fn) else []))"
  have finish: "finish_lookup g address raw (sr_call_sites scanned) frames =
      let_ok (map_ok (gsym_string g) wanted) (\<lambda>patterns. Inr \<lparr>lookup_address = address, lookup_function = raw_range raw,
        lookup_frames = frames, lookup_patterns = patterns\<rparr>)" for frames
  proof (cases "sr_call_sites scanned")
    case None
    then have "wanted = []" using m by (auto simp: scanned_matches_def Let_def request_def wanted_def)
    then show ?thesis using None by (simp add: finish_lookup_def)
  next
    case (Some p)
    then have "call_sites options" "decode_call_sites p ?e ?osize = Inr (ef_call_sites fn)"
      using m by (auto simp: scanned_matches_def Let_def request_def)
    then show ?thesis
      using Some by (simp add: finish_lookup_def read_call_site_patterns_decoded start delta_def[symmetric] wanted_def)
  qed
  have impl: "let_ok (lookup_with_options env g address options scratch) (\<lambda>(result, _). Inr result) =
    let_ok (let_ok (prepare_frames env g request []) (\<lambda>(prepared, scratch).
          let_ok (emit_frames env g request prepared scratch (\<lambda>frame frames. frames @ [frame]) []) (\<lambda>frames.
          finish_lookup g address raw (pf_call_sites prepared) frames))) (\<lambda>result. Inr (Some result))"
    by (simp add: lookup_with_options_def scratch_clear_def found Let_def request_def[symmetric] let_ok_assoc case_prod_unfold)
  have spec: "lookup_spec env g address options fn =
     let_ok (gsym_string g (raw_name raw)) (\<lambda>name.
      let_ok (case row of None \<Rightarrow> Inr ([], [], 0)
              | Some row \<Rightarrow> let_ok (gsym_file env g (row_file row)) (\<lambda>(directory, basename). Inr (directory, basename, row_line row)))
        (\<lambda>(directory, basename, ln).
      let_ok (if nodes = []
              then Inr [\<lparr>frame_name = name, frame_directory = directory, frame_basename = basename, frame_line = ln,
                         frame_offset = delta, frame_inlined = False\<rparr>]
              else map_ok (inline_frame env g address (directory, basename, ln) nodes) (rev [0..<length nodes])) (\<lambda>frames.
      let_ok (map_ok (gsym_string g) wanted) (\<lambda>patterns.
      Inr \<lparr>lookup_address = address, lookup_function = raw_range raw, lookup_frames = frames, lookup_patterns = patterns\<rparr>))))"
    unfolding lookup_spec_def Let_def nodes_def row_def wanted_def delta_def hdr start by (rule refl)
  have src: "(case sr_line scanned of Some row \<Rightarrow> let_ok (gsym_file env g (row_file row)) (\<lambda>(directory, basename). Inr (directory, basename, row_line row))
       | None \<Rightarrow> Inr ([], [], 0)) = (case row of None \<Rightarrow> Inr ([], [], 0)
              | Some row \<Rightarrow> let_ok (gsym_file env g (row_file row)) (\<lambda>(directory, basename). Inr (directory, basename, row_line row)))"
    by (simp add: row)
  have rq: "fq_address request = address" "fq_function request = raw" by (simp_all add: request_def)
  have prep: "prepare_frames env g request [] =
      let_ok (gsym_string g (raw_name raw)) (\<lambda>name.
      let_ok (case row of None \<Rightarrow> Inr ([], [], 0)
              | Some row \<Rightarrow> let_ok (gsym_file env g (row_file row)) (\<lambda>(directory, basename). Inr (directory, basename, row_line row)))
        (\<lambda>(directory, basename, ln).
      Inr (\<lparr>pf_function_name = name, pf_directory = directory, pf_basename = basename, pf_line = ln,
             pf_count = max (length nodes) 1, pf_call_sites = sr_call_sites scanned\<rparr>, nodes)))"
    by (simp only: prepare_frames_def sc let_ok_Inr Let_def rq start src scan)
  have emit: "emit_frames env g request \<lparr>pf_function_name = name, pf_directory = directory, pf_basename = basename, pf_line = ln,
        pf_count = max (length nodes) 1, pf_call_sites = sr_call_sites scanned\<rparr> nodes (\<lambda>frame frames. frames @ [frame]) [] =
      (if nodes = [] then Inr [\<lparr>frame_name = name, frame_directory = directory, frame_basename = basename, frame_line = ln,
           frame_offset = delta, frame_inlined = False\<rparr>]
       else map_ok (inline_frame env g address (directory, basename, ln) nodes) (rev [0..<length nodes]))" for name directory basename ln
  proof (cases "nodes = []")
    case True
    then show ?thesis by (simp add: emit_frames_def request_def start delta_def)
  next
    case False
    then show ?thesis using emit_frames_spec[OF False named, of env g request] by (simp add: request_def)
  qed
  show ?thesis
    unfolding impl spec unfolding prep let_ok_assoc case_prod_unfold let_ok_Inr fst_conv snd_conv emit finish prepared_frames.simps ..
qed

section \<open>Properties\<close>

text \<open>C4: A lookup, which reads only the records it needs and never builds the function, answers what the decoded function
  says. When the matching function decodes, the result is the specification \<open>lookup_spec\<close> of that decoded function: the
  source position is its last row at or before the address; the frames are the named nodes of its inline
  tree on the path that covers the address, innermost first, each with the call position recorded in the next inner one; the
  patterns are those of its call sites that return at the address; and an error is the error of the specification.\<close>

theorem lookup_refines_decoded_function:
  assumes "matching_function env g address = Inr (Some raw)" and "raw_function_at g index start = Inr raw"
    and "decode_function (raw_data raw) (pl_endian (g_layout g)) (pl_string_offset_size (g_layout g)) start = Inr fn"
  shows "let_ok (lookup_with_options env g address options scratch) (\<lambda>(result, _). Inr result) =
    let_ok (lookup_spec env g address options fn) (\<lambda>result. Inr (Some result))"
  by (rule lookup_refines[OF assms])

lemma lookup_refines_decoded_function_witness:
  "let_ok (lookup_with_options plain_env
     \<lparr>g_data = [0x10, 0, 0, 0, 28, 0, 0, 0, 0, 97, 0, 98, 0, 0, 0, 0, 1, 0, 0, 0, 0, 0, 0, 0, 0, 0, 0, 0,
         0x10, 0, 0, 0, 1, 0, 0, 0, 2, 0, 0, 0, 21, 0, 0, 0, 1, 0, 0x10, 1, 1, 0, 0, 0, 0, 0,
         1, 4, 4, 0, 3, 0, 0, 0, 0, 7, 0, 0, 0, 0, 0, 0, 0, 0, 0],
      g_layout = \<lparr>pl_version = V1, pl_endian = Little, pl_address_offset_size = 1, pl_string_offset_size = 4, pl_base_address = 0x1000,
        pl_address_count = 1, pl_build_id = (0, 0), pl_address_offsets = (0, 1), pl_address_info_offsets = (4, 8),
        pl_file_table = (16, 28), pl_string_table = (8, 13), pl_function_info = (28, 73), pl_file_count = 1\<rparr>\<rparr>
     0x1015 lookup_options_default []) (\<lambda>(result, _). Inr result)
   = Inr (Some \<lparr>lookup_address = 0x1015, lookup_function = mk_range 0x1010 0x1020,
      lookup_frames =
        [\<lparr>frame_name = [98], frame_directory = [], frame_basename = [], frame_line = 0, frame_offset = 1, frame_inlined = True\<rparr>,
         \<lparr>frame_name = [97], frame_directory = [], frame_basename = [], frame_line = 7, frame_offset = 5, frame_inlined = False\<rparr>],
      lookup_patterns = []\<rparr>)"
  (is "let_ok (lookup_with_options plain_env ?g _ _ _) _ = _")
proof -
  let ?data = "[0x10, 0, 0, 0, 1, 0, 0, 0, 2, 0, 0, 0, 21, 0, 0, 0, 1, 0, 0x10, 1, 1, 0, 0, 0, 0, 0,
    1, 4, 4, 0, 3, 0, 0, 0, 0, 7, 0, 0, 0, 0, 0, 0, 0, 0, 0]"
  let ?raw = "\<lparr>raw_range = mk_range 0x1010 0x1020, raw_name = 1, raw_data = ?data, raw_records = drop 8 ?data\<rparr>"
  let ?fn = "EncodedFunction (mk_range 0x1010 0x1020) 1 None (Some (EncodedInlineNode [mk_range 0x1010 0x1020] 1 0 0
    [EncodedInlineNode [mk_range 0x1014 0x1018] 3 0 7 []])) [] []"
  have raw: "raw_function_at ?g 0 0x1010 = Inr ?raw"
    by (simp cong: let_ok_weak_cong add: raw_function_at_def function_offset_def cursor_eval checked_mul_def cursor_at_def
        checked_add_u64_def)
  have fn: "decode_function (raw_data ?raw) (pl_endian (g_layout ?g)) (pl_string_offset_size (g_layout ?g)) 0x1010 = Inr ?fn"
    by (simp cong: let_ok_weak_cong add: decode_eval)
  have found: "matching_function plain_env ?g 0x1015 = Inr (Some ?raw)"
    by (simp cong: let_ok_weak_cong add: matching_function_def find_address_index_def reader_partition_point_def partition_point_def
        bisect.simps chunks.simps saturating_sub_u64_def slice_get_def checked_sub_def gsym_address_def checked_mul_def cursor_at_def
        cursor_eval checked_add_u64_def matching_from.simps raw[simplified] range_is_empty_def range_contains_def range_size_def range_is_valid_def)
  have zero_file: "gsym_file plain_env ?g 0 = Inr ([], [])"
    by (simp cong: let_ok_weak_cong add: gsym_file_def file_at_def checked_mul_def checked_add_def slice_get_def decode_pair_def
        plain_env_def typed_values_def chunks.simps from_bytes_def string_at_def position_of_def)
  have names: "gsym_string ?g 1 = Inr [97]" "gsym_string ?g 3 = Inr [98]"
    by (simp_all cong: let_ok_weak_cong add: gsym_string_def string_at_def checked_add_def slice_get_def position_of_def)
  show ?thesis
    using lookup_refines_decoded_function[OF found raw fn, of lookup_options_default "[]"]
    by (simp cong: let_ok_weak_cong add: lookup_spec_def lookup_options_default_def covers_def names[simplified] zero_file[simplified] inline_frame_def
        saturating_sub_u64_def upt_rec)
qed

end
