(* ===== verification/Image.thy ===== *)
theory Image
  imports Transform LookupSpec
begin

text \<open>
  Files as images of their tables: the byte-level statement \<open>image_tables\<close> of what a written file holds, and what
  the operations of the reader return on such a file. \<open>ImageV1\<close> and \<open>ImageV2\<close> show that the two encoders of
  \<open>src/writer/encode.rs\<close> write such files.
\<close>

section \<open>Bytes at a place in a file\<close>

definition holds_at :: "bytes \<Rightarrow> nat \<Rightarrow> bytes \<Rightarrow> bool" where
  "holds_at data p xs \<longleftrightarrow> p + length xs \<le> length data \<and> take (length xs) (drop p data) = xs"

lemma holds_at_append: "holds_at data p (xs @ ys) \<longleftrightarrow> holds_at data p xs \<and> holds_at data (p + length xs) ys"
proof -
  have "take (length xs + length ys) (drop p data) = take (length xs) (drop p data) @ take (length ys) (drop (p + length xs) data)"
    by (simp add: take_add add.commute)
  moreover have "take (length xs) (drop p data) @ take (length ys) (drop (p + length xs) data) = xs @ ys \<longleftrightarrow>
      take (length xs) (drop p data) = xs \<and> take (length ys) (drop (p + length xs) data) = ys"
    if "p + length xs + length ys \<le> length data"
    using that by (intro append_eq_append_conv) simp
  ultimately show ?thesis by (auto simp: holds_at_def add.assoc)
qed

lemma holds_at_here: "holds_at (pre @ xs @ post) (length pre) xs"
  by (simp add: holds_at_def)

lemma holds_at_split: "data = pre @ xs @ post \<Longrightarrow> holds_at data (length pre) xs"
  by (simp add: holds_at_here)

lemma holds_at_pos: "data = pre @ xs @ post \<Longrightarrow> length pre = p \<Longrightarrow> holds_at data p xs"
  by (auto simp: holds_at_here)

lemma holds_at_whole: "holds_at xs 0 xs"
  by (simp add: holds_at_def)

lemma holds_at_more: "holds_at data p xs \<Longrightarrow> holds_at (pre @ data @ post) (length pre + p) xs"
  by (simp add: holds_at_def)

lemma holds_at_nth:
  assumes "holds_at data p (concat (map f xs))" "\<And>x. x \<in> set xs \<Longrightarrow> length (f x) = w" "i < length xs"
  shows "holds_at data (p + i * w) (f (xs ! i))"
  using assms
proof (induction xs arbitrary: p i)
  case (Cons x xs)
  show ?case
  proof (cases i)
    case 0
    then show ?thesis using Cons.prems(1) by (simp add: holds_at_append)
  next
    case (Suc n)
    have l: "length (f x) = w" using Cons.prems(2)[of x] by simp
    have "holds_at data (p + w + n * w) (f (xs ! n))"
      by (rule Cons.IH) (use Cons.prems Suc l in \<open>auto simp: holds_at_append\<close>)
    then show ?thesis by (simp add: Suc add.assoc)
  qed
qed simp

lemma holds_at_ahead: "cbytes c = data \<Longrightarrow> length data < 2 ^ 64 \<Longrightarrow> holds_at data (position c) xs \<Longrightarrow> ahead c xs"
  by (auto simp: ahead_def holds_at_def intro!: exI[of _ "drop (position c + length xs) data"])
     (metis append_take_drop_id drop_drop add.commute)

lemma holds_at_slice: "holds_at data p xs \<Longrightarrow> slice_get data p (p + length xs) = Some xs"
  by (simp add: holds_at_def slice_get_def)

section \<open>Function records in the section\<close>

text \<open>Bytes that decode to a function wherever they are in an input, and for whatever follows.\<close>

definition function_bytes :: "endian \<Rightarrow> u8 \<Rightarrow> encoded_function \<Rightarrow> bytes \<Rightarrow> bool" where
  "function_bytes e osize fn bs \<longleftrightarrow> 12 \<le> length bs \<and>
     (\<forall>c. cendian c = e \<longrightarrow> ahead c bs \<longrightarrow> decode_from osize (r_start (ef_range fn)) 0 c = Inr (fn, advance (length bs) c))"

text \<open>The offsets that \<open>encode_function_section\<close> returns, one for each function: multiples of 4, and the records
  there are apart, in order.\<close>

definition section_records :: "endian \<Rightarrow> u8 \<Rightarrow> nat \<Rightarrow> bytes \<Rightarrow> encoded_function list \<Rightarrow> nat list \<Rightarrow> bool" where
  "section_records e osize base bs fns offs \<longleftrightarrow>
     length offs = length fns
     \<and> (\<forall>i < length fns. base \<le> offs ! i \<and> offs ! i mod 4 = 0
          \<and> (\<exists>blk. function_bytes e osize (fns ! i) blk \<and> holds_at bs (offs ! i - base) blk
               \<and> (Suc i < length fns \<longrightarrow> offs ! i + length blk \<le> offs ! Suc i)))"

lemma encode_into_record:
  assumes "encode_into fn osize False out = Inr (start, out')"
  obtains bs where "out' = write_bytes bs out" "function_bytes (eendian out) osize fn bs"
  using encode_into_at_block[OF assms[unfolded encode_into_def]]
  by (auto simp: function_block_def function_bytes_def)

lemma align_up_eq_pad:
  assumes "align_up n a = Some m"
  shows "m = n + pad_len a n \<and> m mod a = 0 \<and> 0 < a"
proof -
  have a: "0 < a" "m = n + pad_len a n" using assms by (auto simp: align_up_def pad_len_def ok_simps split: if_splits)
  then show ?thesis using pad_len_mod[of a n] by simp
qed

lemma align_up_facts:
  assumes "align_up n a = Some m"
  shows "n \<le> m" "m mod a = 0" "0 < a"
  using align_up_eq_pad[OF assms] by auto

lemma encode_function_step_eq:
  assumes "encode_function_step osize base fn (offs, out) = Inr (offs', out')"
  obtains pad blk where "length pad < 4" "offs' = offs @ [base + length (ebytes out) + length pad]"
    "(base + length (ebytes out) + length pad) mod 4 = 0"
    "out' = write_bytes (pad @ blk) out" "function_bytes (eendian out) osize fn blk"
proof -
  from assms obtain aligned zeros st where
    a: "align_up (base + encoder_len out) 4 = Some aligned" "base + encoder_len out \<le> aligned"
    and z: "slice_get [0, 0, 0 :: u8] 0 (aligned - (base + encoder_len out)) = Some zeros"
    and i: "encode_into fn osize False (write_bytes zeros out) = Inr (st, out')" "offs' = offs @ [aligned]"
    by (auto simp: encode_function_step_def ok_simps)
  from encode_into_record[OF i(1)] obtain blk where blk: "out' = write_bytes blk (write_bytes zeros out)"
    "function_bytes (eendian (write_bytes zeros out)) osize fn blk" by blast
  have "length zeros = aligned - (base + encoder_len out)" "length zeros < 4" using z by (auto simp: ok_simps)
  then have al: "aligned = base + length (ebytes out) + length zeros" "length zeros < 4"
    using a(2) by (simp_all add: encoder_len_def)
  show thesis
  proof (rule that)
    show "length zeros < 4" by (rule al(2))
    show "offs' = offs @ [base + length (ebytes out) + length zeros]" using i(2) by (simp only: al(1))
    show "(base + length (ebytes out) + length zeros) mod 4 = 0" using align_up_eq_pad[OF a(1)] unfolding al(1) by (elim conjE)
    show "out' = write_bytes (zeros @ blk) out" using blk(1) by simp
    show "function_bytes (eendian out) osize fn blk" using blk(2) by simp
  qed
qed

lemma encode_function_section_fold:
  assumes "fold_ok (encode_function_step osize base) fns (offs, out) = Inr (offs', out')"
  shows "\<exists>new bs. offs' = offs @ new \<and> out' = write_bytes bs out
    \<and> section_records (eendian out) osize (base + length (ebytes out)) bs fns new"
  using assms
proof (induction fns arbitrary: offs out)
  case Nil
  then show ?case by (intro exI[of _ "[]"]) (simp add: section_records_def)
next
  case (Cons fn fns)
  from Cons.prems obtain offs1 out1 where s: "encode_function_step osize base fn (offs, out) = Inr (offs1, out1)"
    "fold_ok (encode_function_step osize base) fns (offs1, out1) = Inr (offs', out')" by auto
  from encode_function_step_eq[OF s(1)] obtain pad blk where
    b: "length pad < 4" "offs1 = offs @ [base + length (ebytes out) + length pad]"
    "(base + length (ebytes out) + length pad) mod 4 = 0"
    "out1 = write_bytes (pad @ blk) out" "function_bytes (eendian out) osize fn blk" by metis
  let ?o = "base + length (ebytes out) + length pad"
  from Cons.IH[OF s(2)] obtain new bs where n: "offs' = offs1 @ new" "out' = write_bytes bs out1"
    "section_records (eendian out1) osize (base + length (ebytes out1)) bs fns new" by blast
  note r = n(3)[unfolded section_records_def]
  have e: "eendian out1 = eendian out" by (simp add: b(4))
  have l: "length (ebytes out1) = length (ebytes out) + length pad + length blk" by (simp add: b(4))
  have all: "base + length (ebytes out) \<le> (?o # new) ! i \<and> (?o # new) ! i mod 4 = 0
      \<and> (\<exists>blk'. function_bytes (eendian out) osize ((fn # fns) ! i) blk'
        \<and> holds_at (pad @ blk @ bs) ((?o # new) ! i - (base + length (ebytes out))) blk'
        \<and> (Suc i < length (fn # fns) \<longrightarrow> (?o # new) ! i + length blk' \<le> (?o # new) ! Suc i))" if i: "i < length (fn # fns)" for i
  proof (cases i)
    case 0
    have "?o + length blk \<le> new ! 0" if "0 < length fns" using r that l by auto
    then show ?thesis using b(3,5) holds_at_here[of pad blk bs] 0 by auto
  next
    case (Suc n)
    then have lt: "n < length fns" using i by simp
    note rn = r[THEN conjunct2, rule_format, OF lt, unfolded e]
    obtain blk' where k: "function_bytes (eendian out) osize (fns ! n) blk'" "holds_at bs (new ! n - (base + length (ebytes out1))) blk'"
      "Suc n < length fns \<longrightarrow> new ! n + length blk' \<le> new ! Suc n" "base + length (ebytes out1) \<le> new ! n" "new ! n mod 4 = 0"
      using rn by (elim conjE exE) (rule that; assumption)
    have "holds_at ((pad @ blk) @ bs @ []) (length (pad @ blk) + (new ! n - (base + length (ebytes out1)))) blk'"
      by (rule holds_at_more[OF k(2)])
    moreover have "length (pad @ blk) + (new ! n - (base + length (ebytes out1))) = new ! n - (base + length (ebytes out))"
      using k(4) l by simp
    ultimately have "holds_at (pad @ blk @ bs) (new ! n - (base + length (ebytes out))) blk'" by simp
    moreover have "base + length (ebytes out) \<le> new ! n" using k(4) l by linarith
    ultimately show ?thesis unfolding Suc nth_Cons_Suc list.size using k(1,3,5) by auto
  qed
  have "length new = length fns" using r by blast
  then have "section_records (eendian out) osize (base + length (ebytes out)) (pad @ blk @ bs) (fn # fns) (?o # new)"
    using all unfolding section_records_def by simp
  moreover have "offs' = offs @ ?o # new" "out' = write_bytes (pad @ blk @ bs) out" using n(1,2) b(2,4) by simp_all
  ultimately show ?case by blast
qed

lemma encode_function_section_records:
  assumes "encode_function_section fns e osize base = Inr (offs, bs)"
  shows "section_records e osize base bs fns offs"
  using assms encode_function_section_fold[of osize base fns "[]" "encoder_new e"]
  by (auto simp: encode_function_section_def encoder_new_def)

section \<open>A file that holds given tables\<close>

text \<open>\<open>image_tables data l fns files strings offs\<close>: the file \<open>data\<close>, in which the parser finds the tables at \<open>l\<close>, holds the
  addresses of \<open>fns\<close>, the offsets \<open>offs\<close> of their records in the file, the records there, the file table
  \<open>files\<close> as pairs of string offsets, and the string table \<open>strings\<close>.\<close>

definition stored_offset :: "parsed_layout \<Rightarrow> nat \<Rightarrow> bytes" where
  "stored_offset l off = (case pl_version l of V1 \<Rightarrow> to_bytes (pl_endian l) 4 off
     | V2 \<Rightarrow> to_bytes (pl_endian l) 8 (off - fst (pl_function_info l)))"

definition file_pair_bytes :: "parsed_layout \<Rightarrow> u64 \<times> u64 \<Rightarrow> bytes" where
  "file_pair_bytes l f = uint_put (pl_string_offset_size l) (pl_endian l) (fst f) @ uint_put (pl_string_offset_size l) (pl_endian l) (snd f)"

definition image_tables :: "bytes \<Rightarrow> parsed_layout \<Rightarrow> encoded_function list \<Rightarrow> (u64 \<times> u64) list \<Rightarrow> bytes \<Rightarrow> nat list \<Rightarrow> bool" where
  "image_tables data l fns files strings offs \<longleftrightarrow>
     length data < 2 ^ 64 \<and> unat (pl_address_count l) = length fns \<and> unat (pl_file_count l) = length files
     \<and> length offs = length fns
     \<and> pl_string_offset_size l = (case pl_version l of V1 \<Rightarrow> 4 | V2 \<Rightarrow> 8)
     \<and> (\<forall>fn \<in> set fns. pl_base_address l \<le> r_start (ef_range fn)
          \<and> uint_fits (pl_address_offset_size l) (r_start (ef_range fn) - pl_base_address l))
     \<and> holds_at data (fst (pl_address_offsets l))
          (concat (map (\<lambda>fn. uint_put (pl_address_offset_size l) (pl_endian l) (r_start (ef_range fn) - pl_base_address l)) fns))
     \<and> (\<forall>off \<in> set offs. pl_version l = V1 \<longrightarrow> off < 2 ^ 32)
     \<and> holds_at data (fst (pl_address_info_offsets l)) (concat (map (stored_offset l) offs))
     \<and> (\<forall>f \<in> set files. uint_fits (pl_string_offset_size l) (fst f) \<and> uint_fits (pl_string_offset_size l) (snd f))
     \<and> holds_at data (fst (pl_file_table l) + 4) (concat (map (file_pair_bytes l) files))
     \<and> slice_get data (fst (pl_string_table l)) (snd (pl_string_table l)) = Some strings
     \<and> snd (pl_function_info l) \<le> length data
     \<and> (\<forall>i < length fns. fst (pl_function_info l) \<le> offs ! i
          \<and> (\<exists>blk. function_bytes (pl_endian l) (pl_string_offset_size l) (fns ! i) blk
               \<and> holds_at data (offs ! i) blk \<and> offs ! i + length blk \<le> snd (pl_function_info l)))"

lemma image_record:
  assumes "image_tables data l fns files strings offs" "i < length fns"
  obtains blk where "function_bytes (pl_endian l) (pl_string_offset_size l) (fns ! i) blk" "holds_at data (offs ! i) blk"
    "fst (pl_function_info l) \<le> offs ! i" "offs ! i + length blk \<le> snd (pl_function_info l)" "snd (pl_function_info l) \<le> length data"
proof -
  have "snd (pl_function_info l) \<le> length data" and all: "\<forall>i < length fns. fst (pl_function_info l) \<le> offs ! i
          \<and> (\<exists>blk. function_bytes (pl_endian l) (pl_string_offset_size l) (fns ! i) blk
               \<and> holds_at data (offs ! i) blk \<and> offs ! i + length blk \<le> snd (pl_function_info l))"
    using assms(1) unfolding image_tables_def by blast+
  then show thesis using that all[rule_format, OF assms(2)] by blast
qed

lemma image_address:
  assumes t: "image_tables (g_data g) (g_layout g) fns files strings offs" and i: "i < length fns"
  shows "gsym_address g i = Inr (r_start (ef_range (fns ! i)))"
proof -
  let ?l = "g_layout g"
  define w where "w = unat (pl_address_offset_size ?l)"
  let ?rel = "r_start (ef_range (fns ! i)) - pl_base_address ?l"
  let ?off = "fst (pl_address_offsets ?l) + i * w"
  note d = t[unfolded image_tables_def]
  have fit: "pl_base_address ?l \<le> r_start (ef_range (fns ! i))" "uint_fits (pl_address_offset_size ?l) ?rel"
    using d nth_mem[OF i] by blast+
  have h: "holds_at (g_data g) ?off (uint_put (pl_address_offset_size ?l) (pl_endian ?l) ?rel)"
    by (rule holds_at_nth[where f = "\<lambda>fn. uint_put (pl_address_offset_size ?l) (pl_endian ?l) (r_start (ef_range fn) - pl_base_address ?l)"])
      (use d i in \<open>auto simp: w_def\<close>)
  have len: "length (g_data g) < 2 ^ 64" using d by blast
  have off: "?off + w \<le> length (g_data g)" using h by (simp add: holds_at_def w_def)
  then have c: "checked_mul i w = Some (i * w)" "checked_add (fst (pl_address_offsets ?l)) (i * w) = Some ?off"
    using len by (auto simp: checked_mul_def checked_add_def)
  let ?c = "\<lparr>cbytes = g_data g, position = ?off, cendian = pl_endian ?l\<rparr>"
  have "cursor_at (g_data g) (pl_endian ?l) ?off = Inr ?c" using off by (simp add: cursor_at_def)
  moreover have "ahead ?c (uint_put (pl_address_offset_size ?l) (cendian ?c) ?rel)"
    by (rule holds_at_ahead) (use h len in simp_all)
  ultimately show ?thesis
    using read_uint_ahead[OF fit(2)] c checked_add_u64_sub[OF fit(1)] by (simp add: gsym_address_def Let_def w_def[symmetric])
qed

lemma image_function_offset:
  assumes t: "image_tables (g_data g) (g_layout g) fns files strings offs" and i: "i < length fns"
  shows "function_offset g i = Inr (offs ! i)"
proof -
  let ?l = "g_layout g"
  define w :: u8 where "w = (case pl_version ?l of V1 \<Rightarrow> 4 | V2 \<Rightarrow> 8)"
  define v :: u64 where "v = word_of_nat (case pl_version ?l of V1 \<Rightarrow> offs ! i | V2 \<Rightarrow> offs ! i - fst (pl_function_info ?l))"
  let ?off = "fst (pl_address_info_offsets ?l) + i * unat w"
  note d = t[unfolded image_tables_def]
  have len: "length (g_data g) < 2 ^ 64" and lo: "length offs = length fns" using d by blast+
  obtain blk :: bytes where fi: "fst (pl_function_info ?l) \<le> offs ! i" "offs ! i + length blk \<le> snd (pl_function_info ?l)" "snd (pl_function_info ?l) \<le> length (g_data g)"
    by (rule image_record[OF t i])
  then have small: "offs ! i < 2 ^ 64" using len by linarith
  have small1: "offs ! i < 2 ^ 32" if "pl_version ?l = V1" using d i lo that nth_mem[of i offs] by metis
  have vw: "unat v = (case pl_version ?l of V1 \<Rightarrow> offs ! i | V2 \<Rightarrow> offs ! i - fst (pl_function_info ?l))"
    unfolding v_def by (rule unat_word_of_nat_u64) (use small in \<open>simp add: less_imp_diff_less split: gsym_version.split\<close>)
  have put: "stored_offset ?l (offs ! i) = uint_put w (pl_endian ?l) v"
    by (simp add: stored_offset_def uint_put_def vw w_def split: gsym_version.split)
  have fit: "uint_fits w v" using small small1 by (auto simp: uint_fits_def vw w_def split: gsym_version.split)
  have "length (stored_offset ?l x) = unat w" for x by (simp add: stored_offset_def w_def split: gsym_version.split)
  then have h: "holds_at (g_data g) ?off (uint_put w (pl_endian ?l) v)"
    unfolding put[symmetric] by (rule holds_at_nth[rotated]) (use d i in auto)
  have off: "?off + unat w \<le> length (g_data g)" using h by (simp add: holds_at_def)
  then have c: "checked_mul i (unat w) = Some (i * unat w)" "checked_add (fst (pl_address_info_offsets ?l)) (i * unat w) = Some ?off"
    using len by (auto simp: checked_mul_def checked_add_def)
  let ?c = "\<lparr>cbytes = g_data g, position = ?off, cendian = pl_endian ?l\<rparr>"
  have "cursor_at (g_data g) (pl_endian ?l) ?off = Inr ?c" using off by (simp add: cursor_at_def)
  moreover have "ahead ?c (uint_put w (cendian ?c) v)" by (rule holds_at_ahead) (use h len in simp_all)
  ultimately have "function_offset g i = let_ok (case pl_version ?l of V1 \<Rightarrow> Inr v
        | V2 \<Rightarrow> ok_or (checked_add_u64 v (word_of_nat (fst (pl_function_info ?l)))) (Overflow ''FunctionInfo offset''))
      (\<lambda>absolute. Inr (unat absolute))"
    using read_uint_ahead[OF fit] c by (simp add: function_offset_def Let_def w_def[symmetric])
  also have "\<dots> = Inr (offs ! i)"
  proof (cases "pl_version ?l")
    case V1
    then show ?thesis by (simp add: vw)
  next
    case V2
    have b: "unat (word_of_nat (fst (pl_function_info ?l)) :: u64) = fst (pl_function_info ?l)"
      by (rule unat_word_of_nat_u64) (use fi(1) small in linarith)
    have "unat v + fst (pl_function_info ?l) = offs ! i" using V2 fi(1) by (simp add: vw)
    then show ?thesis using V2 small unat_add_u64[of v "word_of_nat (fst (pl_function_info ?l))"] by (simp add: checked_add_u64_def b)
  qed
  finally show ?thesis .
qed

lemma decode_from_header:
  assumes "decode_from osize base depth c = Inr (fn, c')"
  obtains len c1 c2 where "read_u32 c = Inr (len, c1)" "read_uint osize c1 = Inr (ef_name fn, c2)" "ef_name fn \<noteq> 0"
    "checked_add_u64 base (ucast len) = Some (r_end (ef_range fn))" "r_start (ef_range fn) = base"
    "moved 4 c c1" "moved (unat osize) c1 c2"
proof -
  from assms obtain len c1 name c2 stop where r: "read_u32 c = Inr (len, c1)" "read_uint osize c1 = Inr (name, c2)" "name \<noteq> 0"
    "checked_add_u64 base (ucast len) = Some stop"
    "decode_records osize base depth 0 False (EncodedFunction (mk_range base stop) name None None [] []) c2 = Inr (fn, c')"
    by (auto simp: decode_from.simps[of osize base depth c] ok_simps split: if_splits)
  then show thesis
    using that decode_records_header[OF r(5)] read_u32_moved[OF r(1)] read_uint_moved[OF r(2)] by auto
qed

lemma image_raw_function:
  assumes t: "image_tables (g_data g) (g_layout g) fns files strings offs" and i: "i < length fns"
  shows "\<exists>raw. raw_function_at g i (r_start (ef_range (fns ! i))) = Inr raw \<and> raw_range raw = ef_range (fns ! i)
    \<and> raw_name raw = ef_name (fns ! i)
    \<and> decode_function (raw_data raw) (pl_endian (g_layout g)) (pl_string_offset_size (g_layout g)) (r_start (raw_range raw)) = Inr (fns ! i)"
proof -
  let ?l = "g_layout g"
  let ?fn = "fns ! i"
  note d = t[unfolded image_tables_def]
  obtain blk where fi: "fst (pl_function_info ?l) \<le> offs ! i" "offs ! i + length blk \<le> snd (pl_function_info ?l)"
    "function_bytes (pl_endian ?l) (pl_string_offset_size ?l) ?fn blk" "holds_at (g_data g) (offs ! i) blk"
    by (rule image_record[OF t i])
  have len: "length (g_data g) < 2 ^ 64" "snd (pl_function_info ?l) \<le> length (g_data g)" using d by blast+
  define data where "data = take (snd (pl_function_info ?l) - offs ! i) (drop (offs ! i) (g_data g))"
  have "length blk \<le> snd (pl_function_info ?l) - offs ! i" using fi(2) by linarith
  then have pre: "take (length blk) data = blk" using fi(4) by (simp add: data_def holds_at_def min_def)
  have dl: "length data \<le> length (g_data g)" by (simp add: data_def)
  have "data = blk @ drop (length blk) data" using append_take_drop_id[of "length blk" data] by (simp only: pre)
  then have "ahead (cursor_new data (pl_endian ?l)) blk"
    using ahead_prefix[of blk "drop (length blk) data" "pl_endian ?l"] dl len(1) by (metis le_less_trans)
  then have dec: "decode_from (pl_string_offset_size ?l) (r_start (ef_range ?fn)) 0 (cursor_new data (pl_endian ?l)) =
      Inr (?fn, advance (length blk) (cursor_new data (pl_endian ?l)))"
    using fi(3) by (simp add: function_bytes_def cursor_new_def)
  obtain n c1 c2 where h: "read_u32 (cursor_new data (pl_endian ?l)) = Inr (n, c1)"
    "read_uint (pl_string_offset_size ?l) c1 = Inr (ef_name ?fn, c2)" "ef_name ?fn \<noteq> 0"
    "checked_add_u64 (r_start (ef_range ?fn)) (ucast n) = Some (r_end (ef_range ?fn))"
    "moved 4 (cursor_new data (pl_endian ?l)) c1" "moved (unat (pl_string_offset_size ?l)) c1 c2"
    by (rule decode_from_header[OF dec])
  have slice: "slice_get (g_data g) (offs ! i) (snd (pl_function_info ?l)) = Some data"
    using fi(2) len(2) by (simp add: slice_get_def data_def)
  have "0 < length blk" using fi(3) by (auto simp: function_bytes_def)
  then have lt: "\<not> (offs ! i < fst (pl_function_info ?l) \<or> snd (pl_function_info ?l) \<le> offs ! i)" using fi(1,2) by linarith
  have pos: "position c2 \<le> length data" using h(5,6) by (simp add: moved_def cursor_new_def)
  have rest: "slice_get data (position c2) (length data) = Some (drop (position c2) data)" using pos by (simp add: slice_get_def)
  have dfun: "decode_function data (pl_endian ?l) (pl_string_offset_size ?l) (r_start (ef_range ?fn)) = Inr ?fn"
    using dec dec[unfolded decode_from.simps[of "pl_string_offset_size ?l"]] by (auto simp: decode_function_def)
  have "raw_function_at g i (r_start (ef_range ?fn)) = Inr \<lparr>raw_range = mk_range (r_start (ef_range ?fn)) (r_end (ef_range ?fn)),
      raw_name = ef_name ?fn, raw_data = data, raw_records = drop (position c2) data\<rparr>"
    using h(1-4) lt by (simp add: raw_function_at_def image_function_offset[OF t i] Let_def slice rest)
  then show ?thesis using dfun by simp
qed

lemma image_function:
  assumes t: "image_tables (g_data g) (g_layout g) fns files strings offs" and i: "i < length fns"
    and name: "gsym_string g (ef_name (fns ! i)) = Inr nm"
  shows "\<exists>r. gsym_function g i = Inr r \<and> fr_index r = i \<and> fr_name r = nm \<and> fr_all_data r = g_data g \<and> fr_layout r = g_layout g
    \<and> raw_range (fr_raw r) = ef_range (fns ! i) \<and> ref_decode_encoded r = Inr (fns ! i)"
proof -
  obtain raw where raw: "raw_function_at g i (r_start (ef_range (fns ! i))) = Inr raw" "raw_range raw = ef_range (fns ! i)"
    "raw_name raw = ef_name (fns ! i)"
    "decode_function (raw_data raw) (pl_endian (g_layout g)) (pl_string_offset_size (g_layout g)) (r_start (raw_range raw)) = Inr (fns ! i)"
    using image_raw_function[OF t i] by blast
  have n: "unat (pl_address_count (g_layout g)) = length fns" using t by (simp add: image_tables_def)
  show ?thesis
    using i raw(1,3,4) name
    by (simp add: gsym_function_def gsym_get_function_def gsym_raw_function_def n image_address[OF t i] ref_decode_encoded_def raw(2))
qed

lemma decode_pair_bytes:
  assumes "lawful_env env" "w = 4 \<or> w = 8" "uint_fits w a" "uint_fits w b"
  shows "decode_pair env (unat w) e (uint_put w e a @ uint_put w e b) = Inr (a, b)"
proof -
  let ?n = "unat w" and ?bs = "uint_put w e a @ uint_put w e b"
  have n: "?n \<in> {2, 4, 8}" using assms(2) by auto
  then have pos: "0 < ?n" by auto
  have m: "length ?bs mod ?n = 0" by simp
  have "chunks ?n ?bs = [uint_put w e a, uint_put w e b]"
    using pos by (simp add: chunks.simps[of _ "_ @ _"] chunks.simps[of _ "uint_put w e b"] chunks.simps[of _ "[]"])
  moreover have "word_of_nat (from_bytes e (uint_put w e v)) = v" if "uint_fits w v" for v
    using that by (simp add: uint_put_def from_to_bytes uint_fits_def)
  ultimately have "typed_values ?n e ?bs = [a, b]" using assms(3,4) by (simp add: typed_values_def)
  moreover have "typed_slice env ?n e ?bs = (if length ?bs mod ?n = 0 then Some (typed_values ?n e ?bs) else None)"
    using assms(1) n unfolding lawful_env_def by blast
  ultimately show ?thesis using m by (simp add: decode_pair_def)
qed

lemma image_file:
  assumes t: "image_tables (g_data g) (g_layout g) fns files strings offs" and env: "lawful_env env"
    and i: "unat index < length files"
    and d: "gsym_string g (fst (files ! unat index)) = Inr directory" and b: "gsym_string g (snd (files ! unat index)) = Inr basename"
  shows "gsym_file env g index = Inr (directory, basename)"
proof -
  let ?l = "g_layout g"
  define w where "w = pl_string_offset_size ?l"
  define f where "f = files ! unat index"
  let ?bs = "uint_put w (pl_endian ?l) (fst f) @ uint_put w (pl_endian ?l) (snd f)"
  note t' = t[unfolded image_tables_def]
  have w: "w = 4 \<or> w = 8" using t' by (auto simp: w_def split: gsym_version.splits)
  have len: "length (g_data g) < 2 ^ 64" and n: "unat (pl_file_count ?l) = length files" using t' by blast+
  have table: "holds_at (g_data g) (fst (pl_file_table ?l) + 4) (concat (map (file_pair_bytes ?l) files))" using t' by blast
  have f: "uint_fits w (fst f)" "uint_fits w (snd f)" using t' nth_mem[OF i] unfolding w_def f_def by blast+
  let ?off = "fst (pl_file_table ?l) + 4 + unat index * (unat w * 2)"
  have "holds_at (g_data g) ?off (file_pair_bytes ?l (files ! unat index))"
    by (rule holds_at_nth[OF table _ i]) (simp add: file_pair_bytes_def w_def)
  then have h: "holds_at (g_data g) ?off ?bs" by (simp add: file_pair_bytes_def w_def f_def)
  have off: "?off + unat w * 2 \<le> length (g_data g)" using h by (simp add: holds_at_def)
  have c: "checked_mul (unat w) 2 = Some (unat w * 2)" "checked_mul (unat index) (unat w * 2) = Some (unat index * (unat w * 2))"
    "checked_add (fst (pl_file_table ?l)) 4 = Some (fst (pl_file_table ?l) + 4)"
    "checked_add (fst (pl_file_table ?l) + 4) (unat index * (unat w * 2)) = Some ?off"
    "checked_add ?off (unat w * 2) = Some (?off + unat w * 2)"
    using off len by (simp_all add: checked_mul_def checked_add_def)
  have slice: "slice_get (g_data g) ?off (?off + unat w * 2) = Some ?bs" using holds_at_slice[OF h] by (simp add: mult_2_right)
  have idx: "\<not> pl_file_count ?l \<le> index" using i n by (simp add: word_le_nat_alt)
  have p: "(if w = 4 then decode_pair env 4 (pl_endian ?l) ?bs else if w = 8 then decode_pair env 8 (pl_endian ?l) ?bs
      else Inl (OutOfRange ''string offset size'' (ucast w) 8)) = Inr (fst f, snd f)"
    using decode_pair_bytes[OF env w f] w by auto
  have s: "string_at (g_data g) (pl_string_table ?l) (fst f) = Inr directory" "string_at (g_data g) (pl_string_table ?l) (snd f) = Inr basename"
    using d b by (simp_all add: gsym_string_def f_def)
  show ?thesis
    unfolding gsym_file_def Let_def file_at_def w_def[symmetric] if_not_P[OF idx] c ok_or_Some let_ok_Inr bind.bind_lunit slice p prod.case s ..
qed

section \<open>The version-1 image\<close>

lemma write_address_offsets_eq:
  assumes "write_address_offsets fns base width out = Inr out'"
  shows "0 < unat width \<and> (\<forall>fn \<in> set fns. base \<le> r_start (ef_range fn) \<and> uint_fits width (r_start (ef_range fn) - base))
    \<and> out' = write_bytes (replicate (pad_len (unat width) (length (ebytes out))) 0
        @ concat (map (\<lambda>fn. uint_put width (eendian out) (r_start (ef_range fn) - base)) fns)) out"
proof -
  let ?step = "\<lambda>fn out. let_ok (ok_or (checked_sub_u64 (r_start (ef_range fn)) base)
         (InvalidModel ''function address precedes the image base'')) (\<lambda>off. write_uint off width out)"
  have loop: "fold_ok ?step fns o1 = Inr o2 \<Longrightarrow>
      (\<forall>fn \<in> set fns. base \<le> r_start (ef_range fn) \<and> uint_fits width (r_start (ef_range fn) - base))
      \<and> o2 = write_bytes (concat (map (\<lambda>fn. uint_put width (eendian o1) (r_start (ef_range fn) - base)) fns)) o1" for o1 o2
  proof (induction fns arbitrary: o1)
    case (Cons fn fns)
    then obtain o3 where o3: "?step fn o1 = Inr o3" "fold_ok ?step fns o3 = Inr o2" by auto
    then have "base \<le> r_start (ef_range fn) \<and> uint_fits width (r_start (ef_range fn) - base)
        \<and> o3 = write_bytes (uint_put width (eendian o1) (r_start (ef_range fn) - base)) o1"
      by (auto simp: checked_sub_u64_def write_uint_eq ok_simps split: if_splits)
    then show ?case using Cons.IH[OF o3(2)] by simp
  qed simp
  from assms obtain o1 where "align_to (unat width) out = Inr o1" "fold_ok ?step fns o1 = Inr out'"
    by (auto simp: write_address_offsets_def)
  then show ?thesis using loop[of o1 out'] by (auto simp: align_to_eq)
qed

lemma write_file_table_eq:
  assumes "write_file_table files width out = Inr out'"
  shows "length files < 2 ^ 32 \<and> (\<forall>f \<in> set files. uint_fits width (fst f) \<and> uint_fits width (snd f))
    \<and> out' = write_bytes (to_bytes (eendian out) 4 (length files)
        @ concat (map (\<lambda>f. uint_put width (eendian out) (fst f) @ uint_put width (eendian out) (snd f)) files)) out"
proof -
  let ?step = "\<lambda>(directory, basename) out. let_ok (write_uint directory width out) (write_uint basename width)"
  have loop: "fold_ok ?step files o1 = Inr o2 \<Longrightarrow>
      (\<forall>f \<in> set files. uint_fits width (fst f) \<and> uint_fits width (snd f))
      \<and> o2 = write_bytes (concat (map (\<lambda>f. uint_put width (eendian o1) (fst f) @ uint_put width (eendian o1) (snd f)) files)) o1" for o1 o2
  proof (induction files arbitrary: o1)
    case (Cons f files)
    then obtain o3 where o3: "?step f o1 = Inr o3" "fold_ok ?step files o3 = Inr o2" by auto
    then have "uint_fits width (fst f) \<and> uint_fits width (snd f)
        \<and> o3 = write_bytes (uint_put width (eendian o1) (fst f) @ uint_put width (eendian o1) (snd f)) o1"
      by (auto simp: write_uint_eq split: prod.splits)
    then show ?case using Cons.IH[OF o3(2)] by simp
  qed simp
  from assms obtain count where "u32_try_from (length files) = Some count" "fold_ok ?step files (write_u32 count out) = Inr out'"
    by (auto simp: write_file_table_def ok_simps)
  then show ?thesis using loop[of "write_u32 count out" out'] by (auto simp: u32_try_from_def enc_simps unat_word_of_nat_u32 split: if_splits)
qed

lemma write_info_offsets_v1_eq:
  assumes "fold_ok (\<lambda>off out. let_ok (narrow_v1 off ctx) (\<lambda>off. Inr (write_u32 off out))) offs out = Inr out'"
  shows "(\<forall>off \<in> set offs. off < 2 ^ 32) \<and> out' = write_bytes (concat (map (to_bytes (eendian out) 4) offs)) out"
  using assms
proof (induction offs arbitrary: out)
  case (Cons off offs)
  let ?step = "\<lambda>off out. let_ok (narrow_v1 off ctx) (\<lambda>off. Inr (write_u32 off out))"
  from Cons.prems obtain o3 where o3: "?step off out = Inr o3" "fold_ok ?step offs o3 = Inr out'" by auto
  then have "off < 2 ^ 32 \<and> o3 = write_bytes (to_bytes (eendian out) 4 off) out"
    by (auto simp: narrow_v1_def ok_simps u32_try_from_def unat_word_of_nat_u32 enc_simps split: if_splits)
  then show ?case using Cons.IH[OF o3(2)] by simp
qed simp

end
