(* ===== verification/ImageV1.thy ===== *)
theory ImageV1
  imports Image
begin

text \<open>
  \<open>encode_v1\<close> of \<open>src/writer/encode.rs\<close> writes a file that the version-1 parser reads as the image of its tables.
\<close>

lemma layout_parse_v1:
  assumes "length (v1_header_bytes h e @ rest) < 2 ^ 64"
  shows "layout_parse native (v1_header_bytes h e @ rest) = parse_v1 native (v1_header_bytes h e @ rest)"
proof -
  let ?bs = "v1_header_bytes h e @ rest"
  define c where "c = cursor_new ?bs e"
  have ce: "cendian c = e" by (simp add: c_def cursor_new_def)
  have "ahead c ?bs" unfolding c_def by (rule ahead_all[OF assms])
  then have a: "ahead c (to_bytes e 4 (unat GSYM_MAGIC))" "ahead (advance 4 c) (to_bytes e 2 (unat V1_VERSION))"
    by (simp_all add: v1_header_bytes_def ahead_append magic_bytes_def)
  have "detect_endian native ?bs = Inr e" by (simp add: detect_endian_iff v1_header_bytes_def)
  moreover have "read_u32 c = Inr (GSYM_MAGIC, advance 4 c)" using read_u32_ahead[of c GSYM_MAGIC] a(1) by (simp add: ce)
  moreover have "read_u16 (advance 4 c) = Inr (V1_VERSION, advance 6 c)"
    using read_u16_ahead[of "advance 4 c" V1_VERSION] a(2) by (simp add: ce)
  ultimately show ?thesis by (simp add: layout_parse_def c_def[symmetric])
qed

text \<open>The bytes and the sizes of a version-1 image.\<close>

lemma encode_v1_bytes:
  assumes "encode_v1 options base width files strings fns = Inr img"
  defines "e \<equiv> wo_endian options" and "n \<equiv> length fns" and "w \<equiv> unat width"
  obtains h offs info_start file_start string_start where
    "image_into_bytes img = v1_header_bytes h e
       @ concat (map (\<lambda>fn. uint_put width e (r_start (ef_range fn) - base)) fns)
       @ replicate (info_start - (48 + n * w)) 0 @ concat (map (to_bytes e 4) offs)
       @ to_bytes e 4 (length files) @ concat (map (\<lambda>f. uint_put 4 e (fst f) @ uint_put 4 e (snd f)) files)
       @ strings @ ei_function_info img"
    "v1_validate_address_offset_size width = Inr ()" "v1_address_offset_size h = width" "v1_base_address h = base"
    "unat (v1_address_count h) = n" "unat (v1_string_table_offset h) = string_start"
    "unat (v1_string_table_size h) = length strings" "fixed_uuid_new (wo_build_id options) = Inr (v1_uuid h)"
    "\<forall>fn \<in> set fns. base \<le> r_start (ef_range fn) \<and> uint_fits width (r_start (ef_range fn) - base)"
    "\<forall>off \<in> set offs. off < 2 ^ 32" "length files < 2 ^ 32" "\<forall>f \<in> set files. uint_fits 4 (fst f) \<and> uint_fits 4 (snd f)"
    "align_up (48 + n * w) 4 = Some info_start" "align_up (info_start + n * 4) 4 = Some (info_start + n * 4)"
    "file_start = info_start + n * 4" "string_start = file_start + (4 + length files * 8)"
    "section_records e 4 (string_start + length strings) (ei_function_info img) fns offs"
proof -
  note enc = assms(1)[unfolded encode_v1_def]
  from enc obtain count n1 address_end info_start n2 info_end file_start n3 file_len string_start function_base offs fbytes
      soff ssize uuid header out1 out2 out3 out4 out5 where
    count: "function_count fns = Inr count"
    and sizes: "checked_mul n w = Some n1" "checked_add 48 n1 = Some address_end" "align_up address_end 4 = Some info_start"
      "checked_mul n 4 = Some n2" "checked_add info_start n2 = Some info_end" "align_up info_end 4 = Some file_start"
      "checked_mul (length files) 8 = Some n3" "checked_add 4 n3 = Some file_len" "checked_add file_start file_len = Some string_start"
      "checked_add string_start (length strings) = Some function_base"
    and sec: "encode_function_section fns e 4 function_base = Inr (offs, fbytes)"
    and narrow: "narrow_v1 string_start ''string-table offset'' = Inr soff" "narrow_v1 (length strings) ''string-table size'' = Inr ssize"
    and uuid: "fixed_uuid_new (wo_build_id options) = Inr uuid"
    and hdr: "v1_header_encode \<lparr>v1_address_offset_size = width, v1_base_address = base, v1_address_count = count,
            v1_string_table_offset = soff, v1_string_table_size = ssize, v1_uuid = uuid\<rparr> e = Inr header"
    and outs: "write_address_offsets fns base width (write_bytes header (encoder_new e)) = Inr out1"
      "align_to 4 out1 = Inr out2"
      "fold_ok (\<lambda>off out. let_ok (narrow_v1 off ''FunctionInfo offset'') (\<lambda>off. Inr (write_u32 off out))) offs out2 = Inr out3"
      "align_to 4 out3 = Inr out4" "write_file_table files 4 out4 = Inr out5"
    and img: "img = \<lparr>ei_prefix = ebytes (write_bytes strings out5), ei_function_info = fbytes\<rparr>"
    unfolding e_def n_def w_def V1_HEADER_SIZE_def checked_table_size_def
    by (auto simp: ok_simps split: if_splits)
  let ?h = "\<lparr>v1_address_offset_size = width, v1_base_address = base, v1_address_count = count,
            v1_string_table_offset = soff, v1_string_table_size = ssize, v1_uuid = uuid\<rparr>"
  have h: "v1_validate_address_offset_size width = Inr ()" "header = v1_header_bytes ?h e" "length header = 48"
    using hdr fixed_uuid_slice_new[OF uuid] uuid
    by (auto simp: v1_header_encode_eq v1_header_bytes_def MAX_UUID_SIZE_def fixed_uuid_new_slice)
  have w8: "48 mod w = 0" using h(1) by (auto simp: v1_validate_address_offset_size_def w_def split: if_splits)
  have sz: "n1 = n * w" "address_end = 48 + n * w" "n2 = n * 4" "info_end = info_start + n * 4"
      "string_start = file_start + (4 + length files * 8)" "function_base = string_start + length strings"
    using sizes by (auto simp: ok_simps)
  let ?A = "concat (map (\<lambda>fn. uint_put width e (r_start (ef_range fn) - base)) fns)"
  have lA: "length ?A = n * w" unfolding n_def by (induction fns) (auto simp: w_def)
  have o1: "\<forall>fn \<in> set fns. base \<le> r_start (ef_range fn) \<and> uint_fits width (r_start (ef_range fn) - base)"
    "out1 = write_bytes (header @ ?A) (encoder_new e)"
    using write_address_offsets_eq[OF outs(1)] h(3) w8 by (auto simp: encoder_new_def pad_len_def w_def)
  have al: "info_start = 48 + n * w + pad_len 4 (48 + n * w)" "info_start mod 4 = 0"
    using align_up_eq_pad[OF sizes(3)] unfolding sz(2) by blast+
  have "info_end mod 4 = 0" using al(2) sz(4) by simp
  then have fs: "file_start = info_end" using sizes(6) by (simp add: align_up_def)
  have o2: "out2 = write_bytes (replicate (info_start - (48 + n * w)) 0) out1"
    using outs(2) al(1) h(3) lA by (simp add: align_to_eq o1(2) encoder_new_def)
  have l2: "length (ebytes out2) = info_start" using al(1) h(3) lA by (simp add: o2 o1(2) encoder_new_def)
  have o3: "\<forall>off \<in> set offs. off < 2 ^ 32" "out3 = write_bytes (concat (map (to_bytes e 4) offs)) out2"
    using write_info_offsets_v1_eq[OF outs(3)] by (auto simp: o2 o1(2) encoder_new_def)
  have rec: "section_records e 4 function_base fbytes fns offs" by (rule encode_function_section_records[OF sec])
  then have lo: "length offs = n" by (simp add: section_records_def n_def)
  have "length (concat (map (to_bytes e 4) offs)) = 4 * length offs" by (induction offs) auto
  then have l3: "length (ebytes out3) = info_end" using l2 lo sz(4) by (simp add: o3(2))
  have o4: "out4 = out3" using outs(4) \<open>info_end mod 4 = 0\<close> by (simp add: align_to_eq l3 pad_len_def)
  have o5: "length files < 2 ^ 32" "\<forall>f \<in> set files. uint_fits 4 (fst f) \<and> uint_fits 4 (snd f)"
    "out5 = write_bytes (to_bytes e 4 (length files) @ concat (map (\<lambda>f. uint_put 4 e (fst f) @ uint_put 4 e (snd f)) files)) out4"
    using write_file_table_eq[OF outs(5)] by (auto simp: o4 o3(2) o2 o1(2) encoder_new_def)
  show thesis
  proof (rule that)
    show "image_into_bytes img = v1_header_bytes ?h e @ ?A
       @ replicate (info_start - (48 + n * w)) 0 @ concat (map (to_bytes e 4) offs)
       @ to_bytes e 4 (length files) @ concat (map (\<lambda>f. uint_put 4 e (fst f) @ uint_put 4 e (snd f)) files)
       @ strings @ ei_function_info img"
      by (simp add: image_into_bytes_def img o5(3) o4 o3(2) o2 o1(2) encoder_new_def h(2))
    show "unat (v1_address_count ?h) = n" using count by (auto simp: function_count_def ok_simps u32_try_from_def n_def unat_word_of_nat_u32 split: if_splits)
    show "unat (v1_string_table_offset ?h) = string_start" "unat (v1_string_table_size ?h) = length strings"
      using narrow by (auto simp: narrow_v1_def ok_simps u32_try_from_def unat_word_of_nat_u32 split: if_splits)
    show "align_up (48 + n * w) 4 = Some info_start" using sizes(3) sz(2) by simp
    show "align_up (info_start + n * 4) 4 = Some (info_start + n * 4)" using sizes(6) fs sz(4) by simp
    show "section_records e 4 (string_start + length strings) (ei_function_info img) fns offs" using rec by (simp add: sz(6) img)
    show "file_start = info_start + n * 4" by (simp only: fs sz(4))
    show "string_start = file_start + (4 + length files * 8)" by (rule sz(5))
  qed (use h(1) uuid o1(1) o3(1) o5(1,2) in simp_all)
qed

lemma drop_holds_at: "length data < 2 ^ 64 \<Longrightarrow> data = pre @ xs @ post \<Longrightarrow>
    ahead \<lparr>cbytes = data, position = length pre, cendian = e\<rparr> xs"
  by (rule holds_at_ahead) (auto simp: holds_at_here)

lemma v1_image_tables:
  assumes enc: "encode_v1 options base width files strings fns = Inr img" and len: "length (image_into_bytes img) < 2 ^ 64"
  obtains l offs where "layout_parse native (image_into_bytes img) = Inr l"
    "image_tables (image_into_bytes img) l fns files strings offs"
    "pl_version l = V1" "pl_endian l = wo_endian options" "pl_base_address l = base" "pl_address_offset_size l = width"
    "slice_get (image_into_bytes img) (fst (pl_build_id l)) (snd (pl_build_id l)) = Some (wo_build_id options)"
proof -
  define data e n w where d: "data = image_into_bytes img" "e = wo_endian options" "n = length fns" "w = unat width"
  obtain h offs info_start file_start string_start where
    bytes: "data = v1_header_bytes h e
       @ concat (map (\<lambda>fn. uint_put width e (r_start (ef_range fn) - base)) fns)
       @ replicate (info_start - (48 + n * w)) 0 @ concat (map (to_bytes e 4) offs)
       @ to_bytes e 4 (length files) @ concat (map (\<lambda>f. uint_put 4 e (fst f) @ uint_put 4 e (snd f)) files)
       @ strings @ ei_function_info img"
    and v: "v1_validate_address_offset_size width = Inr ()" and h: "v1_address_offset_size h = width" "v1_base_address h = base"
    "unat (v1_address_count h) = n" "unat (v1_string_table_offset h) = string_start"
    "unat (v1_string_table_size h) = length strings" "fixed_uuid_new (wo_build_id options) = Inr (v1_uuid h)"
    and fits: "\<forall>fn \<in> set fns. base \<le> r_start (ef_range fn) \<and> uint_fits width (r_start (ef_range fn) - base)"
    "\<forall>off \<in> set offs. off < 2 ^ 32" "length files < 2 ^ 32" "\<forall>f \<in> set files. uint_fits 4 (fst f) \<and> uint_fits 4 (snd f)"
    and al: "align_up (48 + n * w) 4 = Some info_start" "align_up (info_start + n * 4) 4 = Some (info_start + n * 4)"
    and fs: "file_start = info_start + n * 4" and ss: "string_start = file_start + (4 + length files * 8)"
    and rec: "section_records e 4 (string_start + length strings) (ei_function_info img) fns offs"
    by (rule encode_v1_bytes[OF enc, folded d])
  let ?A = "concat (map (\<lambda>fn. uint_put width e (r_start (ef_range fn) - base)) fns)"
  let ?O = "concat (map (to_bytes e 4) offs)"
  let ?F = "concat (map (\<lambda>f. uint_put 4 e (fst f) @ uint_put 4 e (snd f)) files)"
  let ?P = "replicate (info_start - (48 + n * w)) (0 :: u8)"
  let ?H = "v1_header_bytes h e"
  have lH: "length ?H = 48" using fixed_uuid_slice_new[OF h(6)] h(6)
    by (simp add: v1_header_bytes_def MAX_UUID_SIZE_def fixed_uuid_new_slice)
  have lA: "length ?A = n * w" unfolding d(3) by (induction fns) (auto simp: d(4))
  have lo: "length offs = n" using rec by (simp add: section_records_def d(3))
  have lO: "length ?O = n * 4" unfolding lo[symmetric] by (induction offs) auto
  have lF: "length ?F = length files * 8" by (induction files) auto
  have il: "48 + n * w \<le> info_start" using align_up_spec[OF al(1)] by simp
  have ldata: "length data = string_start + length strings + length (ei_function_info img)"
    using il by (simp add: bytes lH lA lO lF fs ss)
  have small: "length data < 2 ^ 64" using len by (simp add: d(1))
  have total: "string_start + length strings < 2 ^ 64" using ldata small by linarith
  have w8: "48 mod w = 0" "0 < w" using v by (auto simp: v1_validate_address_offset_size_def d(4) split: if_splits)
  have dec: "v1_header_decode native data = Inr (h, e)"
    unfolding bytes by (rule v1_header_decode_bytes[OF v[folded h(1)] h(6)]) (use small bytes in simp)
  have lay: "v1_layout_of h (length data) = Inr \<lparr>l1_address_offsets = (48, 48 + n * w), l1_address_info_offsets = (info_start, file_start),
      l1_file_table_offset = file_start, l1_string_table = (string_start, string_start + length strings),
      l1_function_info_offset = string_start + length strings\<rparr>"
    using w8 al total il fs ss ldata
    by (simp add: v1_layout_of_def Let_def h V1_HEADER_SIZE_def V1_ADDRESS_INFO_OFFSET_SIZE_def align_up_def[of 48] d(4)[symmetric]
        checked_mul_def checked_add_def)
  have a: "ahead \<lparr>cbytes = data, position = length (?H @ ?A @ ?P @ ?O), cendian = e\<rparr> (to_bytes e 4 (length files))"
    by (rule drop_holds_at[OF small, where post = "?F @ strings @ ei_function_info img"]) (simp add: bytes)
  have pos: "length (?H @ ?A @ ?P @ ?O) = file_start" using il by (simp add: lH lA lO fs)
  let ?files = "word_of_nat (length files) :: u32"
  have fc: "unat ?files = length files" by (rule unat_word_of_nat_u32[OF fits(3)])
  have rf: "read_u32 \<lparr>cbytes = data, position = file_start, cendian = e\<rparr> =
      Inr (?files, advance 4 \<lparr>cbytes = data, position = file_start, cendian = e\<rparr>)"
    using read_u32_ahead[of "\<lparr>cbytes = data, position = file_start, cendian = e\<rparr>" ?files] a[unfolded pos] by (simp add: fc)
  have fsz: "v1_file_table_size ?files = Inr (4 + length files * 8)"
    using total ss by (simp add: v1_file_table_size_def file_table_size_def V1_FILE_ENTRY_SIZE_def fc checked_mul_def checked_add_def)
  have uu: "length (fixed_uuid_slice (v1_uuid h)) = length (wo_build_id options)" "length (wo_build_id options) \<le> 20"
    "fixed_uuid_slice (v1_uuid h) = wo_build_id options"
    using fixed_uuid_slice_new[OF h(6)] h(6) by (auto simp: fixed_uuid_new_def MAX_UUID_SIZE_def split: if_splits)
  define l where "l = \<lparr>pl_version = V1, pl_endian = e, pl_address_offset_size = width, pl_string_offset_size = 4,
      pl_base_address = base, pl_address_count = v1_address_count h, pl_build_id = (28, 28 + length (wo_build_id options)),
      pl_address_offsets = (48, 48 + n * w), pl_address_info_offsets = (info_start, file_start), pl_file_table = (file_start, string_start),
      pl_string_table = (string_start, string_start + length strings), pl_function_info = (string_start + length strings, length data),
      pl_file_count = ?files\<rparr>"
  have cur: "cursor_at data e file_start = Inr \<lparr>cbytes = data, position = file_start, cendian = e\<rparr>"
    using ldata ss by (simp add: cursor_at_def)
  have add: "checked_add file_start (4 + length files * 8) = Some string_start" using total ss by (simp add: checked_add_def)
  have sat: "saturating_add 28 (length (wo_build_id options)) = 28 + length (wo_build_id options)"
    using uu(2) by (simp add: saturating_add_def)
  have "parse_v1 native data = Inr l"
    by (simp add: parse_v1_def dec lay cur rf fsz add uu(1) sat l_def h V1_STRING_OFFSET_SIZE_def)
  moreover have "layout_parse native data = parse_v1 native data"
    unfolding bytes by (rule layout_parse_v1) (use small bytes in simp)
  ultimately have parse: "layout_parse native data = Inr l" by simp
  have addr: "holds_at data 48 ?A" using holds_at_here[of ?H ?A] by (simp add: bytes lH)
  have info: "holds_at data info_start ?O"
    using holds_at_here[of "?H @ ?A @ ?P" ?O "to_bytes e 4 (length files) @ ?F @ strings @ ei_function_info img"] il by (simp add: bytes lH lA)
  have filet: "holds_at data (file_start + 4) ?F"
    using holds_at_here[of "?H @ ?A @ ?P @ ?O @ to_bytes e 4 (length files)" ?F "strings @ ei_function_info img"] il
    by (simp add: bytes lH lA lO fs add.commute)
  have strs: "holds_at data string_start strings"
    using holds_at_here[of "?H @ ?A @ ?P @ ?O @ to_bytes e 4 (length files) @ ?F" strings "ei_function_info img"] il
    by (simp add: bytes lH lA lO lF fs ss ac_simps)
  have pre: "data = (?H @ ?A @ ?P @ ?O @ to_bytes e 4 (length files) @ ?F @ strings) @ ei_function_info img @ []" by (simp add: bytes)
  have lpre: "length (?H @ ?A @ ?P @ ?O @ to_bytes e 4 (length files) @ ?F @ strings) = string_start + length strings"
    using il by (simp add: lH lA lO lF fs ss)
  have recs: "string_start + length strings \<le> offs ! i \<and> (\<exists>blk. function_bytes e 4 (fns ! i) blk \<and> holds_at data (offs ! i) blk
      \<and> offs ! i + length blk \<le> length data)" if "i < n" for i
  proof -
    obtain blk where b: "function_bytes e 4 (fns ! i) blk" "holds_at (ei_function_info img) (offs ! i - (string_start + length strings)) blk"
      "string_start + length strings \<le> offs ! i"
      using rec \<open>i < n\<close> unfolding section_records_def d(3) by blast
    have "holds_at data (offs ! i) blk"
      using holds_at_more[OF b(2), of "?H @ ?A @ ?P @ ?O @ to_bytes e 4 (length files) @ ?F @ strings" "[]"] b(3)
      unfolding pre[symmetric] lpre by simp
    then show ?thesis using b by (auto simp: holds_at_def)
  qed
  have tab: "image_tables data l fns files strings offs"
    using small lo fits addr info filet holds_at_slice[OF strs] recs
    by (auto simp: image_tables_def l_def h fc d(3) stored_offset_def[abs_def] file_pair_bytes_def[abs_def])
  have bid: "holds_at data 28 (wo_build_id options)"
  proof -
    have "data = (magic_bytes e @ to_bytes e 2 (unat V1_VERSION) @ [v1_address_offset_size h] @ [fu_len (v1_uuid h)]
       @ to_bytes e 8 (unat (v1_base_address h)) @ to_bytes e 4 (unat (v1_address_count h))
       @ to_bytes e 4 (unat (v1_string_table_offset h)) @ to_bytes e 4 (unat (v1_string_table_size h))) @ wo_build_id options
       @ (replicate (MAX_UUID_SIZE - length (wo_build_id options)) 0 @ ?A @ ?P @ ?O @ to_bytes e 4 (length files) @ ?F @ strings @ ei_function_info img)"
      by (simp add: bytes v1_header_bytes_def uu)
    then have "holds_at data (length (magic_bytes e @ to_bytes e 2 (unat V1_VERSION) @ [v1_address_offset_size h] @ [fu_len (v1_uuid h)]
       @ to_bytes e 8 (unat (v1_base_address h)) @ to_bytes e 4 (unat (v1_address_count h))
       @ to_bytes e 4 (unat (v1_string_table_offset h)) @ to_bytes e 4 (unat (v1_string_table_size h)))) (wo_build_id options)"
      by (rule holds_at_split)
    then show ?thesis by simp
  qed
  have "slice_get data (fst (pl_build_id l)) (snd (pl_build_id l)) = Some (wo_build_id options)"
    using holds_at_slice[OF bid] by (simp add: l_def)
  then show thesis
    by (intro that[folded d, OF parse tab]) (simp_all add: l_def)
qed

end
