(* ===== verification/ImageV2.thy ===== *)
theory ImageV2
  imports ImageV1
begin

text \<open>
  \<open>encode_v2\<close> of \<open>src/writer/encode.rs\<close> writes a file that the version-2 parser reads as the image of its tables:
  the directory it writes is one the parser accepts.
\<close>

section \<open>The version-2 image\<close>

definition terminator :: global_data where
  "terminator = \<lparr>section_type = GLOBAL_END, file_offset = 0, file_size = 0\<rparr>"

lemma global_decode_ahead:
  "ahead c (global_bytes (cendian c) g) \<Longrightarrow> global_decode_from c = Inr (g, advance 20 c)"
  using global_codec.get_put_width[of c g] by simp

lemma length_global_bytes [simp]: "length (global_bytes e g) = 20"
  by (simp add: global_bytes_def)

lemma parse_entries_written:
  assumes "ahead c (concat (map (global_bytes (cendian c)) dir) @ global_bytes (cendian c) terminator)"
    and "distinct (map section_type dir)" "\<forall>g \<in> set dir. section_type g \<noteq> GLOBAL_END \<and> section_type g \<notin> seen"
    and "\<forall>g \<in> set dir. file_size g \<noteq> 0 \<and> section_end g \<le> n" and "n < 2 ^ 64"
  shows "parse_entries n seen entries c = Inr (seen \<union> section_type ` set dir, entries @ dir, advance (20 * (length dir + 1)) c)"
  using assms
proof (induction dir arbitrary: c seen entries)
  case Nil
  then have "global_decode_from c = Inr (terminator, advance 20 c)" by (intro global_decode_ahead) simp
  then show ?case by (simp add: parse_entries.simps[of n seen entries c] terminator_def)
next
  case (Cons g dir)
  have a: "ahead c (global_bytes (cendian c) g)" "ahead (advance 20 c) (concat (map (global_bytes (cendian c)) dir) @ global_bytes (cendian c) terminator)"
    using Cons.prems(1) by (simp_all add: ahead_append)
  have d: "global_decode_from c = Inr (g, advance 20 c)" by (rule global_decode_ahead[OF a(1)])
  have g: "section_type g \<noteq> GLOBAL_END" "section_type g \<notin> seen" "file_size g \<noteq> 0" "section_end g \<le> n"
    using Cons.prems(3,4) by auto
  have ne: "section_type x \<noteq> section_type g" if "x \<in> set dir" for x using Cons.prems(2) that by (force simp: image_iff)
  have lt: "unat (file_offset g) + unat (file_size g) < 2 ^ 64" using g(4) Cons.prems(5) by (simp add: section_end_def)
  then have add: "checked_add_u64 (file_offset g) (file_size g) = Some (file_offset g + file_size g)"
    "unat (file_offset g + file_size g) = section_end g"
    by (simp_all add: checked_add_u64_def section_end_def unat_add_u64)
  have IH: "parse_entries n (insert (section_type g) seen) (entries @ [g]) (advance 20 c) =
      Inr (insert (section_type g) seen \<union> section_type ` set dir, (entries @ [g]) @ dir, advance (20 * (length dir + 1)) (advance 20 c))"
    by (rule Cons.IH) (use Cons.prems a(2) ne in auto)
  show ?case using d g add IH by (simp add: parse_entries.simps[of n seen entries c])
qed

lemma info_offset_width: "unat V2_ADDRESS_INFO_OFFSET_SIZE = 8"
  by (simp add: V2_ADDRESS_INFO_OFFSET_SIZE_def)

text \<open>The layout that the writer computes, spelled out.\<close>

definition v2_layout_at :: "nat \<Rightarrow> nat \<Rightarrow> nat \<Rightarrow> nat \<Rightarrow> nat \<Rightarrow> nat \<Rightarrow> nat \<Rightarrow> nat \<Rightarrow> nat \<Rightarrow> nat \<Rightarrow> write_layout" where
  "v2_layout_at uuid_size n w m ssize isize addr info ftab finfo =
     (let de = 20 + 20 * (if uuid_size = 0 then 6 else 7) in
      \<lparr>wl_directory = (if uuid_size = 0 then [] else [global_from_range GLOBAL_UUID (de, de + uuid_size)])
         @ [global_from_range GLOBAL_ADDRESS_OFFSETS (addr, addr + n * w),
            global_from_range GLOBAL_ADDRESS_INFO_OFFSETS (info, info + n * 8),
            global_from_range GLOBAL_FILE_TABLE (ftab, ftab + (4 + m * 16)),
            global_from_range GLOBAL_STRING_TABLE (ftab + (4 + m * 16), ftab + (4 + m * 16) + ssize),
            global_from_range GLOBAL_FUNCTION_INFO (finfo, finfo + isize)],
       wl_directory_end = de, wl_uuid = (if uuid_size = 0 then None else Some (de, de + uuid_size)),
       wl_address_offsets = (addr, addr + n * w), wl_address_info_offsets = (info, info + n * 8),
       wl_file_table = (ftab, ftab + (4 + m * 16)), wl_string_table = (ftab + (4 + m * 16), ftab + (4 + m * 16) + ssize),
       wl_function_info = (finfo, finfo + isize), wl_file_size = finfo + isize\<rparr>)"

lemma v2_write_layout_eq:
  assumes "v2_write_layout h uuid_size fc ssize isize = Inr l"
  defines "n \<equiv> unat (v2_address_count h)" and "w \<equiv> unat (v2_address_offset_size h)" and "m \<equiv> unat fc"
    and "de \<equiv> 20 + 20 * (if uuid_size = 0 then 6 else 7)"
  obtains addr info ftab finfo where
    "align_up (de + uuid_size) w = Some addr" "align_up (addr + n * w) 8 = Some info"
    "align_up (info + n * 8) 4 = Some ftab" "align_up (ftab + (4 + m * 16) + ssize) 4 = Some finfo"
    "finfo + isize < 2 ^ 64" "l = v2_layout_at uuid_size n w m ssize isize addr info ftab finfo"
proof (cases "uuid_size = 0")
  case True
  then show ?thesis using assms(1) that
    by (auto simp: v2_write_layout_def Let_def ok_simps checked_range_def info_offset_width
      v2_file_table_size_def file_table_size_def V2_FILE_ENTRY_SIZE_def bind_eq_Some_conv GLOBAL_DATA_SIZE_def V2_HEADER_SIZE_def
      n_def w_def m_def de_def v2_layout_at_def add.commute)
next
  case False
  then show ?thesis using assms(1) that
    by (auto simp: v2_write_layout_def Let_def ok_simps checked_range_def info_offset_width
      v2_file_table_size_def file_table_size_def V2_FILE_ENTRY_SIZE_def bind_eq_Some_conv GLOBAL_DATA_SIZE_def V2_HEADER_SIZE_def
      n_def w_def m_def de_def v2_layout_at_def add.commute)
qed

lemma encode_v2_bytes:
  assumes "encode_v2 options base width files strings fns = Inr img"
  defines "e \<equiv> wo_endian options" and "n \<equiv> length fns" and "w \<equiv> unat width" and "m \<equiv> length files"
    and "u \<equiv> length (wo_build_id options)" and "k \<equiv> length strings"
  defines "de \<equiv> 20 + 20 * (if u = 0 then 6 else 7)"
  obtains h hb rel addr info ftab finfo where
    "v2_header_encode h e = Inr hb" "v2_address_offset_size h = width" "v2_base_address h = base" "unat (v2_address_count h) = n"
    "align_up (de + u) w = Some addr" "align_up (addr + n * w) 8 = Some info"
    "ftab = info + n * 8" "align_up (ftab + (4 + m * 16) + k) 4 = Some finfo"
    "finfo + length (ei_function_info img) < 2 ^ 64"
    "image_into_bytes img = hb
       @ concat (map (global_bytes e) (wl_directory (v2_layout_at u n w m k (length (ei_function_info img)) addr info ftab finfo)))
       @ global_bytes e terminator @ wo_build_id options @ replicate (addr - (de + u)) 0
       @ concat (map (\<lambda>fn. uint_put width e (r_start (ef_range fn) - base)) fns)
       @ replicate (info - (addr + n * w)) 0 @ concat (map (\<lambda>off. to_bytes e 8 (unat (word_of_nat off :: u64))) rel)
       @ to_bytes e 4 m @ concat (map (\<lambda>f. uint_put 8 e (fst f) @ uint_put 8 e (snd f)) files)
       @ strings @ replicate (finfo - (ftab + (4 + m * 16) + k)) 0 @ ei_function_info img"
    "\<forall>fn \<in> set fns. base \<le> r_start (ef_range fn) \<and> uint_fits width (r_start (ef_range fn) - base)"
    "m < 2 ^ 32" "\<forall>f \<in> set files. uint_fits 8 (fst f) \<and> uint_fits 8 (snd f)"
    "section_records e 8 0 (ei_function_info img) fns rel"
proof -
  note enc = assms(1)[unfolded encode_v2_def]
  from enc obtain rel fbytes count fc l hb out1 out2 out3 out4 out5 out6 where
    sec: "encode_function_section fns e 8 0 = Inr (rel, fbytes)"
    and count: "function_count fns = Inr count" and fc: "u32_try_from m = Some fc"
    and lay: "v2_write_layout \<lparr>v2_address_offset_size = width, v2_string_table_encoding = STRING_TABLE_ENCODING_DEFAULT,
                   v2_base_address = base, v2_address_count = count\<rparr> u fc k (length fbytes) = Inr l"
    and hdr: "v2_header_encode \<lparr>v2_address_offset_size = width, v2_string_table_encoding = STRING_TABLE_ENCODING_DEFAULT,
                   v2_base_address = base, v2_address_count = count\<rparr> e = Inr hb"
    and outs: "align_to w (let out = write_bytes hb (encoder_new e);
         out = fold global_encode_into (wl_directory l) out;
         out = global_encode_into terminator out in
         case wl_uuid l of None \<Rightarrow> out | Some _ \<Rightarrow> write_bytes (wo_build_id options) out) = Inr out1"
      "write_address_offsets fns base width out1 = Inr out2" "align_to 8 out2 = Inr out3"
      "align_to 4 (fold (\<lambda>off. write_u64 (word_of_nat off)) rel out3) = Inr out4"
      "write_file_table files 8 out4 = Inr out5" "align_to 4 (write_bytes strings out5) = Inr out6"
    and img: "img = \<lparr>ei_prefix = ebytes out6, ei_function_info = fbytes\<rparr>"
    unfolding e_def n_def w_def m_def u_def k_def terminator_def
    by (auto simp: ok_simps Let_def)
  let ?h = "\<lparr>v2_address_offset_size = width, v2_string_table_encoding = STRING_TABLE_ENCODING_DEFAULT,
                   v2_base_address = base, v2_address_count = count\<rparr>"
  have cn: "unat count = n" using count by (auto simp: function_count_def ok_simps u32_try_from_def n_def unat_word_of_nat_u32 split: if_splits)
  have fm: "unat fc = m" "m < 2 ^ 32" using fc by (auto simp: u32_try_from_def unat_word_of_nat_u32 split: if_splits)
  obtain addr info ftab finfo where a: "align_up (de + u) w = Some addr" "align_up (addr + n * w) 8 = Some info"
    "align_up (info + n * 8) 4 = Some ftab" "align_up (ftab + (4 + m * 16) + k) 4 = Some finfo"
    "finfo + length fbytes < 2 ^ 64" "l = v2_layout_at u n w m k (length fbytes) addr info ftab finfo"
    by (rule v2_write_layout_eq[OF lay, simplified v2_header.simps cn fm, folded w_def de_def])
  have al: "de + u \<le> addr" "addr + n * w \<le> info" "info mod 8 = 0" "ftab + (4 + m * 16) + k \<le> finfo"
    using align_up_spec[OF a(1)] align_up_spec[OF a(2)] align_up_spec[OF a(4)] by (simp_all add: mod_eq_0_iff_dvd)
  have "(info + n * 8) mod 4 = 0" using al(3) by presburger
  then have ft: "ftab = info + n * 8" using a(3) by (simp add: align_up_def)
  have lh: "length hb = 20" using hdr by (auto simp: v2_header_encode_eq)
  let ?D = "concat (map (global_bytes e) (wl_directory l))"
  have lD: "length ?D = 20 * length (wl_directory l)" by (rule global_codec.length_concat_put)
  have fold_dir: "fold global_encode_into gs out = write_bytes (concat (map (global_bytes (eendian out)) gs)) out" for gs out
    by (induction gs arbitrary: out) (simp_all add: enc_simps)
  have fold_u64: "fold (\<lambda>off. write_u64 (word_of_nat off)) offs out =
      write_bytes (concat (map (\<lambda>off. to_bytes (eendian out) 8 (unat (word_of_nat off :: u64))) offs)) out" for offs out
    by (induction offs arbitrary: out) (simp_all add: enc_simps)
  have uuid: "(case wl_uuid l of None \<Rightarrow> out | Some _ \<Rightarrow> write_bytes (wo_build_id options) out) = write_bytes (wo_build_id options) out" for out
    by (cases "u = 0") (simp_all add: a(6) v2_layout_at_def Let_def u_def)
  have start: "(let out = write_bytes hb (encoder_new e);
         out = fold global_encode_into (wl_directory l) out;
         out = global_encode_into terminator out in
         case wl_uuid l of None \<Rightarrow> out | Some _ \<Rightarrow> write_bytes (wo_build_id options) out) =
      write_bytes (hb @ ?D @ global_bytes e terminator @ wo_build_id options) (encoder_new e)"
    by (simp add: Let_def fold_dir uuid global_encode_into_eq encoder_new_def)
  have ldir: "length (wl_directory l) + 1 = (if u = 0 then 6 else 7)" by (simp add: a(6) v2_layout_at_def Let_def)
  have l0: "length (hb @ ?D @ global_bytes e terminator @ wo_build_id options) = de + u"
    using lh lD ldir by (simp add: de_def u_def)
  have pads: "addr = de + u + pad_len w (de + u)" "info = addr + n * w + pad_len 8 (addr + n * w)"
     "finfo = ftab + (4 + m * 16) + k + pad_len 4 (ftab + (4 + m * 16) + k)" "addr mod w = 0"
    using align_up_eq_pad[OF a(1)] align_up_eq_pad[OF a(2)] align_up_eq_pad[OF a(4)] by blast+
  have o1: "out1 = write_bytes (hb @ ?D @ global_bytes e terminator @ wo_build_id options @ replicate (addr - (de + u)) 0) (encoder_new e)"
    using outs(1)[unfolded start align_to_eq] l0 pads(1) by (simp add: encoder_new_def)
  have l1: "length (ebytes out1) = addr" using l0 al(1) by (simp add: o1 encoder_new_def)
  let ?A = "concat (map (\<lambda>fn. uint_put width e (r_start (ef_range fn) - base)) fns)"
  have lA: "length ?A = n * w" unfolding n_def by (induction fns) (auto simp: w_def)
  have e1: "eendian out1 = e" by (simp add: o1 encoder_new_def)
  have o2: "\<forall>fn \<in> set fns. base \<le> r_start (ef_range fn) \<and> uint_fits width (r_start (ef_range fn) - base)" "out2 = write_bytes ?A out1"
    using write_address_offsets_eq[OF outs(2)] pads(4) by (simp_all add: l1 e1 w_def pad_len_def)
  have o3: "out3 = write_bytes (replicate (info - (addr + n * w)) 0) out2"
    using outs(3) pads(2) by (simp add: align_to_eq o2(2) l1 lA)
  have l3: "length (ebytes out3) = info" using al(2) by (simp add: o3 o2(2) l1 lA)
  have e3: "eendian out3 = e" by (simp add: o3 o2(2) e1)
  let ?O = "concat (map (\<lambda>off. to_bytes e 8 (unat (word_of_nat off :: u64))) rel)"
  have rec: "section_records e 8 0 fbytes fns rel" by (rule encode_function_section_records[OF sec])
  then have lo: "length rel = n" by (simp add: section_records_def n_def)
  have lO: "length ?O = n * 8" unfolding lo[symmetric] by (induction rel) auto
  have o4: "out4 = write_bytes ?O out3"
    using outs(4) \<open>(info + n * 8) mod 4 = 0\<close> by (simp add: align_to_eq fold_u64 e3 l3 lO pad_len_def)
  have o5: "\<forall>f \<in> set files. uint_fits 8 (fst f) \<and> uint_fits 8 (snd f)"
    "out5 = write_bytes (to_bytes e 4 m @ concat (map (\<lambda>f. uint_put 8 e (fst f) @ uint_put 8 e (snd f)) files)) out4"
    using write_file_table_eq[OF outs(5)] by (simp_all add: o4 e3 m_def)
  have lF: "length (concat (map (\<lambda>f. uint_put 8 e (fst f) @ uint_put 8 e (snd f)) files)) = m * 16"
    unfolding m_def by (induction files) auto
  have l5: "length (ebytes (write_bytes strings out5)) = ftab + (4 + m * 16) + k"
    by (simp add: o5(2) o4 l3 lO lF ft k_def)
  have o6: "out6 = write_bytes (strings @ replicate (finfo - (ftab + (4 + m * 16) + k)) 0) out5"
    using outs(6) pads(3) unfolding align_to_eq l5 by simp
  have info: "ei_function_info img = fbytes" by (simp add: img)
  show thesis
  proof (rule that)
    show "v2_header_encode ?h e = Inr hb" by (rule hdr)
    show "align_up (ftab + (4 + m * 16) + k) 4 = Some finfo" by (rule a(4))
    show "image_into_bytes img = hb
       @ concat (map (global_bytes e) (wl_directory (v2_layout_at u n w m k (length (ei_function_info img)) addr info ftab finfo)))
       @ global_bytes e terminator @ wo_build_id options @ replicate (addr - (de + u)) 0
       @ ?A @ replicate (info - (addr + n * w)) 0 @ ?O
       @ to_bytes e 4 m @ concat (map (\<lambda>f. uint_put 8 e (fst f) @ uint_put 8 e (snd f)) files)
       @ strings @ replicate (finfo - (ftab + (4 + m * 16) + k)) 0 @ ei_function_info img"
      by (simp add: image_into_bytes_def img o6 o5(2) o4 o3 o2(2) o1 encoder_new_def a(6))
  qed (use a ft cn o2(1) fm(2) o5(1) rec info in simp_all)
qed

text \<open>Sections one behind the other, from an offset on.\<close>

fun chained :: "nat \<Rightarrow> usize_range list \<Rightarrow> bool" where
  "chained p [] \<longleftrightarrow> True"
| "chained p ((a, b) # rs) \<longleftrightarrow> p \<le> a \<and> a < b \<and> chained b rs"

lemma chained_bounds: "chained p rs \<Longrightarrow> r \<in> set rs \<Longrightarrow> p \<le> fst r \<and> fst r < snd r"
  by (induction p rs rule: chained.induct) fastforce+

lemma chained_disjoint:
  assumes "chained p rs" "\<forall>r \<in> set rs. snd r < 2 ^ 64" "p < 2 ^ 64"
  shows "check_disjoint (word_of_nat p) (map (\<lambda>(a, b). (word_of_nat a, word_of_nat b)) rs) = Inr ()
    \<and> sorted (map fst (map (\<lambda>(a, b). (word_of_nat a :: u64, word_of_nat b :: u64)) rs))
    \<and> (\<forall>r \<in> set rs. (word_of_nat p :: u64) \<le> word_of_nat (fst r))"
  using assms
proof (induction p rs rule: chained.induct)
  case (2 p a b rs)
  have b: "b < 2 ^ 64" using "2.prems"(2) by simp
  have u: "unat (word_of_nat x :: u64) = x" if "x \<le> b" for x
    by (rule unat_word_of_nat_u64) (use that b in linarith)
  have le: "(word_of_nat p :: u64) \<le> word_of_nat a" "(word_of_nat a :: u64) \<le> word_of_nat b"
    using "2.prems"(1) by (auto simp: word_le_nat_alt u)
  then have pb: "(word_of_nat p :: u64) \<le> word_of_nat b" by (rule order.trans)
  have "chained b rs" "\<forall>r \<in> set rs. snd r < 2 ^ 64" using "2.prems"(1,2) by simp_all
  note IH = "2.IH"[OF this b]
  have "\<forall>r \<in> set rs. (word_of_nat a :: u64) \<le> word_of_nat (fst r) \<and> (word_of_nat p :: u64) \<le> word_of_nat (fst r)"
    using IH le(2) pb by (blast intro: order.trans)
  then show ?case using IH le by auto
qed simp

lemma global_from_range_simps:
  assumes "fst r \<le> snd r" "snd r < 2 ^ 64"
  shows "section_type (global_from_range kind r) = kind" "unat (file_offset (global_from_range kind r)) = fst r"
    "unat (file_size (global_from_range kind r)) = snd r - fst r" "section_end (global_from_range kind r) = snd r"
proof -
  have u: "unat (word_of_nat (fst r) :: u64) = fst r" "unat (word_of_nat (snd r - fst r) :: u64) = snd r - fst r"
    by (rule unat_word_of_nat_u64, use assms in linarith)+
  show "section_type (global_from_range kind r) = kind" "unat (file_offset (global_from_range kind r)) = fst r"
    "unat (file_size (global_from_range kind r)) = snd r - fst r" "section_end (global_from_range kind r) = snd r"
    unfolding global_from_range_def section_end_def global_data.simps u using assms(1) by simp_all
qed

lemma section_ranges:
  assumes "\<forall>(kind, r) \<in> set krs. fst r \<le> snd r \<and> snd r < (2 ^ 64 :: nat)"
  shows "map_ok (\<lambda>entry. let_ok (ok_or (checked_add_u64 (file_offset entry) (file_size entry)) (Overflow ''v2 section end''))
      (\<lambda>stop. Inr (file_offset entry, stop))) (map (\<lambda>(kind, r). global_from_range kind r) krs)
    = Inr (map (\<lambda>(a, b). (word_of_nat a, word_of_nat b)) (map snd krs))"
  using assms
proof (induction krs)
  case (Cons kr krs)
  obtain kind a b where kr: "kr = (kind, (a, b))" by (metis prod.exhaust)
  then have ab: "a \<le> b" "b < 2 ^ 64" using Cons.prems by auto
  let ?g = "global_from_range kind (a, b)"
  note g = global_from_range_simps[of "(a, b)" kind, simplified fst_conv snd_conv, OF ab]
  have "checked_add_u64 (file_offset ?g) (file_size ?g) = Some (file_offset ?g + file_size ?g)"
    using g ab by (simp add: checked_add_u64_def)
  moreover have "file_offset ?g + file_size ?g = word_of_nat b"
    using g ab by (intro unat_eqI) (simp add: unat_add_u64 unat_word_of_nat_u64)
  moreover have "file_offset ?g = word_of_nat a" by (simp add: global_from_range_def)
  ultimately show ?case using Cons by (simp add: kr)
qed simp

lemma validate_sections_written:
  assumes krs: "\<forall>(kind, r) \<in> set krs. snd r < (2 ^ 64 :: nat)" and ch: "chained de (map snd krs)" and de: "de < 2 ^ 64"
    and sizes: "unat (v2_address_count h) * unat (v2_address_offset_size h) < 2 ^ 64" "unat (v2_address_count h) * 8 < (2 ^ 64 :: nat)"
    and width: "0 < unat (v2_address_offset_size h)"
    and ok: "\<forall>(kind, r) \<in> set krs. section_ok bs h (global_from_range kind r)"
  shows "validate_sections bs de h (map (\<lambda>(kind, r). global_from_range kind r) krs) = Inr ()"
proof -
  let ?asize = "ucast (v2_address_count h) * ucast (v2_address_offset_size h) :: u64"
  let ?isize = "ucast (v2_address_count h) * ucast V2_ADDRESS_INFO_OFFSET_SIZE :: u64"
  have s: "checked_mul_u64 (ucast (v2_address_count h)) (ucast (v2_address_offset_size h)) = Some ?asize"
    "checked_mul_u64 (ucast (v2_address_count h)) (ucast V2_ADDRESS_INFO_OFFSET_SIZE) = Some ?isize"
    using sizes by (simp_all add: checked_mul_u64_def info_offset_width)
  note su = checked_mul_u64_Some[OF s(1)] checked_mul_u64_Some[OF s(2), unfolded unat_ucast_u8 info_offset_width]
  have bounds: "fst r \<le> snd r \<and> snd r < 2 ^ 64" if "(kind, r) \<in> set krs" for kind r
    using krs chained_bounds[OF ch, of r] that by force
  have v: "validate_section bs h ?asize ?isize g = Inr ()" if "section_ok bs h g" for g
  proof -
    have f: "file_offset g mod 4 = 0" if "unat (file_offset g) mod 4 = 0"
      using that by (intro unat_eqI) (simp add: unat_mod)
    have w: "ucast (v2_address_offset_size h) \<noteq> (0 :: u64)" if "section_type g = GLOBAL_ADDRESS_OFFSETS"
      using width by (metis unat_0 unat_ucast_u8 not_less_zero)
    consider "section_type g = GLOBAL_ADDRESS_OFFSETS" | "section_type g = GLOBAL_ADDRESS_INFO_OFFSETS"
      | "section_type g = GLOBAL_FILE_TABLE" | "section_type g = GLOBAL_STRING_TABLE"
      | "section_type g = GLOBAL_FUNCTION_INFO" | "section_type g \<notin> {1, 2, 3, 4, 5}"
      by (auto simp: global_types)
    then show ?thesis
    proof cases
      case 1
      then have "file_size g = ?asize" "unat (file_offset g) mod unat (v2_address_offset_size h) = 0"
        using that su(1) by (auto simp: section_ok_def intro: unat_eqI)
      then show ?thesis using 1 w by (simp add: validate_section_def rem_nonzero_iff global_types)
    next
      case 2
      then have "file_size g = ?isize" "unat (file_offset g) mod 8 = 0"
        using that su(2) by (auto simp: section_ok_def intro: unat_eqI)
      then show ?thesis using 2 by (simp add: validate_section_def rem_nonzero_iff global_types V2_ADDRESS_INFO_OFFSET_SIZE_def)
    next
      case 3
      then have "\<not> file_size g < 4" "(unat (file_size g) - 4) mod 16 = 0" "unat (file_offset g) mod 4 = 0"
        using that by (auto simp: section_ok_def word_less_nat_alt)
      moreover from this have "unat (saturating_sub_u64 (file_size g) 4) = unat (file_size g) - 4"
        by (auto simp: saturating_sub_u64_def unat_sub_u64 word_less_nat_alt word_le_nat_alt)
      ultimately show ?thesis using 3 f by (simp add: validate_section_def rem_nonzero_iff global_types V2_FILE_ENTRY_SIZE_def)
    next
      case 4
      then show ?thesis using that by (simp add: validate_section_def section_ok_def global_types)
    next
      case 5
      then show ?thesis using that f by (simp add: validate_section_def section_ok_def global_types)
    next
      case 6
      then show ?thesis by (simp add: validate_section_def global_types)
    qed
  qed
  have "map_ok (validate_section bs h ?asize ?isize) gs = Inr (map (\<lambda>_. ()) gs)" if "\<forall>g \<in> set gs. section_ok bs h g" for gs
    using that v by (induction gs) auto
  moreover have "\<forall>g \<in> set (map (\<lambda>(kind, r). global_from_range kind r) krs). section_ok bs h g" using ok by auto
  moreover have "\<forall>(kind, r) \<in> set krs. fst r \<le> snd r \<and> snd r < (2 ^ 64 :: nat)" using bounds by blast
  note section_ranges[OF this]
  moreover have "\<forall>r \<in> set (map snd krs). snd r < 2 ^ 64" using bounds by auto
  note d = chained_disjoint[OF ch this de]
  ultimately show ?thesis using d[THEN conjunct1] sort_key_id_if_sorted[OF d[THEN conjunct2, THEN conjunct1]] by (simp add: validate_sections_def s)
qed

lemma layout_parse_v2:
  assumes "v2_header_encode h e = Inr hb" "length (hb @ rest) < 2 ^ 64"
  shows "layout_parse native (hb @ rest) = parse_v2 native (hb @ rest)"
proof -
  note b = assms(1)[unfolded v2_header_encode_eq]
  let ?bs = "hb @ rest"
  define c where "c = cursor_new ?bs e"
  have ce: "cendian c = e" by (simp add: c_def cursor_new_def)
  have "ahead c ?bs" unfolding c_def by (rule ahead_all[OF assms(2)])
  then have a: "ahead c (to_bytes e 4 (unat GSYM_MAGIC))" "ahead (advance 4 c) (to_bytes e 2 (unat V2_VERSION))"
    using b by (simp_all add: ahead_append magic_bytes_def)
  have "detect_endian native ?bs = Inr e" using b by (simp add: detect_endian_iff)
  moreover have "read_u32 c = Inr (GSYM_MAGIC, advance 4 c)" using read_u32_ahead[of c GSYM_MAGIC] a(1) by (simp add: ce)
  moreover have "read_u16 (advance 4 c) = Inr (V2_VERSION, advance 6 c)"
    using read_u16_ahead[of "advance 4 c" V2_VERSION] a(2) by (simp add: ce)
  ultimately show ?thesis by (simp add: layout_parse_def c_def[symmetric] V1_VERSION_def V2_VERSION_def)
qed

definition v2_sections :: "nat \<Rightarrow> nat \<Rightarrow> nat \<Rightarrow> nat \<Rightarrow> nat \<Rightarrow> nat \<Rightarrow> nat \<Rightarrow> nat \<Rightarrow> nat \<Rightarrow> nat \<Rightarrow> (u32 \<times> usize_range) list" where
  "v2_sections u n w m k j addr info ftab finfo =
     (let de = 20 + 20 * (if u = 0 then 6 else 7) in
      (if u = 0 then [] else [(GLOBAL_UUID, (de, de + u))])
         @ [(GLOBAL_ADDRESS_OFFSETS, (addr, addr + n * w)), (GLOBAL_ADDRESS_INFO_OFFSETS, (info, info + n * 8)),
            (GLOBAL_FILE_TABLE, (ftab, ftab + (4 + m * 16))),
            (GLOBAL_STRING_TABLE, (ftab + (4 + m * 16), ftab + (4 + m * 16) + k)), (GLOBAL_FUNCTION_INFO, (finfo, finfo + j))])"

lemma v2_layout_directory:
  "wl_directory (v2_layout_at u n w m k j addr info ftab finfo) =
     map (\<lambda>(kind, r). global_from_range kind r) (v2_sections u n w m k j addr info ftab finfo)"
  by (simp add: v2_layout_at_def v2_sections_def Let_def)

lemma v2_directory_parses:
  assumes data: "data = hb @ concat (map (global_bytes e) (map (\<lambda>(kind, r). global_from_range kind r) krs)) @ global_bytes e terminator @ rest"
    and krs: "krs = v2_sections u n w m k j addr info ftab finfo"
    and de: "de = 20 + 20 * (if u = 0 then 6 else 7)"
    and len: "length data < 2 ^ 64" "length hb = 20" "finfo + j = length data"
    and h: "unat (v2_address_count h) = n" "unat (v2_address_offset_size h) = w"
    and al: "align_up (de + u) w = Some addr" "align_up (addr + n * w) 8 = Some info" "ftab = info + n * 8"
      "align_up (ftab + (4 + m * 16) + k) 4 = Some finfo"
    and pos: "0 < n" "0 < k" "0 < j" and str: "nth_get data (ftab + (4 + m * 16)) = Some 0"
  shows "parse_directory data e h = Inr \<lparr>dir_entries = map (\<lambda>(kind, r). global_from_range kind r) krs, dir_end_offset = de\<rparr>"
    and "\<forall>(kind, r) \<in> set krs. fst r \<le> snd r \<and> snd r < (2 ^ 64 :: nat)"
proof -
  let ?dir = "map (\<lambda>(kind, r). global_from_range kind r) krs"
  have m1: "de + u \<le> addr" "addr mod w = 0" "0 < w" "addr + n * w \<le> info" "info mod 8 = 0"
      "ftab + (4 + m * 16) + k \<le> finfo" "finfo mod 4 = 0"
    using align_up_facts[OF al(1)] align_up_facts[OF al(2)] align_up_facts[OF al(4)] by blast+
  have f4: "ftab mod 4 = 0" using m1(5) al(3) by presburger
  have kd: "krs \<noteq> []" "length ?dir + 1 = (if u = 0 then 6 else 7)" by (simp_all add: krs v2_sections_def Let_def)
  have nw: "0 < n * w" "0 < n * 8" using pos(1) m1(3) by simp_all
  have ch: "chained de (map snd krs)"
    using m1 nw al(3) pos by (simp add: krs v2_sections_def Let_def de[symmetric])
  have le: "snd r \<le> length data" if "(kind, r) \<in> set krs" for kind r
    using that m1 nw al(3) pos len(3) by (auto simp: krs v2_sections_def Let_def de[symmetric] split: if_splits)
  show bounds: "\<forall>(kind, r) \<in> set krs. fst r \<le> snd r \<and> snd r < (2 ^ 64 :: nat)"
  proof (clarify)
    fix kind a b assume m: "(kind, (a, b)) \<in> set krs"
    have "a < b" using chained_bounds[OF ch, of "(a, b)"] m by force
    moreover have "b < 2 ^ 64" using le[OF m] len(1) by simp
    ultimately show "fst (a, b) \<le> snd (a, b) \<and> snd (a, b) < 2 ^ 64" by simp
  qed
  have g: "section_type (global_from_range kind r) = kind" "unat (file_offset (global_from_range kind r)) = fst r"
    "unat (file_size (global_from_range kind r)) = snd r - fst r" "section_end (global_from_range kind r) = snd r"
    if "(kind, r) \<in> set krs" for kind r
    using bounds that global_from_range_simps[of r kind] by auto
  let ?c = "\<lparr>cbytes = data, position = 20, cendian = e\<rparr>"
  have a: "ahead ?c (concat (map (global_bytes (cendian ?c)) ?dir) @ global_bytes (cendian ?c) terminator)"
    using drop_holds_at[OF len(1), of hb "concat (map (global_bytes e) ?dir) @ global_bytes e terminator" rest e] data len(2) by simp
  have types: "map section_type ?dir = map fst krs" using g by auto
  have "parse_entries (length data) {} [] ?c = Inr ({} \<union> section_type ` set ?dir, [] @ ?dir, advance (20 * (length ?dir + 1)) ?c)"
  proof (rule parse_entries_written[OF a _ _ _ len(1)])
    show "distinct (map section_type ?dir)" unfolding types by (simp add: krs v2_sections_def Let_def global_types)
    show "\<forall>x \<in> set ?dir. section_type x \<noteq> GLOBAL_END \<and> section_type x \<notin> {}"
    proof
      fix x assume "x \<in> set ?dir"
      then have "section_type x \<in> set (map fst krs)" using types by (metis image_eqI list.set_map)
      then show "section_type x \<noteq> GLOBAL_END \<and> section_type x \<notin> {}"
        by (auto simp: krs v2_sections_def Let_def global_types split: if_splits)
    qed
    show "\<forall>x \<in> set ?dir. file_size x \<noteq> 0 \<and> section_end x \<le> length data"
    proof
      fix x assume "x \<in> set ?dir"
      then obtain kind r where m: "(kind, r) \<in> set krs" "x = global_from_range kind r" by auto
      have "fst r < snd r" using chained_bounds[OF ch, of r] m(1) by force
      then have "unat (file_size x) \<noteq> 0" using g(3)[OF m(1)] m(2) by simp
      then show "file_size x \<noteq> 0 \<and> section_end x \<le> length data" using g(4)[OF m(1)] le[OF m(1)] m(2) by auto
    qed
  qed
  then have pe: "parse_entries (length data) {} [] ?c = Inr (set (map fst krs), ?dir, advance (20 * (length ?dir + 1)) ?c)"
    unfolding types[symmetric] by (simp add: image_image)
  have de_pos: "position (advance (20 * (length ?dir + 1)) ?c) = de" by (simp add: kd(2)[simplified] de)
  have cur: "cursor_at data e V2_HEADER_SIZE = Inr ?c" using data len(2) by (simp add: cursor_at_def V2_HEADER_SIZE_def)
  have req: "map_ok (\<lambda>required. if required \<notin> set (map fst krs) then Inl (MissingSection required) else Inr ()) REQUIRED_TYPES
      = Inr (replicate 5 ())"
    by (simp add: REQUIRED_TYPES_def krs v2_sections_def Let_def eval_nat_numeral)
  have "de \<le> length data" using m1 al(3) len(3) by linarith
  then have de64: "de < 2 ^ 64" using len(1) by linarith
  have ok: "\<forall>(kind, r) \<in> set krs. section_ok data h (global_from_range kind r)"
  proof (clarify)
    fix kind a b assume m: "(kind, (a, b)) \<in> set krs"
    note gg = g[OF m, simplified fst_conv snd_conv]
    show "section_ok data h (global_from_range kind (a, b))"
      unfolding section_ok_def gg h using m m1(2,5,7) f4 str al(3)
      by (auto simp: krs v2_sections_def Let_def global_types split: if_splits)
  qed
  have sz: "unat (v2_address_count h) * unat (v2_address_offset_size h) < 2 ^ 64" "unat (v2_address_count h) * 8 < (2 ^ 64 :: nat)"
    using m1 al(3) len(1,3) unfolding h by linarith+
  have "validate_sections data de h ?dir = Inr ()"
    by (rule validate_sections_written[OF _ ch de64 sz _ ok]) (use bounds m1(3) h in auto)
  then show "parse_directory data e h = Inr \<lparr>dir_entries = ?dir, dir_end_offset = de\<rparr>"
    using pe req by (simp add: parse_directory_def cur de_pos[simplified])
qed

lemma section_range_written:
  assumes "distinct (map fst krs)" "(kind, r) \<in> set krs" "\<forall>(kind, r) \<in> set krs. fst r \<le> snd r \<and> snd r < (2 ^ 64 :: nat)"
    and d_def: "d = \<lparr>dir_entries = map (\<lambda>(kind, r). global_from_range kind r) krs, dir_end_offset = de\<rparr>"
  shows "directory_get d kind = Some (global_from_range kind r)" and "section_range d kind = Inr r"
proof -
  have f: "find (\<lambda>g. section_type g = kind) (map (\<lambda>(kind, r). global_from_range kind r) krs) = Some (global_from_range kind r)"
    using assms(1,2)
  proof (induction krs)
    case (Cons kr krs)
    then show ?case by (cases kr) (force simp: global_from_range_def)
  qed simp
  then show get: "directory_get d kind = Some (global_from_range kind r)" by (simp add: directory_get_def d_def)
  have "fst r \<le> snd r" "snd r < 2 ^ 64" using assms(2,3) by auto
  note g = global_from_range_simps[OF this, of kind]
  then show "section_range d kind = Inr r"
    using \<open>fst r \<le> snd r\<close> \<open>snd r < 2 ^ 64\<close> by (simp add: section_range_def get Let_def checked_add_def)
qed

lemma v2_image_tables:
  assumes enc: "encode_v2 options base width files strings fns = Inr img" and len: "length (image_into_bytes img) < 2 ^ 64"
    and ne: "fns \<noteq> []" "strings \<noteq> []" "hd strings = 0"
  obtains l offs where "layout_parse native (image_into_bytes img) = Inr l"
    "image_tables (image_into_bytes img) l fns files strings offs"
    "pl_version l = V2" "pl_endian l = wo_endian options" "pl_base_address l = base" "pl_address_offset_size l = width"
    "slice_get (image_into_bytes img) (fst (pl_build_id l)) (snd (pl_build_id l)) = Some (wo_build_id options)"
proof -
  define data e n w m u k j where d: "data = image_into_bytes img" "e = wo_endian options" "n = length fns" "w = unat width"
    "m = length files" "u = length (wo_build_id options)" "k = length strings" "j = length (ei_function_info img)"
  define de :: nat where "de = 20 + 20 * (if u = 0 then 6 else 7)"
  obtain h hb rel addr info ftab finfo where
    hdr: "v2_header_encode h e = Inr hb" and h: "v2_address_offset_size h = width" "v2_base_address h = base" "unat (v2_address_count h) = n"
    and al: "align_up (de + u) w = Some addr" "align_up (addr + n * w) 8 = Some info"
    "ftab = info + n * 8" "align_up (ftab + (4 + m * 16) + k) 4 = Some finfo"
    and fin: "finfo + j < 2 ^ 64"
    and bytes: "data = hb
       @ concat (map (global_bytes e) (wl_directory (v2_layout_at u n w m k j addr info ftab finfo)))
       @ global_bytes e terminator @ wo_build_id options @ replicate (addr - (de + u)) 0
       @ concat (map (\<lambda>fn. uint_put width e (r_start (ef_range fn) - base)) fns)
       @ replicate (info - (addr + n * w)) 0 @ concat (map (\<lambda>off. to_bytes e 8 (unat (word_of_nat off :: u64))) rel)
       @ to_bytes e 4 m @ concat (map (\<lambda>f. uint_put 8 e (fst f) @ uint_put 8 e (snd f)) files)
       @ strings @ replicate (finfo - (ftab + (4 + m * 16) + k)) 0 @ ei_function_info img"
    and fits: "\<forall>fn \<in> set fns. base \<le> r_start (ef_range fn) \<and> uint_fits width (r_start (ef_range fn) - base)"
    "m < 2 ^ 32" "\<forall>f \<in> set files. uint_fits 8 (fst f) \<and> uint_fits 8 (snd f)"
    and rec: "section_records e 8 0 (ei_function_info img) fns rel"
    by (rule encode_v2_bytes[OF enc, folded d, folded de_def])
  define krs where "krs = v2_sections u n w m k j addr info ftab finfo"
  let ?D = "concat (map (global_bytes e) (map (\<lambda>(kind, r). global_from_range kind r) krs))"
  let ?A = "concat (map (\<lambda>fn. uint_put width e (r_start (ef_range fn) - base)) fns)"
  let ?O = "concat (map (\<lambda>off. to_bytes e 8 (unat (word_of_nat off :: u64))) rel)"
  let ?F = "concat (map (\<lambda>f. uint_put 8 e (fst f) @ uint_put 8 e (snd f)) files)"
  let ?T = "global_bytes e terminator" and ?U = "wo_build_id options"
  let ?P1 = "replicate (addr - (de + u)) (0 :: u8)" and ?P2 = "replicate (info - (addr + n * w)) (0 :: u8)"
  let ?P3 = "replicate (finfo - (ftab + (4 + m * 16) + k)) (0 :: u8)"
  have bytes': "data = hb @ ?D @ ?T @ ?U @ ?P1 @ ?A @ ?P2 @ ?O @ to_bytes e 4 m @ ?F @ strings @ ?P3 @ ei_function_info img"
    unfolding bytes v2_layout_directory krs_def ..
  have lh: "length hb = 20" using hdr by (auto simp: v2_header_encode_eq)
  have "length krs + 1 = (if u = 0 then 6 else 7)" by (simp add: krs_def v2_sections_def Let_def)
  moreover have "length ?D = 20 * length krs" using global_codec.length_concat_put[of e "map (\<lambda>(kind, r). global_from_range kind r) krs"] by simp
  ultimately have lD: "length (hb @ ?D @ ?T) = de" using lh by (simp add: de_def)
  have lA: "length ?A = n * w" unfolding d(3) by (induction fns) (auto simp: d(4))
  have lo: "length rel = n" using rec by (simp add: section_records_def d(3))
  have lO: "length ?O = n * 8" unfolding lo[symmetric] by (induction rel) auto
  have lF: "length ?F = m * 16" unfolding d(5) by (induction files) auto
  have mm: "de + u \<le> addr" "addr + n * w \<le> info" "ftab + (4 + m * 16) + k \<le> finfo" "0 < w"
    using align_up_facts[OF al(1)] align_up_facts[OF al(2)] align_up_facts[OF al(4)] by blast+
  have p1: "length (hb @ ?D @ ?T @ ?U @ ?P1) = addr" using lD mm(1) d(6) by simp
  have p2: "length (hb @ ?D @ ?T @ ?U @ ?P1 @ ?A @ ?P2) = info" using p1 mm(2) lA by simp
  have p3: "length (hb @ ?D @ ?T @ ?U @ ?P1 @ ?A @ ?P2 @ ?O) = ftab" using p2 lO al(3) by simp
  have p4: "length (hb @ ?D @ ?T @ ?U @ ?P1 @ ?A @ ?P2 @ ?O @ to_bytes e 4 m) = ftab + 4" using p3 by simp
  have p5: "length (hb @ ?D @ ?T @ ?U @ ?P1 @ ?A @ ?P2 @ ?O @ to_bytes e 4 m @ ?F) = ftab + (4 + m * 16)" using p4 lF by simp
  have p6: "length (hb @ ?D @ ?T @ ?U @ ?P1 @ ?A @ ?P2 @ ?O @ to_bytes e 4 m @ ?F @ strings @ ?P3) = finfo" using p5 mm(3) d(7) by simp
  have ldata: "length data = finfo + j" unfolding bytes' using p6 d(8) by simp
  have small: "length data < 2 ^ 64" using fin ldata by simp
  have addrs: "holds_at data addr ?A"
    by (rule holds_at_pos[OF _ p1, where post = "?P2 @ ?O @ to_bytes e 4 m @ ?F @ strings @ ?P3 @ ei_function_info img"]) (simp add: bytes')
  have infos: "holds_at data info ?O"
    by (rule holds_at_pos[OF _ p2, where post = "to_bytes e 4 m @ ?F @ strings @ ?P3 @ ei_function_info img"]) (simp add: bytes')
  have count: "holds_at data ftab (to_bytes e 4 m)"
    by (rule holds_at_pos[OF _ p3, where post = "?F @ strings @ ?P3 @ ei_function_info img"]) (simp add: bytes')
  have filet: "holds_at data (ftab + 4) ?F"
    by (rule holds_at_pos[OF _ p4, where post = "strings @ ?P3 @ ei_function_info img"]) (simp add: bytes')
  have strs: "holds_at data (ftab + (4 + m * 16)) strings"
    by (rule holds_at_pos[OF _ p5, where post = "?P3 @ ei_function_info img"]) (simp add: bytes')
  have bid: "holds_at data de ?U"
    by (rule holds_at_pos[OF _ lD, where post = "?P1 @ ?A @ ?P2 @ ?O @ to_bytes e 4 m @ ?F @ strings @ ?P3 @ ei_function_info img"]) (simp add: bytes')
  have sl: "strings = 0 # tl strings" using ne(2,3) by (cases strings) auto
  have "nth_get data (ftab + (4 + m * 16)) = Some 0"
  proof -
    have "take (length strings) (drop (ftab + (4 + m * 16)) data) ! 0 = strings ! 0"
      using strs by (simp add: holds_at_def)
    moreover have "ftab + (4 + m * 16) + length strings \<le> length data" "0 < length strings"
      using strs ne(2) by (simp_all add: holds_at_def)
    then have "ftab + (4 + m * 16) < length data" by linarith
    ultimately show ?thesis using ne(2,3) by (simp add: nth_get_def hd_conv_nth)
  qed
  note str0 = this
  have recs: "finfo \<le> finfo + rel ! i \<and> (\<exists>blk. function_bytes e 8 (fns ! i) blk \<and> holds_at data (finfo + rel ! i) blk
      \<and> finfo + rel ! i + length blk \<le> length data)" if "i < n" for i
  proof -
    obtain blk where b: "function_bytes e 8 (fns ! i) blk" "holds_at (ei_function_info img) (rel ! i - 0) blk"
      using rec \<open>i < n\<close> unfolding section_records_def d(3) by blast
    have "holds_at data (finfo + rel ! i) blk"
      using holds_at_more[OF b(2), of "hb @ ?D @ ?T @ ?U @ ?P1 @ ?A @ ?P2 @ ?O @ to_bytes e 4 m @ ?F @ strings @ ?P3" "[]"]
      unfolding p6 by (simp add: bytes')
    then show ?thesis using b by (auto simp: holds_at_def)
  qed
  have pos: "0 < n" "0 < k" using ne(1,2) d(3,7) by auto
  have "0 < j"
  proof -
    obtain blk where "function_bytes e 8 (fns ! 0) blk" "holds_at data (finfo + rel ! 0) blk" "finfo + rel ! 0 + length blk \<le> length data"
      using recs[OF pos(1)] by blast
    then show ?thesis using ldata by (auto simp: function_bytes_def)
  qed
  have hw: "unat (v2_address_offset_size h) = w" using h(1) d(4) by simp
  note dir = v2_directory_parses[OF _ krs_def de_def small lh ldata[symmetric] h(3) hw al pos \<open>0 < j\<close> str0, of e
      "?U @ ?P1 @ ?A @ ?P2 @ ?O @ to_bytes e 4 m @ ?F @ strings @ ?P3 @ ei_function_info img", OF bytes']
  let ?d = "\<lparr>dir_entries = map (\<lambda>(kind, r). global_from_range kind r) krs, dir_end_offset = de\<rparr>"
  have dist: "distinct (map fst krs)" by (simp add: krs_def v2_sections_def Let_def global_types)
  note sec = section_range_written[OF dist _ dir(2) refl, of _ _ de]
  have mem: "(GLOBAL_ADDRESS_OFFSETS, (addr, addr + n * w)) \<in> set krs" "(GLOBAL_ADDRESS_INFO_OFFSETS, (info, info + n * 8)) \<in> set krs"
    "(GLOBAL_FILE_TABLE, (ftab, ftab + (4 + m * 16))) \<in> set krs" "(GLOBAL_FUNCTION_INFO, (finfo, finfo + j)) \<in> set krs"
    "(GLOBAL_STRING_TABLE, (ftab + (4 + m * 16), ftab + (4 + m * 16) + k)) \<in> set krs"
    by (simp_all add: krs_def v2_sections_def Let_def)
  let ?files = "word_of_nat m :: u32"
  have fc: "unat ?files = m" by (rule unat_word_of_nat_u32[OF fits(2)])
  let ?c = "\<lparr>cbytes = data, position = ftab, cendian = e\<rparr>"
  have rf: "read_u32 ?c = Inr (?files, advance 4 ?c)"
    using read_u32_ahead[of ?c ?files] holds_at_ahead[of ?c data "to_bytes e 4 m"] small count by (simp add: fc)
  have cur: "cursor_at data e ftab = Inr ?c" using count by (simp add: cursor_at_def holds_at_def)
  have fsz: "v2_file_table_size ?files = Inr (4 + m * 16)"
    using small ldata mm(3) by (simp add: v2_file_table_size_def file_table_size_def V2_FILE_ENTRY_SIZE_def fc checked_mul_def checked_add_def)
  define brange where "brange = (if u = 0 then (0, 0) else (de, de + u))"
  have uuid: "(case directory_get ?d GLOBAL_UUID of None \<Rightarrow> Inr (0, 0) | Some _ \<Rightarrow> section_range ?d GLOBAL_UUID) = Inr brange"
  proof (cases "u = 0")
    case True
    then have "directory_get ?d GLOBAL_UUID = None"
      by (auto simp: directory_get_def find_None_iff krs_def v2_sections_def Let_def global_types global_from_range_def)
    then show ?thesis using True by (simp add: brange_def)
  next
    case False
    then have "(GLOBAL_UUID, (de, de + u)) \<in> set krs" by (simp add: krs_def v2_sections_def Let_def de_def)
    then show ?thesis using sec[of GLOBAL_UUID "(de, de + u)"] False by (simp add: brange_def)
  qed
  define l where "l = \<lparr>pl_version = V2, pl_endian = e, pl_address_offset_size = width, pl_string_offset_size = 8,
      pl_base_address = base, pl_address_count = v2_address_count h, pl_build_id = brange,
      pl_address_offsets = (addr, addr + n * w), pl_address_info_offsets = (info, info + n * 8), pl_file_table = (ftab, ftab + (4 + m * 16)),
      pl_string_table = (ftab + (4 + m * 16), ftab + (4 + m * 16) + k), pl_function_info = (finfo, finfo + j), pl_file_count = ?files\<rparr>"
  have dec: "v2_header_decode native data = Inr (h, e)" unfolding bytes'
    by (rule v2_header_decode_bytes[OF hdr]) (use small bytes' in simp)
  have "parse_v2 native data = Inr l"
    by (simp add: parse_v2_def dec dir(1) sec(2)[OF mem(1)] sec(2)[OF mem(2)] sec(2)[OF mem(3)] sec(2)[OF mem(4)] sec(2)[OF mem(5)]
        cur rf fsz range_len_def uuid l_def h(1,2) V2_STRING_OFFSET_SIZE_def)
  moreover have "layout_parse native data = parse_v2 native data" unfolding bytes'
    by (rule layout_parse_v2[OF hdr]) (use small bytes' in simp)
  ultimately have parse: "layout_parse native data = Inr l" by simp
  have rel64: "unat (word_of_nat off :: u64) = off" if off: "off \<in> set rel" for off
  proof -
    obtain i where i: "i < n" "rel ! i = off" using off lo by (auto simp: in_set_conv_nth)
    then have "off < 2 ^ 64" using recs[OF i(1)] small by auto
    then show ?thesis by (rule unat_word_of_nat_u64)
  qed
  have "concat (map (stored_offset l) (map ((+) finfo) rel)) = ?O"
    using rel64 by (simp add: stored_offset_def l_def o_def cong: map_cong)
  then have tab: "image_tables data l fns files strings (map ((+) finfo) rel)"
    using small lo fits addrs infos filet holds_at_slice[OF strs] recs ldata
    by (simp add: image_tables_def l_def h fc[unfolded d(5)] d(3,5,7) file_pair_bytes_def[abs_def])
  have "slice_get data (fst (pl_build_id l)) (snd (pl_build_id l)) = Some ?U"
  proof (cases "u = 0")
    case True
    then show ?thesis by (simp add: l_def brange_def slice_get_def d(6))
  next
    case False
    then show ?thesis using holds_at_slice[OF bid] by (simp add: l_def brange_def d(6))
  qed
  then show thesis
    by (intro that[folded d, OF parse tab]) (simp_all add: l_def)
qed

end
