(* ===== verification/FinalizeSpec.thy ===== *)
theory FinalizeSpec
  imports Finalize "HOL-Library.Multiset"
begin

text \<open>
  What \<open>src/writer/finalize.rs\<close> and \<open>src/normalize.rs\<close> compute: the permutation loop is one stable sort
  (\<open>order_key\<close>), the finalized functions are in order, merging and deduplicating lose nothing they should
  keep, and compacting rows keeps the line of every address.
\<close>

section \<open>The permutation loop\<close>

text \<open>\<open>permutes_list order n\<close>: the sources of \<open>order\<close> are the positions below \<open>n\<close>, each once. \<open>ordered_by\<close> is what
  the loop is to do: position \<open>i\<close> gets the element at the source of \<open>i\<close>.\<close>

definition permutes_list :: "('r \<times> nat) list \<Rightarrow> nat \<Rightarrow> bool" where
  "permutes_list order n \<longleftrightarrow> length order = n \<and> distinct (map snd order) \<and> set (map snd order) \<subseteq> {..<n}"

definition ordered_by :: "('r \<times> nat) list \<Rightarrow> 'a list \<Rightarrow> 'a list" where
  "ordered_by order xs = map (\<lambda>(_, source). xs ! source) order"

lemma permutes_list_source: "permutes_list order n \<Longrightarrow> i < n \<Longrightarrow> snd (order ! i) < n"
  by (auto simp: permutes_list_def subset_iff)

lemma permutes_list_inject:
  "permutes_list order n \<Longrightarrow> i < n \<Longrightarrow> j < n \<Longrightarrow> snd (order ! i) = snd (order ! j) \<longleftrightarrow> i = j"
  using nth_eq_iff_index_eq[of "map snd order" i j] by (auto simp: permutes_list_def)

text \<open>The state of a walk: the positions \<open>V\<close> are in place, \<open>current\<close> holds the element of \<open>start\<close>, and the other
  positions are as they were.\<close>

definition walking :: "nat \<Rightarrow> (address_range \<times> nat) list \<Rightarrow> gfunction list \<Rightarrow> nat set \<Rightarrow> nat
    \<Rightarrow> (address_range \<times> nat) list \<Rightarrow> gfunction list \<Rightarrow> bool" where
  "walking start order0 fns0 V current order fns \<longleftrightarrow>
     length order = length order0 \<and> length fns = length fns0 \<and> start < length order0 \<and> current < length order0
     \<and> V \<subseteq> {..<length order0} \<and> current \<notin> V \<and> insert start ((\<lambda>i. snd (order0 ! i)) ` V) = insert current V
     \<and> fns ! current = fns0 ! start
     \<and> (\<forall>i \<in> V. snd (order ! i) = i \<and> fns ! i = fns0 ! snd (order0 ! i))
     \<and> (\<forall>i < length order0. i \<notin> V \<longrightarrow> order ! i = order0 ! i \<and> (i \<noteq> current \<longrightarrow> fns ! i = fns0 ! i))"

text \<open>What a walk achieves.\<close>

definition walked :: "nat \<Rightarrow> (address_range \<times> nat) list \<Rightarrow> gfunction list \<Rightarrow> (address_range \<times> nat) list \<Rightarrow> gfunction list \<Rightarrow> bool" where
  "walked start order0 fns0 order fns \<longleftrightarrow>
     (\<exists>V \<subseteq> {..<length order0}. start \<in> V \<and> (\<lambda>i. snd (order0 ! i)) ` V = V
       \<and> length order = length order0 \<and> length fns = length fns0
       \<and> (\<forall>i \<in> V. snd (order ! i) = i \<and> fns ! i = fns0 ! snd (order0 ! i))
       \<and> (\<forall>i < length order0. i \<notin> V \<longrightarrow> order ! i = order0 ! i \<and> fns ! i = fns0 ! i))"

lemma walk_cycle_walked:
  assumes "permutes_list order0 n" "length fns0 = n" "walking start order0 fns0 V current order fns"
  shows "\<exists>order' fns'. walk_cycle start current order fns = Some (order', fns') \<and> walked start order0 fns0 order' fns'"
  using assms(3)
proof (induction "n - card V" arbitrary: V current order fns rule: less_induct)
  case less
  have n: "length order0 = n" using assms(1) by (simp add: permutes_list_def)
  note w = less.prems[unfolded walking_def n]
  let ?p = "\<lambda>i. snd (order0 ! i)"
  have cur: "current < n" "start < n" "current \<notin> V" "V \<subseteq> {..<n}" "length order = n" "length fns = n" "fns ! current = fns0 ! start"
    using w assms(2) by auto
  have img: "insert start (?p ` V) = insert current V" using w by blast
  have inV: "\<forall>i \<in> V. snd (order ! i) = i \<and> fns ! i = fns0 ! ?p i" using w by blast
  have out: "\<forall>i < n. i \<notin> V \<longrightarrow> order ! i = order0 ! i \<and> (i \<noteq> current \<longrightarrow> fns ! i = fns0 ! i)" using w by blast
  obtain r source where rs: "order ! current = (r, source)" by (metis surj_pair)
  have src: "source = ?p current" using out cur(1,3) rs by (metis snd_conv)
  have sn: "source < n" using permutes_list_source[OF assms(1) cur(1)] src by simp
  have notin: "?p current \<notin> ?p ` V"
    using permutes_list_inject[OF assms(1) cur(1)] cur(3,4) by auto
  have get: "nth_get order current = Some (r, source)" using cur(1,5) rs by (simp add: nth_get_def)
  note eq = walk_cycle.simps[of start current order fns, unfolded get option.case prod.case]
  show ?case
  proof (cases "source = start")
    case True
    have V': "?p ` insert current V = insert current V" using img True src by auto
    have st: "start \<in> insert current V" using img by blast
    let ?order = "order[current := (r, current)]"
    have "walked start order0 fns0 ?order fns"
      unfolding walked_def n
    proof (rule exI[of _ "insert current V"], intro conjI)
      show "\<forall>i \<in> insert current V. snd (?order ! i) = i \<and> fns ! i = fns0 ! ?p i"
        using inV cur True src by (auto simp: nth_list_update)
      show "\<forall>i < n. i \<notin> insert current V \<longrightarrow> ?order ! i = order0 ! i \<and> fns ! i = fns0 ! i"
        using out by auto
    qed (use cur V' st assms(2) in auto)
    then show ?thesis using True by (simp add: eq)
  next
    case False
    let ?order = "order[current := (r, current)]" and ?fns = "swap_at current source fns"
    have new: "source \<notin> insert current V"
    proof
      assume "source \<in> insert current V"
      then have "source \<in> ?p ` V" using img False by blast
      then show False using notin src by simp
    qed
    have sw: "?fns ! current = fns ! source" "?fns ! source = fns ! current" "length ?fns = n"
      "\<And>i. i \<noteq> current \<Longrightarrow> i \<noteq> source \<Longrightarrow> ?fns ! i = fns ! i"
      using cur sn new by (auto simp: swap_at_def nth_list_update)
    have "fns ! source = fns0 ! source" using out sn new by auto
    have walking': "walking start order0 fns0 (insert current V) source ?order ?fns"
      unfolding walking_def n
    proof (intro conjI)
      show "insert start (?p ` insert current V) = insert source (insert current V)" using img src by auto
      show "\<forall>i \<in> insert current V. snd (?order ! i) = i \<and> ?fns ! i = fns0 ! ?p i"
      proof
        fix i assume i: "i \<in> insert current V"
        show "snd (?order ! i) = i \<and> ?fns ! i = fns0 ! ?p i"
        proof (cases "i = current")
          case True
          then show ?thesis using sw(1) cur(1,5) src \<open>fns ! source = fns0 ! source\<close> by simp
        next
          case False
          then show ?thesis using i new inV sw(4)[of i] by auto
        qed
      qed
      show "\<forall>i < n. i \<notin> insert current V \<longrightarrow> ?order ! i = order0 ! i \<and> (i \<noteq> source \<longrightarrow> ?fns ! i = fns0 ! i)"
        using out sw(4) by auto
    qed (use cur sn new sw assms(2) in auto)
    have fin: "finite V" using cur(4) finite_subset by blast
    have "insert current V \<subseteq> {..<n}" using cur by auto
    then have "card (insert current V) \<le> n" by (metis card_lessThan card_mono finite_lessThan)
    then have "n - card (insert current V) < n - card V" using fin cur(3) by simp
    from less.hyps[OF this walking'] show ?thesis using False cur(1,6) sn by (simp add: eq)
  qed
qed

lemma walk_cycle_returns:
  assumes "permutes_list order n" "length fns = n" "start < n"
  shows "\<exists>order' fns'. walk_cycle start start order fns = Some (order', fns') \<and> walked start order fns order' fns'"
  by (rule walk_cycle_walked[OF assms(1,2), of start "{}"]) (use assms in \<open>auto simp: walking_def permutes_list_def\<close>)

lemma walked_keeps:
  assumes w: "walked start order0 fns0 order fns" and p: "permutes_list order0 n" and l: "length fns0 = n"
  shows "permutes_list order n \<and> length fns = n \<and> ordered_by order fns = ordered_by order0 fns0
    \<and> snd (order ! start) = start \<and> (\<forall>i < n. snd (order0 ! i) = i \<longrightarrow> snd (order ! i) = i)"
proof -
  have n: "length order0 = n" using p by (simp add: permutes_list_def)
  let ?p = "\<lambda>i. snd (order0 ! i)"
  from w[unfolded walked_def n] obtain V where V: "V \<subseteq> {..<n}" "start \<in> V" "?p ` V = V" "length order = n" "length fns = length fns0"
    "\<forall>i \<in> V. snd (order ! i) = i \<and> fns ! i = fns0 ! ?p i"
    "\<forall>i < n. i \<notin> V \<longrightarrow> order ! i = order0 ! i \<and> fns ! i = fns0 ! i"
    by blast
  have closed: "?p i \<notin> V" if "i < n" "i \<notin> V" for i
  proof
    assume "?p i \<in> V"
    then have "?p i \<in> ?p ` V" by (simp only: V(3))
    then obtain j where j: "j \<in> V" "?p i = ?p j" by blast
    then have "j < n" using V(1) by auto
    then show False using permutes_list_inject[OF p that(1), of j] j that(2) by simp
  qed
  have snds: "snd (order ! i) = (if i \<in> V then i else ?p i)" if "i < n" for i using V(6,7) that by auto
  have lt: "snd (order ! i) < n" if "i < n" for i using snds[OF that] permutes_list_source[OF p that] that by simp
  have "i = j" if "i < n" "j < n" "snd (order ! i) = snd (order ! j)" for i j
  proof -
    have e: "(if i \<in> V then i else ?p i) = (if j \<in> V then j else ?p j)" using that(3) unfolding snds[OF that(1)] snds[OF that(2)] .
    have "i \<in> V \<longleftrightarrow> j \<in> V" using e closed[OF that(1)] closed[OF that(2)] by metis
    then show "i = j" using e permutes_list_inject[OF p that(1,2)] by metis
  qed
  then have "distinct (map snd order)" using V(4) by (simp add: distinct_conv_nth) blast
  then have perm: "permutes_list order n" using V(4) lt by (auto simp: permutes_list_def set_conv_nth)
  have "ordered_by order fns = ordered_by order0 fns0"
  proof (rule nth_equalityI)
    show "length (ordered_by order fns) = length (ordered_by order0 fns0)" by (simp add: ordered_by_def V(4) n)
    fix i assume "i < length (ordered_by order fns)"
    then have i: "i < n" by (simp add: ordered_by_def V(4))
    have "fns ! snd (order ! i) = fns0 ! ?p i"
      using snds[OF i] V(6,7) closed[OF i] permutes_list_source[OF p i] by (cases "i \<in> V") auto
    then show "ordered_by order fns ! i = ordered_by order0 fns0 ! i" using i by (simp add: ordered_by_def V(4) n case_prod_unfold)
  qed
  moreover have "start < n" using V(1,2) by auto
  ultimately show ?thesis using perm V(2,5) l snds by auto
qed

lemma apply_order_eq:
  assumes "permutes_list order n" "length fns = n" "k \<le> n" "\<forall>i < k. snd (order ! i) = i"
  shows "apply_order [k..<n] order fns = Some (ordered_by order fns)"
  using assms
proof (induction "n - k" arbitrary: k order fns)
  case 0
  have "ordered_by order fns = fns"
    using 0 by (intro nth_equalityI) (auto simp: ordered_by_def permutes_list_def case_prod_unfold)
  then show ?case using 0 by simp
next
  case (Suc d)
  then have k: "k < n" "[k..<n] = k # [Suc k..<n]" by (simp_all add: upt_conv_Cons)
  obtain order' fns' where w: "walk_cycle k k order fns = Some (order', fns')" "walked k order fns order' fns'"
    using walk_cycle_returns[OF Suc.prems(1,2) k(1)] by blast
  note kept = walked_keeps[OF w(2) Suc.prems(1,2)]
  have "apply_order [Suc k..<n] order' fns' = Some (ordered_by order' fns')"
    by (rule Suc.hyps(1)) (use Suc.hyps(2) Suc.prems kept k in \<open>auto simp: less_Suc_eq\<close>)
  then show ?case using kept by (simp add: k(2) w(1))
qed

section \<open>The ordering is one stable sort\<close>

lemma sort_key_unique:
  assumes "inj_on f (set xs)" "mset ys = mset xs" "sorted (map f ys)"
  shows "sort_key f xs = ys"
proof (rule properties_for_sort_key[OF assms(2) _ assms(3)])
  fix k assume "k \<in> set ys"
  then have k: "k \<in> set xs" "set ys = set xs" using assms(2) by (auto dest: mset_eq_setD)
  have "filter (\<lambda>x. f k = f x) zs = replicate (count (mset xs) k) k" if "mset zs = mset xs" for zs
  proof -
    have "set zs = set xs" using that by (rule mset_eq_setD)
    then have "filter (\<lambda>x. f k = f x) zs = filter (\<lambda>x. x = k) zs"
      using assms(1) k(1) by (intro filter_cong) (auto dest: inj_onD)
    also have "\<dots> = replicate (count (mset zs) k) k" by (induction zs) auto
    finally show ?thesis by (simp only: that)
  qed
  then show "filter (\<lambda>x. f k = f x) ys = filter (\<lambda>x. f k = f x) xs" using assms(2) by simp
qed

lemma sort_map: "sort (map f xs) = map f (sort_key f xs)"
  by (rule properties_for_sort) simp_all

lemma sort_key_weak_cong:
  assumes "\<And>x y. x \<in> set xs \<Longrightarrow> y \<in> set xs \<Longrightarrow> f x \<le> f y \<longleftrightarrow> g x \<le> g y"
  shows "sort_key f xs = sort_key g xs"
  using assms
proof (induction xs)
  case (Cons x xs)
  have "insort_key f x ys = insort_key g x ys" if "set ys \<subseteq> set xs" for ys
    using that Cons.prems by (induction ys) auto
  then show ?case using Cons by simp
qed simp

lemma sort_key_map: "sort_key f (map g xs) = map g (sort_key (\<lambda>x. f (g x)) xs)"
proof (induction xs)
  case (Cons x xs)
  have "insort_key f (g x) (map g ys) = map g (insort_key (\<lambda>x. f (g x)) x ys)" for ys by (induction ys) auto
  then show ?case using Cons by simp
qed simp

text \<open>The key of a function at a position, and of its function alone.\<close>

definition function_key :: "gfunction \<Rightarrow> richness \<times> bytes \<times> tiebreak" where
  "function_key fn = (richness fn True, fn_name fn, semantic_tiebreak fn)"

definition index_key :: "gfunction list \<Rightarrow> bool \<Rightarrow> nat \<Rightarrow> richness \<times> bytes \<times> tiebreak \<times> nat" where
  "index_key fns c i = (richness (fns ! i) c, fn_name (fns ! i), semantic_tiebreak (fns ! i), i)"

lemma richness_none: "fn_inline fn = None \<Longrightarrow> richness fn c = richness fn True"
  by (simp add: richness_def)

lemma fst_richness: "fst (richness fn c) \<longleftrightarrow> fn_inline fn \<noteq> None"
  by (simp add: richness_def Let_def)

lemma richness_less:
  assumes "fn_inline x = None" "fn_inline y \<noteq> None"
  shows "richness x c < richness y d"
  using assms fst_richness[of x c] fst_richness[of y d] by (auto simp: less_prod_def)

lemma index_key_flag:
  assumes "\<not> (fn_inline (fns ! i) \<noteq> None \<and> fn_inline (fns ! j) \<noteq> None)"
  shows "index_key fns c i \<le> index_key fns c j \<longleftrightarrow> index_key fns True i \<le> index_key fns True j"
proof (cases "fn_inline (fns ! i) = None \<longleftrightarrow> fn_inline (fns ! j) = None")
  case True
  then have "fn_inline (fns ! i) = None" "fn_inline (fns ! j) = None" using assms by auto
  then show ?thesis by (simp add: index_key_def richness_none[of _ c])
next
  case False
  then consider "fn_inline (fns ! i) = None" "fn_inline (fns ! j) \<noteq> None" | "fn_inline (fns ! j) = None" "fn_inline (fns ! i) \<noteq> None"
    by auto
  then show ?thesis
  proof cases
    case 1
    then show ?thesis using richness_less[OF 1] by (simp add: index_key_def)
  next
    case 2
    then show ?thesis using iffD2[OF not_le richness_less[OF 2, of c c]] iffD2[OF not_le richness_less[OF 2, of True True]]
        iffD2[OF not_less less_imp_le[OF richness_less[OF 2, of c c]]] iffD2[OF not_less less_imp_le[OF richness_less[OF 2, of True True]]] by (simp add: index_key_def)
  qed
qed

lemma map_filter_total: "(\<And>x. x \<in> set xs \<Longrightarrow> f x = Some (g x)) \<Longrightarrow> List.map_filter f xs = map g xs"
  by (induction xs) (auto simp: List.map_filter_simps)

lemma zip_ranges:
  "length ks = length grp \<Longrightarrow> \<forall>x \<in> set grp. fst x = r \<Longrightarrow>
    map (\<lambda>((r, _), (_, _, _, index)). (r, index)) (zip grp (map (index_key fns c) ks)) = map (\<lambda>i. (r, i)) ks"
  by (induction ks grp rule: list_induct2) (auto simp: index_key_def)

lemma order_group_eq:
  assumes same: "\<forall>x \<in> set grp. fst x = r" and lt: "\<forall>x \<in> set grp. snd x < length fns" and dist: "distinct (map snd grp)"
  shows "order_group fns grp = map (\<lambda>i. (r, i)) (sort_key (index_key fns True) (map snd grp))"
proof (cases "length grp < 2")
  case True
  then consider "grp = []" | x where "grp = [x]" by (cases grp) (auto simp: less_Suc_eq)
  then show ?thesis using same by cases (auto simp: order_group_def)
next
  case False
  let ?has = "\<lambda>(_ :: address_range, index). case nth_get fns index of None \<Rightarrow> False | Some fn \<Rightarrow> fn_inline fn \<noteq> None"
  define c where "c = (length (take 2 (filter ?has grp)) = 2)"
  let ?ids = "map snd grp"
  let ?entries = "List.map_filter (\<lambda>(_, index). map_option (\<lambda>fn. (richness fn c, fn_name fn, semantic_tiebreak fn, index)) (nth_get fns index)) grp"
  have al: "?entries = map (index_key fns c) ?ids"
    unfolding map_map by (rule map_filter_total) (use lt in \<open>auto simp: nth_get_def index_key_def\<close>)
  have same_order: "index_key fns c i \<le> index_key fns c j \<longleftrightarrow> index_key fns True i \<le> index_key fns True j"
    if "i \<in> set ?ids" "j \<in> set ?ids" for i j
  proof (cases "i = j \<or> c")
    case True
    then show ?thesis by (cases c) auto
  next
    case nc: False
    have "\<not> (fn_inline (fns ! i) \<noteq> None \<and> fn_inline (fns ! j) \<noteq> None)"
    proof
      assume both: "fn_inline (fns ! i) \<noteq> None \<and> fn_inline (fns ! j) \<noteq> None"
      have m: "i \<in> set (map snd (filter ?has grp))" "j \<in> set (map snd (filter ?has grp))"
        using that both lt by (force simp: nth_get_def)+
      have "card {i, j} \<le> card (set (map snd (filter ?has grp)))" using m by (intro card_mono) auto
      also have "\<dots> \<le> length (filter ?has grp)" using card_length[of "map snd (filter ?has grp)"] by simp
      finally have "2 \<le> length (filter ?has grp)" using nc by auto
      then show False using nc by (simp add: c_def)
    qed
    then show ?thesis by (rule index_key_flag)
  qed
  have sk: "sort_key (index_key fns c) ?ids = sort_key (index_key fns True) ?ids"
    by (rule sort_key_weak_cong) (rule same_order)
  have "order_group fns grp = map (\<lambda>((r, _), (_, _, _, index)). (r, index)) (zip grp (sort ?entries)) @ drop (length ?entries) grp"
    using False by (simp add: order_group_def Let_def c_def)
  also have "\<dots> = map (\<lambda>((r, _), (_, _, _, index)). (r, index)) (zip grp (map (index_key fns c) (sort_key (index_key fns True) ?ids)))"
    by (simp add: al sort_map sk del: map_map)
  also have "\<dots> = map (\<lambda>i. (r, i)) (sort_key (index_key fns True) ?ids)"
    by (rule zip_ranges[OF _ same]) simp
  finally show ?thesis .
qed

lemma concat_chunk_runs: "concat (chunk_runs xs) = xs"
  by (induction xs rule: chunk_runs.induct) (auto split: list.splits)

lemma chunk_runs_same: "run \<in> set (chunk_runs xs) \<Longrightarrow> run \<noteq> [] \<and> (\<forall>x \<in> set run. fst x = fst (hd run))"
proof (induction xs arbitrary: run)
  case (Cons x xs)
  show ?case
  proof (cases "chunk_runs xs")
    case Nil
    then show ?thesis using Cons.prems by simp
  next
    case (Cons first runs)
    note split = this
    obtain y tail where f: "first = y # tail" using Cons.IH[of first] split by (cases first) auto
    have tail: "\<forall>z \<in> set (y # tail). fst z = fst y" using Cons.IH[of first] split f by auto
    consider "run = [x]" | "run = x # y # tail" "fst x = fst y" | "run = y # tail" | "run \<in> set runs"
      using Cons.prems split f by (auto split: if_splits)
    then show ?thesis
    proof cases
      case 2
      show ?thesis unfolding 2(1) using tail 2(2) by simp
    next
      case 3
      then have "run \<in> set (chunk_runs xs)" by (simp add: split f)
      then show ?thesis by (rule Cons.IH)
    next
      case 4
      then have "run \<in> set (chunk_runs xs)" by (simp add: split f)
      then show ?thesis by (rule Cons.IH)
    qed simp
  qed
qed simp

lemma chunk_runs_ordered:
  "sorted (map fst xs) \<Longrightarrow> sorted_wrt (\<lambda>run run'. \<forall>x \<in> set run. \<forall>y \<in> set run'. fst x < fst y) (chunk_runs xs)"
proof (induction xs)
  case (Cons x xs)
  show ?case
  proof (cases "chunk_runs xs")
    case (Cons first runs)
    note split = this
    have ih: "sorted_wrt (\<lambda>run run'. \<forall>x \<in> set run. \<forall>y \<in> set run'. fst x < fst y) (first # runs)"
      using Cons.IH Cons.prems by (simp add: split)
    obtain y tail where f: "first = y # tail" using chunk_runs_same[of first xs] split by (cases first) auto
    have flat: "first @ concat runs = xs" using concat_chunk_runs[of xs] by (simp add: split)
    have le: "fst x \<le> fst z" if "z \<in> set xs" for z using Cons.prems that by auto
    have y: "y \<in> set xs" "\<forall>z \<in> set tail. fst z = fst y"
      using flat chunk_runs_same[of first xs] by (auto simp: split f)
    have lt: "fst x < fst z" if "fst x \<noteq> fst y" "z \<in> set xs" for z
    proof -
      have "fst y \<le> fst z" using that(2) ih y flat by (auto simp: f simp flip: flat intro: less_imp_le)
      then show ?thesis using le[OF y(1)] that(1) by auto
    qed
    show ?thesis
    proof (cases "fst x = fst y")
      case True
      then show ?thesis using ih by (simp add: split f)
    next
      case False
      have "\<forall>run \<in> set (first # runs). \<forall>z \<in> set run. fst x < fst z"
        using lt[OF False] by (auto simp flip: flat)
      then show ?thesis using ih False by (simp add: split f)
    qed
  qed simp
qed simp

lemma sort_key_by_runs:
  assumes "sorted_wrt (\<lambda>run run'. \<forall>x \<in> set run. \<forall>y \<in> set run'. fst x < fst y) R"
    and "\<forall>run \<in> set R. \<forall>x \<in> set run. fst x = fst (hd run)" and "\<forall>run \<in> set R. \<forall>x \<in> set run. fst x = rng (snd x)"
  shows "sorted (map (\<lambda>i. (rng i, k i)) (concat (map (\<lambda>run. sort_key k (map snd run)) R)))"
  using assms
proof (induction R)
  case (Cons run R)
  let ?key = "\<lambda>i. (rng i, k i)"
  have same: "rng i = fst (hd run)" if "i \<in> snd ` set run" for i
    using that Cons.prems(2,3) by fastforce
  have "map ?key (sort_key k (map snd run)) = map (\<lambda>i. (fst (hd run), k i)) (sort_key k (map snd run))"
    using same by (intro map_cong) auto
  moreover have "sorted \<dots>" using sorted_sort_key[of k "map snd run"] by (simp add: sorted_wrt_map)
  ultimately have s: "sorted (map ?key (sort_key k (map snd run)))" by (simp only:)
  have cross: "?key i \<le> ?key j" if i: "i \<in> snd ` set run" and j: "j \<in> snd ` set (concat R)" for i j
  proof -
    obtain x where x: "x \<in> set run" "i = snd x" using i by auto
    obtain run' y where y: "run' \<in> set R" "y \<in> set run'" "j = snd y" using j by auto
    have "fst x < fst y" using Cons.prems(1) x(1) y(1,2) by simp
    moreover have "fst x = rng i" "fst y = rng j" using Cons.prems(3) x y by auto
    ultimately show ?thesis by (simp add: less_prod_def)
  qed
  show ?case
    using s Cons cross by (auto simp: sorted_append)
qed simp

lemma sort_key_stable_index:
  assumes "\<And>i j. k i \<le> k j \<longleftrightarrow> g i < g j \<or> (g i = g j \<and> i \<le> j)"
  shows "sort_key k [0..<n] = sort_key g [0..<n]"
proof (rule sym, rule properties_for_sort_key)
  have mono: "g i \<le> g j" if "k i \<le> k j" for i j using that unfolding assms by (auto intro: less_imp_le)
  show "sorted (map g (sort_key k [0..<n]))"
    using sorted_sort_key[of k "[0..<n]"] unfolding sorted_wrt_map by (rule sorted_wrt_mono_rel[rotated]) (rule mono)
  fix i :: nat
  have "sorted_wrt (\<lambda>a b. k a \<le> k b) (filter (\<lambda>x. g i = g x) [0..<n])"
  proof -
    have "sorted (filter (\<lambda>x. g i = g x) [0..<n])" by (rule sorted_filter[of id, simplified]) simp
    then show ?thesis by (rule sorted_wrt_mono_rel[rotated]) (auto simp: assms)
  qed
  then have "sort_key k (filter (\<lambda>x. g i = g x) [0..<n]) = filter (\<lambda>x. g i = g x) [0..<n]"
    by (intro sort_key_id_if_sorted) (simp add: sorted_wrt_map)
  then show "filter (\<lambda>x. g i = g x) (sort_key k [0..<n]) = filter (\<lambda>x. g i = g x) [0..<n]"
    unfolding filter_sort .
qed simp

definition order_key :: "gfunction \<Rightarrow> address_range \<times> richness \<times> bytes \<times> tiebreak" where
  "order_key fn = (fn_range fn, function_key fn)"

lemma lex_index:
  fixes r r' :: "'a :: linorder" and x x' :: "'b :: linorder" and y y' :: "'c :: linorder" and z z' :: "'d :: linorder" and i j :: nat
  shows "(r, x, y, z, i) \<le> (r', x', y', z', j) \<longleftrightarrow>
    (r, x, y, z) < (r', x', y', z') \<or> (r, x, y, z) = (r', x', y', z') \<and> i \<le> j"
  by (cases "r < r'"; cases "r = r'"; cases "x < x'"; cases "x = x'"; cases "y < y'"; cases "y = y'"; cases "z < z'"; cases "z = z'")
    (auto simp: not_less le_less)

lemma mset_sorted_runs: "mset (concat (map (\<lambda>run. sort_key k (map snd run)) R)) = mset (map snd (concat R))"
  by (induction R) auto

lemma order_entries:
  "map (\<lambda>(index, fn). (fn_range fn, index)) (zip [0..<length fns] fns) = map (\<lambda>i. (fn_range (fns ! i), i)) [0..<length fns]"
  by (rule nth_equalityI) simp_all

lemma function_order_eq:
  "map snd (function_order fns) = sort_key (\<lambda>i. order_key (fns ! i)) [0..<length fns]"
proof -
  let ?n = "length fns" and ?rng = "\<lambda>i. fn_range (fns ! i)" and ?ik = "index_key fns True"
  define L where "L = sort (map (\<lambda>i. (?rng i, i)) [0..<?n])"
  have setL: "set L = (\<lambda>i. (?rng i, i)) ` {..<?n}" by (auto simp: L_def)
  have "distinct L" by (simp add: L_def distinct_map inj_on_def)
  have msetL: "mset (map snd L) = mset [0..<?n]" by (simp only: L_def sort_map map_map comp_def snd_conv map_ident mset_sort)
  have distL: "distinct (map snd L)" using mset_eq_imp_distinct_iff[OF msetL] by simp
  have sortedL: "sorted (map fst L)"
  proof -
    have "sorted L" by (simp add: L_def)
    then show ?thesis unfolding sorted_wrt_map by (rule sorted_wrt_mono_rel[rotated]) (auto simp: less_eq_prod_def)
  qed
  have mem: "x \<in> set L" if "run \<in> set (chunk_runs L)" "x \<in> set run" for run x
    using that concat_chunk_runs[of L] by (metis UN_I set_concat)
  have grp: "order_group fns run = map (\<lambda>i. (fst (hd run), i)) (sort_key ?ik (map snd run))" if run: "run \<in> set (chunk_runs L)" for run
  proof (rule order_group_eq)
    show "\<forall>x \<in> set run. fst x = fst (hd run)" using chunk_runs_same[OF run] by blast
    show "\<forall>x \<in> set run. snd x < length fns"
    proof
      fix x assume "x \<in> set run"
      then have "x \<in> (\<lambda>i. (?rng i, i)) ` {..<?n}" using mem[OF run] setL by blast
      then show "snd x < length fns" by auto
    qed
    have "distinct (map snd (concat (chunk_runs L)))" using distL by (simp add: concat_chunk_runs)
    then show "distinct (map snd run)" using run by (auto simp: map_concat distinct_concat_iff)
  qed
  have order: "function_order fns = concat (map (order_group fns) (chunk_runs L))"
    by (simp add: function_order_def order_entries L_def)
  have snds: "map snd (function_order fns) = concat (map (\<lambda>run. sort_key ?ik (map snd run)) (chunk_runs L))"
    unfolding order map_concat map_map by (rule arg_cong[of _ _ concat], rule map_cong) (simp_all add: grp comp_def)
  have "sort_key (\<lambda>i. (?rng i, ?ik i)) [0..<?n] = map snd (function_order fns)"
  proof (rule sort_key_unique)
    show "inj_on (\<lambda>i. (?rng i, ?ik i)) (set [0..<?n])" by (auto simp: inj_on_def index_key_def)
    have "mset (map snd (function_order fns)) = mset (map snd (concat (chunk_runs L)))"
      unfolding snds by (rule mset_sorted_runs)
    then show "mset (map snd (function_order fns)) = mset [0..<?n]" using msetL by (simp add: concat_chunk_runs)
    show "sorted (map (\<lambda>i. (?rng i, ?ik i)) (map snd (function_order fns)))"
      unfolding snds
    proof (rule sort_key_by_runs)
      show "\<forall>run \<in> set (chunk_runs L). \<forall>x \<in> set run. fst x = ?rng (snd x)" using mem setL by fastforce
    qed (use chunk_runs_ordered[OF sortedL] chunk_runs_same in blast)+
  qed
  moreover have "sort_key (\<lambda>i. (?rng i, ?ik i)) [0..<?n] = sort_key (\<lambda>i. order_key (fns ! i)) [0..<?n]"
    by (rule sort_key_stable_index) (simp only: index_key_def order_key_def function_key_def lex_index)
  ultimately show ?thesis by simp
qed

lemma sort_by_ordering_key_loop_eq: "sort_by_ordering_key_loop fns = Some (sort_key order_key fns)"
proof -
  have perm: "permutes_list (function_order fns) (length fns)"
    using arg_cong[OF function_order_eq[of fns], of set] arg_cong[OF function_order_eq[of fns], of distinct]
      arg_cong[OF function_order_eq[of fns], of length] by (auto simp: permutes_list_def)
  then have "length (function_order fns) = length fns" by (simp add: permutes_list_def)
  then have "sort_by_ordering_key_loop fns = Some (ordered_by (function_order fns) fns)"
    using apply_order_eq[OF perm, of fns 0] by (simp add: sort_by_ordering_key_loop_def)
  moreover have "ordered_by (function_order fns) fns = map (\<lambda>i. fns ! i) (map snd (function_order fns))"
    by (simp add: ordered_by_def case_prod_unfold)
  moreover have "\<dots> = sort_key order_key (map (\<lambda>i. fns ! i) [0..<length fns])"
    by (simp add: function_order_eq sort_key_map)
  ultimately show ?thesis by (simp add: map_nth)
qed

section \<open>Order and content of the finalized functions\<close>

lemma dedup_from_ordered:
  fixes f :: "'a \<Rightarrow> 'k :: linorder"
  assumes bucket: "\<And>current previous. case same_bucket current previous of (same, current', previous') \<Rightarrow>
        if same then f previous' = f previous \<or> f previous' = f current
        else f current' = f current \<and> f previous' = f previous \<and> (f previous \<le> f current \<longrightarrow> f previous < f current)"
    and "sorted (map f (x # xs))"
  shows "sorted_wrt (<) (map f (dedup_from same_bucket x xs)) \<and> (\<forall>y \<in> set (dedup_from same_bucket x xs). f x \<le> f y)"
  using assms(2)
proof (induction xs arbitrary: x)
  case (Cons current rest)
  obtain same current' previous' where s: "same_bucket current x = (same, current', previous')" by (metis prod_cases3)
  note b = bucket[where current = current and previous = x, unfolded s prod.case]
  show ?case
  proof (cases same)
    case True
    then have p: "f x \<le> f previous'" "sorted (map f (previous' # rest))" using b Cons.prems by auto
    then show ?thesis using Cons.IH[OF p(2)] s True by (auto intro: order_trans)
  next
    case False
    then have c: "f current' = f current" "f previous' = f x" "f x < f current" using b Cons.prems by auto
    then have "sorted (map f (current' # rest))" using Cons.prems by simp
    from Cons.IH[OF this] show ?thesis using s False c by (auto intro: less_imp_le order.strict_trans2)
  qed
qed simp

lemma dedup_by_ordered:
  fixes f :: "'a \<Rightarrow> 'k :: linorder"
  assumes "\<And>current previous. case same_bucket current previous of (same, current', previous') \<Rightarrow>
        if same then f previous' = f previous \<or> f previous' = f current
        else f current' = f current \<and> f previous' = f previous \<and> (f previous \<le> f current \<longrightarrow> f previous < f current)"
    and "sorted (map f xs)"
  shows "sorted_wrt (<) (map f (dedup_by same_bucket xs))"
  using dedup_from_ordered[OF assms(1), of "hd xs" "tl xs"] assms(2) by (cases xs) (simp_all add: dedup_by_def)

lemma fn_range_set [simp]: "fn_range (set_fn_merged v fn) = fn_range fn" "fn_range (set_fn_name w fn) = fn_range fn"
  by (cases fn; simp)+

lemma merge_equal_ranges_ordered: "sorted (map fn_range fns) \<Longrightarrow> sorted_wrt (<) (map fn_range (merge_equal_ranges fns))"
  unfolding merge_equal_ranges_def by (rule dedup_by_ordered) (auto simp: Let_def)

lemma deduplicate_ordered: "sorted (map fn_range fns) \<Longrightarrow> sorted_wrt (<) (map fn_range (deduplicate fns))"
  unfolding deduplicate_def by (rule dedup_by_ordered) (auto simp: Let_def)

lemma compact_function_line_range [simp]: "fn_range (compact_function_line fn) = fn_range fn"
  by (cases fn) simp

lemma sort_by_ordering_key_eq: "sort_by_ordering_key fns = sort_key order_key fns"
  by (simp add: sort_by_ordering_key_def sort_by_ordering_key_loop_eq)

lemma sort_by_ordering_key_ranges: "sorted (map fn_range (sort_by_ordering_key fns))"
proof -
  have "sorted (map order_key (sort_key order_key fns))" by simp
  then show ?thesis unfolding sort_by_ordering_key_eq sorted_wrt_map
    by (rule sorted_wrt_mono_rel[rotated]) (auto simp: order_key_def less_eq_prod_def)
qed

lemma saturating_add_u64_ge: "a \<le> saturating_add_u64 a b"
proof (cases "unat a + unat b < 2 ^ 64")
  case True
  then show ?thesis by (simp add: saturating_add_u64_def word_le_nat_alt unat_word_ariths)
qed (simp only: saturating_add_u64_def if_False word_order.extremum)

lemma repaired_range_larger:
  assumes "range_is_empty r"
  shows "r \<le> repaired_range options (r_start r) \<and> r_start (repaired_range options (r_start r)) = r_start r"
  using assms by (auto simp: repaired_range_def range_le_iff Let_def range_is_empty_iff intro: order_trans[OF _ saturating_add_u64_ge])

text \<open>Repair changes at most the range of the last function, and keeps its start.\<close>

lemma repair_final_range_cases:
  obtains "repair_final_range fns options = fns"
  | r where "fns \<noteq> []" "fn_range (last fns) \<le> r" "r_start r = r_start (fn_range (last fns))"
      "map fn_range (repair_final_range fns options) = map fn_range (butlast fns) @ [r]"
proof (cases "repair_final_range fns options = fns")
  case False
  let ?r = "repaired_range options (r_start (fn_range (last fns)))"
  have ne: "fns \<noteq> []" by (rule ccontr) (use False in \<open>simp add: repair_final_range_def\<close>)
  have empty: "range_is_empty (fn_range (last fns))" by (rule ccontr) (use False in \<open>simp add: repair_final_range_def\<close>)
  have rep: "repair_final_range fns options = butlast fns @ [repair_merged_ranges ?r (last fns)]"
    using False by (simp add: repair_final_range_def Let_def split: if_splits)
  note c = ne empty rep
  moreover have "fn_range (repair_merged_ranges ?r (last fns)) = ?r" by (cases "last fns") simp
  ultimately show ?thesis using repaired_range_larger[OF c(2), of options] that(2)[of ?r] by simp
qed (rule that(1))

lemma sorted_wrt_last:
  fixes xs :: "'k :: linorder list"
  assumes "transp R" "\<And>x y z. R x y \<Longrightarrow> y \<le> z \<Longrightarrow> R x z" "sorted_wrt R xs" "xs \<noteq> []" "last xs \<le> r"
  shows "sorted_wrt R (butlast xs @ [r])"
proof -
  have "sorted_wrt R (butlast xs @ [last xs])" using assms by simp
  then show ?thesis using assms(2,5) by (auto simp: sorted_wrt_append)
qed

lemma finalize_ordered:
  "sorted (map fn_range (finalize fns options policy))
   \<and> (policy \<noteq> Preserve \<longrightarrow> sorted_wrt (<) (map fn_range (finalize fns options policy)))"
proof -
  let ?sorted = "sort_by_ordering_key (compact_function_lines fns)"
  define kept where "kept = (case policy of MergeEqualRanges \<Rightarrow> merge_equal_ranges ?sorted
    | Deduplicate \<Rightarrow> deduplicate ?sorted | Preserve \<Rightarrow> ?sorted)"
  have f: "finalize fns options policy = repair_final_range kept options" by (simp add: finalize_def Let_def kept_def)
  have strict: "sorted_wrt (<) (map fn_range kept)" if "policy \<noteq> Preserve"
    using that merge_equal_ranges_ordered deduplicate_ordered sort_by_ordering_key_ranges by (cases policy) (simp_all add: kept_def)
  have weak: "sorted (map fn_range kept)"
    using strict strict_sorted_imp_sorted sort_by_ordering_key_ranges by (cases policy) (simp_all add: kept_def)
  show ?thesis
  proof (rule repair_final_range_cases[of kept options])
    assume "repair_final_range kept options = kept"
    then show ?thesis using strict weak by (simp add: f)
  next
    fix r assume r: "kept \<noteq> []" "fn_range (last kept) \<le> r" "r_start r = r_start (fn_range (last kept))"
      "map fn_range (repair_final_range kept options) = map fn_range (butlast kept) @ [r]"
    have "sorted_wrt R (map fn_range (butlast kept) @ [r])"
      if "transp R" "\<And>x y z. R x y \<Longrightarrow> y \<le> z \<Longrightarrow> R x z" "sorted_wrt R (map fn_range kept)" for R
      using sorted_wrt_last[OF that(1,2,3), where r = r] r by (simp add: last_map map_butlast)
    note extended = this
    have "sorted (map fn_range (butlast kept) @ [r])" by (rule extended[OF _ _ weak]) auto
    moreover have "sorted_wrt (<) (map fn_range (butlast kept) @ [r])" if "policy \<noteq> Preserve"
      by (rule extended[OF _ _ strict[OF that]]) auto
    ultimately show ?thesis unfolding f r(4) by blast
  qed
qed

text \<open>Nothing is lost by merging: every function is there, or in the merged list of the one that was kept.\<close>

definition merged_into :: "gfunction \<Rightarrow> gfunction \<Rightarrow> bool" where
  "merged_into parent fn \<longleftrightarrow> fn_range parent = fn_range fn
     \<and> (fn \<in> set (fn_merged parent) \<or> (\<exists>extra. parent = set_fn_merged (fn_merged fn @ extra) fn))"

lemma set_fn_merged_simps [simp]:
  "fn_merged (set_fn_merged v fn) = v" "set_fn_merged v (set_fn_merged w fn) = set_fn_merged v fn" "set_fn_merged (fn_merged fn) fn = fn"
  by (cases fn; simp)+

lemma merged_into_refl: "merged_into fn fn"
  unfolding merged_into_def by (auto intro: exI[of _ "[]"])

lemma merged_into_push: "merged_into parent fn \<Longrightarrow> merged_into (set_fn_merged (fn_merged parent @ [new]) parent) fn"
  unfolding merged_into_def by auto

lemma dedup_from_keeps:
  assumes refl: "\<And>x. keeps x x" and grow: "\<And>current previous y. case same_bucket current previous of (same, current', previous') \<Rightarrow>
        if same then (keeps previous y \<longrightarrow> keeps previous' y) \<and> keeps previous' current
        else current' = current \<and> previous' = previous"
    and "keeps x y \<or> y \<in> set xs"
  shows "\<exists>p \<in> set (dedup_from same_bucket x xs). keeps p y"
  using assms(3)
proof (induction xs arbitrary: x)
  case (Cons current rest)
  obtain same current' previous' where s: "same_bucket current x = (same, current', previous')" by (metis prod_cases3)
  note b = grow[where current = current and previous = x and y = y, unfolded s prod.case]
  show ?case
  proof (cases same)
    case True
    then have "keeps previous' y \<or> y \<in> set rest" using b Cons.prems by auto
    from Cons.IH[OF this] show ?thesis using s True by simp
  next
    case False
    then have c: "current' = current" "previous' = x" using b by auto
    show ?thesis
    proof (cases "keeps x y")
      case True
      then show ?thesis using s False c by simp
    next
      case no: False
      then have "keeps current y \<or> y \<in> set rest" using Cons.prems refl by auto
      from Cons.IH[OF this] show ?thesis using s False c by auto
    qed
  qed
qed simp

lemma dedup_by_keeps:
  assumes "\<And>x. keeps x x" "\<And>current previous y. case same_bucket current previous of (same, current', previous') \<Rightarrow>
        if same then (keeps previous y \<longrightarrow> keeps previous' y) \<and> keeps previous' current
        else current' = current \<and> previous' = previous"
    and "y \<in> set xs"
  shows "\<exists>p \<in> set (dedup_by same_bucket xs). keeps p y"
proof (cases xs)
  case (Cons x rest)
  then have "keeps x y \<or> y \<in> set rest" using assms(1,3) by auto
  then show ?thesis using dedup_from_keeps[of keeps same_bucket x y rest, OF assms(1,2)] Cons by (simp add: dedup_by_def)
qed (use assms in simp)

lemma merge_equal_ranges_keeps: "fn \<in> set fns \<Longrightarrow> \<exists>parent \<in> set (merge_equal_ranges fns). merged_into parent fn"
  unfolding merge_equal_ranges_def
proof (rule dedup_by_keeps)
  fix fn parent y
  let ?previous = "if fn_merged parent = [] then parent else last (fn_merged parent)"
  have eq: "merged_into parent fn" if "?previous = fn" "fn_range parent = fn_range fn"
  proof (cases "fn_merged parent = []")
    case True
    then show ?thesis using that merged_into_refl by simp
  next
    case False
    then have "fn \<in> set (fn_merged parent)" using that last_in_set[OF False] by simp
    then show ?thesis using that by (simp add: merged_into_def)
  qed
  have push: "merged_into (set_fn_merged (fn_merged parent @ [fn]) parent) fn" if "fn_range parent = fn_range fn"
    using that by (simp add: merged_into_def)
  show "case if fn_range parent \<noteq> fn_range fn then (False, fn, parent)
         else let previous = ?previous in (True, fn, if previous \<noteq> fn then set_fn_merged (fn_merged parent @ [fn]) parent else parent)
     of (same, current', previous') \<Rightarrow>
        if same then (merged_into parent y \<longrightarrow> merged_into previous' y) \<and> merged_into previous' fn else current' = fn \<and> previous' = parent"
    using eq push merged_into_push[of parent y fn] by (auto simp: Let_def simp del: split_paired_All split: if_splits)
qed (rule merged_into_refl)

text \<open>Deduplication keeps every range, except empty ones inside the range of a function that is kept.\<close>

definition covered_by :: "gfunction \<Rightarrow> gfunction \<Rightarrow> bool" where
  "covered_by kept fn \<longleftrightarrow> fn_range kept = fn_range fn
     \<or> range_is_empty (fn_range fn) \<and> range_contains (fn_range kept) (r_start (fn_range fn))"

lemma not_empty_contained: "range_is_empty r \<Longrightarrow> \<not> range_contains r a"
  by (auto simp: range_is_empty_iff range_contains_def)

lemma deduplicate_keeps: "fn \<in> set fns \<Longrightarrow> \<exists>kept \<in> set (deduplicate fns). covered_by kept fn"
  unfolding deduplicate_def
proof (rule dedup_by_keeps, goal_cases)
  case (2 current previous y)
  show ?case
    by (auto simp: Let_def covered_by_def dest: not_empty_contained)
qed (simp_all add: covered_by_def)

section \<open>Compacted rows\<close>

text \<open>The file and line in force at an address.\<close>

definition line_in_force :: "u64 \<Rightarrow> line_entry list \<Rightarrow> (file_index \<times> u32) option" where
  "line_in_force a rows = (let past = filter (\<lambda>row. row_address row \<le> a) rows in
     if past = [] then None else Some (row_file (last past), row_line (last past)))"

lemma compact_from_in_force:
  assumes "sorted (map row_address (x # rows))"
  shows "line_in_force a (dedup_from (\<lambda>current previous.
      (row_file current = row_file previous \<and> row_line current = row_line previous, current, previous)) x rows)
    = line_in_force a (x # rows)"
  using assms
proof (induction rows arbitrary: x)
  case (Cons current rest)
  have none: "filter (\<lambda>row. row_address row \<le> a) rest = []" if "\<not> row_address current \<le> a"
    using Cons.prems that by (auto simp: filter_empty_conv intro: order_trans)
  show ?case
  proof (cases "row_file current = row_file x \<and> row_line current = row_line x")
    case True
    have "line_in_force a (x # rest) = line_in_force a (x # current # rest)"
      using True Cons.prems none by (auto simp: line_in_force_def Let_def)
    moreover have "sorted (map row_address (x # rest))" using Cons.prems by simp
    ultimately show ?thesis using Cons.IH[of x] by (simp only: dedup_from.simps Let_def prod.case True simp_thms if_True)
  next
    case False
    let ?sb = "\<lambda>current previous. (row_file current = row_file previous \<and> row_line current = row_line previous, current, previous)"
    have ih: "line_in_force a (dedup_from ?sb current rest) = line_in_force a (current # rest)"
      using Cons.IH[of current] Cons.prems by simp
    have "line_in_force a (x # ys) = line_in_force a (x # zs)" if "line_in_force a ys = line_in_force a zs" for ys zs
      using that by (auto simp: line_in_force_def Let_def split: if_splits)
    from this[OF ih] show ?thesis by (simp only: dedup_from.simps Let_def prod.case False if_False)
  qed
qed simp

lemma compact_line_rows_in_force:
  "sorted (map row_address rows) \<Longrightarrow> line_in_force a (compact_line_rows rows) = line_in_force a rows"
proof (cases rows)
  case (Cons x rest)
  assume "sorted (map row_address rows)"
  then show ?thesis unfolding Cons compact_line_rows_def dedup_by_def list.case by (rule compact_from_in_force)
qed (simp add: compact_line_rows_def dedup_by_def)

section \<open>Properties\<close>

text \<open>C18: The in-place reordering of the functions always returns, although its inner loop follows the permutation it is
  given until it is back at its start. The result is the stable sort by range, richness, name and tiebreak, with
  the inline trees compared throughout: leaving them out where at most one alias of a range has one changes nothing.\<close>

theorem sort_by_ordering_key_returns: "sort_by_ordering_key_loop fns = Some (sort_key order_key fns)"
  by (rule sort_by_ordering_key_loop_eq)

text \<open>C19: Finalized functions are in range order, and unless the policy is to preserve them no range occurs twice.\<close>

theorem finalize_sorts:
  "sorted (map fn_range (finalize fns options policy))
   \<and> (policy \<noteq> Preserve \<longrightarrow> sorted_wrt (<) (map fn_range (finalize fns options policy)))"
  by (rule finalize_ordered)

theorem finalize_sorts_witness:
  "sorted_wrt (<) (map fn_range (finalize [function_new (mk_range 4 8) [1], function_new (mk_range 1 2) [2]] builder_options_default Deduplicate))"
  using finalize_sorts[of _ _ Deduplicate] by simp

text \<open>C20: Merging equal ranges loses no function: each is kept, with more merged functions, or is in the merged list of
  the function kept for its range.\<close>

theorem merge_equal_ranges_loses_nothing:
  "fn \<in> set fns \<Longrightarrow> \<exists>parent \<in> set (merge_equal_ranges fns). merged_into parent fn"
  by (rule merge_equal_ranges_keeps)

theorem merge_equal_ranges_loses_nothing_witness:
  "\<exists>parent \<in> set (merge_equal_ranges [function_new (mk_range 1 2) [1], function_new (mk_range 1 2) [2]]).
     merged_into parent (function_new (mk_range 1 2) [2])"
  by (rule merge_equal_ranges_loses_nothing) simp

text \<open>C21: Deduplication drops a function only where one with the same range is kept, or one whose range covers the
  start of a dropped empty range.\<close>

theorem deduplicate_covers:
  "fn \<in> set fns \<Longrightarrow> \<exists>kept \<in> set (deduplicate fns). covered_by kept fn"
  by (rule deduplicate_keeps)

theorem deduplicate_covers_witness:
  "\<exists>kept \<in> set (deduplicate [function_new (mk_range 1 1) [1], function_new (mk_range 1 2) [2]]).
     covered_by kept (function_new (mk_range 1 1) [1])"
  by (rule deduplicate_covers) simp

text \<open>C22: Compacting rows in address order does not change the file and line in force at any address.\<close>

theorem compact_line_rows_keeps_lines:
  "sorted (map row_address rows) \<Longrightarrow> line_in_force a (compact_line_rows rows) = line_in_force a rows"
  by (rule compact_line_rows_in_force)

theorem compact_line_rows_keeps_lines_witness:
  "line_in_force 3 (compact_line_rows [\<lparr>row_address = 1, row_file = 1, row_line = 7\<rparr>, \<lparr>row_address = 3, row_file = 1, row_line = 7\<rparr>])
   = Some (1, 7)"
  by (subst compact_line_rows_keeps_lines) (simp_all add: line_in_force_def)

end
