(* ===== verification/EndToEnd.thy ===== *)
theory EndToEnd
  imports Readback ImageV2 FinalizeSpec
begin

text \<open>
  The builder, the writer and the reader together: whatever \<open>encode_builder\<close> writes, the reader parses, and it
  finds in it the header, the functions, their records and the files of the builder.
\<close>

section \<open>From the builder to the reader\<close>

lemma encode_functions_grows:
  "string_set.grows env (encode_functions env fns)
     (\<lambda>strings outs. list_all2 (function_known (string_known env strings)) fns outs)"
proof -
  have eq: "encode_functions env fns = map_state_ok (semantic_function env) fns"
    by (rule ext) (simp add: encode_functions_def)
  have one: "semantic_function env fn = semantic_function_at env 0 fn" for fn
    by (rule ext) (simp add: semantic_function_def)
  show ?thesis unfolding eq by (rule string_set.grows_map) (unfold one, rule semantic_function_at_grows)
qed

lemma intern_files_grows:
  "string_set.grows env (\<lambda>strings. Inr (intern_files env fs strings))
     (\<lambda>strings outs. list_all2 (\<lambda>f out. string_known env strings (fst out) (file_directory f)
        \<and> string_known env strings (snd out) (file_basename f)) fs outs)"
proof -
  let ?one = "\<lambda>f strings. let_ok (Inr (intern env (file_directory f) strings)) (\<lambda>(directory, strings).
      let_ok (Inr (intern env (file_basename f) strings)) (\<lambda>(basename, strings). Inr ((directory, basename), strings)))"
  let ?pair = "\<lambda>f strings. let (directory, strings) = intern env (file_directory f) strings;
           (basename, strings) = intern env (file_basename f) strings in ((directory, basename), strings)"
  have a: "?one = (\<lambda>f strings. Inr (?pair f strings))" by (auto simp: fun_eq_iff Let_def case_prod_unfold)
  have b: "(\<lambda>strings. Inr (intern_files env fs strings)) = map_state_ok (\<lambda>f strings. Inr (?pair f strings)) fs"
    by (rule ext) (simp only: intern_files_def map_state_ok_total)
  have eq: "(\<lambda>strings. Inr (intern_files env fs strings)) = map_state_ok ?one fs"
    by (rule trans[OF b arg_cong[OF a[symmetric], where f = "\<lambda>h. map_state_ok h fs"]])
  have one: "string_set.grows env (?one f) (\<lambda>strings out. string_known env strings (fst out) (file_directory f)
        \<and> string_known env strings (snd out) (file_basename f))" for f
    by (rule string_set.grows_bind[OF intern_grows], rule string_set.grows_bind[OF intern_grows], rule string_set.grows_return) simp
  show ?thesis unfolding eq by (rule string_set.grows_map) (rule one)
qed

lemma string_table_first:
  assumes "string_invar env strings"
  shows "st_bytes strings \<noteq> [] \<and> hd (st_bytes strings) = 0"
proof -
  have "string_known env strings 0 []" using assms by (simp add: string_invar_def)
  then obtain x where x: "x \<in> snd ` ht_contents (string_entries env) (st_entries strings)" "0 = (word_of_nat (se_offset x) :: u64)"
      "string_text (st_bytes strings) x = []"
    by (rule string_knownE)
  obtain h where m: "(h, x) \<in> ht_contents (string_entries env) (st_entries strings)" using x(1) by force
  have o: "se_offset x = 0" using string_offset_unat[OF assms x(1)] unfolding x(2)[symmetric] by simp
  have "se_len x = 0" using x(3) string_invar_entry(1)[OF assms m] by (auto simp: string_text_def o)
  then show ?thesis using string_invar_entry(1,2)[OF assms m] o by (auto simp: hd_conv_nth)
qed

text \<open>What \<open>encode_builder\<close> hands to the version-specific encoder.\<close>

definition finalized :: "'t gsym_builder \<Rightarrow> gfunction list" where
  "finalized b = finalize (b_functions b) (b_options b) (b_function_set b)"

definition chosen_base :: "'t gsym_builder \<Rightarrow> u64" where
  "chosen_base b = (case wo_base_address (bo_writer (b_options b)) of None \<Rightarrow> r_start (fn_range (hd (finalized b))) | Some a \<Rightarrow> a)"

lemma encode_builder_eq:
  assumes "encode_builder env b = Inr img"
  obtains width files strings0 strings encoded where
    "finalized b \<noteq> []" "intern_files env (b_files b) (string_table_new env) = (files, strings0)"
    "encode_functions env (finalized b) strings0 = Inr (encoded, strings)"
    "wo_version (bo_writer (b_options b)) = V1 \<longrightarrow>
       encode_v1 (bo_writer (b_options b)) (chosen_base b) width files (st_bytes strings) encoded = Inr img"
    "wo_version (bo_writer (b_options b)) = V2 \<longrightarrow>
       encode_v2 (bo_writer (b_options b)) (chosen_base b) width files (st_bytes strings) encoded = Inr img"
    "validate_file_table (b_files b) = Inr ()" "validate_file_references b = Inr ()"
proof -
  obtain files strings0 where f: "intern_files env (b_files b) (string_table_new env) = (files, strings0)" by fastforce
  let ?o = "bo_writer (b_options b)"
  note e = assms[unfolded encode_builder_def Let_def finalized_def[symmetric] f prod.case]
  from e obtain u v first where v: "validate_file_table (b_files b) = Inr u" "validate_file_references b = Inr v"
    and first: "nth_get (finalized b) 0 = Some first"
    by (auto simp: ok_simps)
  have ne: "finalized b \<noteq> []" "hd (finalized b) = first" using first by (auto simp: nth_get_def hd_conv_nth split: if_splits)
  have base: "chosen_base b = (case wo_base_address ?o of None \<Rightarrow> r_start (fn_range first) | Some a \<Rightarrow> a)"
    unfolding chosen_base_def ne(2) ..
  note e' = e[unfolded v first let_ok_Inr ok_or_Some base[symmetric]]
  define width where "width = address_offset_width (saturating_sub_u64 (r_start (fn_range (last (finalized b)))) (chosen_base b))"
  from e' obtain encoded strings where enc: "encode_functions env (finalized b) strings0 = Inr (encoded, strings)"
    and w: "(case wo_version ?o of V1 \<Rightarrow> encode_v1 ?o (chosen_base b) width files (st_bytes strings) encoded
       | V2 \<Rightarrow> encode_v2 ?o (chosen_base b) width files (st_bytes strings) encoded) = Inr img"
    unfolding width_def[symmetric] by (auto split: if_splits)
  show thesis
    by (rule that[OF ne(1) f enc, of width]) (use w v in auto)
qed

lemma gsym_string_known:
  assumes "string_invar env strings" "slice_get (g_data g) (fst (pl_string_table (g_layout g))) (snd (pl_string_table (g_layout g))) = Some (st_bytes strings)"
    "length (g_data g) < 2 ^ 64" "string_known env strings off s"
  shows "gsym_string g off = Inr (until_nul s)"
proof -
  have "snd (pl_string_table (g_layout g)) < 2 ^ 64" using assms(2,3) by (auto simp: ok_simps)
  then show ?thesis
    using string_at_known[OF assms(1,4), of "g_data g" "fst (pl_string_table (g_layout g))" "snd (pl_string_table (g_layout g))"] assms(2)
    by (simp add: gsym_string_def)
qed

lemma encode_v1_strings: "encode_v1 options base width files strings fns = Inr img \<Longrightarrow> length strings \<le> length (image_into_bytes img)"
  by (rule encode_v1_bytes) (assumption, simp)

lemma encode_v2_strings: "encode_v2 options base width files strings fns = Inr img \<Longrightarrow> length strings \<le> length (image_into_bytes img)"
  by (rule encode_v2_bytes) (assumption, simp)

text \<open>\<open>holds_builder b g strings\<close>: the parsed file \<open>g\<close> holds the functions and files of \<open>b\<close>, with the strings of
  \<open>strings\<close> as its string section.\<close>

definition holds_builder :: "'u string_env \<Rightarrow> 't gsym_builder \<Rightarrow> gsym \<Rightarrow> 'u string_table \<Rightarrow> encoded_function list
    \<Rightarrow> (u64 \<times> u64) list \<Rightarrow> nat list \<Rightarrow> bool" where
  "holds_builder env b g strings encoded files offs \<longleftrightarrow>
     image_tables (g_data g) (g_layout g) encoded files (st_bytes strings) offs
     \<and> layout_sound (g_data g) (g_layout g) \<and> length (g_data g) < 2 ^ 64 \<and> string_invar env strings
     \<and> slice_get (g_data g) (fst (pl_string_table (g_layout g))) (snd (pl_string_table (g_layout g))) = Some (st_bytes strings)
     \<and> list_all2 (function_known (string_known env strings)) (finalized b) encoded
     \<and> list_all2 (\<lambda>f out. string_known env strings (fst out) (file_directory f)
        \<and> string_known env strings (snd out) (file_basename f)) (b_files b) files"

lemma encode_builder_holds:
  assumes env: "lawful_table (string_entries env)"
    and enc: "encode_builder env b = Inr img" and len: "length (image_into_bytes img) < 2 ^ 64"
  obtains g strings encoded files offs where "gsym_parse native (image_into_bytes img) = Inr g"
    "holds_builder env b g strings encoded files offs"
    "pl_version (g_layout g) = wo_version (bo_writer (b_options b))" "pl_endian (g_layout g) = wo_endian (bo_writer (b_options b))"
    "pl_base_address (g_layout g) = chosen_base b" "gsym_build_id g = wo_build_id (bo_writer (b_options b))"
proof -
  let ?o = "bo_writer (b_options b)"
  obtain width files strings0 strings encoded where
    w: "finalized b \<noteq> []" "intern_files env (b_files b) (string_table_new env) = (files, strings0)"
    "encode_functions env (finalized b) strings0 = Inr (encoded, strings)"
    "wo_version ?o = V1 \<longrightarrow> encode_v1 ?o (chosen_base b) width files (st_bytes strings) encoded = Inr img"
    "wo_version ?o = V2 \<longrightarrow> encode_v2 ?o (chosen_base b) width files (st_bytes strings) encoded = Inr img"
    by (rule encode_builder_eq[OF enc]) (rule that)
  note inv0 = string_invar_new[OF env]
  have image: "\<exists>l offs. layout_parse native (image_into_bytes img) = Inr l
      \<and> image_tables (image_into_bytes img) l encoded files (st_bytes strings) offs
      \<and> pl_version l = wo_version ?o \<and> pl_endian l = wo_endian ?o \<and> pl_base_address l = chosen_base b
      \<and> slice_get (image_into_bytes img) (fst (pl_build_id l)) (snd (pl_build_id l)) = Some (wo_build_id ?o)"
    if "encoded \<noteq> []" "st_bytes strings \<noteq> []" "hd (st_bytes strings) = 0"
  proof (cases "wo_version ?o")
    case V1
    show ?thesis by (rule v1_image_tables[OF w(4)[rule_format, OF V1] len, of native]) (use V1 in auto)
  next
    case V2
    show ?thesis by (rule v2_image_tables[OF w(5)[rule_format, OF V2] len that, of native]) (use V2 in auto)
  qed
  have fits: "string_fits strings"
  proof -
    have "length (st_bytes strings) \<le> length (image_into_bytes img)"
      using w(4,5) encode_v1_strings encode_v2_strings by (cases "wo_version ?o") blast+
    then show ?thesis using len by (simp add: string_fits_def)
  qed
  have f0: "string_fits strings0" by (rule string_set.growsD(1)[OF encode_functions_grows w(3) fits])
  have "string_set.extends env (string_table_new env) strings0"
    by (rule string_set.growsD(2)[OF intern_files_grows[of env "b_files b"] _ f0 inv0, of files]) (simp add: w(2))
  then have inv1: "string_invar env strings0" using string_set.extends_ok by blast
  have ext: "string_set.extends env strings0 strings" by (rule string_set.growsD(2)[OF encode_functions_grows w(3) fits inv1])
  then have inv: "string_invar env strings" using string_set.extends_ok by blast
  have fns: "list_all2 (function_known (string_known env strings)) (finalized b) encoded"
    by (rule string_set.growsD(3)[OF encode_functions_grows w(3) fits inv1 string_set.extends_refl[OF inv fits]])
  have fls: "list_all2 (\<lambda>f out. string_known env strings (fst out) (file_directory f)
        \<and> string_known env strings (snd out) (file_basename f)) (b_files b) files"
    by (rule string_set.growsD(3)[OF intern_files_grows _ f0 inv0 ext, of _ files]) (simp add: w(2))
  have "encoded \<noteq> []" using list_all2_lengthD[OF fns] w(1) by auto
  then obtain l offs where l: "layout_parse native (image_into_bytes img) = Inr l"
      "image_tables (image_into_bytes img) l encoded files (st_bytes strings) offs"
      "pl_version l = wo_version ?o" "pl_endian l = wo_endian ?o" "pl_base_address l = chosen_base b"
      "slice_get (image_into_bytes img) (fst (pl_build_id l)) (snd (pl_build_id l)) = Some (wo_build_id ?o)"
    using image string_table_first[OF inv] by blast
  define g where "g = \<lparr>g_data = image_into_bytes img, g_layout = l\<rparr>"
  have str: "slice_get (image_into_bytes img) (fst (pl_string_table l)) (snd (pl_string_table l)) = Some (st_bytes strings)"
    using l(2) unfolding image_tables_def by blast
  have sound: "layout_sound (image_into_bytes img) l" by (rule parsed_layout_sound[OF l(1) len])
  show thesis
  proof (rule that[of g strings encoded files offs])
    show "gsym_parse native (image_into_bytes img) = Inr g" by (simp add: gsym_parse_def l(1) g_def)
    show "holds_builder env b g strings encoded files offs"
      unfolding holds_builder_def using l(2) sound len inv str fns fls by (simp add: g_def)
    show "gsym_build_id g = wo_build_id ?o" using l(6) by (simp add: gsym_build_id_def Let_def g_def)
  qed (simp_all add: g_def l)
qed

text \<open>What the reader finds in such a file.\<close>

lemma holds_builder_string:
  assumes "holds_builder env b g strings encoded files offs" "string_known env strings off s"
  shows "gsym_string g off = Inr (until_nul s)"
  using assms gsym_string_known unfolding holds_builder_def by blast

lemma holds_builder_file:
  assumes h: "holds_builder env b g strings encoded files offs" and env: "lawful_env renv" and i: "unat index < length (b_files b)"
  shows "gsym_file renv g index = Inr (until_nul (file_directory (b_files b ! unat index)), until_nul (file_basename (b_files b ! unat index)))"
proof (rule image_file[OF _ env])
  have fls: "list_all2 (\<lambda>f out. string_known env strings (fst out) (file_directory f)
        \<and> string_known env strings (snd out) (file_basename f)) (b_files b) files" using h unfolding holds_builder_def by blast
  show "image_tables (g_data g) (g_layout g) encoded files (st_bytes strings) offs" using h unfolding holds_builder_def by blast
  show "unat index < length files" using i list_all2_lengthD[OF fls] by simp
  note k = list_all2_nthD[OF fls i]
  show "gsym_string g (fst (files ! unat index)) = Inr (until_nul (file_directory (b_files b ! unat index)))"
    by (rule holds_builder_string[OF h]) (use k in blast)
  show "gsym_string g (snd (files ! unat index)) = Inr (until_nul (file_basename (b_files b ! unat index)))"
    by (rule holds_builder_string[OF h]) (use k in blast)
qed

lemma holds_builder_function:
  assumes h: "holds_builder env b g strings encoded files offs" and i: "i < length (finalized b)"
  shows "gsym_address g i = Inr (r_start (fn_range (finalized b ! i)))
    \<and> (\<exists>r. gsym_function g i = Inr r \<and> raw_range (fr_raw r) = fn_range (finalized b ! i)
          \<and> fr_name r = until_nul (fn_name (finalized b ! i))
          \<and> let_ok (ref_decode_encoded r) (owned_decode_validated renv r) = Inr (cut_function (finalized b ! i)))"
proof -
  have t: "image_tables (g_data g) (g_layout g) encoded files (st_bytes strings) offs" and lg: "length (g_data g) < 2 ^ 64"
    and inv: "string_invar env strings" and str: "slice_get (g_data g) (fst (pl_string_table (g_layout g))) (snd (pl_string_table (g_layout g))) = Some (st_bytes strings)"
    and fns: "list_all2 (function_known (string_known env strings)) (finalized b) encoded"
    using h unfolding holds_builder_def by blast+
  have ie: "i < length encoded" using i list_all2_lengthD[OF fns] by simp
  have k: "function_known (string_known env strings) (finalized b ! i) (encoded ! i)" by (rule list_all2_nthD[OF fns i])
  note rng = function_known_fields(1)[OF k]
  obtain r where r: "gsym_function g i = Inr r" "fr_name r = until_nul (fn_name (finalized b ! i))" "fr_all_data r = g_data g"
    "fr_layout r = g_layout g" "raw_range (fr_raw r) = ef_range (encoded ! i)" "ref_decode_encoded r = Inr (encoded ! i)"
    using image_function[OF t ie holds_builder_string[OF h function_known_fields(2)[OF k]]] by blast
  have tin: "table_in env r strings" using r(3,4) inv str lg by (auto simp: table_in_def ok_simps)
  show ?thesis
    using r image_address[OF t ie] rng function_known_decode[OF tin k, of renv None 0] by (simp add: owned_decode_validated_def)
qed

lemma holds_builder_counts:
  assumes h: "holds_builder env b g strings encoded files offs"
  shows "unat (pl_address_count (g_layout g)) = length (finalized b)" "unat (pl_file_count (g_layout g)) = length (b_files b)"
proof -
  have t: "image_tables (g_data g) (g_layout g) encoded files (st_bytes strings) offs"
    and fns: "list_all2 (function_known (string_known env strings)) (finalized b) encoded"
    and fls: "list_all2 (\<lambda>f out. string_known env strings (fst out) (file_directory f)
        \<and> string_known env strings (snd out) (file_basename f)) (b_files b) files"
    using h unfolding holds_builder_def by blast+
  have "unat (pl_address_count (g_layout g)) = length encoded" "unat (pl_file_count (g_layout g)) = length files"
    using t unfolding image_tables_def by blast+
  then show "unat (pl_address_count (g_layout g)) = length (finalized b)" "unat (pl_file_count (g_layout g)) = length (b_files b)"
    using list_all2_lengthD[OF fns] list_all2_lengthD[OF fls] by simp_all
qed

lemma encode_builder_reads_back:
  assumes env: "lawful_table (string_entries env)" "lawful_env renv"
    and enc: "encode_builder env b = Inr img" and len: "length (image_into_bytes img) < 2 ^ 64"
  shows "\<exists>g. gsym_parse native (image_into_bytes img) = Inr g
    \<and> gh_version (gsym_header_of g) = wo_version (bo_writer (b_options b)) \<and> gh_endian (gsym_header_of g) = wo_endian (bo_writer (b_options b))
    \<and> gh_base_address (gsym_header_of g) = chosen_base b \<and> gsym_build_id g = wo_build_id (bo_writer (b_options b))
    \<and> unat (gh_address_count (gsym_header_of g)) = length (finalized b) \<and> unat (pl_file_count (g_layout g)) = length (b_files b)
    \<and> (\<forall>i < length (finalized b). gsym_address g i = Inr (r_start (fn_range (finalized b ! i)))
        \<and> (\<exists>r. gsym_function g i = Inr r \<and> raw_range (fr_raw r) = fn_range (finalized b ! i)
              \<and> fr_name r = until_nul (fn_name (finalized b ! i))
              \<and> let_ok (ref_decode_encoded r) (owned_decode_validated renv r) = Inr (cut_function (finalized b ! i))))
    \<and> (\<forall>index. unat index < length (b_files b) \<longrightarrow>
        gsym_file renv g index = Inr (until_nul (file_directory (b_files b ! unat index)), until_nul (file_basename (b_files b ! unat index))))"
proof -
  obtain g strings encoded files offs where g: "gsym_parse native (image_into_bytes img) = Inr g"
    "holds_builder env b g strings encoded files offs"
    "pl_version (g_layout g) = wo_version (bo_writer (b_options b))" "pl_endian (g_layout g) = wo_endian (bo_writer (b_options b))"
    "pl_base_address (g_layout g) = chosen_base b" "gsym_build_id g = wo_build_id (bo_writer (b_options b))"
    by (rule encode_builder_holds[OF env(1) enc len]) (rule that)
  show ?thesis
    using g holds_builder_function[OF g(2)] holds_builder_file[OF g(2) env(2)] holds_builder_counts[OF g(2)]
    by (intro exI[of _ g]) (simp add: gsym_header_of_def Let_def)
qed

end
