(* ===== verification/Symbolize.thy ===== *)
theory Symbolize
  imports EndToEnd LookupSpec
begin

text \<open>
  The correctness of the whole program: what a lookup in a written file answers, in terms of the functions and files
  that a caller added to the builder (\<open>symbolize\<close>), and the file references that make the lookup free of errors.
\<close>

section \<open>File references\<close>

text \<open>The file indices a function mentions, in rows, inline call sites and merged functions.\<close>

fun inline_file_refs :: "inline_node \<Rightarrow> file_index list" where
  "inline_file_refs (InlineNode ranges name cfile cline children) = cfile # concat (map inline_file_refs children)"

fun function_file_refs :: "gfunction \<Rightarrow> file_index list" where
  "function_file_refs (Function rng name lns inline merged sites) =
     map row_file lns @ (case inline of None \<Rightarrow> [] | Some node \<Rightarrow> inline_file_refs node) @ concat (map function_file_refs merged)"

definition files_exist :: "nat \<Rightarrow> gfunction \<Rightarrow> bool" where
  "files_exist file_count fn \<longleftrightarrow> (\<forall>index \<in> set (function_file_refs fn). unat index < file_count)"

lemma fold_ok_unit: "fold_ok (\<lambda>x _. f x) xs () = Inr () \<longleftrightarrow> (\<forall>x \<in> set xs. f x = Inr ())"
  by (induction xs) (auto simp: ok_simps)

lemma fold_ok_max:
  "fold_ok (\<lambda>x m. let_ok (f x) (\<lambda>k. Inr (max m k))) xs m0 = Inr m \<Longrightarrow>
    m0 \<le> m \<and> (\<forall>x \<in> set xs. \<exists>k. f x = Inr k \<and> k \<le> (m :: 'm :: linorder))"
proof (induction xs arbitrary: m0)
  case (Cons x xs)
  then obtain k where k: "f x = Inr k" "fold_ok (\<lambda>x m. let_ok (f x) (\<lambda>k. Inr (max m k))) xs (max m0 k) = Inr m"
    by (auto simp: ok_simps)
  show ?case using Cons.IH[OF k(2)] k(1) by auto
qed simp

lemma validate_file_index_iff: "validate_file_index index file_count kind = Inr () \<longleftrightarrow> unat index < file_count"
  by (auto simp: validate_file_index_def)

lemma validate_inline_files_iff:
  "validate_inline_files file_count node = Inr () \<longleftrightarrow> (\<forall>index \<in> set (inline_file_refs node). unat index < file_count)"
proof (induction node)
  case (InlineNode ranges name cfile cline children)
  then show ?case by (auto simp: ok_simps fold_ok_unit validate_file_index_iff)
qed

lemma validate_function_files_iff: "validate_function_files file_count fn = Inr () \<longleftrightarrow> files_exist file_count fn"
proof (induction fn)
  case (Function rng name lns inline merged sites)
  then show ?case
    by (cases inline) (auto simp: ok_simps fold_ok_unit validate_file_index_iff validate_inline_files_iff files_exist_def)
qed

text \<open>The validators return a bound of the file indices.\<close>

lemma validate_inline_refs:
  "validate_inline parents depth node = Inr m \<Longrightarrow> \<forall>index \<in> set (inline_file_refs node). index \<le> m"
proof (induction node arbitrary: parents depth m)
  case (InlineNode ranges name cfile cline children)
  have f: "fold_ok (\<lambda>child maximum. let_ok (validate_inline ranges (depth + 1) child) (\<lambda>m. Inr (max maximum m))) children cfile = Inr m"
    using InlineNode.prems by (auto simp: ok_simps split: if_splits)
  have m: "cfile \<le> m" "\<forall>child \<in> set children. \<exists>k. validate_inline ranges (depth + 1) child = Inr k \<and> k \<le> m"
    using fold_ok_max[OF f] by blast+
  have "index \<le> m" if child: "child \<in> set children" and index: "index \<in> set (inline_file_refs child)" for child index
  proof -
    obtain k where k: "validate_inline ranges (depth + 1) child = Inr k" "k \<le> m" using m(2) child by blast
    show ?thesis using InlineNode.IH[OF child k(1)] index k(2) by (auto intro: order_trans)
  qed
  then show ?case using m(1) by auto
qed

lemma validate_line_max: "validate_line r = (\<lambda>ln m. let_ok
    (if row_address ln < r_start r \<or> \<not> range_is_empty r \<and> row_address ln \<ge> r_end r
     then Inl (InvalidModel ''line address is outside its function'') else Inr (row_file ln)) (\<lambda>k. Inr (max m k)))"
  by (rule ext)+ (simp add: validate_line_def)

lemma validate_function_tree_refs:
  "validate_function_tree parent depth fn = Inr m \<Longrightarrow> \<forall>index \<in> set (function_file_refs fn). index \<le> m"
proof (induction fn arbitrary: parent depth m)
  case (Function rng name lns inline merged sites)
  obtain m1 m2 where m1: "fold_ok (validate_line rng) lns 0 = Inr m1"
    and m2: "(case inline of None \<Rightarrow> Inr m1 | Some node \<Rightarrow> let_ok (validate_inline [rng] 0 node) (\<lambda>m. Inr (max m1 m))) = Inr m2"
    and f: "fold_ok (\<lambda>m maximum. let_ok (validate_function_tree (Some rng) (depth + 1) m) (\<lambda>found. Inr (max maximum found))) merged m2 = Inr m"
    using Function.prems by (auto simp: ok_simps Let_def split: if_splits)
  have l: "\<forall>ln \<in> set lns. row_file ln \<le> m1"
  proof
    fix ln assume "ln \<in> set lns"
    then obtain k where "(if row_address ln < r_start rng \<or> \<not> range_is_empty rng \<and> row_address ln \<ge> r_end rng
       then Inl (InvalidModel ''line address is outside its function'') else Inr (row_file ln)) = Inr k" "k \<le> m1"
      using fold_ok_max[OF m1[unfolded validate_line_max]] by blast
    then show "row_file ln \<le> m1" by (auto split: if_splits)
  qed
  have i: "m1 \<le> m2 \<and> (\<forall>node. inline = Some node \<longrightarrow> (\<forall>index \<in> set (inline_file_refs node). index \<le> m2))"
  proof (cases inline)
    case (Some node)
    then obtain k where k: "validate_inline [rng] 0 node = Inr k" "m2 = max m1 k" using m2 by auto
    show ?thesis using validate_inline_refs[OF k(1)] k(2) Some by (auto intro: order_trans)
  qed (use m2 in simp)
  have m: "m2 \<le> m" "\<forall>fn \<in> set merged. \<exists>k. validate_function_tree (Some rng) (depth + 1) fn = Inr k \<and> k \<le> m"
    using fold_ok_max[OF f] by blast+
  have g: "index \<le> m" if fn: "fn \<in> set merged" and index: "index \<in> set (function_file_refs fn)" for fn index
  proof -
    obtain k where k: "validate_function_tree (Some rng) (depth + 1) fn = Inr k" "k \<le> m" using m(2) fn by blast
    show ?thesis using Function.IH[OF fn k(1)] index k(2) by (auto intro: order_trans)
  qed
  have "index \<le> m" if "index \<in> set (map row_file lns)" for index
    using l i m(1) that by (auto intro: order_trans)
  moreover have "index \<le> m" if "inline = Some node" "index \<in> set (inline_file_refs node)" for index node
    using i m(1) that by (auto intro: order_trans)
  ultimately show ?case using g by (cases inline) auto
qed

text \<open>The invariant of a builder: every index is at most the recorded maximum.\<close>

definition refs_tracked :: "'t gsym_builder \<Rightarrow> bool" where
  "refs_tracked b \<longleftrightarrow> (\<forall>fn \<in> set (b_functions b). \<forall>index \<in> set (function_file_refs fn). index \<le> b_maximum_file_index b)"

lemma refs_tracked_add:
  assumes "refs_tracked b" "add_function fn b = Inr b'"
  shows "refs_tracked b'"
proof -
  obtain m where m: "validate_function_tree None 0 fn = Inr m"
    "b' = b\<lparr>b_maximum_file_index := max (b_maximum_file_index b) m, b_functions := b_functions b @ [fn]\<rparr>"
    using assms(2) by (auto simp: add_function_def validate_for_builder_def ok_simps)
  show ?thesis using assms(1) validate_function_tree_refs[OF m(1)] by (auto simp: refs_tracked_def m(2) intro: max.coboundedI1 max.coboundedI2)
qed

lemma validated_files_exist:
  assumes "refs_tracked b" "validate_file_references b = Inr ()" "fn \<in> set (b_functions b)"
  shows "files_exist (length (b_files b)) fn"
proof (cases "unat (b_maximum_file_index b) \<ge> length (b_files b)")
  case True
  then show ?thesis using assms(2,3) by (simp add: validate_file_references_def fold_ok_unit validate_function_files_iff)
next
  case False
  have "unat index \<le> unat (b_maximum_file_index b)" if "index \<in> set (function_file_refs fn)" for index
    using assms(1,3) that by (auto simp: refs_tracked_def simp flip: word_le_nat_alt)
  then show ?thesis using False by (fastforce simp: files_exist_def)
qed

section \<open>Finalization keeps the references\<close>

lemma dedup_from_all:
  assumes "\<And>current previous. P current \<Longrightarrow> P previous \<Longrightarrow> case same_bucket current previous of (same, current', previous') \<Rightarrow>
        (\<not> same \<longrightarrow> P current') \<and> P previous'"
  shows "P x \<Longrightarrow> \<forall>y \<in> set xs. P y \<Longrightarrow> \<forall>y \<in> set (dedup_from same_bucket x xs). P y"
proof (induction xs arbitrary: x)
  case (Cons current rest)
  obtain same current' previous' where s: "same_bucket current x = (same, current', previous')" by (metis prod_cases3)
  then have p: "\<not> same \<longrightarrow> P current'" "P previous'"
    using assms[where current = current and previous = x] Cons.prems by simp_all
  have rest: "\<forall>y \<in> set rest. P y" using Cons.prems by simp
  have step: "dedup_from same_bucket x (current # rest) =
      (if same then dedup_from same_bucket previous' rest else previous' # dedup_from same_bucket current' rest)"
    by (simp only: dedup_from.simps s Let_def prod.case)
  show ?case
  proof (cases same)
    case True
    then show ?thesis using Cons.IH[OF p(2) rest] unfolding step by simp
  next
    case False
    then show ?thesis using Cons.IH[OF _ rest, of current'] p unfolding step by simp
  qed
qed simp

lemma dedup_by_all:
  assumes "\<And>current previous. P current \<Longrightarrow> P previous \<Longrightarrow> case same_bucket current previous of (same, current', previous') \<Rightarrow>
        (\<not> same \<longrightarrow> P current') \<and> P previous'" and "\<forall>y \<in> set xs. P y"
  shows "\<forall>y \<in> set (dedup_by same_bucket xs). P y"
proof (cases xs)
  case (Cons x rest)
  have "\<forall>y \<in> set (dedup_from same_bucket x rest). P y"
    by (rule dedup_from_all[where P = P and same_bucket = same_bucket, OF assms(1)]) (use assms(2) Cons in simp_all)
  then show ?thesis unfolding dedup_by_def Cons list.case .
qed (simp add: dedup_by_def)

lemma compact_line_rows_subset: "set (compact_line_rows rows) \<subseteq> set rows"
proof -
  have "\<forall>row \<in> set (compact_line_rows rows). row \<in> set rows"
    unfolding compact_line_rows_def 
    by (rule dedup_by_all[where P = "\<lambda>row. row \<in> set rows"]) (unfold prod.case, blast+)
  then show ?thesis by blast
qed

lemma compact_function_line_files: "files_exist n fn \<Longrightarrow> files_exist n (compact_function_line fn)"
proof (induction fn)
  case (Function rng name lns inline merged sites)
  then show ?case using compact_line_rows_subset[of lns] by (auto simp: files_exist_def)
qed

lemma set_fn_merged_files:
  "files_exist n (set_fn_merged v fn) \<longleftrightarrow> files_exist n (set_fn_merged [] fn) \<and> (\<forall>m \<in> set v. files_exist n m)"
  by (cases fn) (auto simp: files_exist_def)

lemma merged_files: "files_exist n fn \<Longrightarrow> m \<in> set (fn_merged fn) \<Longrightarrow> files_exist n m"
  by (cases fn) (auto simp: files_exist_def)

lemma set_fn_name_files [simp]: "files_exist n (set_fn_name v fn) = files_exist n fn"
  by (cases fn) (simp add: files_exist_def)

lemma set_fn_merged_push_files: "files_exist n parent \<Longrightarrow> files_exist n fn \<Longrightarrow> files_exist n (set_fn_merged (fn_merged parent @ [fn]) parent)"
  using set_fn_merged_files[of n "fn_merged parent" parent] set_fn_merged_files[of n "fn_merged parent @ [fn]" parent] by simp

lemma repair_merged_ranges_files: "files_exist n fn \<Longrightarrow> files_exist n (repair_merged_ranges repaired fn)"
proof (induction fn)
  case (Function rng name lns inline merged sites)
  then show ?case by (auto simp: files_exist_def)
qed

lemma finalize_files_exist:
  assumes "\<forall>fn \<in> set fns. files_exist n fn"
  shows "\<forall>fn \<in> set (finalize fns options policy). files_exist n fn"
proof -
  let ?P = "files_exist n"
  have s: "\<forall>fn \<in> set (sort_by_ordering_key (compact_function_lines fns)). ?P fn"
    using assms compact_function_line_files by (auto simp: sort_by_ordering_key_eq compact_function_lines_def)
  have m: "\<forall>fn \<in> set (merge_equal_ranges gs). ?P fn" if "\<forall>fn \<in> set gs. ?P fn" for gs
    unfolding merge_equal_ranges_def
    by (rule dedup_by_all[OF _ that]) (simp add: Let_def set_fn_merged_push_files del: set_append)
  have d: "\<forall>fn \<in> set (deduplicate gs). ?P fn" if "\<forall>fn \<in> set gs. ?P fn" for gs
    unfolding deduplicate_def by (rule dedup_by_all[OF _ that]) (auto simp: Let_def)
  have r: "\<forall>fn \<in> set (repair_final_range gs options). ?P fn" if "\<forall>fn \<in> set gs. ?P fn" for gs
  proof (cases "gs = []")
    case False
    then show ?thesis using that repair_merged_ranges_files[of n "last gs"] last_in_set[OF False] in_set_butlastD[of _ gs]
      by (auto simp: repair_final_range_def Let_def)
  qed (simp add: repair_final_range_def)
  show ?thesis using r m[OF s] d[OF s] s by (cases policy) (simp_all add: finalize_def Let_def)
qed

lemma encoded_files_exist:
  assumes "refs_tracked b" "encode_builder env b = Inr img"
  shows "\<forall>fn \<in> set (finalized b). files_exist (length (b_files b)) fn"
proof -
  have "validate_file_references b = Inr ()" by (rule encode_builder_eq[OF assms(2)]) simp
  then show ?thesis
    unfolding finalized_def using validated_files_exist[OF assms(1)] by (intro finalize_files_exist) blast
qed

section \<open>The symbols of an address\<close>

text \<open>What a lookup is to answer, in terms of the functions and files that were added. The function is the first one, of
  those with the greatest start at or before the address, that covers it or is empty.\<close>

definition covering_function :: "gfunction list \<Rightarrow> u64 \<Rightarrow> gfunction option" where
  "covering_function fns address =
     (case takeWhile (\<lambda>a. a \<le> address) (map (\<lambda>fn. r_start (fn_range fn)) fns) of
        [] \<Rightarrow> None
      | starts \<Rightarrow> find (\<lambda>fn. range_is_empty (fn_range fn) \<or> range_contains (fn_range fn) address)
          (filter (\<lambda>fn. r_start (fn_range fn) = last starts) fns))"

text \<open>The named nodes that cover the address, outermost first.\<close>

fun covering_nodes :: "u64 \<Rightarrow> inline_node \<Rightarrow> inline_node list"
  and covering_node_list :: "u64 \<Rightarrow> inline_node list \<Rightarrow> inline_node list" where
  "covering_nodes address (InlineNode ranges name cfile cline children) =
     (if covers address ranges then
        (if name \<noteq> [] then [InlineNode ranges name cfile cline children] else []) @ covering_node_list address children
      else [])"
| "covering_node_list address [] = []"
| "covering_node_list address (child # children) =
     (if covers address (node_ranges child) then covering_nodes address child else covering_node_list address children)"

definition file_name :: "file_entry list \<Rightarrow> file_index \<Rightarrow> bytes \<times> bytes" where
  "file_name files index =
     (until_nul (file_directory (files ! unat index)), until_nul (file_basename (files ! unat index)))"

definition node_frame :: "file_entry list \<Rightarrow> u64 \<Rightarrow> (bytes \<times> bytes) \<times> u32 \<Rightarrow> inline_node list \<Rightarrow> nat \<Rightarrow> lookup_frame" where
  "node_frame files address innermost nodes i =
     (let (source, ln) = (if Suc i < length nodes
            then (file_name files (node_call_file (nodes ! Suc i)), node_call_line (nodes ! Suc i)) else innermost) in
      \<lparr>frame_name = until_nul (node_name (nodes ! i)), frame_directory = fst source, frame_basename = snd source, frame_line = ln,
       frame_offset = saturating_sub_u64 address (r_start (hd (node_ranges (nodes ! i)))), frame_inlined = (i \<noteq> 0)\<rparr>)"

definition symbolize :: "file_entry list \<Rightarrow> u64 \<Rightarrow> lookup_options \<Rightarrow> gfunction \<Rightarrow> lookup_result" where
  "symbolize files address options fn =
     (let row = (if line_information options then last_row_le address (fn_lines fn) else None);
          nodes = (if inline_frames options then (case fn_inline fn of None \<Rightarrow> [] | Some node \<Rightarrow> covering_nodes address node) else []);
          delta = saturating_sub_u64 address (r_start (fn_range fn));
          sites = (if call_sites options then filter (\<lambda>site. return_offset site = delta) (fn_call_sites fn) else []);
          source = (case row of None \<Rightarrow> (([], []), 0) | Some row \<Rightarrow> (file_name files (row_file row), row_line row)) in
      \<lparr>lookup_address = address, lookup_function = fn_range fn,
       lookup_frames =
         (if nodes = [] then [\<lparr>frame_name = until_nul (fn_name fn), frame_directory = fst (fst source), frame_basename = snd (fst source),
            frame_line = snd source, frame_offset = delta, frame_inlined = False\<rparr>]
          else map (node_frame files address source nodes) (rev [0..<length nodes])),
       lookup_patterns = map until_nul (concat (map match_regex sites))\<rparr>)"

section \<open>A lookup in a written file\<close>

definition frame_known :: "(u64 \<Rightarrow> bytes \<Rightarrow> bool) \<Rightarrow> inline_node \<Rightarrow> raw_inline_frame \<Rightarrow> bool" where
  "frame_known known node fr \<longleftrightarrow> known (rif_name fr) (node_name node) \<and> rif_call_file fr = node_call_file node
     \<and> rif_call_line fr = node_call_line node \<and> rif_start fr = r_start (hd (node_ranges node))"

lemma inline_known_ranges: "inline_known known node out \<Longrightarrow> ein_ranges out = node_ranges node"
  by (cases node) simp

lemma covering_nodes_known:
  assumes "\<And>off s. known off s \<Longrightarrow> off = 0 \<longleftrightarrow> s = []"
  shows "inline_known known node out \<Longrightarrow> list_all2 (frame_known known) (covering_nodes address node) (covering_frames address out)"
proof (induction node arbitrary: out)
  case (InlineNode ranges name cfile cline children)
  obtain off outs where out: "out = EncodedInlineNode ranges off cfile cline outs" "known off name"
    "list_all2 (\<lambda>child. inline_known known child) children outs"
    using InlineNode.prems by (cases out) simp
  have "list_all2 (frame_known known) (covering_node_list address cs) (covering_children address os)"
    if "list_all2 (\<lambda>child. inline_known known child) cs os" "set cs \<subseteq> set children" for cs os
    using that by (induction rule: list_all2_induct) (auto simp: inline_known_ranges intro: InlineNode.IH)
  from this[OF out(3)] have rest: "list_all2 (frame_known known) (covering_node_list address children) (covering_children address outs)" by simp
  have "frame_known known (InlineNode ranges name cfile cline children)
      \<lparr>rif_name = off, rif_call_file = cfile, rif_call_line = cline, rif_start = r_start (hd ranges)\<rparr>"
    using out(2) by (simp add: frame_known_def)
  then show ?case using assms[OF out(2)] out(1) rest by simp
qed

lemma covering_nodes_refs:
  "node' \<in> set (covering_nodes address node) \<Longrightarrow> node_call_file node' \<in> set (inline_file_refs node)"
  "node' \<in> set (covering_node_list address nodes) \<Longrightarrow> \<exists>node \<in> set nodes. node_call_file node' \<in> set (inline_file_refs node)"
proof (induction address node and address nodes rule: covering_nodes_covering_node_list.induct)
  case (1 address ranges name cfile cline children)
  then show ?case by (auto split: if_splits)
qed (auto split: if_splits)

lemma file_name_read:
  assumes "holds_builder env b g strings encoded files offs" "lawful_env renv" "unat index < length (b_files b)"
  shows "gsym_file renv g index = Inr (file_name (b_files b) index)"
  using holds_builder_file[OF assms] by (simp add: file_name_def)

lemma holds_builder_zero:
  assumes "holds_builder env b g strings encoded files offs" "string_known env strings off s"
  shows "off = 0 \<longleftrightarrow> s = []"
proof -
  have i: "string_invar env strings" using assms(1) unfolding holds_builder_def by blast
  then have "string_known env strings 0 []" "string_fits strings" by (simp_all add: string_invar_def string_fits_def)
  then show ?thesis
    using string_set.known_unique[OF i _ assms(2)] string_set.known_index[OF i _ assms(2)] assms(2) by blast
qed

lemma node_frame_read:
  assumes h: "holds_builder env b g strings encoded files offs" and env: "lawful_env renv"
    and known: "list_all2 (frame_known (string_known env strings)) nodes frs" and i: "i < length nodes"
    and refs: "\<forall>node \<in> set nodes. unat (node_call_file node) < length (b_files b)"
  shows "inline_frame renv g address (fst (fst source), snd (fst source), snd source) frs i = Inr (node_frame (b_files b) address source nodes i)"
proof -
  have len: "length frs = length nodes" using list_all2_lengthD[OF known] by simp
  have k: "frame_known (string_known env strings) (nodes ! j) (frs ! j)" if "j < length nodes" for j
    by (rule list_all2_nthD[OF known that])
  have nm: "gsym_string g (rif_name (frs ! i)) = Inr (until_nul (node_name (nodes ! i)))"
    by (rule holds_builder_string[OF h]) (use k[OF i] in \<open>simp add: frame_known_def\<close>)
  show ?thesis
  proof (cases "Suc i < length nodes")
    case True
    have "gsym_file renv g (rif_call_file (frs ! Suc i)) = Inr (file_name (b_files b) (node_call_file (nodes ! Suc i)))"
      using file_name_read[OF h env, of "node_call_file (nodes ! Suc i)"] refs nth_mem[OF True] k[OF True] by (simp add: frame_known_def)
    then show ?thesis using True nm k[OF i] k[OF True] len
      by (simp add: inline_frame_def node_frame_def frame_known_def case_prod_unfold)
  next
    case False
    then show ?thesis using nm k[OF i] len by (simp add: inline_frame_def node_frame_def frame_known_def case_prod_unfold)
  qed
qed

lemma last_row_le_in: "last_row_le address rows = Some row \<Longrightarrow> row \<in> set rows"
  by (auto simp: last_row_le_def Let_def split: if_splits dest!: last_in_set set_takeWhileD)

lemma sites_known_patterns:
  assumes "list_all2 (site_known known) sites outs"
  shows "list_all2 (\<lambda>s off. known off s) (concat (map match_regex (filter (\<lambda>site. return_offset site = delta) sites)))
    (concat (map ecs_match_regex (filter (\<lambda>site. ecs_return_offset site = delta) outs)))"
  using assms by (induction rule: list_all2_induct) (auto simp: site_known_def intro: list_all2_appendI)

lemma lookup_spec_symbolize:
  assumes h: "holds_builder env b g strings encoded files offs" and env: "lawful_env renv"
    and known: "function_known (string_known env strings) fn out" and refs: "files_exist (length (b_files b)) fn"
  shows "lookup_spec renv g address options out = Inr (symbolize (b_files b) address options fn)"
proof -
  note k = function_known_fields[OF known]
  define row where "row = (if line_information options then last_row_le address (fn_lines fn) else None)"
  define nodes where "nodes = (if inline_frames options then (case fn_inline fn of None \<Rightarrow> [] | Some node \<Rightarrow> covering_nodes address node) else [])"
  define frs where "frs = (if inline_frames options then (case ef_inline out of None \<Rightarrow> [] | Some node \<Rightarrow> covering_frames address node) else [])"
  define delta where "delta = saturating_sub_u64 address (r_start (fn_range fn))"
  define sites where "sites = (if call_sites options then filter (\<lambda>site. return_offset site = delta) (fn_call_sites fn) else [])"
  define esites where "esites = (if call_sites options then filter (\<lambda>site. ecs_return_offset site = delta) (ef_call_sites out) else [])"
  define source where "source = (case row of None \<Rightarrow> (([], []), 0) | Some row \<Rightarrow> (file_name (b_files b) (row_file row), row_line row))"
  have row: "(if line_information options then Option.bind (ef_lines out) (last_row_le address) else None) = row"
    using k(3) by (cases "ef_lines out") (auto simp: row_def option_lines_def last_row_le_def)
  have frames: "list_all2 (frame_known (string_known env strings)) nodes frs"
    using k(4) covering_nodes_known[OF holds_builder_zero[OF h]] by (cases "fn_inline fn"; cases "ef_inline out") (auto simp: nodes_def frs_def)
  have row_refs: "unat (row_file r) < length (b_files b)" if "row = Some r" for r
  proof -
    have "r \<in> set (fn_lines fn)" using that last_row_le_in by (auto simp: row_def split: if_splits)
    then show ?thesis using refs by (cases fn) (auto simp: files_exist_def)
  qed
  have node_refs: "\<forall>node \<in> set nodes. unat (node_call_file node) < length (b_files b)"
  proof
    fix node assume "node \<in> set nodes"
    then obtain root where "fn_inline fn = Some root" "node \<in> set (covering_nodes address root)"
      unfolding nodes_def by (cases "inline_frames options"; cases "fn_inline fn") simp_all
    then show "unat (node_call_file node) < length (b_files b)"
      using covering_nodes_refs(1)[of node address root] refs by (cases fn) (auto simp: files_exist_def)
  qed
  have src: "(case row of None \<Rightarrow> Inr ([], [], 0)
      | Some row \<Rightarrow> let_ok (gsym_file renv g (row_file row)) (\<lambda>(directory, basename). Inr (directory, basename, row_line row)))
      = Inr (fst (fst source), snd (fst source), snd source)"
    using file_name_read[OF h env row_refs] by (cases row) (simp_all add: source_def case_prod_unfold)
  have nm: "gsym_string g (ef_name out) = Inr (until_nul (fn_name fn))" by (rule holds_builder_string[OF h k(2)])
  have fr: "map_ok (inline_frame renv g address (fst (fst source), snd (fst source), snd source) frs) (rev [0..<length frs])
      = Inr (map (node_frame (b_files b) address source nodes) (rev [0..<length nodes]))"
    unfolding list_all2_lengthD[OF frames, symmetric]
    unfolding map_ok_Inr_iff list_all2_map2 list_all2_same
    by (use node_frame_read[OF h env frames _ node_refs] in auto)
  have pat: "map_ok (gsym_string g) (concat (map ecs_match_regex esites)) = Inr (map until_nul (concat (map match_regex sites)))"
  proof (rule map_ok_all2)
    have "list_all2 (\<lambda>s off. string_known env strings off s) (concat (map match_regex sites)) (concat (map ecs_match_regex esites))"
      using sites_known_patterns[OF k(5)] by (simp add: sites_def esites_def)
    then show "list_all2 (\<lambda>s off. gsym_string g off = Inr (until_nul s)) (concat (map match_regex sites)) (concat (map ecs_match_regex esites))"
      by (rule list_all2_mono) (rule holds_builder_string[OF h])
  qed
  have "frs = [] \<longleftrightarrow> nodes = []" using list_all2_lengthD[OF frames] by (metis length_0_conv)
  then show ?thesis
    unfolding lookup_spec_def symbolize_def Let_def k(1) row frs_def[symmetric] nodes_def[symmetric] row_def[symmetric]
      delta_def[symmetric] sites_def[symmetric] esites_def[symmetric] source_def[symmetric] nm src let_ok_Inr prod.case fr pat
    by simp
qed

lemma find_rel: "list_all2 R xs ys \<Longrightarrow> (\<And>x y. R x y \<Longrightarrow> P x \<longleftrightarrow> Q y) \<Longrightarrow> rel_option R (find P xs) (find Q ys)"
  by (induction rule: list_all2_induct) auto

lemma filter_rel: "list_all2 R xs ys \<Longrightarrow> (\<And>x y. R x y \<Longrightarrow> P x \<longleftrightarrow> Q y) \<Longrightarrow> list_all2 R (filter P xs) (filter Q ys)"
  by (induction rule: list_all2_induct) auto

lemma select_covering:
  assumes rel: "list_all2 R raws fns" and rng: "\<And>raw fn. R raw fn \<Longrightarrow> raw_range raw = fn_range fn"
  shows "rel_option R (select_function raws address) (covering_function fns address)"
proof -
  have starts: "map (\<lambda>r. r_start (raw_range r)) raws = map (\<lambda>fn. r_start (fn_range fn)) fns"
    using rel by (induction rule: list_all2_induct) (simp_all add: rng)
  have "rel_option R
      (find (\<lambda>r. range_is_empty (raw_range r) \<or> range_contains (raw_range r) address) (filter (\<lambda>r. r_start (raw_range r) = s) raws))
      (find (\<lambda>fn. range_is_empty (fn_range fn) \<or> range_contains (fn_range fn) address) (filter (\<lambda>fn. r_start (fn_range fn) = s) fns))" for s
    by (rule find_rel[OF filter_rel[OF rel]]) (simp_all add: rng)
  then show ?thesis unfolding select_function_def covering_function_def starts by (simp split: list.split)
qed

lemma holds_builder_lookup:
  assumes h: "holds_builder env b g strings encoded files offs" and env: "lawful_env renv"
    and refs: "\<forall>fn \<in> set (finalized b). files_exist (length (b_files b)) fn"
  shows "let_ok (lookup_with_options renv g address options scratch) (\<lambda>(result, _). Inr result)
    = Inr (map_option (symbolize (b_files b) address options) (covering_function (finalized b) address))"
proof -
  let ?fns = "finalized b"
  have t: "image_tables (g_data g) (g_layout g) encoded files (st_bytes strings) offs" and lg: "length (g_data g) < 2 ^ 64"
    and sound: "layout_sound (g_data g) (g_layout g)"
    and fns: "list_all2 (function_known (string_known env strings)) ?fns encoded"
    using h unfolding holds_builder_def by blast+
  note n = list_all2_lengthD[OF fns]
  have k: "function_known (string_known env strings) (?fns ! i) (encoded ! i)" if "i < length ?fns" for i
    by (rule list_all2_nthD[OF fns that])
  define is_raw where "is_raw i raw \<longleftrightarrow> raw_function_at g i (r_start (fn_range (?fns ! i))) = Inr raw \<and> raw_range raw = fn_range (?fns ! i)
    \<and> decode_function (raw_data raw) (pl_endian (g_layout g)) (pl_string_offset_size (g_layout g)) (r_start (fn_range (?fns ! i))) = Inr (encoded ! i)" for i raw
  have "\<exists>raw. is_raw i raw" if "i < length ?fns" for i
    using image_raw_function[OF t, of i] that n function_known_fields(1)[OF k[OF that]] unfolding is_raw_def by metis
  then obtain f where f: "\<And>i. i < length ?fns \<Longrightarrow> is_raw i (f i)" by metis
  define raws where "raws = map f [0..<length ?fns]"
  have count: "unat (pl_address_count (g_layout g)) = length ?fns" by (rule holds_builder_counts(1)[OF h])
  have raw: "gsym_raw_function g i = Inr (Some (f i))" if "i < length ?fns" for i
    using f[OF that] holds_builder_function[OF h that] that by (simp add: gsym_raw_function_def count is_raw_def)
  have all: "map_ok (gsym_raw_function g) [0..<unat (pl_address_count (g_layout g))] = Inr (map Some raws)"
    unfolding map_ok_Inr_iff count raws_def map_map list_all2_map2 list_all2_same using raw by simp
  have starts: "map (\<lambda>r. r_start (raw_range r)) raws = map (\<lambda>fn. r_start (fn_range fn)) ?fns"
    by (rule nth_equalityI) (use f in \<open>simp_all add: raws_def is_raw_def\<close>)
  have "sorted (map fn_range ?fns)" unfolding finalized_def using finalize_ordered by blast
  then have sorted: "sorted (map (\<lambda>r. r_start (raw_range r)) raws)"
    unfolding starts sorted_wrt_map by (rule sorted_wrt_mono_rel[rotated]) (simp add: range_le_start)
  have found: "matching_function renv g address = Inr (select_function raws address)"
    by (rule matching_function_eq[OF env sound lg all sorted])
  have "list_all2 (\<lambda>raw fn. \<exists>i < length ?fns. raw = f i \<and> fn = ?fns ! i) raws ?fns"
    by (auto simp: list_all2_conv_all_nth raws_def)
  then have rel: "rel_option (\<lambda>raw fn. \<exists>i < length ?fns. raw = f i \<and> fn = ?fns ! i)
      (select_function raws address) (covering_function ?fns address)"
    by (rule select_covering) (use f in \<open>auto simp: is_raw_def\<close>)
  show ?thesis
  proof (cases "select_function raws address")
    case None
    then show ?thesis using rel found by (simp add: lookup_with_options_def Let_def)
  next
    case (Some raw)
    then obtain i where i: "i < length ?fns" "raw = f i" "covering_function ?fns address = Some (?fns ! i)"
      using rel by (cases "covering_function ?fns address") auto
    have at_i: "raw_function_at g i (r_start (fn_range (?fns ! i))) = Inr raw"
      "decode_function (raw_data raw) (pl_endian (g_layout g)) (pl_string_offset_size (g_layout g)) (r_start (fn_range (?fns ! i))) = Inr (encoded ! i)"
      using f[OF i(1)] i(2) by (simp_all add: is_raw_def)
    have "lookup_spec renv g address options (encoded ! i) = Inr (symbolize (b_files b) address options (?fns ! i))"
      by (rule lookup_spec_symbolize[OF h env k[OF i(1)]]) (use refs i(1) in simp)
    then show ?thesis
      using lookup_refines[OF found[unfolded Some] at_i, of options scratch] i(3) by simp
  qed
qed


section \<open>Builders\<close>

text \<open>The builders a caller can make: options set in any way, files and functions added one by one.\<close>

inductive built :: "'t file_env \<Rightarrow> 't gsym_builder \<Rightarrow> bool" for env where
  built_new: "built env (builder_new env)"
| built_options: "built env b \<Longrightarrow> built env (b\<lparr>b_options := options, b_function_set := policy\<rparr>)"
| built_file: "built env b \<Longrightarrow> add_file env f b = Inr (index, b') \<Longrightarrow> built env b'"
| built_function: "built env b \<Longrightarrow> add_function fn b = Inr b' \<Longrightarrow> built env b'"

lemma built_setters:
  assumes "built env b"
  shows "built env (builder_set_version v b)" "built env (builder_set_endian e b)" "built env (builder_set_base_address address b)"
    "built env (builder_set_build_id build_id b)" "built env (builder_repair_zero_sized enabled b)" "built env (builder_set_function_set policy b)"
    "built env (builder_merge_equal_address enabled b)" "built env (builder_executable_ranges ranges b)"
  using built_options[OF assms, where policy = "b_function_set b"] built_options[OF assms]
  by (simp_all add: builder_set_version_def builder_set_endian_def builder_set_base_address_def builder_set_build_id_def
      builder_repair_zero_sized_def builder_set_function_set_def builder_merge_equal_address_def builder_executable_ranges_def)

lemma built_tracks: "built env b \<Longrightarrow> refs_tracked b"
proof (induction rule: built.induct)
  case (built_file b f index b')
  then show ?case by (auto simp: add_file_def Let_def refs_tracked_def ok_simps split: option.splits)
next
  case (built_function b fn b')
  then show ?case by (blast intro: refs_tracked_add)
qed (simp_all add: refs_tracked_def builder_new_def Let_def)

section \<open>The file of a builder\<close>

lemma encoded_builder_symbolizes:
  assumes "built fenv b" and "lawful_table (string_entries env)" "lawful_env renv"
    and "encode_builder env b = Inr img" "length (image_into_bytes img) < 2 ^ 64"
  shows "\<exists>g. gsym_parse native (image_into_bytes img) = Inr g
    \<and> (\<forall>address options scratch. let_ok (lookup_with_options renv g address options scratch) (\<lambda>(result, _). Inr result)
        = Inr (map_option (symbolize (b_files b) address options) (covering_function (finalized b) address)))"
proof -
  obtain g strings encoded files offs where g: "gsym_parse native (image_into_bytes img) = Inr g"
      "holds_builder env b g strings encoded files offs"
    by (rule encode_builder_holds[OF assms(2,4,5)]) (rule that)
  show ?thesis
    using g(1) holds_builder_lookup[OF g(2) assms(3) encoded_files_exist[OF built_tracks[OF assms(1)] assms(4)]] by blast
qed

section \<open>A sample\<close>

text \<open>A builder with one function, and what is written for it.\<close>

definition sample_env :: "((u64 \<times> string_entry) list) string_env" where
  "sample_env = \<lparr>string_entries = list_table, bytes_hash = \<lambda>_. 0\<rparr>"

definition sample_file_env :: "((u64 \<times> file_slot) list) file_env" where
  "sample_file_env = \<lparr>file_table = list_table, file_hash = \<lambda>_. 0\<rparr>"

definition sample_builder :: "((u64 \<times> file_slot) list) gsym_builder" where
  "sample_builder = (builder_new sample_file_env)\<lparr>b_functions := [function_new (mk_range 0x1000 0x1010) [97]]\<rparr>"

lemmas sample_eval = sample_builder_def sample_env_def sample_file_env_def builder_new_def builder_options_default_def
  writer_options_default_def file_entry_default_def list_table_def function_new_def

lemma sample_built: "built sample_file_env sample_builder"
proof (rule built_function[OF built_new])
  show "add_function (function_new (mk_range 0x1000 0x1010) [97]) (builder_new sample_file_env) = Inr sample_builder"
    by (simp add: sample_eval add_function_def validate_for_builder_def check_merged_depth_def MAX_MERGED_DEPTH_def
        range_is_valid_def range_size_def saturating_sub_u64_def Let_def)
qed

lemma sample_finalized: "finalized sample_builder = [Function (mk_range 0x1000 0x1010) [97] [] None [] []]"
  by (simp add: finalized_def finalize_def sample_eval sort_by_ordering_key_eq compact_function_lines_def compact_line_rows_def
      dedup_by_def deduplicate_def repair_final_range_def Let_def range_is_empty_iff)

lemmas string_eval = string_table_new_def record_string_def intern_def find_hashed_def interned_def slice_get_def checked_add_def

lemma sample_files: "intern_files sample_env (b_files sample_builder) (string_table_new sample_env) = ([(0, 0)],
    \<lparr>st_bytes = [0], st_entries = [(0, \<lparr>se_offset = 0, se_len = 0, se_hash = 0\<rparr>)]\<rparr>)"
  by (simp add: intern_files_def sample_eval string_eval)

lemma sample_functions: "encode_functions sample_env [Function (mk_range 0x1000 0x1010) [97] [] None [] []]
    \<lparr>st_bytes = [0], st_entries = [(0, \<lparr>se_offset = 0, se_len = 0, se_hash = 0\<rparr>)]\<rparr> =
  Inr ([EncodedFunction (mk_range 0x1000 0x1010) 1 None None [] []], \<lparr>st_bytes = [0, 97, 0],
    st_entries = [(0, \<lparr>se_offset = 1, se_len = 1, se_hash = 0\<rparr>), (0, \<lparr>se_offset = 0, se_len = 0, se_hash = 0\<rparr>)]\<rparr>)"
  by (simp add: encode_functions_def sample_eval string_eval semantic_function_def check_merged_depth_def cong: let_ok_weak_cong)

lemma sample_options: "b_options sample_builder = builder_options_default"
  by (simp add: sample_eval)

lemma sample_encode: "encode_builder sample_env sample_builder =
    encode_v1 writer_options_default 0x1000 1 [(0, 0)] [0, 97, 0] [EncodedFunction (mk_range 0x1000 0x1010) 1 None None [] []]"
proof -
  have f: "finalize (b_functions sample_builder) builder_options_default (b_function_set sample_builder) =
      [Function (mk_range 0x1000 0x1010) [97] [] None [] []]"
    using sample_finalized by (simp only: finalized_def sample_options)
  have o: "bo_writer builder_options_default = writer_options_default" by (simp add: builder_options_default_def)
  have v: "validate_file_table (b_files sample_builder) = Inr ()" "validate_file_references sample_builder = Inr ()"
    by (simp_all add: sample_eval validate_file_table_def validate_file_references_def nth_get_def)
  show ?thesis
    unfolding encode_builder_def v sample_options let_ok_Inr Let_def o
    by (simp add: f sample_files sample_functions[unfolded One_nat_def] nth_get_def writer_options_default_def address_offset_width_def
        saturating_sub_u64_def cong: let_ok_weak_cong)
qed

lemma sample_image: "\<exists>img. encode_builder sample_env sample_builder = Inr img \<and> length (image_into_bytes img) < 2 ^ 64"
proof -
  have r: "replicate 20 x = [x,x,x,x,x,x,x,x,x,x,x,x,x,x,x,x,x,x,x,x]" for x :: u8 by (simp add: eval_nat_numeral)
  note header = iffD2[OF v1_header_encode_eq, OF conjI, OF _ conjI, OF _ _ refl]
  show ?thesis
    unfolding sample_encode
    by (simp cong: let_ok_weak_cong add: encode_v1_def writer_options_default_def MAX_UUID_SIZE_def function_count_def
        checked_table_size_def checked_add_def align_up_def encode_function_section_def encode_function_step_def slice_get_def
        encode_eval narrow_v1_def fixed_uuid_new_def header r v1_validate_address_offset_size_def fixed_uuid_slice_def
        V1_HEADER_SIZE_def v1_header_bytes_def write_address_offsets_def align_to_def write_file_table_def checked_mul_def image_into_bytes_def)
qed

section \<open>Properties\<close>

text \<open>C2: The whole pipeline. For any builder a caller can make: when \<open>encode_builder\<close> writes a file, the reader parses it,
  and looking up any address in it, with any options and scratch space, returns without an error what the functions and
  files that were added say (\<open>symbolize\<close>): the first covering function of those that start last at or before
  the address, the source line of its last row at or before it, one frame for each named inline node that covers it, innermost
  first with the call sites between them, and the call-site patterns of that offset. Strings are reported up to their first
  zero byte. The hash tables of the builder and writer and the typed table access of the reader are parameters.\<close>

theorem written_file_symbolizes:
  assumes "built fenv b" and "lawful_table (string_entries env)" "lawful_env renv"
    and "encode_builder env b = Inr img" "length (image_into_bytes img) < 2 ^ 64"
  shows "\<exists>g. gsym_parse native (image_into_bytes img) = Inr g
    \<and> (\<forall>address options scratch. let_ok (lookup_with_options renv g address options scratch) (\<lambda>(result, _). Inr result)
        = Inr (map_option (symbolize (b_files b) address options) (covering_function (finalized b) address)))"
  by (rule encoded_builder_symbolizes[OF assms])

lemma written_file_symbolizes_witness:
  "\<exists>img g. encode_builder sample_env sample_builder = Inr img \<and> gsym_parse Big (image_into_bytes img) = Inr g
    \<and> let_ok (lookup_with_options plain_env g 0x1004 lookup_options_default []) (\<lambda>(result, _). Inr result) =
      Inr (Some \<lparr>lookup_address = 0x1004, lookup_function = mk_range 0x1000 0x1010,
        lookup_frames = [\<lparr>frame_name = [97], frame_directory = [], frame_basename = [], frame_line = 0, frame_offset = 4,
          frame_inlined = False\<rparr>], lookup_patterns = []\<rparr>)"
proof -
  obtain img where img: "encode_builder sample_env sample_builder = Inr img" "length (image_into_bytes img) < 2 ^ 64"
    using sample_image by blast
  have "lawful_table (string_entries sample_env)" by (simp add: sample_env_def lawful_list_table)
  from written_file_symbolizes[OF sample_built this lawful_plain_env img, of Big]
  obtain g where "gsym_parse Big (image_into_bytes img) = Inr g"
    "let_ok (lookup_with_options plain_env g 0x1004 lookup_options_default []) (\<lambda>(result, _). Inr result)
      = Inr (map_option (symbolize (b_files sample_builder) 0x1004 lookup_options_default) (covering_function (finalized sample_builder) 0x1004))"
    by blast
  then show ?thesis
    using img(1)
    by (simp add: sample_finalized covering_function_def range_contains_def range_is_valid_def range_is_empty_iff symbolize_def
        last_row_le_def saturating_sub_u64_def)
qed

text \<open>C3: A file that \<open>encode_builder\<close> writes parses to the header, the counts, the build id, the function addresses, the
  functions with all their records and the files that the builder holds after finalization, every string up
  to its first zero byte. The records include the merged functions a function is supplied with, under every policy for
  functions of equal ranges.\<close>

theorem written_file_reads_back:
  assumes "lawful_table (string_entries env)" "lawful_env renv"
    and "encode_builder env b = Inr img" "length (image_into_bytes img) < 2 ^ 64"
  shows "\<exists>g. gsym_parse native (image_into_bytes img) = Inr g
    \<and> gh_version (gsym_header_of g) = wo_version (bo_writer (b_options b)) \<and> gh_endian (gsym_header_of g) = wo_endian (bo_writer (b_options b))
    \<and> gh_base_address (gsym_header_of g) = chosen_base b \<and> gsym_build_id g = wo_build_id (bo_writer (b_options b))
    \<and> unat (gh_address_count (gsym_header_of g)) = length (finalized b) \<and> unat (pl_file_count (g_layout g)) = length (b_files b)
    \<and> (\<forall>i < length (finalized b). gsym_address g i = Inr (r_start (fn_range (finalized b ! i)))
        \<and> (\<exists>r. gsym_function g i = Inr r \<and> raw_range (fr_raw r) = fn_range (finalized b ! i)
              \<and> fr_name r = until_nul (fn_name (finalized b ! i))
              \<and> let_ok (ref_decode_encoded r) (owned_decode_validated renv r) = Inr (cut_function (finalized b ! i))))
    \<and> (\<forall>index. unat index < length (b_files b) \<longrightarrow>
        gsym_file renv g index = Inr (until_nul (file_directory (b_files b ! unat index)), until_nul (file_basename (b_files b ! unat index))))"
  by (rule encode_builder_reads_back[OF assms])

lemma written_file_reads_back_witness:
  "\<exists>img g. encode_builder sample_env sample_builder = Inr img \<and> gsym_parse Little (image_into_bytes img) = Inr g
    \<and> gsym_address g 0 = Inr 0x1000"
proof -
  obtain img where img: "encode_builder sample_env sample_builder = Inr img" "length (image_into_bytes img) < 2 ^ 64"
    using sample_image by blast
  have "lawful_table (string_entries sample_env)" by (simp add: sample_env_def lawful_list_table)
  from written_file_reads_back[OF this lawful_plain_env img, of Little] show ?thesis
    using img(1) by (auto simp: sample_finalized)
qed

text \<open>C23: However a builder was made, every file index that a function of the written file mentions, in its rows, inline
  call sites and merged functions, is an entry of the file table: the maximum recorded as functions are added bounds
  them all, finalization adds none, and writing checks the rest.\<close>

theorem written_references_exist:
  assumes "built fenv b" "encode_builder env b = Inr img"
  shows "\<forall>fn \<in> set (finalized b). files_exist (length (b_files b)) fn"
  by (rule encoded_files_exist[OF built_tracks[OF assms(1)] assms(2)])

lemma written_references_exist_witness: "files_exist 1 (Function (mk_range 0x1000 0x1010) [97] [] None [] [])"
proof -
  obtain img where "encode_builder sample_env sample_builder = Inr img" using sample_image by blast
  from written_references_exist[OF sample_built this] show ?thesis
    by (simp add: sample_finalized) (simp add: sample_builder_def builder_new_def Let_def)
qed

text \<open>C24: The late check of the file references accepts exactly the functions all of whose references exist.\<close>

theorem validate_function_files_exact: "validate_function_files file_count fn = Inr () \<longleftrightarrow> files_exist file_count fn"
  by (rule validate_function_files_iff)

end
