(* ===== verification/DwarfRows.thy ===== *)
theory DwarfRows
  imports DwarfLines Symbolize
begin

text \<open>
  The rows of \<open>src/convert/dwarf/lines.rs\<close>: the entries of a unit are in address order, the rows given to a
  function lie in its range and answer as the whole sequence does, and every file a row mentions is in the
  builder's table.
\<close>

section \<open>Partition points in a sorted table\<close>

abbreviation line_address :: "sequenced_line \<Rightarrow> u64" where
  "line_address ln \<equiv> row_address (sl_entry ln)"

lemma partition_point_take:
  assumes "sorted (map key xs)" and "k = partition_point (\<lambda>x. key x < a) xs"
  shows "take k xs = filter (\<lambda>x. key x < a) xs" and "drop k xs = filter (\<lambda>x. \<not> key x < a) xs" and "k \<le> length xs"
proof -
  have k: "k \<le> length xs" using bisect_bounds[of 0 "length xs"] assms(2) by (simp add: partition_point_def)
  have mono: "key (xs ! i) \<le> key (xs ! j)" if "i \<le> j" "j < length xs" for i j
    using sorted_nth_mono[OF assms(1), of i j] that by simp
  have p: "(\<forall>i. 0 \<le> i \<and> i < k \<longrightarrow> key (xs ! i) < a) \<and> (\<forall>i. k \<le> i \<and> i < length xs \<longrightarrow> \<not> key (xs ! i) < a)"
    unfolding assms(2) partition_point_def by (rule bisect_partition) (use mono in \<open>auto intro: le_less_trans\<close>)
  have t: "filter (\<lambda>x. key x < a) (take k xs) = take k xs" "filter (\<lambda>x. key x < a) (drop k xs) = []"
    "filter (\<lambda>x. \<not> key x < a) (take k xs) = []" "filter (\<lambda>x. \<not> key x < a) (drop k xs) = drop k xs"
    using p k by (auto simp: filter_id_conv filter_empty_conv in_set_conv_nth)
  have s: "xs = take k xs @ drop k xs" by simp
  show "take k xs = filter (\<lambda>x. key x < a) xs" by (subst (2) s, subst filter_append) (simp only: t append_Nil2)
  show "drop k xs = filter (\<lambda>x. \<not> key x < a) xs" by (subst (2) s, subst filter_append) (simp only: t append_Nil)
  show "k \<le> length xs" by (rule k)
qed

lemma find_append: "find p (xs @ ys) = (case find p xs of None \<Rightarrow> find p ys | Some x \<Rightarrow> Some x)"
  by (induction xs) auto

lemma find_rev_last: "find p (rev xs) = (if filter p xs = [] then None else Some (last (filter p xs)))"
  by (induction xs) (auto simp: find_append)

lemma between_partition_points:
  assumes "sorted (map key xs)" and "a \<le> b"
    and "i = partition_point (\<lambda>x. key x < a) xs" and "j = partition_point (\<lambda>x. key x < b) xs"
  shows "slice_get xs i j = Some (filter (\<lambda>x. a \<le> key x \<and> key x < b) xs)"
proof -
  note pi = partition_point_take[OF assms(1,3)] and pj = partition_point_take[OF assms(1,4)]
  have "filter (\<lambda>x. key x < a) xs = filter (\<lambda>x. key x < a) (filter (\<lambda>x. key x < b) xs)"
    using assms(2) by (auto intro!: filter_cong dest: less_le_trans)
  then have "length (take i xs) \<le> length (take j xs)"
    unfolding pi(1) pj(1) by (metis length_filter_le)
  then have ij: "i \<le> j" using pi(3) pj(3) by simp
  let ?mid = "drop i (take j xs)"
  have t: "take i (take j xs) = filter (\<lambda>x. key x < a) xs" using ij pi(1) by (simp add: min_def)
  have "set ?mid \<subseteq> set (drop i xs)" using set_take_subset[of "j - i" "drop i xs"] by (simp add: drop_take)
  then have m: "filter (\<lambda>x. a \<le> key x) ?mid = ?mid" using pi(2) by (auto simp: filter_id_conv)
  have n: "filter (\<lambda>x. a \<le> key x) (take i (take j xs)) = []" unfolding t by (auto simp: filter_empty_conv)
  have "filter (\<lambda>x. a \<le> key x) (take j xs) = ?mid"
    using arg_cong[OF append_take_drop_id[of i "take j xs"], of "filter (\<lambda>x. a \<le> key x)"]
    unfolding filter_append m n by simp
  then have "?mid = filter (\<lambda>x. a \<le> key x \<and> key x < b) xs" unfolding pj(1) by (simp add: conj_commute)
  then show ?thesis using ij pj(3) by (simp add: slice_get_def drop_take)
qed

section \<open>The rows of a range\<close>

definition entries_sorted :: "unit_lines \<Rightarrow> bool" where
  "entries_sorted ul \<longleftrightarrow> sorted (map line_address (ul_entries ul))"

definition rows_of_sequence :: "unit_lines \<Rightarrow> u64 option \<Rightarrow> line_entry list" where
  "rows_of_sequence ul sel = map sl_entry (filter (\<lambda>ln. selects sel (sl_sequence ln)) (ul_entries ul))"

lemma rows_of_sequence_sorted: "entries_sorted ul \<Longrightarrow> sorted (map row_address (rows_of_sequence ul sel))"
  unfolding entries_sorted_def rows_of_sequence_def using sorted_filter[of line_address "ul_entries ul"]
  by (simp add: comp_def)

lemma rows_in_between:
  assumes "entries_sorted ul" and "r_start r \<le> r_end r"
  shows "rows_in (ul_entries ul) (partition_point (\<lambda>ln. line_address ln < r_start r) (ul_entries ul))
      (partition_point (\<lambda>ln. line_address ln < r_end r) (ul_entries ul)) sel
    = filter (\<lambda>row. r_start r \<le> row_address row \<and> row_address row < r_end r) (rows_of_sequence ul sel)"
  unfolding rows_in_def between_partition_points[OF assms(1)[unfolded entries_sorted_def] assms(2) refl refl]
  by (simp add: rows_of_sequence_def filter_map comp_def conj_commute)

definition range_rows :: "unit_lines \<Rightarrow> address_range \<Rightarrow> u64 option \<Rightarrow> line_entry list" where
  "range_rows ul r sel =
     (let rows = filter (\<lambda>row. r_start r \<le> row_address row \<and> row_address row < r_end r) (rows_of_sequence ul sel) in
      if (case rows of [] \<Rightarrow> True | row # _ \<Rightarrow> row_address row > r_start r)
      then (case clamped_row ul r (partition_point (\<lambda>ln. line_address ln < r_start r) (ul_entries ul)) sel of
        None \<Rightarrow> rows | Some row \<Rightarrow> row # rows) else rows)"

definition sequence_exists :: "unit_lines \<Rightarrow> u64 option \<Rightarrow> bool" where
  "sequence_exists ul requested \<longleftrightarrow> (case requested of None \<Rightarrow> True
     | Some s \<Rightarrow> list_ex (\<lambda>sequence. ls_sequence sequence = Some s) (ul_sequences ul))"

lemma for_range_rows:
  assumes "entries_sorted ul" and "r_start r \<le> r_end r"
  shows "for_range ul r requested =
    (let output = compact_line_rows (range_rows ul r (if sequence_exists ul requested then requested else None)) in
     (output, requested \<noteq> None \<and> \<not> sequence_exists ul requested \<and> output \<noteq> []))"
  unfolding for_range_def range_rows_def Let_def rows_in_between[OF assms] sequence_exists_def[symmetric] ..

lemma clamped_row_address: "clamped_row ul r i sel = Some row \<Longrightarrow> row_address row = r_start r"
  by (auto simp: clamped_row_def Let_def split: bind_splits option.splits)

lemma range_rows_facts:
  assumes "entries_sorted ul" and "r_start r < r_end r"
  shows "sorted (map row_address (range_rows ul r sel))"
    and "\<forall>row \<in> set (range_rows ul r sel). r_start r \<le> row_address row \<and> row_address row < r_end r"
proof -
  let ?mid = "filter (\<lambda>row. r_start r \<le> row_address row \<and> row_address row < r_end r) (rows_of_sequence ul sel)"
  have m: "sorted (map row_address ?mid)" by (rule sorted_filter[OF rows_of_sequence_sorted[OF assms(1)]])
  show "sorted (map row_address (range_rows ul r sel))"
    using m by (auto simp: range_rows_def Let_def dest: clamped_row_address split: option.splits)
  show "\<forall>row \<in> set (range_rows ul r sel). r_start r \<le> row_address row \<and> row_address row < r_end r"
    using assms(2) by (auto simp: range_rows_def Let_def dest: clamped_row_address split: option.splits)
qed

lemma for_range_in_range:
  assumes "entries_sorted ul" and "r_start r < r_end r" and "row \<in> set (fst (for_range ul r requested))"
  shows "r_start r \<le> row_address row \<and> row_address row < r_end r"
  using range_rows_facts(2)[OF assms(1,2)] compact_line_rows_subset assms(3)
  unfolding for_range_rows[OF assms(1) less_imp_le[OF assms(2)]] Let_def fst_conv by blast


section \<open>The line in force\<close>

lemma line_in_force_append:
  "line_in_force a (xs @ ys) = (case line_in_force a ys of None \<Rightarrow> line_in_force a xs | Some v \<Rightarrow> Some v)"
  by (auto simp: line_in_force_def Let_def)

lemma line_in_force_None: "\<forall>row \<in> set xs. a < row_address row \<Longrightarrow> line_in_force a xs = None"
  by (auto simp: line_in_force_def Let_def filter_empty_conv not_le)

lemma line_in_force_past:
  "\<forall>row \<in> set xs. row_address row \<le> a \<Longrightarrow> line_in_force a xs
    = (if xs = [] then None else Some (row_file (last xs), row_line (last xs)))"
proof -
  assume "\<forall>row \<in> set xs. row_address row \<le> a"
  then have "filter (\<lambda>row. row_address row \<le> a) xs = xs" by (simp add: filter_id_conv)
  then show ?thesis by (simp add: line_in_force_def)
qed

lemma sorted_split: "sorted (map key xs) \<Longrightarrow> xs = filter (\<lambda>x. key x < a) xs @ filter (\<lambda>x. \<not> key x < a) xs"
  using partition_point_take[of key xs _ a] by (metis append_take_drop_id)

lemma line_in_force_window:
  assumes "sorted (map row_address rows)" and "s \<le> a" and "a < e"
  shows "line_in_force a rows = line_in_force a
    (filter (\<lambda>row. row_address row < s) rows @ filter (\<lambda>row. s \<le> row_address row \<and> row_address row < e) rows)"
proof -
  let ?late = "filter (\<lambda>row. \<not> row_address row < e) rows"
  let ?early = "filter (\<lambda>row. row_address row < e) rows"
  have late: "line_in_force a ?late = None" by (rule line_in_force_None) (use assms(3) in auto)
  have "line_in_force a rows = line_in_force a (?early @ ?late)" using sorted_split[OF assms(1), of e] by simp
  also have "\<dots> = line_in_force a ?early" unfolding line_in_force_append late by simp
  also have "?early = filter (\<lambda>row. row_address row < s) ?early @ filter (\<lambda>row. \<not> row_address row < s) ?early"
    by (rule sorted_split[OF sorted_filter[OF assms(1)]])
  also have "filter (\<lambda>row. row_address row < s) ?early = filter (\<lambda>row. row_address row < s) rows"
    using assms(2,3) by (auto intro!: filter_cong)
  also have "filter (\<lambda>row. \<not> row_address row < s) ?early = filter (\<lambda>row. s \<le> row_address row \<and> row_address row < e) rows"
    by (auto intro!: filter_cong)
  finally show ?thesis .
qed

text \<open>The sequence that decides the line at the start of a range: the selected one, or else that of the first sequence
  whose addresses contain the start. There is none if no selected sequence contains the start.\<close>

definition entry_sequence :: "unit_lines \<Rightarrow> u64 \<Rightarrow> u64 option \<Rightarrow> u64 option option" where
  "entry_sequence ul start sel =
     map_option (\<lambda>sequence. if sel = None then ls_sequence sequence else sel)
       (find (\<lambda>sequence. selects sel (ls_sequence sequence) \<and> range_contains (ls_range sequence) start) (ul_sequences ul))"

text \<open>The line of an address of a range: that of the last selected row from the start of the range on, and in front of
  the first such row that of the last row before the range of the sequence the start is in.\<close>

definition line_of_range :: "unit_lines \<Rightarrow> address_range \<Rightarrow> u64 option \<Rightarrow> u64 \<Rightarrow> (file_index \<times> u32) option" where
  "line_of_range ul r sel a =
     (case line_in_force a (filter (\<lambda>row. r_start r \<le> row_address row) (rows_of_sequence ul sel)) of
        Some found \<Rightarrow> Some found
      | None \<Rightarrow> (case entry_sequence ul (r_start r) sel of
          None \<Rightarrow> None
        | Some own \<Rightarrow> line_in_force a (filter (\<lambda>row. row_address row < r_start r) (rows_of_sequence ul own))))"

lemma clamped_row_last:
  assumes "entries_sorted ul"
  shows "clamped_row ul r (partition_point (\<lambda>ln. line_address ln < r_start r) (ul_entries ul)) sel
    = (case entry_sequence ul (r_start r) sel of None \<Rightarrow> None | Some own \<Rightarrow>
       let past = filter (\<lambda>row. row_address row < r_start r) (rows_of_sequence ul own) in
       if past = [] then None else Some ((last past)\<lparr>row_address := r_start r\<rparr>))"
proof -
  have t: "take (partition_point (\<lambda>ln. line_address ln < r_start r) (ul_entries ul)) (ul_entries ul)
      = filter (\<lambda>ln. line_address ln < r_start r) (ul_entries ul)"
    by (rule partition_point_take(1)[OF assms(1)[unfolded entries_sorted_def] refl])
  have p: "filter (\<lambda>row. row_address row < r_start r) (rows_of_sequence ul own)
      = map sl_entry (filter (\<lambda>ln. selects own (sl_sequence ln)) (filter (\<lambda>ln. line_address ln < r_start r) (ul_entries ul)))" for own
    by (simp add: rows_of_sequence_def filter_map comp_def conj_commute)
  show ?thesis
    unfolding clamped_row_def entry_sequence_def t p
    by (cases sel) (auto simp: find_rev_last last_map Let_def split: option.splits)
qed

lemma range_rows_in_force:
  assumes "entries_sorted ul" and "r_start r \<le> a" and "a < r_end r"
  shows "line_in_force a (range_rows ul r sel) = line_of_range ul r sel a"
proof -
  let ?R = "rows_of_sequence ul sel"
  let ?later = "filter (\<lambda>row. r_start r \<le> row_address row) ?R"
  let ?mid = "filter (\<lambda>row. r_start r \<le> row_address row \<and> row_address row < r_end r) ?R"
  have later: "line_in_force a ?later = line_in_force a ?mid"
  proof -
    have "line_in_force a ?later = line_in_force a (filter (\<lambda>row. row_address row < r_start r) ?later
        @ filter (\<lambda>row. r_start r \<le> row_address row \<and> row_address row < r_end r) ?later)"
      by (rule line_in_force_window[OF sorted_filter[OF rows_of_sequence_sorted[OF assms(1)]] assms(2,3)])
    moreover have "filter (\<lambda>row. row_address row < r_start r) ?later = []" by (auto simp: filter_empty_conv)
    moreover have "filter (\<lambda>row. r_start r \<le> row_address row \<and> row_address row < r_end r) ?later = ?mid"
      by (auto intro!: filter_cong)
    ultimately show ?thesis by simp
  qed
  note c = clamped_row_last[OF assms(1), of r sel]
  show ?thesis
  proof (cases "case ?mid of [] \<Rightarrow> True | row # _ \<Rightarrow> row_address row > r_start r")
    case True
    then have rows: "range_rows ul r sel = (case clamped_row ul r (partition_point (\<lambda>ln. line_address ln < r_start r) (ul_entries ul)) sel of
        None \<Rightarrow> ?mid | Some row \<Rightarrow> [row] @ ?mid)"
      by (simp add: range_rows_def Let_def split: option.split)
    show ?thesis
    proof (cases "entry_sequence ul (r_start r) sel")
      case None
      then show ?thesis unfolding rows c line_of_range_def later by (simp split: option.split)
    next
      case (Some own)
      let ?past = "filter (\<lambda>row. row_address row < r_start r) (rows_of_sequence ul own)"
      have p: "line_in_force a ?past = (if ?past = [] then None else Some (row_file (last ?past), row_line (last ?past)))"
        by (rule line_in_force_past) (use assms(2) in auto)
      have one: "line_in_force a [(last ?past)\<lparr>row_address := r_start r\<rparr>] = Some (row_file (last ?past), row_line (last ?past))"
        using assms(2) by (simp add: line_in_force_def)
      show ?thesis
      proof (cases "?past = []")
        case True
        then show ?thesis using p unfolding rows c line_of_range_def later Some by (simp split: option.split)
      next
        case False
        then have "range_rows ul r sel = [(last ?past)\<lparr>row_address := r_start r\<rparr>] @ ?mid"
          unfolding rows c Some by (simp add: Let_def)
        then have "line_in_force a (range_rows ul r sel) = (case line_in_force a ?mid of
            None \<Rightarrow> line_in_force a [(last ?past)\<lparr>row_address := r_start r\<rparr>] | Some v \<Rightarrow> Some v)"
          by (simp only: line_in_force_append)
        then show ?thesis using False unfolding line_of_range_def later Some option.case p one by (simp split: option.split)
      qed
    qed
  next
    case False
    then obtain row rest where m: "?mid = row # rest" "\<not> row_address row > r_start r" by (cases ?mid) auto
    have "row_address row \<le> a" using m(2) assms(2) by (simp add: not_less)
    then have "line_in_force a ?mid \<noteq> None" unfolding m(1) by (simp add: line_in_force_def Let_def)
    moreover have "range_rows ul r sel = ?mid" using False by (simp only: range_rows_def Let_def if_False)
    ultimately show ?thesis unfolding line_of_range_def later by auto
  qed
qed

text \<open>Where the rows of the range up to an address are of the sequence that the start is in, the line is that of the sequence.\<close>

lemma line_of_range_sequence:
  assumes "entries_sorted ul" and "r_start r \<le> a" and own: "entry_sequence ul (r_start r) sel = Some own"
    and inside: "\<forall>ln \<in> set (ul_entries ul). r_start r \<le> line_address ln \<and> line_address ln \<le> a
      \<longrightarrow> selects sel (sl_sequence ln) \<longleftrightarrow> selects own (sl_sequence ln)"
  shows "line_of_range ul r sel a = line_in_force a (rows_of_sequence ul own)"
proof -
  let ?cut = "\<lambda>sel. filter (\<lambda>row. row_address row \<le> a) (filter (\<lambda>row. r_start r \<le> row_address row) (rows_of_sequence ul sel))"
  have cut: "?cut s = map sl_entry (filter (\<lambda>ln. r_start r \<le> line_address ln \<and> line_address ln \<le> a \<and> selects s (sl_sequence ln)) (ul_entries ul))" for s
    by (auto simp: rows_of_sequence_def filter_map comp_def intro!: arg_cong[where f = "map sl_entry"] filter_cong)
  have "?cut sel = ?cut own" unfolding cut by (rule arg_cong[where f = "map sl_entry"], rule filter_cong) (use inside in auto)
  then have same: "line_in_force a (filter (\<lambda>row. r_start r \<le> row_address row) (rows_of_sequence ul sel))
      = line_in_force a (filter (\<lambda>row. r_start r \<le> row_address row) (rows_of_sequence ul own))"
    by (simp only: line_in_force_def)
  have "rows_of_sequence ul own = filter (\<lambda>row. row_address row < r_start r) (rows_of_sequence ul own)
      @ filter (\<lambda>row. r_start r \<le> row_address row) (rows_of_sequence ul own)"
    using sorted_split[OF rows_of_sequence_sorted[OF assms(1)], of own "r_start r"] by (simp add: not_less)
  then show ?thesis
    unfolding line_of_range_def same own
    by (metis (no_types, lifting) line_in_force_append option.case_eq_if option.simps(5))
qed

section \<open>The builder during an import\<close>

text \<open>What every step of an import keeps: the builder was made by its own operations, its file table is an
  interner, and every file a function mentions is in it.\<close>

definition sound_builder :: "'t file_env \<Rightarrow> 't gsym_builder \<Rightarrow> bool" where
  "sound_builder env b \<longleftrightarrow> built env b \<and> file_invar env b \<and> (\<forall>fn \<in> set (b_functions b). files_exist (length (b_files b)) fn)"

text \<open>One builder grew out of another: it has its files and its functions, and the new functions satisfy \<open>P\<close>.\<close>

definition grown :: "(gfunction \<Rightarrow> bool) \<Rightarrow> 't gsym_builder \<Rightarrow> 't gsym_builder \<Rightarrow> bool" where
  "grown P b c \<longleftrightarrow> length (b_files b) \<le> length (b_files c)
     \<and> (\<exists>fns. b_functions c = b_functions b @ fns \<and> (\<forall>fn \<in> set fns. P fn))"

definition builder_grows :: "'t file_env \<Rightarrow> (gfunction \<Rightarrow> bool) \<Rightarrow> 't gsym_builder \<Rightarrow> 't gsym_builder \<Rightarrow> bool" where
  "builder_grows env P b c \<longleftrightarrow> (sound_builder env b \<longrightarrow> sound_builder env c \<and> grown P b c)"

lemma grown_refl [simp]: "grown P b b"
  by (simp add: grown_def)

lemma grown_trans: "grown P b c \<Longrightarrow> grown P c d \<Longrightarrow> grown P b d"
  by (fastforce simp: grown_def)

lemma grown_files: "grown P b c \<Longrightarrow> length (b_files b) \<le> length (b_files c)"
  by (simp add: grown_def)

lemma builder_grows_refl [simp]: "builder_grows env P b b"
  by (simp add: builder_grows_def)

lemma builder_grows_trans: "builder_grows env P b c \<Longrightarrow> builder_grows env P c d \<Longrightarrow> builder_grows env P b d"
  unfolding builder_grows_def by (meson grown_trans)

lemma files_exist_mono: "files_exist m fn \<Longrightarrow> m \<le> n \<Longrightarrow> files_exist n fn"
  by (auto simp: files_exist_def intro: less_le_trans)

lemma add_file_grows:
  assumes "add_file env f b = Inr (i, c)"
  shows "builder_grows env P b c" and "sound_builder env b \<Longrightarrow> unat i < length (b_files c)"
proof -
  have *: "sound_builder env c \<and> grown P b c \<and> unat i < length (b_files c)"
    if s: "sound_builder env b"
  proof -
    have inv: "file_invar env b" using s by (simp add: sound_builder_def)
    have b: "built env c" using s built_file[OF _ assms] by (simp add: sound_builder_def)
    from add_file_cases[OF inv assms] show ?thesis
    proof
      assume "c = b \<and> file_known b i f"
      then show ?thesis using s by (simp add: file_known_nth)
    next
      assume new: "f \<notin> set (b_files b) \<and> unat i = length (b_files b) \<and> length (b_files b) < 2 ^ 32
        \<and> c = b\<lparr>b_files := b_files b @ [f], b_file_index := ht_insert_unique (file_table env) (file_hash env f)
          \<lparr>slot_index = i, slot_hash = file_hash env f\<rparr> slot_hash (b_file_index b)\<rparr>"
      then have "file_invar env c" using file_invar_push[OF inv, of f i] by simp
      then show ?thesis using new s b by (auto simp: sound_builder_def grown_def intro: files_exist_mono)
    qed
  qed
  show "builder_grows env P b c" using * by (simp add: builder_grows_def)
  show "sound_builder env b \<Longrightarrow> unat i < length (b_files c)" using * by blast
qed

lemma add_function_grows:
  assumes "add_function fn b = Inr c" and "files_exist (length (b_files b)) fn" and "P fn"
  shows "builder_grows env P b c"
proof -
  obtain m where c: "c = b\<lparr>b_maximum_file_index := max (b_maximum_file_index b) m, b_functions := b_functions b @ [fn]\<rparr>"
    using assms(1) by (auto simp: add_function_def ok_simps)
  show ?thesis using assms built_function[OF _ assms(1)]
    by (auto simp: builder_grows_def sound_builder_def file_invar_def grown_def c)
qed

section \<open>Files\<close>

definition indices_exist :: "nat \<Rightarrow> file_indices \<Rightarrow> bool" where
  "indices_exist n files \<longleftrightarrow> (\<forall>f. Some f \<in> set (fi_dense files) \<or> f \<in> snd ` set (fi_overflow files) \<longrightarrow> unat f < n)"

lemma indices_exist_mono: "indices_exist m files \<Longrightarrow> m \<le> n \<Longrightarrow> indices_exist n files"
  unfolding indices_exist_def by (meson less_le_trans)

lemma indices_exist_get:
  assumes "indices_exist n files" and "file_indices_get files i = Some f"
  shows "unat f < n"
proof (cases "Option.bind (nth_get (fi_dense files) (unat i)) id")
  case None
  then have "f \<in> snd ` set (fi_overflow files)" using assms(2) by (force simp: file_indices_get_def dest: map_of_SomeD)
  then show ?thesis using assms(1) by (simp add: indices_exist_def)
next
  case (Some g)
  then have "nth_get (fi_dense files) (unat i) = Some (Some f)" using assms(2)
    by (cases "nth_get (fi_dense files) (unat i)") (simp_all add: file_indices_get_def)
  then have "Some f \<in> set (fi_dense files)" by (metis nth_get_eq_Some nth_mem)
  then show ?thesis using assms(1) by (simp add: indices_exist_def)
qed

lemma indices_exist_insert:
  assumes "indices_exist n files" and "unat f < n"
  shows "indices_exist n (file_indices_insert i f files)"
proof -
  have o: "snd ` set (AList.update i f xs) \<subseteq> insert f (snd ` set xs)" for xs by (induction xs) auto
  have d: "set ((fi_dense files)[unat i := Some f]) \<subseteq> insert (Some f) (set (fi_dense files))"
    by (rule set_update_subset_insert)
  show ?thesis unfolding indices_exist_def
  proof (intro allI impI)
    fix g assume "Some g \<in> set (fi_dense (file_indices_insert i f files)) \<or> g \<in> snd ` set (fi_overflow (file_indices_insert i f files))"
    then have "g = f \<or> Some g \<in> set (fi_dense files) \<or> g \<in> snd ` set (fi_overflow files)"
      using o d unfolding file_indices_insert_def by (auto split: if_splits)
    then show "unat g < n" using assms unfolding indices_exist_def by metis
  qed
qed

lemma intern_file_cases:
  assumes "intern_file env G dwarf u header f b = Inr (slot, c)"
  shows "slot = None \<and> c = b \<or> (\<exists>i entry. slot = Some i \<and> add_file env entry b = Inr (i, c))"
proof -
  obtain filename_reader where r: "(case filename_reader of None \<Rightarrow> Inr (None, b) | Some filename_reader \<Rightarrow>
     let_ok (from_gimli filename_reader) (\<lambda>filename.
     if filename = [] then Inr (None, b)
     else
       let (filename_directory, basename) = split_path filename in
       if basename = [] then Inr (None, b)
       else
         let_ok (if is_absolute_path filename then Inr filename_directory
           else file_path G dwarf u header f filename_directory) (\<lambda>directory.
         let_ok (add_file env \<lparr>file_directory = directory, file_basename = basename\<rparr> b) (\<lambda>(index, b).
         Inr (Some index, b))))) = Inr (slot, c)"
    using assms unfolding intern_file_def by (rule let_ok_InrE)
  show ?thesis
  proof (cases filename_reader)
    case (Some reader)
    obtain filename where r: "(if filename = [] then Inr (None, b)
     else
       let (filename_directory, basename) = split_path filename in
       if basename = [] then Inr (None, b)
       else
         let_ok (if is_absolute_path filename then Inr filename_directory
           else file_path G dwarf u header f filename_directory) (\<lambda>directory.
         let_ok (add_file env \<lparr>file_directory = directory, file_basename = basename\<rparr> b) (\<lambda>(index, b).
         Inr (Some index, b)))) = Inr (slot, c)"
      using r unfolding Some option.case by (rule let_ok_InrE)
    obtain filename_directory basename where sp: "split_path filename = (filename_directory, basename)" by (cases "split_path filename") auto
    show ?thesis
    proof (cases "filename = [] \<or> basename = []")
      case True
      then have "(None, b) = (slot, c)" using r unfolding sp Let_def prod.case by (simp split: if_splits)
      then show ?thesis by simp
    next
      case False
      then have ne: "filename \<noteq> []" "basename \<noteq> []" by auto
      obtain directory where "let_ok (add_file env \<lparr>file_directory = directory, file_basename = basename\<rparr> b) (\<lambda>(index, b).
         Inr (Some index, b)) = Inr (slot, c)"
        using r unfolding sp Let_def prod.case if_not_P[OF ne(1)] if_not_P[OF ne(2)] by (rule let_ok_InrE)
      then show ?thesis by (auto simp: ok_simps split: prod.splits)
    qed
  qed (use r in simp)
qed

lemma intern_file_grows:
  assumes "intern_file env G dwarf u header f b = Inr (slot, c)"
  shows "builder_grows env P b c" and "sound_builder env b \<Longrightarrow> slot = Some i \<Longrightarrow> unat i < length (b_files c)"
  using intern_file_cases[OF assms] add_file_grows by fastforce+

text \<open>A builder together with file indices that are in its table.\<close>

definition files_sound :: "'t file_env \<Rightarrow> (gfunction \<Rightarrow> bool) \<Rightarrow> 't gsym_builder \<Rightarrow> file_indices \<Rightarrow> 't gsym_builder \<Rightarrow> bool" where
  "files_sound env P b0 files b \<longleftrightarrow> sound_builder env b \<and> grown P b0 b \<and> indices_exist (length (b_files b)) files"

lemma builder_growsD: "builder_grows env P b c \<Longrightarrow> sound_builder env b \<Longrightarrow> sound_builder env c \<and> grown P b c"
  by (simp add: builder_grows_def)

lemma files_sound_grows: "files_sound env P b0 files b \<Longrightarrow> builder_grows env P b c \<Longrightarrow> files_sound env P b0 files c"
  unfolding files_sound_def by (meson builder_growsD indices_exist_mono grown_trans grown_files)

lemma files_sound_default: "sound_builder env b \<Longrightarrow> files_sound env P b file_indices_default b"
  by (simp add: files_sound_def indices_exist_def file_indices_default_def)

lemma intern_header_file_sound:
  assumes "intern_header_file env G dwarf u header f (files, b) = Inr (files', c)" and "files_sound env P b0 files b"
  shows "files_sound env P b0 files' c"
proof -
  obtain slot where s: "intern_file env G dwarf u header f b = Inr (slot, c)" "files' = files\<lparr>fi_dense := fi_dense files @ [slot]\<rparr>"
    using assms(1) by (auto simp: intern_header_file_def ok_simps)
  have "files_sound env P b0 files c" by (rule files_sound_grows[OF assms(2) intern_file_grows(1)[OF s(1)]])
  then show ?thesis
    using intern_file_grows(2)[OF s(1)] assms(2) by (auto simp: s(2) files_sound_def indices_exist_def)
qed

lemma intern_header_files_sound:
  assumes "intern_header_files env G dwarf u header b = Inr (files, c)" and "sound_builder env b"
  shows "files_sound env P b files c"
proof -
  let ?I = "\<lambda>(files, c). files_sound env P b files c"
  have f: "fold_ok (intern_header_file env G dwarf u header) (lh_file_names header)
      (if lh_version header \<le> 4 then file_indices_default\<lparr>fi_dense := [None]\<rparr> else file_indices_default, b) = Inr (files, c)"
    using assms(1) by (simp add: intern_header_files_def Let_def)
  have "?I (files, c)"
  proof (rule fold_ok_invariant[OF f])
    show "?I (if lh_version header \<le> 4 then file_indices_default\<lparr>fi_dense := [None]\<rparr> else file_indices_default, b)"
      using files_sound_default[OF assms(2)] by (simp add: files_sound_def indices_exist_def file_indices_default_def)
  qed (auto dest: intern_header_file_sound)
  then show ?thesis by simp
qed

section \<open>The lines of a unit\<close>

definition lines_sound :: "'t file_env \<Rightarrow> (gfunction \<Rightarrow> bool) \<Rightarrow> 't gsym_builder \<Rightarrow> unit_lines \<Rightarrow> 't gsym_builder \<Rightarrow> bool" where
  "lines_sound env P b0 ul b \<longleftrightarrow> files_sound env P b0 (ul_files ul) b \<and> entries_sorted ul
     \<and> (\<forall>ln \<in> set (ul_entries ul). unat (row_file (sl_entry ln)) < length (b_files b))"

definition resolve_sound :: "'t file_env \<Rightarrow> (gfunction \<Rightarrow> bool) \<Rightarrow> 't gsym_builder \<Rightarrow> 't resolve_state \<Rightarrow> bool" where
  "resolve_sound env P b0 s \<longleftrightarrow> files_sound env P b0 (re_files s) (re_builder s)
     \<and> (\<forall>ln \<in> set (re_output s). unat (row_file (sl_entry ln)) < length (b_files (re_builder s)))"

lemma row_file_index_sound:
  assumes "row_file_index env G dwarf u header row s = Inr (found, t)" and "resolve_sound env P b0 s"
  shows "resolve_sound env P b0 t" and "found = Some f \<Longrightarrow> unat f < length (b_files (re_builder t))"
proof -
  have "resolve_sound env P b0 t \<and> (\<forall>f. found = Some f \<longrightarrow> unat f < length (b_files (re_builder t)))"
  proof (cases "file_indices_get (re_files s) (rl_file_index row)")
    case (Some f)
    then show ?thesis using assms indices_exist_get[OF _ Some]
      by (auto simp: row_file_index_def resolve_sound_def files_sound_def)
  next
    case None
    show ?thesis
    proof (cases "lh_file header (rl_file_index row)")
      case None
      then show ?thesis using assms \<open>file_indices_get _ _ = None\<close> by (auto simp: row_file_index_def resolve_sound_def)
    next
      case (Some entry)
      obtain slot c where i: "intern_file env G dwarf u header entry (re_builder s) = Inr (slot, c)"
        and t: "found = slot \<and> t = (case slot of None \<Rightarrow> s\<lparr>re_builder := c\<rparr>
          | Some f \<Rightarrow> s\<lparr>re_builder := c, re_files := file_indices_insert (rl_file_index row) f (re_files s)\<rparr>)"
        using assms(1) None Some by (auto simp: row_file_index_def ok_simps split: option.splits)
      note g = intern_file_grows[OF i]
      have snd: "sound_builder env (re_builder s)" using assms(2) by (simp add: resolve_sound_def files_sound_def)
      have fs: "files_sound env P b0 (re_files s) c" using assms(2) files_sound_grows[OF _ g(1)] by (simp add: resolve_sound_def)
      have o: "\<forall>ln \<in> set (re_output s). unat (row_file (sl_entry ln)) < length (b_files c)"
        using assms(2) grown_files[OF conjunct2[OF builder_growsD[OF g(1) snd]]] by (auto simp: resolve_sound_def intro: less_le_trans)
      show ?thesis
      proof (cases slot)
        case None
        then show ?thesis using fs o t by (simp add: resolve_sound_def)
      next
        case (Some f)
        have f: "unat f < length (b_files c)" by (rule g(2)[OF snd Some])
        show ?thesis using fs o t f indices_exist_insert[of "length (b_files c)" "re_files s" f "rl_file_index row"]
          by (simp add: Some resolve_sound_def files_sound_def)
      qed
    qed
  qed
  then show "resolve_sound env P b0 t" "found = Some f \<Longrightarrow> unat f < length (b_files (re_builder t))" by blast+
qed

lemma resolve_row_sound:
  assumes "resolve_row env G dwarf u header offsets row s = Inr t" and "resolve_sound env P b0 s"
  shows "resolve_sound env P b0 t"
proof (cases "row_file_index env G dwarf u header row s")
  case Inl
  then show ?thesis using assms(1) by (simp add: resolve_row_def)
next
  case (Inr p)
  obtain found s' where p: "p = (found, s')" by (cases p)
  note s' = row_file_index_sound[OF Inr[unfolded p] assms(2)]
  note t = assms(1)[unfolded resolve_row_def Inr p let_ok_Inr prod.case]
  show ?thesis using t s' by (auto simp: resolve_sound_def split: option.splits)
qed

lemma dedup_subset: "set (dedup xs) \<subseteq> set xs"
proof -
  have "\<forall>x \<in> set (dedup xs). x \<in> set xs"
    unfolding dedup_def by (rule dedup_by_all[where P = "\<lambda>x. x \<in> set xs"]) (unfold prod.case, blast+)
  then show ?thesis by blast
qed

lemma dedup_sorted: "sorted (map key xs) \<Longrightarrow> sorted (map key (dedup xs))"
proof -
  have "sorted (map key (x # xs)) \<Longrightarrow> sorted (map key (dedup_from (\<lambda>c p. (c = p, c, p)) x xs))
    \<and> set (dedup_from (\<lambda>c p. (c = p, c, p)) x xs) \<subseteq> set (x # xs)" for x xs
    by (induction xs arbitrary: x) auto
  then show "sorted (map key xs) \<Longrightarrow> sorted (map key (dedup xs))"
    by (cases xs) (auto simp: dedup_def dedup_by_def)
qed

lemma resolve_rows_sound:
  assumes "resolve_rows env G dwarf u header offsets raw_lines ranges b w = Inr (ul, c, w')" and "sound_builder env b"
  shows "lines_sound env P b ul c"
proof -
  obtain files b1 where f: "intern_header_files env G dwarf u header b = Inr (files, b1)"
    using assms(1) unfolding resolve_rows_def by (cases "intern_header_files env G dwarf u header b") auto
  then obtain s where r: "fold_ok (resolve_row env G dwarf u header offsets) raw_lines
        \<lparr>re_files = files, re_builder = b1, re_warnings = w, re_output = []\<rparr> = Inr s"
    and out: "ul_entries ul = dedup (sort_key line_address (re_output s))" "ul_files ul = re_files s" "c = re_builder s"
    using assms(1) unfolding resolve_rows_def by auto
  have "resolve_sound env P b s"
  proof (rule fold_ok_invariant[OF r])
    show "resolve_sound env P b \<lparr>re_files = files, re_builder = b1, re_warnings = w, re_output = []\<rparr>"
      using intern_header_files_sound[OF f assms(2)] by (simp add: resolve_sound_def)
  qed (rule resolve_row_sound)
  then show ?thesis
    using dedup_subset[of "sort_key line_address (re_output s)"] dedup_sorted[of line_address "sort_key line_address (re_output s)"]
    by (auto simp: lines_sound_def resolve_sound_def out entries_sorted_def)
qed

lemma collect_program_sound:
  "collect_program env G dwarf u program b w = Inr (ul, c, w') \<Longrightarrow> sound_builder env b
    \<Longrightarrow> lines_sound env P b ul c"
  by (auto simp: collect_program_def Let_def intro: resolve_rows_sound)

lemma collect_lines_sound:
  assumes "collect_lines env G dwarf u b w = Inr (ul, c, w')" and "sound_builder env b"
  shows "lines_sound env P b ul c"
  using assms files_sound_default[OF assms(2)]
  by (auto simp: collect_lines_def lines_sound_def entries_sorted_def ok_simps
      dest: collect_program_sound[unfolded lines_sound_def entries_sorted_def] split: option.splits if_splits)

lemma clamped_row_entry:
  assumes "clamped_row ul r i sel = Some row"
  shows "\<exists>ln \<in> set (ul_entries ul). row_file row = row_file (sl_entry ln)"
proof -
  obtain p previous where "find p (rev (take i (ul_entries ul))) = Some previous" "row = (sl_entry previous)\<lparr>row_address := r_start r\<rparr>"
    using assms by (auto simp: clamped_row_def Let_def split: bind_splits)
  moreover from this(1) have "previous \<in> set (ul_entries ul)"
    unfolding find_rev_last using last_in_set[of "filter p (take i (ul_entries ul))"]
    by (auto split: if_splits dest: in_set_takeD)
  ultimately show ?thesis by auto
qed

lemma for_range_files:
  assumes "lines_sound env P b0 ul b" and "r_start r < r_end r" and "row \<in> set (fst (for_range ul r requested))"
  shows "unat (row_file row) < length (b_files b)"
proof -
  have e: "entries_sorted ul" and f: "\<forall>ln \<in> set (ul_entries ul). unat (row_file (sl_entry ln)) < length (b_files b)"
    using assms(1) by (simp_all add: lines_sound_def)
  obtain sel where row: "row \<in> set (range_rows ul r sel)"
    using assms(3) compact_line_rows_subset unfolding for_range_rows[OF e less_imp_le[OF assms(2)]] Let_def fst_conv by blast
  have "\<exists>ln \<in> set (ul_entries ul). row_file row = row_file (sl_entry ln)"
  proof (cases "row \<in> set (rows_of_sequence ul sel)")
    case True
    then show ?thesis by (auto simp: rows_of_sequence_def)
  next
    case False
    then have "clamped_row ul r (partition_point (\<lambda>ln. line_address ln < r_start r) (ul_entries ul)) sel = Some row"
      using row by (auto simp: range_rows_def Let_def split: option.splits if_splits)
    then show ?thesis by (rule clamped_row_entry)
  qed
  then show ?thesis using f by metis
qed


section \<open>Properties\<close>

text \<open>C28: The rows a function gets, cut out of the unit's table, clamped to the start and compacted, give at every
  address of the function the line of the table (\<open>line_of_range\<close>): of the last selected row inside the function, and in
  front of the first of them of the last row of the sequence that the start is in, never of a row of another sequence. Only
  the requested sequence is selected if the unit has it, and all are otherwise, for functions that request none; where the rows
  inside are those of the sequence the start is in, the answer is that of the whole sequence. A request for a sequence that the
  unit does not have is reported exactly when the function has a line.\<close>

theorem for_range_answers_as_sequence:
  fixes ul :: unit_lines and requested :: "u64 option"
  assumes "sorted (map line_address (ul_entries ul))" and "r_start r < r_end r"
  defines "known \<equiv> (case requested of None \<Rightarrow> True | Some q \<Rightarrow> \<exists>sequence \<in> set (ul_sequences ul). ls_sequence sequence = Some q)"
  defines "selected \<equiv> (if known then requested else None)"
  shows "(\<forall>a. r_start r \<le> a \<longrightarrow> a < r_end r \<longrightarrow>
        line_in_force a (fst (for_range ul r requested)) = line_of_range ul r selected a)
    \<and> (\<forall>a own. r_start r \<le> a \<longrightarrow> a < r_end r \<longrightarrow> entry_sequence ul (r_start r) selected = Some own \<longrightarrow>
        (\<forall>ln \<in> set (ul_entries ul). r_start r \<le> line_address ln \<and> line_address ln \<le> a
          \<longrightarrow> selects selected (sl_sequence ln) \<longleftrightarrow> selects own (sl_sequence ln)) \<longrightarrow>
        line_in_force a (fst (for_range ul r requested)) = line_in_force a (rows_of_sequence ul own))
    \<and> (snd (for_range ul r requested) \<longleftrightarrow> \<not> known \<and> (\<exists>a. r_start r \<le> a \<and> a < r_end r \<and> line_of_range ul r selected a \<noteq> None))"
proof -
  have e: "entries_sorted ul" using assms(1) by (simp add: entries_sorted_def)
  have known: "sequence_exists ul requested \<longleftrightarrow> known"
    by (auto simp: sequence_exists_def known_def list_ex_iff split: option.split)
  have out: "fst (for_range ul r requested) = compact_line_rows (range_rows ul r selected)"
    "snd (for_range ul r requested) \<longleftrightarrow> \<not> known \<and> fst (for_range ul r requested) \<noteq> []"
    unfolding for_range_rows[OF e less_imp_le[OF assms(2)]] known selected_def Let_def by (auto simp: known_def split: option.splits)
  have line: "line_in_force a (fst (for_range ul r requested)) = line_of_range ul r selected a"
    if "r_start r \<le> a" "a < r_end r" for a
    using compact_line_rows_in_force[OF range_rows_facts(1)[OF e assms(2)], of a selected] range_rows_in_force[OF e that] out(1)
    by simp
  have some: "fst (for_range ul r requested) \<noteq> [] \<longleftrightarrow> (\<exists>a. r_start r \<le> a \<and> a < r_end r \<and> line_of_range ul r selected a \<noteq> None)"
  proof
    assume "fst (for_range ul r requested) \<noteq> []"
    then obtain row where row: "row \<in> set (fst (for_range ul r requested))" by (meson list.set_sel(1))
    have "line_in_force (row_address row) (fst (for_range ul r requested)) \<noteq> None"
      using row by (auto simp: line_in_force_def Let_def filter_empty_conv)
    then show "\<exists>a. r_start r \<le> a \<and> a < r_end r \<and> line_of_range ul r selected a \<noteq> None"
      using for_range_in_range[OF e assms(2) row] line by metis
  next
    assume "\<exists>a. r_start r \<le> a \<and> a < r_end r \<and> line_of_range ul r selected a \<noteq> None"
    then show "fst (for_range ul r requested) \<noteq> []" using line by (metis line_in_force_None empty_iff list.set(1))
  qed
  show ?thesis using line line_of_range_sequence[OF e] out(2) some by simp
qed

definition sample_lines :: unit_lines where
  "sample_lines = (let row = \<lambda>a ln q. \<lparr>sl_entry = \<lparr>row_address = a, row_file = 1, row_line = ln\<rparr>, sl_sequence = Some q\<rparr> in
     \<lparr>ul_entries = [row 0x1000 10 0x29, row 0x1008 70 0x40, row 0x1018 10 0x29, row 0x1020 11 0x29], ul_files = file_indices_default,
      ul_sequences = [\<lparr>ls_range = mk_range 0x1000 0x1100, ls_sequence = Some 0x29\<rparr>, \<lparr>ls_range = mk_range 0x1000 0x1100, ls_sequence = Some 0x40\<rparr>]\<rparr>)"

lemma for_range_answers_as_sequence_witness:
  "line_in_force 0x101c (fst (for_range sample_lines (mk_range 0x1010 0x1030) (Some 0x29))) = Some (1, 10)
    \<and> line_in_force 0x1014 (fst (for_range sample_lines (mk_range 0x1010 0x1030) None)) = Some (1, 10)"
proof -
  have s: "sorted (map line_address (ul_entries sample_lines))" by (simp add: sample_lines_def Let_def)
  have r: "r_start (mk_range 0x1010 0x1030) < r_end (mk_range 0x1010 0x1030)" by simp
  have "line_in_force 0x101c (fst (for_range sample_lines (mk_range 0x1010 0x1030) (Some 0x29)))
      = line_in_force 0x101c (rows_of_sequence sample_lines (Some 0x29))"
    by (rule conjunct1[OF conjunct2[OF for_range_answers_as_sequence[OF s r]], rule_format])
      (auto simp: sample_lines_def Let_def range_contains_def range_is_valid_def entry_sequence_def selects_def)
  moreover have "line_in_force 0x1014 (fst (for_range sample_lines (mk_range 0x1010 0x1030) None))
      = line_of_range sample_lines (mk_range 0x1010 0x1030) None 0x1014"
    using conjunct1[OF for_range_answers_as_sequence[OF s r, where requested = None], rule_format, of "0x1014"] by simp
  ultimately show ?thesis
    by (simp add: sample_lines_def Let_def rows_of_sequence_def selects_def line_in_force_def line_of_range_def entry_sequence_def
        range_contains_def range_is_valid_def)
qed

end
