(* ===== verification/DieTrees.thy ===== *)
theory DieTrees
  imports DwarfDies DwarfRows
begin

text \<open>
  The traversal of \<open>src/convert/dwarf/dies.rs\<close> against the tree it walks: the stack of open frames computes what a
  recursion over the tree of entries computes (\<open>extract_tree\<close>).
\<close>

section \<open>Trees of entries\<close>

datatype 'v die_tree = DieTree "'v die" "'v die_tree list"

fun dies_of :: "'v die_tree \<Rightarrow> 'v die list" where
  "dies_of (DieTree entry children) = entry # concat (map dies_of children)"

fun tree_at :: "int \<Rightarrow> 'v die_tree \<Rightarrow> bool" where
  "tree_at depth (DieTree entry children) \<longleftrightarrow> die_depth entry = depth \<and> (\<forall>child \<in> set children. tree_at (depth + 1) child)"

section \<open>Extraction by recursion\<close>

text \<open>\<open>ranges\<close> are those of the closest enclosing inline node, or of the function, and \<open>level\<close> is the number of
  enclosing inline nodes. A call site follows those of its descendants.\<close>

type_synonym counters = "nat \<times> conversion_warning list"

definition call_site_of :: "('d, 'v) gimli \<Rightarrow> ('d, 'v) detail_context \<Rightarrow> 'v die \<Rightarrow> call_site list result" where
  "call_site_of G ctx entry =
     (if dc_call_sites ctx \<and> die_tag entry = DW_TAG_call_site
      then let_ok (make_call_site G (dc_dwarf ctx) (dc_unit ctx) entry (dc_range ctx)) (\<lambda>site.
        Inr (case site of None \<Rightarrow> [] | Some site \<Rightarrow> [site]))
      else Inr [])"

definition inline_node_of :: "('d, 'v) gimli \<Rightarrow> ('d, 'v) detail_context \<Rightarrow> address_range list \<Rightarrow> nat \<Rightarrow> 'v die
    \<Rightarrow> counters \<Rightarrow> (inline_node option \<times> counters) result" where
  "inline_node_of G ctx ranges level entry counters =
     (if dc_inlines ctx \<and> die_tag entry = DW_TAG_inlined_subroutine
      then let_ok (make_inline_node G (dc_dwarf ctx) (dc_unit ctx) entry ranges (dc_files ctx) (snd counters)) (\<lambda>(node, warnings).
        case node of
          None \<Rightarrow> Inr (None, (fst counters, warnings))
        | Some node \<Rightarrow> let_ok (check_inline_depth (saturating_add level 1)) (\<lambda>_.
            Inr (Some node, (saturating_add (fst counters) 1, warnings))))
      else Inr (None, counters))"

fun extract_tree :: "('d, 'v) gimli \<Rightarrow> ('d, 'v) detail_context \<Rightarrow> address_range list \<Rightarrow> nat \<Rightarrow> 'v die_tree
    \<Rightarrow> counters \<Rightarrow> ((inline_node list \<times> call_site list) \<times> counters) result"
and extract_trees :: "('d, 'v) gimli \<Rightarrow> ('d, 'v) detail_context \<Rightarrow> address_range list \<Rightarrow> nat \<Rightarrow> 'v die_tree list
    \<Rightarrow> counters \<Rightarrow> ((inline_node list \<times> call_site list) \<times> counters) result" where
  "extract_tree G ctx ranges level (DieTree entry children) counters =
     let_ok (call_site_of G ctx entry) (\<lambda>own_sites.
     let_ok (inline_node_of G ctx ranges level entry counters) (\<lambda>(node, counters).
     case node of
       None \<Rightarrow>
         let_ok (extract_trees G ctx ranges level children counters) (\<lambda>((inlines, sites), counters).
         Inr ((inlines, sites @ own_sites), counters))
     | Some node \<Rightarrow>
         let_ok (extract_trees G ctx (node_ranges node) (Suc level) children counters) (\<lambda>((inlines, sites), counters).
         Inr (([add_children inlines node], sites @ own_sites), counters))))"
| "extract_trees G ctx ranges level [] counters = Inr (([], []), counters)"
| "extract_trees G ctx ranges level (tree # trees) counters =
     let_ok (extract_tree G ctx ranges level tree counters) (\<lambda>((inlines, sites), counters).
     let_ok (extract_trees G ctx ranges level trees counters) (\<lambda>((more_inlines, more_sites), counters).
     Inr ((inlines @ more_inlines, sites @ more_sites), counters)))"

section \<open>Closing frames\<close>

definition clear_below :: "int \<Rightarrow> descend_state \<Rightarrow> bool" where
  "clear_below depth s \<longleftrightarrow> (d_inline_stack s = [] \<or> fst (hd (d_inline_stack s)) < depth)
     \<and> (d_site_stack s = [] \<or> fst (hd (d_site_stack s)) < depth)"

lemma finish_while_stop: "stack = [] \<or> \<not> p (fst (hd stack)) \<Longrightarrow> finish_while p stack roots = (stack, roots)"
  by (subst finish_while.simps) auto

lemma finish_while_stopped: "finish_while p stack roots = (stack', roots') \<Longrightarrow> stack' = [] \<or> \<not> p (fst (hd stack'))"
proof (induction p stack roots arbitrary: stack' roots' rule: finish_while.induct)
  case (1 p stack roots)
  show ?case
  proof (cases "stack \<noteq> [] \<and> p (fst (hd stack))")
    case True
    then show ?thesis using 1(1)[OF True] 1(2) by (subst (asm) (2) finish_while.simps) simp
  next
    case False
    then show ?thesis using 1(2) by (subst (asm) finish_while.simps) auto
  qed
qed

lemma finish_while_twice:
  "(\<And>d. q d \<Longrightarrow> p d) \<Longrightarrow> (case finish_while q stack roots of (stack', roots') \<Rightarrow> finish_while p stack' roots') = finish_while p stack roots"
proof (induction q stack roots rule: finish_while.induct)
  case (1 q stack roots)
  show ?case
  proof (cases "stack \<noteq> [] \<and> q (fst (hd stack))")
    case True
    then have t: "stack \<noteq> [] \<and> p (fst (hd stack))" using 1(2) by blast
    have "finish_while q stack roots = finish_while q (fst (finish_inline stack roots)) (snd (finish_inline stack roots))"
      using True by (subst finish_while.simps) simp
    moreover have "finish_while p stack roots = finish_while p (fst (finish_inline stack roots)) (snd (finish_inline stack roots))"
      using t by (subst finish_while.simps) simp
    ultimately show ?thesis using 1(1)[OF True 1(2)] by simp
  next
    case False
    then show ?thesis using finish_while_stop[of stack q roots] by auto
  qed
qed

lemma finish_call_sites_stopped: "finish_call_sites stack depth outs = (stack', outs') \<Longrightarrow> stack' = [] \<or> fst (hd stack') < depth"
  by (induction stack depth outs rule: finish_call_sites.induct) (auto split: if_splits)

lemma finish_call_sites_stop: "stack = [] \<or> fst (hd stack) < depth \<Longrightarrow> finish_call_sites stack depth outs = (stack, outs)"
  by (cases "(stack, depth, outs)" rule: finish_call_sites.cases) auto

lemma finish_call_sites_twice:
  "d \<le> e \<Longrightarrow> (case finish_call_sites stack e outs of (stack', outs') \<Rightarrow> finish_call_sites stack' d outs') = finish_call_sites stack d outs"
  by (induction stack e outs rule: finish_call_sites.induct) auto

lemma close_frames_clear: "clear_below depth s \<Longrightarrow> close_frames depth s = s"
  by (simp add: close_frames_def clear_below_def finish_call_sites_stop finish_while_stop not_le)

lemma clear_close_frames: "clear_below depth (close_frames depth s)"
proof -
  obtain stack roots where i: "finish_while (\<lambda>d. depth \<le> d) (d_inline_stack s) (d_inlines s) = (stack, roots)" by (metis surj_pair)
  obtain sites outs where o: "finish_call_sites (d_site_stack s) depth (d_call_sites s) = (sites, outs)" by (metis surj_pair)
  show ?thesis using finish_while_stopped[OF i] finish_call_sites_stopped[OF o]
    by (auto simp: clear_below_def close_frames_def i o not_le)
qed

lemma close_frames_twice: "d \<le> e \<Longrightarrow> close_frames d (close_frames e s) = close_frames d s"
proof -
  assume de: "d \<le> e"
  obtain stack roots where i: "finish_while (\<lambda>x. e \<le> x) (d_inline_stack s) (d_inlines s) = (stack, roots)" by (metis surj_pair)
  obtain sites outs where o: "finish_call_sites (d_site_stack s) e (d_call_sites s) = (sites, outs)" by (metis surj_pair)
  have "finish_while (\<lambda>x. d \<le> x) stack roots = finish_while (\<lambda>x. d \<le> x) (d_inline_stack s) (d_inlines s)"
    using finish_while_twice[of "\<lambda>x. e \<le> x" "\<lambda>x. d \<le> x" "d_inline_stack s" "d_inlines s"] de i by auto
  moreover have "finish_call_sites sites d outs = finish_call_sites (d_site_stack s) d (d_call_sites s)"
    using finish_call_sites_twice[OF de, of "d_site_stack s" "d_call_sites s"] o by simp
  ultimately show ?thesis by (simp add: close_frames_def i o Let_def split: prod.splits)
qed

lemma visit_close_frames: "visit_descendant G ctx entry (close_frames (die_depth entry) s) = visit_descendant G ctx entry s"
  by (simp add: visit_descendant_def close_frames_twice)

text \<open>What a finished subtree leaves behind.\<close>

definition attach :: "(inline_node list \<times> call_site list) \<times> counters \<Rightarrow> descend_state \<Rightarrow> descend_state" where
  "attach r s =
     (let inlines = fst (fst r) in
      (case d_inline_stack s of
        [] \<Rightarrow> s\<lparr>d_inlines := d_inlines s @ inlines\<rparr>
      | (depth, node) # stack \<Rightarrow> s\<lparr>d_inline_stack := (depth, add_children inlines node) # stack\<rparr>)
      \<lparr>d_call_sites := d_call_sites s @ snd (fst r), d_count := fst (snd r), d_warnings := snd (snd r)\<rparr>)"

lemma add_children_simps [simp]: "node_ranges (add_children nodes node) = node_ranges node" "add_children [] node = node"
  "add_children more_nodes (add_children nodes node) = add_children (nodes @ more_nodes) node"
  by (cases node; simp)+

lemma attach_facts [simp]:
  "parent_ranges ctx (d_inline_stack (attach r s)) = parent_ranges ctx (d_inline_stack s)"
  "length (d_inline_stack (attach r s)) = length (d_inline_stack s)"
  "clear_below depth (attach r s) = clear_below depth s"
  "d_count (attach r s) = fst (snd r)" "d_warnings (attach r s) = snd (snd r)"
  by (auto simp: attach_def Let_def parent_ranges_def clear_below_def split: list.splits)

lemma attach_attach: "attach ((j, t), c') (attach ((i, s), c) st) = attach ((i @ j, s @ t), c') st"
  by (auto simp: attach_def Let_def split: list.splits)

lemma attach_pair: "attach q (attach r s) = attach ((fst (fst r) @ fst (fst q), snd (fst r) @ snd (fst q)), snd q) s"
  using attach_attach[of "fst (fst q)" "snd (fst q)" "snd q" "fst (fst r)" "snd (fst r)" "snd r" s] by simp

lemma attach_nothing: "attach (([], []), (d_count s, d_warnings s)) s = s"
  by (auto simp: attach_def Let_def split: list.splits)


lemma attach_start:
  "d_inlines (attach r (descend_state_new warnings)) = fst (fst r)" "d_call_sites (attach r (descend_state_new warnings)) = snd (fst r)"
  by (simp_all add: attach_def descend_state_new_def)

section \<open>The traversal of a subtree\<close>

definition opened :: "int \<Rightarrow> call_site list \<Rightarrow> inline_node option \<Rightarrow> counters \<Rightarrow> descend_state \<Rightarrow> descend_state" where
  "opened depth own node counters s =
     s\<lparr>d_site_stack := map (Pair depth) own @ d_site_stack s,
       d_inline_stack := (case node of None \<Rightarrow> d_inline_stack s | Some n \<Rightarrow> (depth, n) # d_inline_stack s),
       d_count := fst counters, d_warnings := snd counters\<rparr>"

definition counters_of :: "descend_state \<Rightarrow> counters" where
  "counters_of s = (d_count s, d_warnings s)"

abbreviation ranges_at :: "('d, 'v) detail_context \<Rightarrow> descend_state \<Rightarrow> address_range list" where
  "ranges_at ctx s \<equiv> parent_ranges ctx (d_inline_stack s)"

abbreviation level_of :: "descend_state \<Rightarrow> nat" where
  "level_of s \<equiv> length (d_inline_stack s)"

lemma visit_opens:
  assumes "clear_below (die_depth entry) s"
  shows "visit_descendant G ctx entry s =
    let_ok (call_site_of G ctx entry) (\<lambda>own.
    let_ok (inline_node_of G ctx (ranges_at ctx s) (level_of s) entry (counters_of s)) (\<lambda>(node, counters).
    Inr (opened (die_depth entry) own node counters s)))"
proof (cases "call_site_of G ctx entry")
  case (Inl err)
  then show ?thesis
    by (auto simp: visit_descendant_def close_frames_clear[OF assms] open_call_site_def call_site_of_def let_ok_eq_Inl split: if_splits)
next
  case (Inr own)
  have "open_call_site G ctx entry s = Inr (s\<lparr>d_site_stack := map (Pair (die_depth entry)) own @ d_site_stack s\<rparr>)"
  proof (cases "dc_call_sites ctx \<and> die_tag entry = DW_TAG_call_site")
    case True
    then obtain site where "make_call_site G (dc_dwarf ctx) (dc_unit ctx) entry (dc_range ctx) = Inr site"
      "own = (case site of None \<Rightarrow> [] | Some site \<Rightarrow> [site])" using Inr by (auto simp: call_site_of_def)
    then show ?thesis using True by (cases site) (simp_all add: open_call_site_def)
  next
    case False
    then have "own = []" using Inr by (auto simp: call_site_of_def)
    then show ?thesis using False by (auto simp: open_call_site_def)
  qed
  moreover have "open_inline G ctx entry (s\<lparr>d_site_stack := map (Pair (die_depth entry)) own @ d_site_stack s\<rparr>) =
    let_ok (inline_node_of G ctx (ranges_at ctx s) (level_of s) entry (counters_of s)) (\<lambda>(node, counters).
    Inr (opened (die_depth entry) own node counters s))"
  proof (cases "dc_inlines ctx \<and> die_tag entry = DW_TAG_inlined_subroutine")
    case True
    show ?thesis
    proof (cases "make_inline_node G (dc_dwarf ctx) (dc_unit ctx) entry (ranges_at ctx s) (dc_files ctx) (d_warnings s)")
      case (Inr found)
      obtain node warnings where f: "found = (node, warnings)" by (cases found)
      show ?thesis using True Inr unfolding f
        by (cases node; cases "check_inline_depth (saturating_add (level_of s) 1)")
          (simp_all add: open_inline_def inline_node_of_def counters_of_def opened_def)
    qed (use True in \<open>simp add: open_inline_def inline_node_of_def counters_of_def\<close>)
  qed (auto simp: open_inline_def inline_node_of_def opened_def counters_of_def)
  ultimately show ?thesis using Inr by (simp add: visit_descendant_def close_frames_clear[OF assms])
qed

lemma opened_clear: "clear_below depth s \<Longrightarrow> clear_below (depth + 1) (opened depth own node counters s)"
  by (cases own; cases node) (auto simp: clear_below_def opened_def)

lemma finish_own_sites: "stack = [] \<or> fst (hd stack) < depth \<Longrightarrow>
    finish_call_sites (map (Pair depth) own @ stack) depth outs = (stack, outs @ own)"
  by (induction own arbitrary: outs) (auto simp: finish_call_sites_stop)

lemma close_opened:
  assumes "clear_below depth s"
  shows "close_frames depth (attach ((inlines, sites), after) (opened depth own node counters s))
    = attach ((case node of None \<Rightarrow> inlines | Some n \<Rightarrow> [add_children inlines n], sites @ own), after) s"
proof -
  have st: "d_site_stack s = [] \<or> fst (hd (d_site_stack s)) < depth" "d_inline_stack s = [] \<or> \<not> depth \<le> fst (hd (d_inline_stack s))"
    using assms by (auto simp: clear_below_def)
  note fin = finish_own_sites[OF st(1)]
  show ?thesis
  proof (cases node)
    case None
    show ?thesis
    proof (cases "d_inline_stack s")
      case Nil
      then show ?thesis by (simp add: None close_frames_def attach_def opened_def fin finish_while_stop)
    next
      case (Cons top stack)
      obtain d n where top: "top = (d, n)" by (cases top)
      have "finish_while (\<lambda>x. depth \<le> x) ((d, add_children inlines n) # stack) roots = ((d, add_children inlines n) # stack, roots)" for roots
        by (rule finish_while_stop) (use st(2) Cons top in simp)
      then show ?thesis by (simp add: None Cons top close_frames_def attach_def opened_def fin)
    qed
  next
    case (Some n)
    have step: "finish_while (\<lambda>x. depth \<le> x) ((depth, m) # stack) roots
        = finish_while (\<lambda>x. depth \<le> x) (fst (finish_inline ((depth, m) # stack) roots)) (snd (finish_inline ((depth, m) # stack) roots))"
      for m stack roots by (subst finish_while.simps) simp
    show ?thesis
    proof (cases "d_inline_stack s")
      case Nil
      then show ?thesis by (simp add: Some close_frames_def attach_def opened_def fin step finish_while_stop)
    next
      case (Cons top stack)
      obtain d p where top: "top = (d, p)" by (cases top)
      have "finish_while (\<lambda>x. depth \<le> x) ((d, m) # stack) roots = ((d, m) # stack, roots)" for m roots
        by (rule finish_while_stop) (use st(2) Cons top in simp)
      then show ?thesis by (simp add: Some Cons top close_frames_def attach_def opened_def fin step)
    qed
  qed
qed

lemma close_opened_pair:
  "clear_below depth s \<Longrightarrow> close_frames depth (attach r (opened depth own node counters s))
    = attach ((case node of None \<Rightarrow> fst (fst r) | Some n \<Rightarrow> [add_children (fst (fst r)) n], snd (fst r) @ own), snd r) s"
  using close_opened[of depth s "fst (fst r)" "snd (fst r)" "snd r"] by simp

definition closes_as :: "('d, 'v) gimli \<Rightarrow> ('d, 'v) detail_context \<Rightarrow> int \<Rightarrow> 'v die list \<Rightarrow> descend_state
    \<Rightarrow> ((inline_node list \<times> call_site list) \<times> counters) result \<Rightarrow> bool" where
  "closes_as G ctx depth entries s extracted \<longleftrightarrow>
     let_ok (fold_ok (visit_descendant G ctx) entries s) (\<lambda>t. Inr (close_frames depth t))
       = let_ok extracted (\<lambda>r. Inr (attach r s))"

lemma visit_trees_close:
  assumes "\<forall>t \<in> set trees. tree_at depth t"
  shows "let_ok (fold_ok (visit_descendant G ctx) (concat (map dies_of trees)) (close_frames depth s)) (\<lambda>t. Inr (close_frames depth t))
    = let_ok (fold_ok (visit_descendant G ctx) (concat (map dies_of trees)) s) (\<lambda>t. Inr (close_frames depth t))"
proof (cases trees)
  case (Cons tree trees')
  obtain entry children where t: "tree = DieTree entry children" by (cases tree)
  have d: "die_depth entry = depth" using assms Cons t by simp
  show ?thesis using visit_close_frames[of G ctx entry s] by (simp add: Cons t d)
qed (simp add: close_frames_twice)

lemma closes_trees:
  assumes "\<And>t s. t \<in> set trees \<Longrightarrow> clear_below depth s \<Longrightarrow>
      closes_as G ctx depth (dies_of t) s (extract_tree G ctx (ranges_at ctx s) (level_of s) t (counters_of s))"
    and "\<forall>t \<in> set trees. tree_at depth t" and "clear_below depth s"
  shows "closes_as G ctx depth (concat (map dies_of trees)) s (extract_trees G ctx (ranges_at ctx s) (level_of s) trees (counters_of s))"
  using assms
proof (induction trees arbitrary: s)
  case Nil
  then show ?case by (simp add: closes_as_def close_frames_clear counters_of_def attach_nothing)
next
  case (Cons tree trees)
  let ?run = "fold_ok (visit_descendant G ctx)" and ?rest = "concat (map dies_of trees)"
  let ?e = "extract_tree G ctx (ranges_at ctx s) (level_of s) tree (counters_of s)"
  have all: "\<forall>t \<in> set trees. tree_at depth t" using Cons.prems(2) by simp
  have "closes_as G ctx depth (dies_of tree) s ?e" by (rule Cons.prems(1)) (use Cons.prems(3) in simp_all)
  then have first: "let_ok (?run (dies_of tree) s) (\<lambda>t. Inr (close_frames depth t)) = let_ok ?e (\<lambda>r. Inr (attach r s))"
    by (simp add: closes_as_def)
  have "let_ok (?run (dies_of tree @ ?rest) s) (\<lambda>t. Inr (close_frames depth t))
      = let_ok (?run (dies_of tree) s) (\<lambda>t. let_ok (?run ?rest t) (\<lambda>t. Inr (close_frames depth t)))"
    by (simp add: fold_ok_append let_ok_assoc)
  also have "\<dots> = let_ok (?run (dies_of tree) s) (\<lambda>t. let_ok (?run ?rest (close_frames depth t)) (\<lambda>t. Inr (close_frames depth t)))"
    by (simp only: visit_trees_close[OF all])
  also have "\<dots> = let_ok (let_ok (?run (dies_of tree) s) (\<lambda>t. Inr (close_frames depth t)))
      (\<lambda>t. let_ok (?run ?rest t) (\<lambda>t. Inr (close_frames depth t)))"
    by (simp add: let_ok_assoc)
  also have "\<dots> = let_ok ?e (\<lambda>r. let_ok (?run ?rest (attach r s)) (\<lambda>t. Inr (close_frames depth t)))"
    unfolding first by (simp add: let_ok_assoc)
  also have "\<dots> = let_ok ?e (\<lambda>r. let_ok (extract_trees G ctx (ranges_at ctx s) (level_of s) trees (snd r))
      (\<lambda>r'. Inr (attach r' (attach r s))))"
  proof (rule arg_cong[of _ _ "let_ok ?e"], rule ext)
    fix r
    have "closes_as G ctx depth ?rest (attach r s) (extract_trees G ctx (ranges_at ctx (attach r s)) (level_of (attach r s)) trees
        (counters_of (attach r s)))"
      by (rule Cons.IH) (use Cons.prems in simp_all)
    then show "let_ok (?run ?rest (attach r s)) (\<lambda>t. Inr (close_frames depth t))
        = let_ok (extract_trees G ctx (ranges_at ctx s) (level_of s) trees (snd r)) (\<lambda>r'. Inr (attach r' (attach r s)))"
      by (simp add: closes_as_def counters_of_def)
  qed
  also have "\<dots> = let_ok (extract_trees G ctx (ranges_at ctx s) (level_of s) (tree # trees) (counters_of s)) (\<lambda>r. Inr (attach r s))"
    by (simp add: let_ok_assoc case_prod_unfold attach_pair)
  finally show ?case by (simp add: closes_as_def)
qed

lemma closes_tree:
  assumes "tree_at depth t" and "clear_below depth s"
  shows "closes_as G ctx depth (dies_of t) s (extract_tree G ctx (ranges_at ctx s) (level_of s) t (counters_of s))"
  using assms
proof (induction t arbitrary: depth s)
  case (DieTree entry children)
  let ?run = "fold_ok (visit_descendant G ctx)" and ?kids = "concat (map dies_of children)"
  have d: "die_depth entry = depth" and kids: "\<forall>t \<in> set children. tree_at (depth + 1) t" using DieTree.prems(1) by auto
  have inner: "let_ok (?run ?kids (opened depth own node counters s)) (\<lambda>t. Inr (close_frames depth t))
      = let_ok (extract_trees G ctx (case node of None \<Rightarrow> ranges_at ctx s | Some n \<Rightarrow> node_ranges n)
          (case node of None \<Rightarrow> level_of s | Some _ \<Rightarrow> Suc (level_of s)) children counters)
        (\<lambda>((inlines, sites), after). Inr (attach ((case node of None \<Rightarrow> inlines | Some n \<Rightarrow> [add_children inlines n], sites @ own), after) s))"
    for own node counters
  proof -
    let ?o = "opened depth own node counters s"
    have "closes_as G ctx (depth + 1) ?kids ?o (extract_trees G ctx (ranges_at ctx ?o) (level_of ?o) children (counters_of ?o))"
      by (rule closes_trees) (use DieTree.IH kids opened_clear[OF DieTree.prems(2)] in auto)
    then have c: "let_ok (?run ?kids ?o) (\<lambda>t. Inr (close_frames (depth + 1) t))
        = let_ok (extract_trees G ctx (ranges_at ctx ?o) (level_of ?o) children (counters_of ?o)) (\<lambda>r. Inr (attach r ?o))"
      by (simp add: closes_as_def)
    have "let_ok (?run ?kids ?o) (\<lambda>t. Inr (close_frames depth t))
        = let_ok (let_ok (?run ?kids ?o) (\<lambda>t. Inr (close_frames (depth + 1) t))) (\<lambda>t. Inr (close_frames depth t))"
      by (simp add: let_ok_assoc close_frames_twice)
    also have "\<dots> = let_ok (extract_trees G ctx (ranges_at ctx ?o) (level_of ?o) children (counters_of ?o))
        (\<lambda>r. Inr (close_frames depth (attach r ?o)))"
      unfolding c by (simp add: let_ok_assoc)
    also have "ranges_at ctx ?o = (case node of None \<Rightarrow> ranges_at ctx s | Some n \<Rightarrow> node_ranges n)"
      by (cases node) (simp_all add: opened_def parent_ranges_def)
    also have "level_of ?o = (case node of None \<Rightarrow> level_of s | Some _ \<Rightarrow> Suc (level_of s))" by (cases node) (simp_all add: opened_def)
    also have "counters_of ?o = counters" by (simp add: opened_def counters_of_def)
    finally show ?thesis by (simp add: case_prod_unfold close_opened_pair[OF DieTree.prems(2)])
  qed
  have "let_ok (?run (dies_of (DieTree entry children)) s) (\<lambda>t. Inr (close_frames depth t))
      = let_ok (call_site_of G ctx entry) (\<lambda>own. let_ok (inline_node_of G ctx (ranges_at ctx s) (level_of s) entry (counters_of s))
          (\<lambda>(node, counters). let_ok (?run ?kids (opened depth own node counters s)) (\<lambda>t. Inr (close_frames depth t))))"
    using visit_opens[of entry s G ctx] DieTree.prems(2) d by (simp add: let_ok_assoc case_prod_unfold)
  also have "\<dots> = let_ok (extract_tree G ctx (ranges_at ctx s) (level_of s) (DieTree entry children) (counters_of s)) (\<lambda>r. Inr (attach r s))"
    unfolding inner
    by (simp add: let_ok_assoc case_prod_unfold)
      (intro arg_cong[of _ _ "let_ok _"] ext, simp add: let_ok_assoc case_prod_unfold split: option.splits)
  finally show ?case by (simp add: closes_as_def)
qed


section \<open>The descendants of a subprogram\<close>

definition ends_subtree :: "int \<Rightarrow> 'v die list \<Rightarrow> string option \<Rightarrow> bool" where
  "ends_subtree depth later failure \<longleftrightarrow> later = [] \<and> failure = None \<or> later \<noteq> [] \<and> die_depth (hd later) \<le> depth"

lemma dies_of_depth: "tree_at depth t \<Longrightarrow> e \<in> set (dies_of t) \<Longrightarrow> depth \<le> die_depth e"
proof (induction t arbitrary: depth)
  case (DieTree entry children)
  then show ?case by fastforce
qed

lemma visit_descendants_run:
  assumes "\<forall>e \<in> set entries. root_depth < die_depth e" and "ends_subtree root_depth later failure"
  shows "visit_descendants G ctx root_depth failure (entries @ later) s = fold_ok (visit_descendant G ctx) entries s"
  using assms(1)
proof (induction entries arbitrary: s)
  case Nil
  then show ?case using assms(2) by (cases later) (auto simp: ends_subtree_def)
next
  case (Cons e entries)
  then show ?case by (cases "visit_descendant G ctx e s") auto
qed

lemma finish_descendants_attach:
  "finish_descendants depth (attach r (descend_state_new w)) = attach r (descend_state_new w)"
  "finish_descendants depth (close_frames (depth + 1) s) = close_frames (depth + 1) s
    \<Longrightarrow> finish_descendants depth s = close_frames (depth + 1) s"
proof -
  show "finish_descendants depth (attach r (descend_state_new w)) = attach r (descend_state_new w)"
    by (simp add: finish_descendants_def attach_def descend_state_new_def finish_while_stop)
  assume a: "finish_descendants depth (close_frames (depth + 1) s) = close_frames (depth + 1) s"
  obtain stack roots where i: "finish_while (\<lambda>x. depth + 1 \<le> x) (d_inline_stack s) (d_inlines s) = (stack, roots)" by (metis surj_pair)
  obtain sites outs where o: "finish_call_sites (d_site_stack s) (depth + 1) (d_call_sites s) = (sites, outs)" by (metis surj_pair)
  have "finish_while (\<lambda>_. True) stack roots = finish_while (\<lambda>_. True) (d_inline_stack s) (d_inlines s)"
    using finish_while_twice[of "\<lambda>x. depth + 1 \<le> x" "\<lambda>_. True" "d_inline_stack s" "d_inlines s"] i by simp
  moreover have "finish_call_sites sites depth outs = finish_call_sites (d_site_stack s) depth (d_call_sites s)"
    using finish_call_sites_twice[of depth "depth + 1" "d_site_stack s" "d_call_sites s"] o by simp
  ultimately have "finish_descendants depth (close_frames (depth + 1) s) = finish_descendants depth s"
    by (simp add: finish_descendants_def close_frames_def i o Let_def split: prod.splits)
  then show "finish_descendants depth s = close_frames (depth + 1) s" using a by simp
qed

lemma collect_descendants_extracts:
  assumes "g_entries_at_offset G (dc_unit ctx) offset = Inr (dies_of (DieTree root children) @ later, failure)"
    and "tree_at depth (DieTree root children)" and "ends_subtree depth later failure"
  shows "collect_descendants G ctx offset warnings =
    let_ok (extract_trees G ctx [dc_range ctx] 0 children (0, warnings)) (\<lambda>r. Inr (attach r (descend_state_new warnings)))"
proof -
  let ?s = "descend_state_new warnings" and ?kids = "concat (map dies_of children)"
  let ?run = "fold_ok (visit_descendant G ctx) ?kids ?s"
  have d: "die_depth root = depth" and kids: "\<forall>t \<in> set children. tree_at (depth + 1) t" using assms(2) by auto
  have deep: "\<forall>e \<in> set ?kids. depth < die_depth e" using kids by (fastforce dest: dies_of_depth)
  have clear: "clear_below (depth + 1) ?s" by (simp add: clear_below_def descend_state_new_def)
  have "closes_as G ctx (depth + 1) ?kids ?s (extract_trees G ctx (ranges_at ctx ?s) (level_of ?s) children (counters_of ?s))"
    by (rule closes_trees) (use kids clear in \<open>auto intro: closes_tree\<close>)
  then have c: "let_ok ?run (\<lambda>t. Inr (close_frames (depth + 1) t))
      = let_ok (extract_trees G ctx [dc_range ctx] 0 children (0, warnings)) (\<lambda>r. Inr (attach r ?s))"
    by (simp add: closes_as_def counters_of_def parent_ranges_def descend_state_new_def)
  have "collect_descendants G ctx offset warnings = let_ok ?run (\<lambda>t. Inr (finish_descendants depth t))"
    using visit_descendants_run[OF deep assms(3), of G ctx ?s]
    by (simp add: collect_descendants_def assms(1) d)
  also have "\<dots> = let_ok ?run (\<lambda>t. Inr (close_frames (depth + 1) t))"
  proof (cases ?run)
    case (Inr t)
    then obtain r where "close_frames (depth + 1) t = attach r ?s" using c by (auto simp: let_ok_def split: sum.splits)
    then have "finish_descendants depth t = close_frames (depth + 1) t"
      by (intro finish_descendants_attach(2)) (simp add: finish_descendants_attach(1))
    then show ?thesis by (simp add: Inr)
  qed simp
  finally show ?thesis unfolding c .
qed

section \<open>Properties\<close>

text \<open>C36: The stack machine is the recursion. Where the entries that gimli yields from the offset of a subprogram are the
  depth-first listing of its tree, followed by the end of the list or by an entry that is not deeper than the
  subprogram, the inline tree, the call sites, the number of inline nodes and the warnings that the traversal
  with its two stacks extracts are those of a recursion over the tree: an inlined call takes the inline nodes below it
  as its children, an entry that gives no node hands them to the closest enclosing one, and a call site follows
  those below it. The first error is the same, too.\<close>

theorem extraction_follows_tree:
  assumes "g_entries_at_offset G (dc_unit ctx) offset = Inr (dies_of (DieTree root children) @ later, failure)"
    and "tree_at depth (DieTree root children)" and "ends_subtree depth later failure"
    and "dc_inlines ctx \<or> dc_call_sites ctx"
  shows "extract_subprogram_details G ctx offset name warnings =
    let_ok (extract_trees G ctx [dc_range ctx] 0 children (0, warnings)) (\<lambda>((inlines, sites), (count, warnings)).
    Inr (if inlines \<noteq> [] then Some (InlineNode [dc_range ctx] name 0 0 inlines) else None, sites, count, warnings))"
  using assms(4) unfolding extract_subprogram_details_def collect_descendants_extracts[OF assms(1-3)]
  by (cases "extract_trees G ctx [dc_range ctx] 0 children (0, warnings)") (auto simp: attach_start)

lemma extraction_follows_tree_witness:
  "let_ok (extract_trees sample_import \<lparr>dc_dwarf = 2, dc_unit = sample_unit 2, dc_range = mk_range 0x1000 0x1010,
        dc_files = file_indices_default, dc_inlines = True, dc_call_sites = True\<rparr> [mk_range 0x1000 0x1010] 0
        [DieTree (sample_entry 2 DW_TAG_inlined_subroutine [103]) []] (0, []))
      (\<lambda>((inlines, sites), (count, warnings)). Inr (inlines, count))
    = Inr ([InlineNode [mk_range 0x1004 0x1008] [103] 0 0 []], 1)"
proof -
  let ?ctx = "\<lparr>dc_dwarf = 2, dc_unit = sample_unit 2, dc_range = mk_range 0x1000 0x1010,
        dc_files = file_indices_default, dc_inlines = True, dc_call_sites = True\<rparr>"
  let ?kids = "[DieTree (sample_entry 2 DW_TAG_inlined_subroutine [103]) []]"
  have e: "g_entries_at_offset sample_import (dc_unit ?ctx) 10 = Inr (dies_of (DieTree sample_subprogram ?kids) @ [], None)"
    by (simp add: sample_import_def)
  have t: "tree_at 1 (DieTree sample_subprogram ?kids)" by (simp add: sample_subprogram_def sample_entry_def)
  have l: "ends_subtree 1 ([] :: bytes die list) None" by (simp add: ends_subtree_def)
  have "dc_inlines ?ctx \<or> dc_call_sites ?ctx" by simp
  from extraction_follows_tree[OF e t l this, of "[102]" "[]"] sample_details
  show ?thesis by (cases "extract_trees sample_import ?ctx [mk_range 0x1000 0x1010] 0 ?kids (0, [])") (auto split: if_splits)
qed

end
