(* ===== verification/DwarfImport.thy ===== *)
theory DwarfImport
  imports DwarfDies
begin

text \<open>
  \<open>src/convert/dwarf.rs\<close>: the import of subprograms into a builder, unit by unit, with split units. The
  mutable parts of \<open>ImportContext\<close> are the state. Finding and reading the file of a split unit is the record
  \<open>dwo_sources\<close>: a loose file as \<open>load_dwo\<close> and \<open>make_dwo\<close> give it, a package as \<open>find_cu\<close> gives it, and the
  rendering of errors.
\<close>

section \<open>Context\<close>

definition is_live_range :: "address_range \<Rightarrow> address_range list \<Rightarrow> bool" where
  "is_live_range r executable_ranges \<longleftrightarrow> \<not> range_is_empty r \<and> unat (range_size r) < 2 ^ 32
     \<and> list_ex (\<lambda>text_range. contains_range text_range r) executable_ranges"

record import_options =
  io_executable_ranges :: "address_range list"
  io_include_inlines :: bool
  io_include_call_sites :: bool

record 't import_state =
  im_builder :: "'t gsym_builder"
  im_stats :: conversion_stats
  im_warnings :: "conversion_warning list"

definition warn :: "conversion_warning \<Rightarrow> 't import_state \<Rightarrow> 't import_state" where
  "warn warning s = s\<lparr>im_warnings := im_warnings s @ [warning]\<rparr>"

definition count_rejected :: "'t import_state \<Rightarrow> 't import_state" where
  "count_rejected s = s\<lparr>im_stats := (im_stats s)\<lparr>st_rejected_ranges := saturating_add (st_rejected_ranges (im_stats s)) 1\<rparr>\<rparr>"

definition count_line_rows :: "nat \<Rightarrow> 't import_state \<Rightarrow> 't import_state" where
  "count_line_rows n s = s\<lparr>im_stats := (im_stats s)\<lparr>st_line_rows := saturating_add (st_line_rows (im_stats s)) n\<rparr>\<rparr>"

definition count_inline_nodes :: "nat \<Rightarrow> 't import_state \<Rightarrow> 't import_state" where
  "count_inline_nodes n s = s\<lparr>im_stats := (im_stats s)\<lparr>st_inline_nodes := saturating_add (st_inline_nodes (im_stats s)) n\<rparr>\<rparr>"

definition count_function :: "'t import_state \<Rightarrow> 't import_state" where
  "count_function s = s\<lparr>im_stats := (im_stats s)\<lparr>st_dwarf_functions := saturating_add (st_dwarf_functions (im_stats s)) 1\<rparr>\<rparr>"

definition count_split_unit :: "'t import_state \<Rightarrow> 't import_state" where
  "count_split_unit s = s\<lparr>im_stats := (im_stats s)\<lparr>st_split_dwarf_units := saturating_add (st_split_dwarf_units (im_stats s)) 1\<rparr>\<rparr>"

section \<open>One range of a subprogram\<close>

text \<open>What the import of a unit has at hand: the unit with its lines and files, and the subprogram with its name.\<close>

record ('d, 'v) subprogram =
  sp_dwarf :: 'd
  sp_unit :: "'v dwarf_unit"
  sp_lines :: unit_lines
  sp_files :: file_indices
  sp_entry :: "'v die"
  sp_name :: bytes

text \<open>The rows of the range, with a warning for a sequence that does not exist, or the declaration line.\<close>

definition sequence_warning :: "('d, 'v) subprogram \<Rightarrow> u64 option \<Rightarrow> 't import_state \<Rightarrow> 't import_state result" where
  "sequence_warning sp requested s =
     (case requested of
        None \<Rightarrow> Inl (InvalidModel ''line lookup rejected a statement sequence the subprogram does not request'')
      | Some sequence_offset \<Rightarrow>
          let_ok (absolute_entry_offset (sp_unit sp) (die_offset (sp_entry sp))) (\<lambda>offset.
          Inr (warn (InvalidStatementSequence (word_of_nat offset) sequence_offset) s)))"

definition function_rows :: "'t file_env \<Rightarrow> ('d, 'v) gimli \<Rightarrow> ('d, 'v) subprogram \<Rightarrow> address_range \<Rightarrow> 't import_state
    \<Rightarrow> (line_entry list \<times> 't import_state) result" where
  "function_rows env G sp candidate s =
     (let requested = statement_sequence_offset G (sp_unit sp) (sp_entry sp);
          (rows, invalid) = for_range (sp_lines sp) candidate requested in
      let_ok (if invalid then sequence_warning sp requested s else Inr s) (\<lambda>s.
      if rows \<noteq> [] then Inr (rows, s)
      else
        let_ok (resolve_declaration_line env G (sp_dwarf sp) (sp_unit sp) (sp_entry sp) (sp_files sp) (im_builder s) (im_warnings s))
          (\<lambda>(declaration, b, warnings).
        let s = s\<lparr>im_builder := b, im_warnings := warnings\<rparr> in
        Inr (case declaration of None \<Rightarrow> [] | Some row \<Rightarrow> [row\<lparr>row_address := r_start candidate\<rparr>], s))))"

definition import_function :: "'t file_env \<Rightarrow> ('d, 'v) gimli \<Rightarrow> import_options \<Rightarrow> ('d, 'v) subprogram \<Rightarrow> address_range
    \<Rightarrow> 't import_state \<Rightarrow> 't import_state result" where
  "import_function env G options sp candidate s =
     let_ok (function_rows env G sp candidate s) (\<lambda>(rows, s).
     let s = count_line_rows (length rows) s;
         ctx = \<lparr>dc_dwarf = sp_dwarf sp, dc_unit = sp_unit sp, dc_range = candidate, dc_files = sp_files sp,
           dc_inlines = io_include_inlines options, dc_call_sites = io_include_call_sites options\<rparr> in
     let_ok (extract_subprogram_details G ctx (die_offset (sp_entry sp)) (sp_name sp) (im_warnings s))
       (\<lambda>(inline, call_sites, inline_count, warnings).
     let s = count_inline_nodes inline_count (s\<lparr>im_warnings := warnings\<rparr>) in
     let_ok (add_function (Function candidate (sp_name sp) rows inline [] call_sites) (im_builder s)) (\<lambda>b.
     Inr (count_function (s\<lparr>im_builder := b\<rparr>)))))"

definition import_range :: "'t file_env \<Rightarrow> ('d, 'v) gimli \<Rightarrow> import_options \<Rightarrow> ('d, 'v) subprogram \<Rightarrow> u64 \<times> u64
    \<Rightarrow> 't import_state \<Rightarrow> 't import_state result" where
  "import_range env G options sp r s =
     (let candidate = mk_range (fst r) (snd r);
          possible_tombstone = (r_start candidate = 0 \<or> g_is_tombstone G (sp_unit sp) (r_start candidate)) in
      if possible_tombstone \<and> \<not> list_ex (\<lambda>text_range. range_contains text_range (r_start candidate)) (io_executable_ranges options)
      then Inr (count_rejected s)
      else if \<not> is_live_range candidate (io_executable_ranges options)
      then Inr (warn (RejectedRange candidate) (count_rejected s))
      else import_function env G options sp candidate s)"

section \<open>The subprograms of a unit\<close>

fun next_subprogram :: "'v raw_entry list \<Rightarrow> ('v die \<times> 'v raw_entry list) option gimli_result" where
  "next_subprogram [] = Inr None"
| "next_subprogram (entry # entries) =
     (case raw_abbreviation entry of
        Inl message \<Rightarrow> Inl message
      | Inr None \<Rightarrow> next_subprogram entries
      | Inr (Some tag) \<Rightarrow>
          if tag = DW_TAG_subprogram
          then (case raw_die entry of Inl message \<Rightarrow> Inl message | Inr die \<Rightarrow> Inr (Some (die, entries)))
          else (case raw_attributes entry of Inl message \<Rightarrow> Inl message | Inr _ \<Rightarrow> next_subprogram entries))"

text \<open>A malformed range list is reported; the ranges before the failure are imported.\<close>

definition import_subprogram :: "'t file_env \<Rightarrow> ('d, 'v) gimli \<Rightarrow> import_options \<Rightarrow> 'd \<Rightarrow> 'v dwarf_unit \<Rightarrow> unit_lines
    \<Rightarrow> file_indices \<Rightarrow> 'v die \<Rightarrow> 't import_state \<Rightarrow> 't import_state result" where
  "import_subprogram env G options dwarf u executable_lines files entry s =
     let_ok (resolve_name G dwarf u entry 0) (\<lambda>name.
     case name of None \<Rightarrow> Inr s | Some name \<Rightarrow>
     (case g_die_ranges G dwarf u entry of
        Inl message \<Rightarrow> Inr (warn (MalformedRanges False message) (count_rejected s))
      | Inr (ranges, failure) \<Rightarrow>
          let sp = \<lparr>sp_dwarf = dwarf, sp_unit = u, sp_lines = executable_lines, sp_files = files, sp_entry = entry, sp_name = name\<rparr> in
          let_ok (fold_ok (import_range env G options sp) ranges s) (\<lambda>s.
          Inr (case failure of None \<Rightarrow> s | Some message \<Rightarrow> warn (MalformedRanges True message) (count_rejected s)))))"

lemma next_subprogram_shorter: "next_subprogram entries = Inr (Some (die, rest)) \<Longrightarrow> length rest < length entries"
  by (induction entries) (auto split: sum.splits option.splits if_splits)

function import_entries :: "'t file_env \<Rightarrow> ('d, 'v) gimli \<Rightarrow> import_options \<Rightarrow> 'd \<Rightarrow> 'v dwarf_unit \<Rightarrow> unit_lines
    \<Rightarrow> file_indices \<Rightarrow> 'v raw_entry list \<Rightarrow> 't import_state \<Rightarrow> 't import_state result" where
  "import_entries env G options dwarf u executable_lines files entries s =
     (case next_subprogram entries of
        Inl message \<Rightarrow> Inl (gimli_error message)
      | Inr None \<Rightarrow> Inr s
      | Inr (Some (entry, rest)) \<Rightarrow>
          let_ok (import_subprogram env G options dwarf u executable_lines files entry s)
            (import_entries env G options dwarf u executable_lines files rest))"
  by pat_completeness auto
termination
  by (relation "measure (\<lambda>(env, G, options, dwarf, u, executable_lines, files, entries, s). length entries)")
    (auto dest: next_subprogram_shorter)

declare import_entries.simps [simp del]

definition import_unit_details :: "'t file_env \<Rightarrow> ('d, 'v) gimli \<Rightarrow> import_options \<Rightarrow> 'd \<Rightarrow> 'v dwarf_unit \<Rightarrow> unit_lines
    \<Rightarrow> file_indices \<Rightarrow> 't import_state \<Rightarrow> 't import_state result" where
  "import_unit_details env G options dwarf u executable_lines files s =
     let_ok (from_gimli (g_entries_raw G u)) (\<lambda>entries. import_entries env G options dwarf u executable_lines files entries s)"

section \<open>Units\<close>

definition collect_unit_lines :: "'t file_env \<Rightarrow> ('d, 'v) gimli \<Rightarrow> 'd \<Rightarrow> 'v dwarf_unit \<Rightarrow> 't import_state
    \<Rightarrow> (unit_lines \<times> 't import_state) result" where
  "collect_unit_lines env G dwarf u s =
     let_ok (collect_lines env G dwarf u (im_builder s) (im_warnings s)) (\<lambda>(ul, b, warnings).
     Inr (ul, s\<lparr>im_builder := b, im_warnings := warnings\<rparr>))"

definition import_unit :: "'t file_env \<Rightarrow> ('d, 'v) gimli \<Rightarrow> import_options \<Rightarrow> 'd \<Rightarrow> 'v dwarf_unit
    \<Rightarrow> 't import_state \<Rightarrow> 't import_state result" where
  "import_unit env G options dwarf u s =
     let_ok (collect_unit_lines env G dwarf u s) (\<lambda>(ul, s).
     import_unit_details env G options dwarf u ul (ul_files ul) s)"

definition import_split_unit :: "'t file_env \<Rightarrow> ('d, 'v) gimli \<Rightarrow> import_options \<Rightarrow> 'd \<Rightarrow> 'v dwarf_unit \<Rightarrow> unit_lines
    \<Rightarrow> 't import_state \<Rightarrow> 't import_state result" where
  "import_split_unit env G options dwarf u skeleton_lines s =
     let_ok (collect_unit_lines env G dwarf u s) (\<lambda>(ul, s).
     let executable_lines = (if ul_entries skeleton_lines = [] \<and> ul_sequences skeleton_lines = [] then ul else skeleton_lines);
         files = (if file_indices_is_empty (ul_files ul) then ul_files executable_lines else ul_files ul) in
     import_unit_details env G options dwarf u executable_lines files s)"

definition import_split_unit_for_skeleton :: "'t file_env \<Rightarrow> ('d, 'v) gimli \<Rightarrow> import_options \<Rightarrow> 'd \<Rightarrow> 'v dwarf_unit \<Rightarrow> 'v dwarf_unit
    \<Rightarrow> unit_lines \<Rightarrow> 't import_state \<Rightarrow> 't import_state result" where
  "import_split_unit_for_skeleton env G options dwarf split_unit skeleton_unit skeleton_lines s =
     let_ok (import_split_unit env G options dwarf (g_copy_relocated G split_unit skeleton_unit) skeleton_lines s) (\<lambda>s.
     Inr (count_split_unit s))"

fun find_split_unit_in :: "('d, 'v) gimli \<Rightarrow> 'd \<Rightarrow> u64 \<Rightarrow> unit_header list \<Rightarrow> 'v dwarf_unit option \<Rightarrow> 'v dwarf_unit result" where
  "find_split_unit_in G dwarf expected_id [] matched =
     (case snd (g_units G dwarf) of
        Some message \<Rightarrow> Inl (gimli_error message)
      | None \<Rightarrow> ok_or matched (malformed ''split DWARF unit'' (''ID mismatch: expected '' @ hex expected_id)))"
| "find_split_unit_in G dwarf expected_id (header # headers) matched =
     let_ok (from_gimli (g_unit G dwarf header)) (\<lambda>u.
     if u_dwo_id u \<noteq> Some expected_id then find_split_unit_in G dwarf expected_id headers matched
     else if matched \<noteq> None then Inl (malformed ''split DWARF unit'' (''duplicate ID '' @ hex expected_id))
     else find_split_unit_in G dwarf expected_id headers (Some u))"

definition find_split_unit :: "('d, 'v) gimli \<Rightarrow> 'd \<Rightarrow> u64 \<Rightarrow> 'v dwarf_unit result" where
  "find_split_unit G dwarf expected_id = find_split_unit_in G dwarf expected_id (fst (g_units G dwarf)) None"

section \<open>The whole import\<close>

record ('d, 'v) dwo_sources =
  dwo_filesystem :: "('v dwarf_unit \<Rightarrow> u64 \<Rightarrow> 'd option result) option"
  dwo_package :: "(u64 \<Rightarrow> 'd option result) option"
  dwo_error_text :: "error \<Rightarrow> string"

datatype 't loose_dwo_import = Imported "'t import_state" | Unavailable | Failed string

definition try_import_loose_dwo :: "'t file_env \<Rightarrow> ('d, 'v) gimli \<Rightarrow> import_options \<Rightarrow> ('d, 'v) dwo_sources
    \<Rightarrow> ('v dwarf_unit \<Rightarrow> u64 \<Rightarrow> 'd option result) \<Rightarrow> 'v dwarf_unit \<Rightarrow> u64 \<Rightarrow> unit_lines \<Rightarrow> 't import_state
    \<Rightarrow> 't loose_dwo_import result" where
  "try_import_loose_dwo env G options sources load_dwo skeleton_unit dwo_id skeleton_lines s =
     (case load_dwo skeleton_unit dwo_id of
        Inl err \<Rightarrow> Inr (Failed (''DWO: '' @ dwo_error_text sources err))
      | Inr None \<Rightarrow> Inr Unavailable
      | Inr (Some dwo) \<Rightarrow>
          (case find_split_unit G dwo dwo_id of
             Inl err \<Rightarrow> Inr (Failed (''DWO: '' @ dwo_error_text sources err))
           | Inr split_unit \<Rightarrow>
               let_ok (import_split_unit_for_skeleton env G options dwo split_unit skeleton_unit skeleton_lines s) (\<lambda>s.
               Inr (Imported s))))"

text \<open>The package, once no loose file has given the unit; then the skeleton alone.\<close>

definition import_from_package :: "'t file_env \<Rightarrow> ('d, 'v) gimli \<Rightarrow> import_options \<Rightarrow> ('d, 'v) dwo_sources \<Rightarrow> 'd
    \<Rightarrow> 'v dwarf_unit \<Rightarrow> u64 \<Rightarrow> unit_lines \<Rightarrow> string list \<Rightarrow> 't import_state \<Rightarrow> 't import_state result" where
  "import_from_package env G options sources dwarf u dwo_id skeleton_lines failures s =
     (let unavailable = (\<lambda>failures.
        import_unit_details env G options dwarf u skeleton_lines (ul_files skeleton_lines)
          (warn (SplitDwarfUnavailable dwo_id failures) s)) in
      case dwo_package sources of
        None \<Rightarrow> unavailable failures
      | Some find_cu \<Rightarrow>
          (case find_cu dwo_id of
             Inr (Some dwo) \<Rightarrow>
               let_ok (find_split_unit G dwo dwo_id) (\<lambda>split_unit.
               import_split_unit_for_skeleton env G options dwo split_unit u skeleton_lines s)
           | Inr None \<Rightarrow> unavailable (failures @ [''unit is absent from the DWP index''])
           | Inl err \<Rightarrow> unavailable (failures @ [''DWP: '' @ dwo_error_text sources err])))"

definition import_skeleton :: "'t file_env \<Rightarrow> ('d, 'v) gimli \<Rightarrow> import_options \<Rightarrow> ('d, 'v) dwo_sources \<Rightarrow> 'd
    \<Rightarrow> 'v dwarf_unit \<Rightarrow> u64 \<Rightarrow> 't import_state \<Rightarrow> 't import_state result" where
  "import_skeleton env G options sources dwarf u dwo_id s =
     let_ok (collect_unit_lines env G dwarf u s) (\<lambda>(skeleton_lines, s).
     case dwo_filesystem sources of
       None \<Rightarrow> import_from_package env G options sources dwarf u dwo_id skeleton_lines [] s
     | Some load_dwo \<Rightarrow>
         let_ok (try_import_loose_dwo env G options sources load_dwo u dwo_id skeleton_lines s) (\<lambda>loose.
         case loose of
           Imported s \<Rightarrow> Inr s
         | Unavailable \<Rightarrow> import_from_package env G options sources dwarf u dwo_id skeleton_lines [] s
         | Failed reason \<Rightarrow> import_from_package env G options sources dwarf u dwo_id skeleton_lines [reason] s))"

definition import_header :: "'t file_env \<Rightarrow> ('d, 'v) gimli \<Rightarrow> import_options \<Rightarrow> ('d, 'v) dwo_sources \<Rightarrow> 'd
    \<Rightarrow> unit_header \<Rightarrow> 't import_state \<Rightarrow> 't import_state result" where
  "import_header env G options sources dwarf header s =
     let_ok (from_gimli (g_unit G dwarf header)) (\<lambda>u.
     case u_dwo_id u of
       Some dwo_id \<Rightarrow> import_skeleton env G options sources dwarf u dwo_id s
     | None \<Rightarrow> import_unit env G options dwarf u s)"

definition import_dwarf :: "'t file_env \<Rightarrow> ('d, 'v) gimli \<Rightarrow> import_options \<Rightarrow> ('d, 'v) dwo_sources \<Rightarrow> 'd
    \<Rightarrow> 't import_state \<Rightarrow> 't import_state result" where
  "import_dwarf env G options sources dwarf s =
     let_ok (for_each (import_header env G options sources dwarf) (g_units G dwarf) s) (\<lambda>s.
     Inr (if io_include_inlines options \<and> st_inline_nodes (im_stats s) = 0 then warn NoInlineRecords s else s))"

end
