(* ===== verification/ObjectFile.thy ===== *)
theory ObjectFile
  imports Gimli Diagnostics
begin

text \<open>
  \<open>src/convert/elf/image.rs\<close> and \<open>is_debug_section\<close> of \<open>src/convert/mod.rs\<close>: the layout of
  the executable sections of an ELF image, the identity of companion files, and the symbols of a file. The object crate, which
  parses the files, is not part of the sources: what it hands out is a record of the accessors that the sources call, a file
  that it cannot parse is the message of its error, and the functions that look things up by an index or a name are fields.
\<close>

section \<open>What the object crate reads\<close>

datatype section_kind = TextSection | DebugSection | OtherSection nat

datatype symbol_kind = TextSymbol | OtherSymbol nat

datatype object_kind = Executable | Dynamic | Relocatable | OtherObject nat

datatype relocation_kind =
    KindAbsolute | KindRelative | KindSectionOffset | KindUnknown | KindNone | KindGot | KindGotRelative
  | KindGotBaseRelative | KindGotBaseOffset | KindPltRelative | KindImageOffset | KindSectionIndex | KindOther nat

datatype relocation_encoding = EncodingGeneric | EncodingX86Signed | EncodingOther nat

datatype relocation_target = TargetSymbol nat | TargetSection nat | TargetAbsolute | TargetOther nat

record relocation =
  rl_kind :: relocation_kind
  rl_encoding :: relocation_encoding
  rl_target :: relocation_target
  rl_addend :: int \<comment> \<open>\<open>i64\<close>\<close>
  rl_implicit_addend :: bool

record elf_section =
  sn_index :: nat
  sn_kind :: section_kind
  sn_name :: "bytes gimli_result"
  sn_address :: u64
  sn_size :: u64
  sn_data :: "bytes gimli_result"
  sn_uncompressed_data :: "bytes gimli_result"
  sn_relocations :: "(u64 \<times> relocation) list"

record elf_symbol =
  sy_kind :: symbol_kind
  sy_is_definition :: bool
  sy_section_index :: "nat option"
  sy_address :: u64
  sy_size :: u64
  sy_name :: "bytes gimli_result"

record elf_file =
  ef_is_elf :: bool \<comment> \<open>\<open>format\<close>\<close>
  ef_kind :: object_kind
  ef_architecture :: nat
  ef_is_64 :: bool
  ef_is_little_endian :: bool
  ef_build_id :: "bytes option gimli_result"
  ef_debuglink :: "(bytes \<times> u32) option gimli_result"
  ef_debugaltlink :: "(bytes \<times> bytes) option gimli_result"
  ef_sections :: "elf_section list"
  ef_section_by_index :: "nat \<Rightarrow> elf_section gimli_result"
  ef_section_by_name :: "string \<Rightarrow> elf_section option"
  ef_symbols :: "elf_symbol list"
  ef_dynamic_symbols :: "elf_symbol list"
  ef_symbol_by_index :: "nat \<Rightarrow> elf_symbol gimli_result"

section \<open>Files\<close>

text \<open>\<open>map_err\<close> with \<open>malformed\<close> of \<open>image.rs\<close>: the message of the error is the detail.\<close>

definition or_malformed :: "string \<Rightarrow> 'a gimli_result \<Rightarrow> 'a result" where
  "or_malformed context r = (case r of Inl message \<Rightarrow> Inl (malformed context message) | Inr v \<Rightarrow> Inr v)"

text \<open>\<open>parse\<close> is \<open>object::File::parse\<close>.\<close>

definition parse_elf :: "(bytes \<Rightarrow> elf_file gimli_result) \<Rightarrow> bytes \<Rightarrow> elf_input_kind \<Rightarrow> elf_file result" where
  "parse_elf parse bs input =
     (case parse bs of
        Inl message \<Rightarrow> Inl (ElfParse input message)
      | Inr f \<Rightarrow> if \<not> ef_is_elf f then Inl (NotElf input) else Inr f)"

definition require_supported_kind :: "elf_file \<Rightarrow> unit result" where
  "require_supported_kind f =
     (if ef_kind f = Executable \<or> ef_kind f = Dynamic \<or> ef_kind f = Relocatable then Inr ()
      else Inl (InvalidModel ''ELF input is not ET_EXEC, ET_DYN, or ET_REL''))"

definition is_debug_section :: "elf_section \<Rightarrow> bool" where
  "is_debug_section section \<longleftrightarrow> sn_kind section = DebugSection
     \<or> (case sn_name section of Inl _ \<Rightarrow> False
        | Inr name \<Rightarrow> starts_with name (bytes_of_string ''.debug_'') \<or> starts_with name (bytes_of_string ''.zdebug_''))"

definition cross_check_elf_architecture :: "elf_file \<Rightarrow> elf_file \<Rightarrow> elf_input_kind \<Rightarrow> unit result" where
  "cross_check_elf_architecture img companion input =
     (if ef_architecture img \<noteq> ef_architecture companion \<or> ef_is_64 img \<noteq> ef_is_64 companion
        \<or> ef_is_little_endian img \<noteq> ef_is_little_endian companion
      then Inl (CompanionMismatch input Architecture) else Inr ())"

definition cross_check_elf_identity :: "elf_file \<Rightarrow> elf_file \<Rightarrow> elf_input_kind \<Rightarrow> unit result" where
  "cross_check_elf_identity img companion input =
     let_ok (cross_check_elf_architecture img companion input) (\<lambda>_.
     let_ok (or_malformed ''image build ID'' (ef_build_id img)) (\<lambda>image_id.
     let_ok (or_malformed ''companion build ID'' (ef_build_id companion)) (\<lambda>companion_id.
     if image_id \<noteq> None \<and> companion_id \<noteq> None \<and> image_id \<noteq> companion_id
     then Inl (CompanionMismatch input BuildId) else Inr ())))"

section \<open>The layout of the sections\<close>

text \<open>The sections of a relocatable file have no addresses; they are laid out one behind the other.\<close>

record address_layout =
  al_ranges :: "address_range list"
  al_section_bases :: "nat \<Rightarrow> u64 option"
  al_relocatable :: bool

definition align_section :: "u64 \<Rightarrow> u64 result" where
  "align_section v = ok_or (map_option (\<lambda>v. v AND NOT 15) (checked_add_u64 v 15)) (Overflow ''relocatable section alignment'')"

record layout_state =
  ly_ranges :: "address_range list"
  ly_bases :: "nat \<Rightarrow> u64 option"
  ly_next :: u64

definition lay_text_section :: "bool \<Rightarrow> elf_section \<Rightarrow> layout_state \<Rightarrow> layout_state result" where
  "lay_text_section relocatable section s =
     (if sn_kind section \<noteq> TextSection \<or> sn_size section = 0 then Inr s
      else
        let_ok (if relocatable then align_section (ly_next s) else Inr (sn_address section)) (\<lambda>base.
        let_ok (ok_or (checked_add_u64 base (sn_size section)) (Overflow ''executable section end'')) (\<lambda>stop.
        let s = s\<lparr>ly_ranges := ly_ranges s @ [mk_range base stop]\<rparr> in
        Inr (if relocatable then s\<lparr>ly_bases := (ly_bases s)(sn_index section \<mapsto> base), ly_next := stop\<rparr> else s))))"

definition lay_other_section :: "elf_section \<Rightarrow> layout_state \<Rightarrow> layout_state result" where
  "lay_other_section section s =
     (if sn_size section = 0 \<or> ly_bases s (sn_index section) \<noteq> None \<or> is_debug_section section then Inr s
      else
        let_ok (align_section (ly_next s)) (\<lambda>base.
        let_ok (ok_or (checked_add_u64 base (sn_size section)) (Overflow ''relocatable section end'')) (\<lambda>stop.
        Inr (s\<lparr>ly_bases := (ly_bases s)(sn_index section \<mapsto> base), ly_next := stop\<rparr>))))"

definition address_layout_new :: "elf_file \<Rightarrow> address_layout result" where
  "address_layout_new f =
     (let relocatable = (ef_kind f = Relocatable) in
      let_ok (fold_ok (lay_text_section relocatable) (ef_sections f) \<lparr>ly_ranges = [], ly_bases = Map.empty, ly_next = 0\<rparr>) (\<lambda>s.
      let_ok (if relocatable then fold_ok lay_other_section (ef_sections f) s else Inr s) (\<lambda>s.
      Inr \<lparr>al_ranges = sort (ly_ranges s), al_section_bases = ly_bases s, al_relocatable = relocatable\<rparr>)))"

definition section_base :: "address_layout \<Rightarrow> elf_section \<Rightarrow> u64 result" where
  "section_base layout section =
     (if \<not> al_relocatable layout \<or> is_debug_section section then Inr (sn_address section)
      else ok_or (al_section_bases layout (sn_index section)) (InvalidModel ''relocation targets an unknown section''))"

section \<open>Symbols\<close>

datatype symbol_disposition = Import | Reject

text \<open>One round of the loop: the function a symbol stands for and what becomes of it, or nothing.\<close>

definition symbol_address :: "elf_file \<Rightarrow> address_layout \<Rightarrow> elf_symbol \<Rightarrow> u64 option result" where
  "symbol_address f layout symbol =
     (if al_relocatable layout
      then (case sy_section_index symbol of
          None \<Rightarrow> Inr None
        | Some index \<Rightarrow>
            let_ok (or_malformed ''ELF symbol section'' (ef_section_by_index f index)) (\<lambda>section.
            let_ok (section_base layout section) (\<lambda>base.
            let_ok (ok_or (checked_add_u64 base (sy_address symbol)) (Overflow ''relocatable symbol address'')) (\<lambda>address.
            Inr (Some address)))))
      else Inr (Some (sy_address symbol)))"

definition symbol_function :: "elf_file \<Rightarrow> address_layout \<Rightarrow> elf_symbol \<Rightarrow> (gfunction \<times> symbol_disposition) option result" where
  "symbol_function f layout symbol =
     (if sy_kind symbol \<noteq> TextSymbol \<or> \<not> sy_is_definition symbol then Inr None
      else
        let_ok (symbol_address f layout symbol) (\<lambda>address.
        case address of None \<Rightarrow> Inr None | Some address \<Rightarrow>
        (case sy_name symbol of
           Inr (c # name) \<Rightarrow>
             let_ok (ok_or (checked_add_u64 address (sy_size symbol)) (Overflow ''ELF symbol end'')) (\<lambda>stop.
             let symbol_range = mk_range address stop; fn = function_new symbol_range (c # name) in
             Inr (Some (fn,
               if unat (sy_size symbol) > 2 ^ 32 - 1 then Reject
               else if \<not> list_ex (\<lambda>r. contains_range r symbol_range) (al_ranges layout) then Reject
               else Import)))
         | _ \<Rightarrow> Inr None)))"

definition visit_symbol :: "elf_file \<Rightarrow> address_layout \<Rightarrow> (gfunction \<Rightarrow> symbol_disposition \<Rightarrow> 's \<Rightarrow> 's result)
    \<Rightarrow> elf_symbol \<Rightarrow> 's \<Rightarrow> 's result" where
  "visit_symbol f layout visitor symbol s =
     let_ok (symbol_function f layout symbol) (\<lambda>found.
     case found of None \<Rightarrow> Inr s | Some (fn, disposition) \<Rightarrow> visitor fn disposition s)"

definition visit_symbols :: "elf_file \<Rightarrow> address_layout \<Rightarrow> (gfunction \<Rightarrow> symbol_disposition \<Rightarrow> 's \<Rightarrow> 's result)
    \<Rightarrow> 's \<Rightarrow> 's result" where
  "visit_symbols f layout visitor s = fold_ok (visit_symbol f layout visitor) (ef_symbols f @ ef_dynamic_symbols f) s"

section \<open>Sections are laid out apart\<close>

lemma fold_ok_each:
  assumes "fold_ok f xs s = Inr t" and "I s"
    and step: "\<And>x u v. x \<in> set xs \<Longrightarrow> I u \<Longrightarrow> f x u = Inr v \<Longrightarrow> I v \<and> Q x v \<and> (\<forall>y. Q y u \<longrightarrow> Q y v)"
  shows "I t \<and> (\<forall>x \<in> set xs. Q x t) \<and> (\<forall>y. Q y s \<longrightarrow> Q y t)"
  using assms
proof (induction xs arbitrary: s)
  case (Cons x xs)
  obtain u where u: "f x s = Inr u" "fold_ok f xs u = Inr t" using Cons.prems(1) by auto
  have h: "I u \<and> Q x u \<and> (\<forall>y. Q y s \<longrightarrow> Q y u)" by (rule Cons.prems(3)[OF _ Cons.prems(2) u(1)]) simp
  have "I t \<and> (\<forall>x \<in> set xs. Q x t) \<and> (\<forall>y. Q y u \<longrightarrow> Q y t)" by (rule Cons.IH[OF u(2)]) (use h Cons.prems(3) in auto)
  then show ?case using h by auto
qed simp

lemma and_not_15: "unat (v AND NOT 15) = unat v div 16 * 16" for v :: u64
proof -
  have m: "(15 :: u64) = mask 4" by (simp add: mask_eq_exp_minus_1)
  have "v AND NOT 15 = push_bit 4 (drop_bit 4 v)"
    unfolding m by (rule bit_eqI) (auto simp: bit_simps)
  moreover have d: "unat (drop_bit 4 v) = unat v div 16" by (simp only: unat_drop_bit_eq) (simp add: drop_bit_eq_div)
  moreover have "unat v div 16 * 16 < 2 ^ 64" using le_less_trans[OF div_times_less_eq_dividend unat_u64_lt[of v]] by simp
  ultimately show ?thesis by (simp add: push_bit_eq_mult unat_word_ariths)
qed

lemma align_section_Inr: "align_section v = Inr b \<Longrightarrow> unat v \<le> unat b \<and> 16 dvd unat b"
proof -
  assume "align_section v = Inr b"
  then obtain w where w: "checked_add_u64 v 15 = Some w" "b = w AND NOT 15"
    by (auto simp: align_section_def ok_simps)
  have "unat w = unat v + 15" using conjunct1[OF checked_add_u64_Some[OF w(1)]] by simp
  then show ?thesis unfolding w(2) and_not_15 by simp
qed

text \<open>The sections with a base lie in front of the next base, apart from each other.\<close>

definition apart :: "nat \<Rightarrow> nat \<Rightarrow> nat \<Rightarrow> nat \<Rightarrow> bool" where
  "apart a m b n \<longleftrightarrow> a + m \<le> b \<or> b + n \<le> a"

definition laid_out :: "elf_section list \<Rightarrow> layout_state \<Rightarrow> bool" where
  "laid_out sections s \<longleftrightarrow>
     (\<forall>x \<in> set sections. \<forall>a. ly_bases s (sn_index x) = Some a \<longrightarrow> 16 dvd unat a \<and> unat a + unat (sn_size x) \<le> unat (ly_next s))
     \<and> (\<forall>x \<in> set sections. \<forall>y \<in> set sections. \<forall>a b. x \<noteq> y \<longrightarrow> ly_bases s (sn_index x) = Some a \<longrightarrow> ly_bases s (sn_index y) = Some b
        \<longrightarrow> apart (unat a) (unat (sn_size x)) (unat b) (unat (sn_size y)))"

lemma laid_out_push:
  assumes "laid_out sections s" and "x \<in> set sections" and "distinct (map sn_index sections)" and "ly_bases s (sn_index x) = None"
    and "align_section (ly_next s) = Inr base" and "checked_add_u64 base (sn_size x) = Some stop"
  shows "laid_out sections (s\<lparr>ly_ranges := ranges, ly_bases := (ly_bases s)(sn_index x \<mapsto> base), ly_next := stop\<rparr>)"
proof -
  have al: "unat (ly_next s) \<le> unat base" "16 dvd unat base" using align_section_Inr[OF assms(5)] by blast+
  have st: "unat stop = unat base + unat (sn_size x)" using checked_add_u64_Some[OF assms(6)] by blast
  have same: "y = x" if "y \<in> set sections" "sn_index y = sn_index x" for y
    using assms(2,3) that by (auto simp: distinct_map inj_on_def)
  show ?thesis
    unfolding laid_out_def
  proof (intro conjI ballI allI impI)
    fix y a assume y: "y \<in> set sections"
      "ly_bases (s\<lparr>ly_ranges := ranges, ly_bases := (ly_bases s)(sn_index x \<mapsto> base), ly_next := stop\<rparr>) (sn_index y) = Some a"
    show "16 dvd unat a" "unat a + unat (sn_size y) \<le> unat (ly_next (s\<lparr>ly_ranges := ranges, ly_bases := (ly_bases s)(sn_index x \<mapsto> base), ly_next := stop\<rparr>))"
      using y assms(1) al st same[OF y(1)] by (auto simp: laid_out_def split: if_splits; fastforce)+
  next
    fix y z a b
    assume y: "y \<in> set sections" and z: "z \<in> set sections" and ne: "y \<noteq> z"
      and a: "ly_bases (s\<lparr>ly_ranges := ranges, ly_bases := (ly_bases s)(sn_index x \<mapsto> base), ly_next := stop\<rparr>) (sn_index y) = Some a"
      and b: "ly_bases (s\<lparr>ly_ranges := ranges, ly_bases := (ly_bases s)(sn_index x \<mapsto> base), ly_next := stop\<rparr>) (sn_index z) = Some b"
    have old: "unat c + unat (sn_size w) \<le> unat base" if "w \<in> set sections" "ly_bases s (sn_index w) = Some c" for w c
      using assms(1) that al(1) unfolding laid_out_def by fastforce
    show "apart (unat a) (unat (sn_size y)) (unat b) (unat (sn_size z))"
    proof (cases "sn_index y = sn_index x")
      case True
      then have "sn_index z \<noteq> sn_index x" using same[OF y] same[OF z] ne by auto
      then show ?thesis using True a b old[OF z] by (simp add: apart_def)
    next
      case False
      then have a': "ly_bases s (sn_index y) = Some a" using a by simp
      show ?thesis
      proof (cases "sn_index z = sn_index x")
        case True
        then show ?thesis using a' b old[OF y] by (simp add: apart_def)
      next
        case False
        then have "ly_bases s (sn_index z) = Some b" using b by simp
        then show ?thesis using assms(1) y z ne a' unfolding laid_out_def by blast
      qed
    qed
  qed
qed

lemma lay_text_section_Inr:
  assumes "lay_text_section True x s = Inr t" and "laid_out sections s" and "x \<in> set sections" "distinct (map sn_index sections)"
    and "ly_bases s (sn_index x) = None"
  shows "laid_out sections t"
proof (cases "sn_kind x \<noteq> TextSection \<or> sn_size x = 0")
  case False
  then obtain base stop where b: "align_section (ly_next s) = Inr base" "checked_add_u64 base (sn_size x) = Some stop"
    and t: "t = s\<lparr>ly_ranges := ly_ranges s @ [mk_range base stop], ly_bases := (ly_bases s)(sn_index x \<mapsto> base), ly_next := stop\<rparr>"
    using assms(1) by (auto simp: lay_text_section_def Let_def ok_simps)
  show ?thesis unfolding t by (rule laid_out_push[OF assms(2,3,4,5) b])
qed (use assms in \<open>simp add: lay_text_section_def\<close>)

text \<open>What a section gets: a base, with its range among the executable ones if it is a text section.\<close>

definition has_base :: "elf_section \<Rightarrow> layout_state \<Rightarrow> bool" where
  "has_base x s \<longleftrightarrow> ly_bases s (sn_index x) \<noteq> None"

definition is_text :: "elf_section \<Rightarrow> bool" where
  "is_text x \<longleftrightarrow> sn_kind x = TextSection \<and> sn_size x \<noteq> 0"

definition text_laid :: "elf_section \<Rightarrow> layout_state \<Rightarrow> bool" where
  "text_laid x s \<longleftrightarrow> is_text x \<longrightarrow> (\<exists>base. ly_bases s (sn_index x) = Some base \<and> mk_range base (base + sn_size x) \<in> set (ly_ranges s))"

lemma lay_text_sections:
  assumes "fold_ok (lay_text_section True) xs s = Inr t" and "laid_out sections s" and "set xs \<subseteq> set sections"
    and "distinct (map sn_index sections)" "distinct (map sn_index xs)" and "\<forall>x \<in> set xs. ly_bases s (sn_index x) = None"
  shows "laid_out sections t \<and> (\<forall>x \<in> set xs. text_laid x t) \<and> (\<forall>y. sn_index y \<notin> sn_index ` set xs \<longrightarrow> text_laid y s \<longrightarrow> text_laid y t)"
  using assms
proof (induction xs arbitrary: s)
  case (Cons x xs)
  obtain u where u: "lay_text_section True x s = Inr u" "fold_ok (lay_text_section True) xs u = Inr t" using Cons.prems(1) by auto
  have lu: "laid_out sections u" by (rule lay_text_section_Inr[OF u(1) Cons.prems(2)]) (use Cons.prems in auto)
  have bases: "ly_bases u i = ly_bases s i" if "i \<noteq> sn_index x" for i
    using u(1) that by (auto simp: lay_text_section_def Let_def ok_simps split: if_splits)
  have ranges: "set (ly_ranges s) \<subseteq> set (ly_ranges u)"
    using u(1) by (auto simp: lay_text_section_def Let_def ok_simps split: if_splits)
  have x: "text_laid x u"
    using u(1) by (auto simp: lay_text_section_def Let_def ok_simps text_laid_def is_text_def dest!: checked_add_u64_Some split: if_splits)
  have fresh: "\<forall>y \<in> set xs. ly_bases u (sn_index y) = None" using Cons.prems(5,6) bases by (auto simp: image_iff)
  have ih: "laid_out sections t \<and> (\<forall>x \<in> set xs. text_laid x t) \<and> (\<forall>y. sn_index y \<notin> sn_index ` set xs \<longrightarrow> text_laid y u \<longrightarrow> text_laid y t)"
    by (rule Cons.IH[OF u(2) lu]) (use Cons.prems fresh in auto)
  have keep: "text_laid y u" if "sn_index y \<noteq> sn_index x" "text_laid y s" for y
    using that bases ranges by (auto simp: text_laid_def)
  have "text_laid x t" using ih x Cons.prems(5) by auto
  then show ?case using ih keep by auto
qed auto

text \<open>The executable ranges and the bases after the first pass are exactly those of the text sections.\<close>

definition text_range :: "(nat \<Rightarrow> u64 option) \<Rightarrow> elf_section \<Rightarrow> address_range" where
  "text_range bases x = mk_range (the (bases (sn_index x))) (the (bases (sn_index x)) + sn_size x)"

lemma lay_text_sections_exact:
  assumes "fold_ok (lay_text_section True) xs s = Inr t" and "distinct (map sn_index xs)"
    and "\<forall>x \<in> set xs. ly_bases s (sn_index x) = None"
  shows "ly_ranges t = ly_ranges s @ map (text_range (ly_bases t)) (filter is_text xs)
    \<and> (\<forall>x \<in> set xs. ly_bases t (sn_index x) \<noteq> None \<longleftrightarrow> is_text x)
    \<and> (\<forall>i. i \<notin> sn_index ` set xs \<longrightarrow> ly_bases t i = ly_bases s i)"
  using assms
proof (induction xs arbitrary: s)
  case (Cons x xs)
  obtain u where u: "lay_text_section True x s = Inr u" "fold_ok (lay_text_section True) xs u = Inr t" using Cons.prems(1) by auto
  have bases: "ly_bases u i = ly_bases s i" if "i \<noteq> sn_index x" for i
    using u(1) that by (auto simp: lay_text_section_def Let_def ok_simps split: if_splits)
  have x: "ly_ranges u = ly_ranges s @ (if is_text x then [text_range (ly_bases u) x] else [])"
    "ly_bases u (sn_index x) \<noteq> None \<longleftrightarrow> is_text x"
    using u(1) Cons.prems(3)
    by (auto simp: lay_text_section_def Let_def ok_simps is_text_def text_range_def dest!: checked_add_u64_Some split: if_splits)
  have fresh: "\<forall>y \<in> set xs. ly_bases u (sn_index y) = None" using Cons.prems(2,3) bases by (auto simp: image_iff)
  note ih = Cons.IH[OF u(2) _ fresh]
  have kept: "ly_bases t (sn_index x) = ly_bases u (sn_index x)" using ih Cons.prems(2) by simp
  then have "text_range (ly_bases t) x = text_range (ly_bases u) x" by (simp add: text_range_def)
  then show ?case using ih x kept bases Cons.prems(2) by auto
qed simp

lemma lay_other_section_based:
  assumes "lay_other_section x s = Inr t"
  shows "ly_bases t i \<noteq> None \<longleftrightarrow> ly_bases s i \<noteq> None \<or> i = sn_index x \<and> sn_size x \<noteq> 0 \<and> \<not> is_debug_section x"
  using assms by (auto simp: lay_other_section_def ok_simps split: if_splits)

lemma lay_other_sections_based:
  assumes "fold_ok lay_other_section xs s = Inr t"
  shows "ly_bases t i \<noteq> None \<longleftrightarrow> ly_bases s i \<noteq> None
    \<or> (\<exists>x \<in> set xs. i = sn_index x \<and> sn_size x \<noteq> 0 \<and> \<not> is_debug_section x)"
  using assms
proof (induction xs arbitrary: s)
  case (Cons x xs)
  obtain u where u: "lay_other_section x s = Inr u" "fold_ok lay_other_section xs u = Inr t" using Cons.prems(1) by auto
  show ?case using Cons.IH[OF u(2)] lay_other_section_based[OF u(1), of i] by auto
qed simp

lemma lay_other_section_step:
  assumes "lay_other_section x s = Inr t" and "laid_out sections s" and "x \<in> set sections" "distinct (map sn_index sections)"
  shows "laid_out sections t \<and> (sn_size x \<noteq> 0 \<longrightarrow> \<not> is_debug_section x \<longrightarrow> has_base x t) \<and> ly_bases s \<subseteq>\<^sub>m ly_bases t \<and> ly_ranges t = ly_ranges s"
proof (cases "sn_size x = 0 \<or> ly_bases s (sn_index x) \<noteq> None \<or> is_debug_section x")
  case True
  then show ?thesis using assms by (auto simp: lay_other_section_def has_base_def)
next
  case False
  then obtain base stop where b: "align_section (ly_next s) = Inr base" "checked_add_u64 base (sn_size x) = Some stop"
    and t: "t = s\<lparr>ly_bases := (ly_bases s)(sn_index x \<mapsto> base), ly_next := stop\<rparr>"
    using assms(1) by (auto simp: lay_other_section_def ok_simps)
  have fresh: "ly_bases s (sn_index x) = None" using False by simp
  have "laid_out sections t" using laid_out_push[OF assms(2,3,4) fresh b, of "ly_ranges s"] by (simp add: t)
  then show ?thesis using fresh by (auto simp: t has_base_def map_le_def)
qed

lemma lay_other_sections:
  assumes "fold_ok lay_other_section xs s = Inr t" and "laid_out sections s" and "set xs \<subseteq> set sections" "distinct (map sn_index sections)"
  shows "laid_out sections t \<and> (\<forall>x \<in> set xs. sn_size x \<noteq> 0 \<longrightarrow> \<not> is_debug_section x \<longrightarrow> has_base x t)
    \<and> ly_bases s \<subseteq>\<^sub>m ly_bases t \<and> ly_ranges t = ly_ranges s"
  using assms
proof (induction xs arbitrary: s)
  case (Cons x xs)
  obtain u where u: "lay_other_section x s = Inr u" "fold_ok lay_other_section xs u = Inr t" using Cons.prems(1) by auto
  note st = lay_other_section_step[OF u(1) Cons.prems(2) _ Cons.prems(4)]
  have x: "x \<in> set sections" using Cons.prems(3) by simp
  have ih: "laid_out sections t \<and> (\<forall>x \<in> set xs. sn_size x \<noteq> 0 \<longrightarrow> \<not> is_debug_section x \<longrightarrow> has_base x t)
    \<and> ly_bases u \<subseteq>\<^sub>m ly_bases t \<and> ly_ranges t = ly_ranges u"
    by (rule Cons.IH[OF u(2)]) (use st[OF x] Cons.prems(3,4) in auto)
  then show ?case using st[OF x] by (auto simp: has_base_def map_le_def dom_def)
qed auto

lemma relocatable_layout:
  assumes "address_layout_new f = Inr layout" and "ef_kind f = Relocatable" and "distinct (map sn_index (ef_sections f))"
  obtains s where "laid_out (ef_sections f) s" and "al_section_bases layout = ly_bases s" and "al_ranges layout = sort (ly_ranges s)"
    and "al_relocatable layout"
    and "\<forall>x \<in> set (ef_sections f). text_laid x s \<and> (sn_size x \<noteq> 0 \<longrightarrow> \<not> is_debug_section x \<longrightarrow> has_base x s)"
    and "ly_ranges s = map (text_range (ly_bases s)) (filter is_text (ef_sections f))"
    and "\<forall>x \<in> set (ef_sections f). has_base x s \<longrightarrow> sn_size x \<noteq> 0 \<and> (sn_kind x = TextSection \<or> \<not> is_debug_section x)"
proof -
  let ?s0 = "\<lparr>ly_ranges = [], ly_bases = Map.empty, ly_next = 0\<rparr>"
  obtain s t where s: "fold_ok (lay_text_section True) (ef_sections f) ?s0 = Inr s" "fold_ok lay_other_section (ef_sections f) s = Inr t"
    and l: "layout = \<lparr>al_ranges = sort (ly_ranges t), al_section_bases = ly_bases t, al_relocatable = True\<rparr>"
    using assms(1,2) by (auto simp: address_layout_new_def Let_def ok_simps)
  have "laid_out (ef_sections f) ?s0" by (simp add: laid_out_def)
  then have a: "laid_out (ef_sections f) s" "\<forall>x \<in> set (ef_sections f). text_laid x s"
    using lay_text_sections[OF s(1) _ order_refl assms(3) assms(3)] by auto
  have b: "laid_out (ef_sections f) t" "\<forall>x \<in> set (ef_sections f). sn_size x \<noteq> 0 \<longrightarrow> \<not> is_debug_section x \<longrightarrow> has_base x t"
    "ly_bases s \<subseteq>\<^sub>m ly_bases t" "ly_ranges t = ly_ranges s"
    using lay_other_sections[OF s(2) a(1) order_refl assms(3)] by auto
  have "\<forall>x \<in> set (ef_sections f). text_laid x t"
    using a(2) b(3,4) by (auto simp: text_laid_def map_le_def dom_def)
  moreover have exact: "ly_ranges s = map (text_range (ly_bases s)) (filter is_text (ef_sections f))"
    "\<forall>x \<in> set (ef_sections f). ly_bases s (sn_index x) \<noteq> None \<longleftrightarrow> is_text x"
    using lay_text_sections_exact[OF s(1) assms(3)] by auto
  have "text_range (ly_bases t) x = text_range (ly_bases s) x" if x: "x \<in> set (filter is_text (ef_sections f))" for x
  proof -
    have "ly_bases s (sn_index x) \<noteq> None" using exact(2) x by simp
    then have "ly_bases t (sn_index x) = ly_bases s (sn_index x)" using b(3) unfolding map_le_def by (metis domIff)
    then show ?thesis by (simp add: text_range_def)
  qed
  then have "ly_ranges t = map (text_range (ly_bases t)) (filter is_text (ef_sections f))"
    using exact(1) b(4) by simp
  moreover have "sn_size x \<noteq> 0 \<and> (sn_kind x = TextSection \<or> \<not> is_debug_section x)"
    if x: "x \<in> set (ef_sections f)" and based: "has_base x t" for x
  proof -
    consider "ly_bases s (sn_index x) \<noteq> None"
      | y where "y \<in> set (ef_sections f)" "sn_index x = sn_index y" "sn_size y \<noteq> 0" "\<not> is_debug_section y"
      using based lay_other_sections_based[OF s(2), of "sn_index x"] unfolding has_base_def by blast
    then show ?thesis
    proof cases
      case 1
      then show ?thesis using exact(2) x by (simp add: is_text_def)
    next
      case 2
      have "inj_on sn_index (set (ef_sections f))" using assms(3) by (simp add: distinct_map)
      then have "y = x" using 2(1,2) x by (metis inj_onD)
      then show ?thesis using 2(3,4) by blast
    qed
  qed
  moreover have "al_section_bases layout = ly_bases t" "al_ranges layout = sort (ly_ranges t)" "al_relocatable layout"
    by (simp_all only: l address_layout.select_convs)
  ultimately show ?thesis using that[of t] b(1,2) by blast
qed

section \<open>Properties\<close>

text \<open>C38: In the layout of a relocatable file exactly the sections with contents that are text sections or hold no debug
  information get a base; it is a multiple of 16, and the section ends below \<open>2 ^ 64\<close>. No two sections with a base
  overlap. The executable ranges are those of the text sections with contents at their bases, each once, in order, and no
  others. The section indices are those of a file and differ from each other.\<close>

theorem relocatable_sections_apart:
  assumes "address_layout_new f = Inr layout" and "ef_kind f = Relocatable" and "distinct (map sn_index (ef_sections f))"
  shows "(\<forall>x \<in> set (ef_sections f). al_section_bases layout (sn_index x) \<noteq> None
        \<longleftrightarrow> sn_size x \<noteq> 0 \<and> (sn_kind x = TextSection \<or> \<not> is_debug_section x))
    \<and> (\<forall>x \<in> set (ef_sections f). \<forall>a. al_section_bases layout (sn_index x) = Some a
        \<longrightarrow> 16 dvd unat a \<and> unat a + unat (sn_size x) < 2 ^ 64)
    \<and> (\<forall>x \<in> set (ef_sections f). \<forall>y \<in> set (ef_sections f). \<forall>a b. x \<noteq> y \<longrightarrow> al_section_bases layout (sn_index x) = Some a
        \<longrightarrow> al_section_bases layout (sn_index y) = Some b \<longrightarrow> apart (unat a) (unat (sn_size x)) (unat b) (unat (sn_size y)))
    \<and> al_ranges layout = sort (map (\<lambda>x. let a = the (al_section_bases layout (sn_index x)) in mk_range a (a + sn_size x))
        (filter (\<lambda>x. sn_kind x = TextSection \<and> sn_size x \<noteq> 0) (ef_sections f)))"
proof -
  obtain s where s: "laid_out (ef_sections f) s" "al_section_bases layout = ly_bases s" "al_ranges layout = sort (ly_ranges s)"
    "\<forall>x \<in> set (ef_sections f). text_laid x s \<and> (sn_size x \<noteq> 0 \<longrightarrow> \<not> is_debug_section x \<longrightarrow> has_base x s)"
    "ly_ranges s = map (text_range (ly_bases s)) (filter is_text (ef_sections f))"
    "\<forall>x \<in> set (ef_sections f). has_base x s \<longrightarrow> sn_size x \<noteq> 0 \<and> (sn_kind x = TextSection \<or> \<not> is_debug_section x)"
    by (rule relocatable_layout[OF assms])
  have top: "unat (ly_next s) < 2 ^ 64" using unat_u64_lt[of "ly_next s"] by simp
  have based: "al_section_bases layout (sn_index x) \<noteq> None \<longleftrightarrow> sn_size x \<noteq> 0 \<and> (sn_kind x = TextSection \<or> \<not> is_debug_section x)"
    if "x \<in> set (ef_sections f)" for x
    using that s(2,4,6) by (auto simp: text_laid_def has_base_def is_text_def)
  have within: "16 dvd unat a \<and> unat a + unat (sn_size x) < 2 ^ 64"
    if "x \<in> set (ef_sections f)" "al_section_bases layout (sn_index x) = Some a" for x a
    using that s(1,2) le_less_trans[OF _ top] unfolding laid_out_def by metis
  have ranges: "al_ranges layout = sort (map (\<lambda>x. let a = the (al_section_bases layout (sn_index x)) in mk_range a (a + sn_size x))
        (filter (\<lambda>x. sn_kind x = TextSection \<and> sn_size x \<noteq> 0) (ef_sections f)))"
    using s(2,3,5) by (simp add: text_range_def[abs_def] is_text_def[abs_def] Let_def)
  show ?thesis using based within ranges s(1,2) by (auto simp: laid_out_def)
qed

definition sample_section :: "nat \<Rightarrow> section_kind \<Rightarrow> u64 \<Rightarrow> elf_section" where
  "sample_section index kind contents = \<lparr>sn_index = index, sn_kind = kind, sn_name = Inr [46], sn_address = 0, sn_size = contents,
     sn_data = Inr [], sn_uncompressed_data = Inr [], sn_relocations = []\<rparr>"

definition sample_object :: "object_kind \<Rightarrow> elf_section list \<Rightarrow> elf_symbol list \<Rightarrow> elf_symbol list \<Rightarrow> elf_file" where
  "sample_object kind sections symbols dynamic_symbols = \<lparr>ef_is_elf = True, ef_kind = kind, ef_architecture = 62, ef_is_64 = True,
     ef_is_little_endian = True, ef_build_id = Inr (Some [1, 2]), ef_debuglink = Inr None, ef_debugaltlink = Inr None,
     ef_sections = sections, ef_section_by_index = (\<lambda>_. Inl []), ef_section_by_name = (\<lambda>_. None), ef_symbols = symbols,
     ef_dynamic_symbols = dynamic_symbols, ef_symbol_by_index = (\<lambda>_. Inl [])\<rparr>"

lemma relocatable_sections_apart_witness:
  "\<exists>layout. address_layout_new (sample_object Relocatable [sample_section 1 TextSection 0x28, sample_section 2 (OtherSection 0) 4,
      sample_section 3 TextSection 8] [] []) = Inr layout \<and> al_section_bases layout 3 = Some 0x30 \<and> al_section_bases layout 2 = Some 0x40
      \<and> al_ranges layout = [mk_range 0 0x28, mk_range 0x30 0x38] \<and> apart 0x30 8 0x40 4"
proof -
  let ?sections = "[sample_section 1 TextSection 0x28, sample_section 2 (OtherSection 0) 4, sample_section 3 TextSection 8]"
  let ?f = "sample_object Relocatable ?sections [] []"
  have e: "address_layout_new ?f = Inr \<lparr>al_ranges = [mk_range 0 0x28, mk_range 0x30 0x38],
      al_section_bases = Map.empty(1 \<mapsto> 0, 3 \<mapsto> 0x30, 2 \<mapsto> 0x40), al_relocatable = True\<rparr>"
    by (simp add: address_layout_new_def sample_object_def sample_section_def lay_text_section_def lay_other_section_def align_section_def
        checked_add_u64_def is_debug_section_def starts_with_def bytes_of_string_def range_le_iff fun_upd_twist cong: let_ok_weak_cong)
  have k: "ef_kind ?f = Relocatable" "distinct (map sn_index (ef_sections ?f))" by (simp_all add: sample_object_def sample_section_def)
  have "apart (unat (0x30 :: u64)) (unat (8 :: u64)) (unat (0x40 :: u64)) (unat (4 :: u64))"
    using conjunct1[OF conjunct2[OF conjunct2[OF relocatable_sections_apart[OF e k]]], rule_format, of "sample_section 3 TextSection 8" "sample_section 2 (OtherSection 0) 4"]
    by (simp add: sample_object_def sample_section_def)
  then show ?thesis unfolding e by simp
qed

end
