(* ===== verification/Relocations.thy ===== *)
theory Relocations
  imports ObjectFile
begin

text \<open>
  \<open>src/convert/dwarf/sections.rs\<close>: the sections of a file with their relocations, resolved against the layout, and
  their application to the values that gimli reads. The names of section ids are gimli's; \<open>kind_text\<close> and
  \<open>encoding_text\<close> are the \<open>Debug\<close> texts of object's enumerations.
\<close>

section \<open>Relocation entries\<close>

record relocation_entry =
  re_offset :: u64
  re_implicit_addend :: bool
  re_value :: u64

type_synonym dwarf_relocations = "relocation_entry list"

text \<open>\<open>binary_search_by_key\<close> on a slice sorted by the key: an index with the key, if one has it.\<close>

definition binary_search_by_key :: "('a \<Rightarrow> 'k :: linorder) \<Rightarrow> 'a list \<Rightarrow> 'k \<Rightarrow> nat option" where
  "binary_search_by_key key xs k =
     (let i = partition_point (\<lambda>x. key x < k) xs in if i < length xs \<and> key (xs ! i) = k then Some i else None)"

definition relocations_apply :: "dwarf_relocations \<Rightarrow> nat \<Rightarrow> u64 \<Rightarrow> u64" where
  "relocations_apply relocations offset v =
     (case Option.bind (binary_search_by_key re_offset relocations (word_of_nat offset)) (nth_get relocations) of
        None \<Rightarrow> v
      | Some r \<Rightarrow> if re_implicit_addend r then v + re_value r else re_value r)"

definition relocate_address :: "dwarf_relocations \<Rightarrow> nat \<Rightarrow> u64 \<Rightarrow> u64 gimli_result" where
  "relocate_address relocations offset v = Inr (relocations_apply relocations offset v)"

text \<open>\<open>usize\<close> is 64 bits wide, so \<open>usize::from_u64\<close> does not fail.\<close>

definition relocate_offset :: "dwarf_relocations \<Rightarrow> nat \<Rightarrow> nat \<Rightarrow> nat gimli_result" where
  "relocate_offset relocations offset v = Inr (unat (relocations_apply relocations offset (word_of_nat v)))"

fun check_distinct :: "u64 option \<Rightarrow> relocation_entry list \<Rightarrow> unit result" where
  "check_distinct previous [] = Inr ()"
| "check_distinct previous (r # rs) =
     (if previous = Some (re_offset r)
      then Inl (malformed ''DWARF relocation'' (''multiple entries at '' @ hex (re_offset r)))
      else check_distinct (Some (re_offset r)) rs)"

definition relocations_new :: "relocation_entry list \<Rightarrow> dwarf_relocations result" where
  "relocations_new relocations =
     (let relocations = sort_key re_offset relocations in
      let_ok (check_distinct None relocations) (\<lambda>_. Inr relocations))"

section \<open>Relocations of a section\<close>

record object_texts =
  kind_text :: "relocation_kind \<Rightarrow> string"
  encoding_text :: "relocation_encoding \<Rightarrow> string"

definition debug_relocation_encoding_supported :: "relocation_kind \<Rightarrow> relocation_encoding \<Rightarrow> bool" where
  "debug_relocation_encoding_supported kind encoding \<longleftrightarrow>
     encoding = EncodingGeneric \<or> kind = KindAbsolute \<and> encoding = EncodingX86Signed"

definition calculate_relocation_value :: "object_texts \<Rightarrow> relocation_kind \<Rightarrow> u64 \<Rightarrow> u64 \<Rightarrow> u64 \<Rightarrow> int \<Rightarrow> u64 result" where
  "calculate_relocation_value texts kind target target_section_base place addend =
     let_ok (case kind of
         KindAbsolute \<Rightarrow> Inr target
       | KindRelative \<Rightarrow> Inr (target - place)
       | KindSectionOffset \<Rightarrow> Inr (target - target_section_base)
       | KindOther _ \<Rightarrow> Inl (malformed ''DWARF relocation'' (''unrecognised kind '' @ kind_text texts kind))
       | _ \<Rightarrow> Inl (malformed ''DWARF relocation'' (''unsupported kind '' @ kind_text texts kind)))
       (\<lambda>v. Inr (v + word_of_int addend))"

text \<open>The address a relocation refers to and the base of its section.\<close>

definition symbol_target :: "elf_file \<Rightarrow> address_layout \<Rightarrow> nat \<Rightarrow> (u64 \<times> u64) result" where
  "symbol_target f layout index =
     let_ok (or_malformed ''DWARF relocation symbol'' (ef_symbol_by_index f index)) (\<lambda>symbol.
     case sy_section_index symbol of
       None \<Rightarrow> Inr (sy_address symbol, 0)
     | Some index \<Rightarrow>
         let_ok (or_malformed ''DWARF relocation section'' (ef_section_by_index f index)) (\<lambda>target_section.
         if is_debug_section target_section then Inr (sy_address symbol, 0)
         else
           let_ok (section_base layout target_section) (\<lambda>base.
           let_ok (ok_or (checked_add_u64 base (sy_address symbol)) (Overflow ''debug relocation target'')) (\<lambda>v.
           Inr (v, base)))))"

definition section_target :: "elf_file \<Rightarrow> address_layout \<Rightarrow> nat \<Rightarrow> (u64 \<times> u64) result" where
  "section_target f layout index =
     let_ok (or_malformed ''DWARF relocation section'' (ef_section_by_index f index)) (\<lambda>target_section.
     if is_debug_section target_section then Inr (0, 0)
     else let_ok (section_base layout target_section) (\<lambda>base. Inr (base, base)))"

definition relocation_target_of :: "elf_file \<Rightarrow> address_layout \<Rightarrow> u64 \<Rightarrow> relocation_target \<Rightarrow> (u64 \<times> u64) result" where
  "relocation_target_of f layout offset target =
     (case target of
        TargetSymbol index \<Rightarrow> symbol_target f layout index
      | TargetSection index \<Rightarrow> section_target f layout index
      | TargetAbsolute \<Rightarrow> Inl (malformed ''DWARF relocation'' (''unsupported target at '' @ hex offset))
      | TargetOther _ \<Rightarrow> Inl (malformed ''DWARF relocation'' (''unrecognised target at '' @ hex offset)))"

definition load_relocation :: "object_texts \<Rightarrow> elf_file \<Rightarrow> elf_section \<Rightarrow> address_layout \<Rightarrow> u64 \<times> relocation
    \<Rightarrow> relocation_entry list \<Rightarrow> relocation_entry list result" where
  "load_relocation texts f section layout entry output_entries =
     (let (offset, r) = entry; kind = rl_kind r in
      if kind = KindNone then Inr output_entries
      else if \<not> (kind = KindAbsolute \<or> kind = KindRelative \<or> kind = KindSectionOffset)
        \<or> \<not> debug_relocation_encoding_supported kind (rl_encoding r)
      then Inl (malformed ''DWARF relocation'' (''unsupported kind/encoding '' @ kind_text texts kind @ ''/''
        @ encoding_text texts (rl_encoding r) @ '' at '' @ hex offset))
      else
        let_ok (relocation_target_of f layout offset (rl_target r)) (\<lambda>(target, target_section_base).
        let_ok (calculate_relocation_value texts kind target target_section_base (sn_address section + offset) (rl_addend r)) (\<lambda>v.
        Inr (output_entries @ [\<lparr>re_offset = offset, re_implicit_addend = rl_implicit_addend r, re_value = v\<rparr>]))))"

definition relocations_load :: "object_texts \<Rightarrow> elf_file \<Rightarrow> elf_section \<Rightarrow> address_layout \<Rightarrow> dwarf_relocations result" where
  "relocations_load texts f section layout =
     let_ok (fold_ok (load_relocation texts f section layout) (sn_relocations section) []) relocations_new"

section \<open>Sections\<close>

record section_data =
  sd_data :: bytes
  sd_relocations :: dwarf_relocations

definition section_data_default :: section_data where
  "section_data_default = \<lparr>sd_data = [], sd_relocations = []\<rparr>"

definition load_named_section :: "object_texts \<Rightarrow> elf_file \<Rightarrow> string \<Rightarrow> address_layout \<Rightarrow> section_data result" where
  "load_named_section texts f name layout =
     (case ef_section_by_name f name of
        None \<Rightarrow> Inr section_data_default
      | Some section \<Rightarrow>
          let_ok (case sn_uncompressed_data section of
              Inl message \<Rightarrow> Inl (malformed ''DWARF section'' (''failed to read '' @ name @ '': '' @ message))
            | Inr bs \<Rightarrow> Inr bs) (\<lambda>bs.
          let_ok (relocations_load texts f section layout) (\<lambda>relocations.
          Inr \<lparr>sd_data = bs, sd_relocations = relocations\<rparr>)))"

text \<open>A section id of gimli is its name and the name it has in a DWO file.\<close>

record section_id =
  id_name :: string
  id_dwo_name :: "string option"

definition load_section :: "object_texts \<Rightarrow> elf_file \<Rightarrow> section_id \<Rightarrow> address_layout \<Rightarrow> section_data result" where
  "load_section texts f section_id layout = load_named_section texts f (id_name section_id) layout"

definition load_dwo_section :: "object_texts \<Rightarrow> elf_file \<Rightarrow> section_id \<Rightarrow> address_layout \<Rightarrow> section_data result" where
  "load_dwo_section texts f section_id layout =
     (case id_dwo_name section_id of
        None \<Rightarrow> Inr section_data_default
      | Some name \<Rightarrow> load_named_section texts f name layout)"

section \<open>Distinct offsets\<close>

lemma check_distinct_sorted:
  "sorted (map re_offset rs) \<Longrightarrow> (\<And>p. previous = Some p \<Longrightarrow> \<forall>r \<in> set rs. p \<le> re_offset r)
    \<Longrightarrow> check_distinct previous rs = Inr ()
      \<longleftrightarrow> distinct (map re_offset rs) \<and> (\<forall>p. previous = Some p \<longrightarrow> p \<notin> re_offset ` set rs)"
proof (induction rs arbitrary: previous)
  case (Cons r rs)
  have ih: "check_distinct (Some (re_offset r)) rs = Inr () \<longleftrightarrow> distinct (map re_offset rs) \<and> re_offset r \<notin> re_offset ` set rs"
    using Cons.IH[of "Some (re_offset r)"] Cons.prems(1) by auto
  show ?case
  proof (cases previous)
    case None
    then show ?thesis using ih by auto
  next
    case (Some p)
    have le: "p \<le> re_offset r" using Cons.prems(2)[OF Some] by simp
    have "p \<notin> re_offset ` set rs" if "p \<noteq> re_offset r"
    proof
      assume "p \<in> re_offset ` set rs"
      then have "re_offset r \<le> p" using Cons.prems(1) by auto
      then show False using le that by simp
    qed
    then show ?thesis using ih by (auto simp: Some)
  qed
qed simp

lemma binary_search_by_key_Some:
  "binary_search_by_key key xs k = Some i \<Longrightarrow> i < length xs \<and> key (xs ! i) = k"
  by (auto simp: binary_search_by_key_def Let_def split: if_splits)

lemma binary_search_by_key_finds:
  assumes "sorted (map key xs)" and "x \<in> set xs" and "key x = k"
  shows "\<exists>i. binary_search_by_key key xs k = Some i"
proof -
  have le_key: "key (xs ! i) \<le> key (xs ! j)" if "i \<le> j" "j < length xs" for i j
    using sorted_nth_mono[OF assms(1), of i j] that by simp
  have mono: "key (xs ! i) < k" if "i \<le> j" "j < length xs" "key (xs ! j) < k" for i j
    using le_key[OF that(1,2)] that(3) by simp
  let ?i = "partition_point (\<lambda>x. key x < k) xs"
  have p: "(\<forall>i. 0 \<le> i \<and> i < ?i \<longrightarrow> key (xs ! i) < k) \<and> (\<forall>i. ?i \<le> i \<and> i < length xs \<longrightarrow> \<not> key (xs ! i) < k)"
    unfolding partition_point_def by (rule bisect_partition) (use mono in auto)
  obtain j where j: "j < length xs" "xs ! j = x" using assms(2) by (auto simp: in_set_conv_nth)
  have le: "?i \<le> j"
  proof (rule ccontr)
    assume "\<not> ?i \<le> j"
    then have "key (xs ! j) < k" using p by simp
    then show False using j(2) assms(3) by simp
  qed
  have "key (xs ! ?i) \<le> key (xs ! j)" by (rule le_key[OF le j(1)])
  moreover have "\<not> key (xs ! ?i) < k" using p le j(1) by simp
  ultimately have "key (xs ! ?i) = k" using j(2) assms(3) by simp
  then show ?thesis using le j(1) by (simp add: binary_search_by_key_def Let_def)
qed

section \<open>Properties\<close>

text \<open>C39: Relocations are accepted exactly when no two of them are at the same offset, and then a value that is read is
  changed exactly where there is one: at the offset of an entry it becomes the value of the entry, added to what was read if
  the addend is implicit, and everywhere else it stays what it is, in whatever order the entries came.\<close>

theorem relocations_apply_entries:
  "(relocations_new entries = Inr (sort_key re_offset entries) \<longleftrightarrow> distinct (map re_offset entries))
    \<and> (\<forall>relocations. relocations_new entries = Inr relocations \<longrightarrow>
        (\<forall>r \<in> set entries. \<forall>v. relocations_apply relocations (unat (re_offset r)) v
            = (if re_implicit_addend r then v + re_value r else re_value r))
      \<and> (\<forall>offset v. word_of_nat offset \<notin> re_offset ` set entries \<longrightarrow> relocations_apply relocations offset v = v))"
proof -
  let ?sorted = "sort_key re_offset entries"
  have d: "check_distinct None ?sorted = Inr () \<longleftrightarrow> distinct (map re_offset entries)"
    using check_distinct_sorted[of ?sorted None] by (simp add: distinct_map)
  have new: "relocations_new entries = Inr rs \<longleftrightarrow> rs = ?sorted \<and> distinct (map re_offset entries)" for rs
    using d by (auto simp: relocations_new_def Let_def ok_simps)
  have hit: "relocations_apply ?sorted (unat (re_offset r)) v = (if re_implicit_addend r then v + re_value r else re_value r)"
    if dist: "distinct (map re_offset entries)" and r: "r \<in> set entries" for r v
  proof -
    obtain i where i: "binary_search_by_key re_offset ?sorted (re_offset r) = Some i"
      using binary_search_by_key_finds[of re_offset ?sorted r "re_offset r"] r by auto
    note f = binary_search_by_key_Some[OF i]
    have "?sorted ! i \<in> set entries" using f nth_mem[of i ?sorted] by simp
    then have "?sorted ! i = r" using f dist r by (auto simp: distinct_map inj_on_def)
    then show ?thesis using i f by (simp add: relocations_apply_def nth_get_def)
  qed
  have miss: "relocations_apply ?sorted offset v = v" if "word_of_nat offset \<notin> re_offset ` set entries" for offset v
  proof (cases "binary_search_by_key re_offset ?sorted (word_of_nat offset)")
    case (Some i)
    note f = binary_search_by_key_Some[OF Some]
    have "?sorted ! i \<in> set entries" using f nth_mem[of i ?sorted] by simp
    then have "re_offset (?sorted ! i) \<in> re_offset ` set entries" by (rule imageI)
    then have "word_of_nat offset \<in> re_offset ` set entries" using f by metis
    then show ?thesis using that by contradiction
  qed (simp add: relocations_apply_def)
  show ?thesis using new hit miss by auto
qed

lemma relocations_apply_entries_witness:
  "relocations_new [\<lparr>re_offset = 8, re_implicit_addend = True, re_value = 0x1000\<rparr>, \<lparr>re_offset = 4, re_implicit_addend = False, re_value = 7\<rparr>]
      = Inr [\<lparr>re_offset = 4, re_implicit_addend = False, re_value = 7\<rparr>, \<lparr>re_offset = 8, re_implicit_addend = True, re_value = 0x1000\<rparr>]
    \<and> relocations_apply [\<lparr>re_offset = 4, re_implicit_addend = False, re_value = 7\<rparr>, \<lparr>re_offset = 8, re_implicit_addend = True, re_value = 0x1000\<rparr>] 8 5 = 0x1005
    \<and> relocations_apply [\<lparr>re_offset = 4, re_implicit_addend = False, re_value = 7\<rparr>, \<lparr>re_offset = 8, re_implicit_addend = True, re_value = 0x1000\<rparr>] 16 5 = 5"
proof -
  let ?a = "\<lparr>re_offset = 8, re_implicit_addend = True, re_value = 0x1000\<rparr>" and ?b = "\<lparr>re_offset = 4, re_implicit_addend = False, re_value = 7\<rparr>"
  note spec = relocations_apply_entries[of "[?a, ?b]"]
  have n: "relocations_new [?a, ?b] = Inr [?b, ?a]" using conjunct1[OF spec] by simp
  have e: "\<forall>r \<in> set [?a, ?b]. \<forall>v. relocations_apply [?b, ?a] (unat (re_offset r)) v = (if re_implicit_addend r then v + re_value r else re_value r)"
    and m: "\<forall>offset v. word_of_nat offset \<notin> re_offset ` set [?a, ?b] \<longrightarrow> relocations_apply [?b, ?a] offset v = v"
    using conjunct2[OF spec] n by blast+
  show ?thesis using n bspec[OF e, of ?a] m[rule_format, of 16] by simp
qed

end
