(* ===== verification/Discovery.thy ===== *)
theory Discovery
  imports ObjectFile
begin

text \<open>
  \<open>src/convert/elf/discovery.rs\<close>: embedded debug data, the checks that a companion file belongs to an image, the debug link
  of an image and the identity of two images. The searches in the file system and on servers are left out. Parsing and
  decompression are fields of the record \<open>companion_env\<close>; a decompressor is the chunks it writes and the error it ends with,
  if it does. Paths are the bytes of unix paths.
\<close>

record companion_env =
  ce_parse :: "bytes \<Rightarrow> elf_file gimli_result"
  ce_xz_decompress :: "bytes \<Rightarrow> bytes list \<times> string option"
  ce_xz_write_error :: "string \<Rightarrow> string"
  ce_error_text :: "error \<Rightarrow> string"
  ce_utf8_lossy :: "bytes \<Rightarrow> bytes"

section \<open>Embedded debug data\<close>

record limited_output =
  lo_bytes :: bytes
  lo_limit :: u64

definition limited_output_new :: "u64 \<Rightarrow> limited_output" where
  "limited_output_new limit = \<lparr>lo_bytes = [], lo_limit = limit\<rparr>"

definition limited_write :: "bytes \<Rightarrow> limited_output \<Rightarrow> string + limited_output" where
  "limited_write chunk out =
     (let new_len = saturating_add_u64 (word_of_nat (length (lo_bytes out))) (word_of_nat (length chunk)) in
      if new_len > lo_limit out
      then Inl (''decompressed data exceeds the '' @ decimal (unat (lo_limit out)) @ ''-byte limit'')
      else Inr (out\<lparr>lo_bytes := lo_bytes out @ chunk\<rparr>))"

fun write_chunks :: "bytes list \<Rightarrow> limited_output \<Rightarrow> string + limited_output" where
  "write_chunks [] out = Inr out"
| "write_chunks (chunk # chunks) out =
     (case limited_write chunk out of Inl message \<Rightarrow> Inl message | Inr out \<Rightarrow> write_chunks chunks out)"

definition xz_stream_error :: "string \<Rightarrow> error" where
  "xz_stream_error message = malformed ''.gnu_debugdata XZ stream'' message"

definition unpack_gnu_debugdata :: "companion_env \<Rightarrow> elf_file \<Rightarrow> u64 \<Rightarrow> bytes option result" where
  "unpack_gnu_debugdata env img maximum_size =
     (case ef_section_by_name img ''.gnu_debugdata'' of
        None \<Rightarrow> Inr None
      | Some section \<Rightarrow>
          let_ok (or_malformed ''.gnu_debugdata'' (sn_data section)) (\<lambda>compressed.
          case ce_xz_decompress env compressed of (chunks, failure) \<Rightarrow>
          (case write_chunks chunks (limited_output_new maximum_size) of
             Inl message \<Rightarrow> Inl (xz_stream_error (ce_xz_write_error env message))
           | Inr out \<Rightarrow>
               (case failure of
                  Some message \<Rightarrow> Inl (xz_stream_error message)
                | None \<Rightarrow> Inr (Some (lo_bytes out))))))"

definition validated_gnu_debugdata :: "companion_env \<Rightarrow> elf_file \<Rightarrow> u64 \<Rightarrow> conversion_warning list
    \<Rightarrow> bytes option \<times> conversion_warning list" where
  "validated_gnu_debugdata env img maximum_size warnings =
     (case let_ok (unpack_gnu_debugdata env img maximum_size) (\<lambda>data.
        let_ok (case data of None \<Rightarrow> Inr ()
          | Some bs \<Rightarrow> let_ok (parse_elf (ce_parse env) bs elf_input_kind.EmbeddedDebugData) (\<lambda>debug.
              cross_check_elf_identity img debug elf_input_kind.EmbeddedDebugData)) (\<lambda>_. Inr data)) of
        Inr data \<Rightarrow> (data, warnings)
      | Inl err \<Rightarrow> (None, warnings @ [conversion_warning.EmbeddedDebugData (ce_error_text env err)]))"

section \<open>Companion files\<close>

definition valid_debug_companion :: "companion_env \<Rightarrow> elf_file \<Rightarrow> bytes \<Rightarrow> bool" where
  "valid_debug_companion env img bs \<longleftrightarrow>
     (case let_ok (parse_elf (ce_parse env) bs Debug) (\<lambda>debug. cross_check_elf_identity img debug Debug) of
        Inl _ \<Rightarrow> False | Inr _ \<Rightarrow> True)"

definition valid_debuginfod_response :: "companion_env \<Rightarrow> elf_file option \<Rightarrow> bytes \<Rightarrow> bytes \<Rightarrow> bool" where
  "valid_debuginfod_response env img expected_build_id bs \<longleftrightarrow>
     (case parse_elf (ce_parse env) bs Debug of
        Inl _ \<Rightarrow> False
      | Inr debug \<Rightarrow>
          (case ef_build_id debug of
             Inl _ \<Rightarrow> False
           | Inr actual_build_id \<Rightarrow>
               if actual_build_id \<noteq> Some expected_build_id then False
               else (case img of
                   None \<Rightarrow> True
                 | Some img \<Rightarrow> (case cross_check_elf_identity img debug Debug of Inl _ \<Rightarrow> False | Inr _ \<Rightarrow> True))))"

text \<open>The link with its name as a path.\<close>

definition debug_link :: "companion_env \<Rightarrow> elf_file \<Rightarrow> (bytes \<times> u32) option result" where
  "debug_link env f =
     let_ok (or_malformed ''.gnu_debuglink'' (ef_debuglink f)) (\<lambda>link.
     case link of
       None \<Rightarrow> Inr None
     | Some (name, crc) \<Rightarrow>
         if name = [] then Inl (malformed ''.gnu_debuglink'' ''filename is empty'')
         else Inr (Some (ce_utf8_lossy env name, crc)))"

section \<open>Identity\<close>

text \<open>Two files of one build: the same architecture, and the same build id if both have one.\<close>

definition same_build :: "elf_file \<Rightarrow> elf_file \<Rightarrow> bool" where
  "same_build f g \<longleftrightarrow> ef_architecture f = ef_architecture g \<and> ef_is_64 f = ef_is_64 g \<and> ef_is_little_endian f = ef_is_little_endian g
     \<and> (\<forall>a b. ef_build_id f = Inr (Some a) \<longrightarrow> ef_build_id g = Inr (Some b) \<longrightarrow> a = b)"

lemma or_malformed_Inr [ok_simps]: "or_malformed context r = Inr v \<longleftrightarrow> r = Inr v"
  by (simp add: or_malformed_def split: sum.splits)

lemma identity_same_build: "cross_check_elf_identity f g input = Inr u \<Longrightarrow> same_build f g"
  by (auto simp: cross_check_elf_identity_def cross_check_elf_architecture_def same_build_def ok_simps split: if_splits)

lemma parse_elf_Inr: "parse_elf parse bs input = Inr f \<longleftrightarrow> parse bs = Inr f \<and> ef_is_elf f"
  by (auto simp: parse_elf_def split: sum.splits)


end
