(* ===== verification/Convert.thy ===== *)
theory Convert
  imports DwarfImport Relocations Discovery
begin

text \<open>
  The conversion of \<open>src/convert/elf/mod.rs\<close>, with the loading of DWARF sections and DWO files of
  \<open>src/convert/dwarf.rs\<close>. The record \<open>dwarf_loader\<close> is what gimli and the file system do: the sections gimli asks
  for, the DWARF it makes of them, the name of the DWO file of a unit, and what reading a path gives.
\<close>

section \<open>Loading sections\<close>

datatype read_outcome = FileBytes bytes | FileNotFound | FileUnreadable string

record ('d, 'v) dwarf_loader =
  dl_texts :: object_texts
  dl_sections :: "section_id list" \<comment> \<open>in the order of \<open>DwarfSections::load\<close>\<close>
  dl_package_sections :: "section_id list"
  dl_borrow :: "section_data list \<Rightarrow> bool \<Rightarrow> 'd" \<comment> \<open>with the byte order, little endian or not\<close>
  dl_set_sup :: "'d \<Rightarrow> 'd \<Rightarrow> 'd"
  dl_make_dwo :: "'d \<Rightarrow> 'd \<Rightarrow> 'd"
  dl_package :: "section_data list \<Rightarrow> bool \<Rightarrow> (u64 \<Rightarrow> 'd \<Rightarrow> 'd option gimli_result) gimli_result"
  dl_dwo_name :: "'v dwarf_unit \<Rightarrow> 'v attribute_value option gimli_result"
  dl_companion :: companion_env
  dl_read :: "bytes \<Rightarrow> read_outcome"
  dl_display :: "bytes \<Rightarrow> string"

definition load_sections :: "(section_id \<Rightarrow> section_data result) \<Rightarrow> section_id list \<Rightarrow> section_data list result" where
  "load_sections load ids = map_ok load ids"

section \<open>DWO files\<close>

text \<open>\<open>Path::join\<close> on unix.\<close>

definition path_is_absolute :: "bytes \<Rightarrow> bool" where
  "path_is_absolute path \<longleftrightarrow> starts_with path [SLASH]"

definition path_join :: "bytes \<Rightarrow> bytes \<Rightarrow> bytes" where
  "path_join base path =
     (if path_is_absolute path then path
      else if base \<noteq> [] \<and> last base \<noteq> SLASH then base @ SLASH # path else base @ path)"

definition path_text :: "bytes \<Rightarrow> string" where
  "path_text path = map (\<lambda>byte. char_of (unat byte)) path"

text \<open>Whether the file has a unit, and whether it has the one with the id.\<close>

fun find_dwo_unit :: "('d, 'v) gimli \<Rightarrow> 'd \<Rightarrow> u64 \<Rightarrow> unit_header list \<Rightarrow> bool \<Rightarrow> (bool \<times> bool) result" where
  "find_dwo_unit G dwarf expected_id [] saw_unit =
     (case snd (g_units G dwarf) of Some message \<Rightarrow> Inl (gimli_error message) | None \<Rightarrow> Inr (saw_unit, False))"
| "find_dwo_unit G dwarf expected_id (header # headers) saw_unit =
     let_ok (from_gimli (g_unit G dwarf header)) (\<lambda>u.
     if u_dwo_id u = Some expected_id then Inr (True, True)
     else find_dwo_unit G dwarf expected_id headers True)"

definition parse_dwo :: "('d, 'v) dwarf_loader \<Rightarrow> ('d, 'v) gimli \<Rightarrow> bytes \<Rightarrow> bytes \<Rightarrow> u64 \<Rightarrow> address_layout
    \<Rightarrow> (section_data list \<times> bool) result" where
  "parse_dwo L G bs path expected_id layout =
     (case ce_parse (dl_companion L) bs of
        Inl message \<Rightarrow> Inl (ElfParse elf_input_kind.Dwo message)
      | Inr f \<Rightarrow>
          let_ok (load_sections (\<lambda>section_id. load_dwo_section (dl_texts L) f section_id layout) (dl_sections L)) (\<lambda>sections.
          let borrowed = dl_borrow L sections (ef_is_little_endian f) in
          let_ok (find_dwo_unit G borrowed expected_id (fst (g_units G borrowed)) False) (\<lambda>(saw_unit, found).
          if \<not> saw_unit then Inl (malformed ''DWO file'' (''no compilation unit in '' @ dl_display L path))
          else if \<not> found then Inl (malformed ''DWO file'' (''ID mismatch for '' @ dl_display L path))
          else Inr (sections, ef_is_little_endian f))))"

fun try_dwo_paths :: "('d, 'v) dwarf_loader \<Rightarrow> ('d, 'v) gimli \<Rightarrow> u64 \<Rightarrow> address_layout \<Rightarrow> bytes list \<Rightarrow> error option
    \<Rightarrow> (section_data list \<times> bool) option result" where
  "try_dwo_paths L G expected_id layout [] failure = (case failure of None \<Rightarrow> Inr None | Some err \<Rightarrow> Inl err)"
| "try_dwo_paths L G expected_id layout (path # paths) failure =
     (case dl_read L path of
        FileNotFound \<Rightarrow> try_dwo_paths L G expected_id layout paths failure
      | FileUnreadable source \<Rightarrow>
          try_dwo_paths L G expected_id layout paths (Some (IoAtPath ''read DWO file'' (path_text path) source))
      | FileBytes bs \<Rightarrow>
          (case parse_dwo L G bs path expected_id layout of
             Inr dwo \<Rightarrow> Inr (Some dwo)
           | Inl err \<Rightarrow> try_dwo_paths L G expected_id layout paths (Some err)))"

definition dwo_paths :: "'v dwarf_unit \<Rightarrow> bytes \<Rightarrow> bytes \<Rightarrow> bytes list result" where
  "dwo_paths u base name =
     (case u_comp_dir u of
        None \<Rightarrow> Inr [path_join base name]
      | Some comp_dir \<Rightarrow>
          let_ok (from_gimli comp_dir) (\<lambda>comp_dir.
          let relative = path_join comp_dir name in
          Inr (dedup (if \<not> path_is_absolute comp_dir then [path_join base relative, relative] else [relative]))))"

definition load_dwo :: "('d, 'v) dwarf_loader \<Rightarrow> ('d, 'v) gimli \<Rightarrow> 'd \<Rightarrow> 'v dwarf_unit \<Rightarrow> u64 \<Rightarrow> bytes \<Rightarrow> address_layout
    \<Rightarrow> (section_data list \<times> bool) option result" where
  "load_dwo L G parent u expected_id base layout =
     let_ok (from_gimli (dl_dwo_name L u)) (\<lambda>name.
     case name of None \<Rightarrow> Inr None | Some name \<Rightarrow>
     let_ok (attribute_bytes G parent u name) (\<lambda>name.
     if name = [] then Inr None
     else let_ok (dwo_paths u base name) (\<lambda>paths. try_dwo_paths L G expected_id layout paths None)))"

section \<open>The import request\<close>

record dwarf_request =
  dr_file :: elf_file
  dr_supplementary :: "elf_file option"
  dr_dwp :: "elf_file option"
  dr_dwo_base :: "bytes option" \<comment> \<open>\<open>DwoResolver\<close>: disabled, or the base directory\<close>
  dr_layout :: address_layout

definition request_dwarf :: "('d, 'v) dwarf_loader \<Rightarrow> dwarf_request \<Rightarrow> 'd result" where
  "request_dwarf L request =
     (let load = (\<lambda>f. load_sections (\<lambda>section_id. load_section (dl_texts L) f section_id (dr_layout request)) (dl_sections L));
          little = ef_is_little_endian (dr_file request) in
      let_ok (load (dr_file request)) (\<lambda>sections.
      let_ok (case dr_supplementary request of None \<Rightarrow> Inr None | Some f \<Rightarrow> let_ok (load f) (\<lambda>s. Inr (Some s))) (\<lambda>supplementary_sections.
      let dwarf = dl_borrow L sections little in
      Inr (case supplementary_sections of None \<Rightarrow> dwarf | Some s \<Rightarrow> dl_set_sup L dwarf (dl_borrow L s little)))))"

definition request_package :: "('d, 'v) dwarf_loader \<Rightarrow> dwarf_request \<Rightarrow> (u64 \<Rightarrow> 'd \<Rightarrow> 'd option gimli_result) option result" where
  "request_package L request =
     (case dr_dwp request of
        None \<Rightarrow> Inr None
      | Some f \<Rightarrow>
          let_ok (load_sections (\<lambda>section_id. load_dwo_section (dl_texts L) f section_id (dr_layout request)) (dl_package_sections L)) (\<lambda>sections.
          let_ok (from_gimli (dl_package L sections (ef_is_little_endian f))) (\<lambda>package. Inr (Some package))))"

definition request_sources :: "('d, 'v) dwarf_loader \<Rightarrow> ('d, 'v) gimli \<Rightarrow> dwarf_request \<Rightarrow> 'd
    \<Rightarrow> (u64 \<Rightarrow> 'd \<Rightarrow> 'd option gimli_result) option \<Rightarrow> ('d, 'v) dwo_sources" where
  "request_sources L G request dwarf package =
     \<lparr>dwo_filesystem = map_option (\<lambda>base u dwo_id.
        let_ok (load_dwo L G dwarf u dwo_id base (dr_layout request)) (\<lambda>dwo.
        Inr (map_option (\<lambda>(sections, little). dl_make_dwo L (dl_borrow L sections little) dwarf) dwo))) (dr_dwo_base request),
      dwo_package = map_option (\<lambda>find_cu dwo_id. from_gimli (find_cu dwo_id dwarf)) package,
      dwo_error_text = ce_error_text (dl_companion L)\<rparr>"

definition import_dwarf_request :: "'t file_env \<Rightarrow> ('d, 'v) dwarf_loader \<Rightarrow> ('d, 'v) gimli \<Rightarrow> import_options \<Rightarrow> dwarf_request
    \<Rightarrow> 't import_state \<Rightarrow> 't import_state result" where
  "import_dwarf_request env L G options request s =
     let_ok (request_dwarf L request) (\<lambda>dwarf.
     let_ok (request_package L request) (\<lambda>package.
     import_dwarf env G options (request_sources L G request dwarf package) dwarf s))"

section \<open>Symbols\<close>

text \<open>\<open>Ord\<close> of functions that are a range and a name.\<close>

definition sort_functions :: "gfunction list \<Rightarrow> gfunction list" where
  "sort_functions = sort_key (\<lambda>fn. (fn_range fn, fn_name fn))"

text \<open>A slice is its address and its bytes; \<open>std::ptr::eq\<close> compares address and length. The caller's inputs have addresses;
  unpacked debug data is in an allocation of its own.\<close>

datatype slice_address = InputAddress nat | Unpacked

type_synonym slice = "slice_address \<times> bytes"

definition same_slice :: "slice \<Rightarrow> slice \<Rightarrow> bool" where
  "same_slice s t \<longleftrightarrow> fst s = fst t \<and> length (snd s) = length (snd t)"

fun unique_sources :: "(slice \<times> elf_file) list \<Rightarrow> slice list \<Rightarrow> elf_file list" where
  "unique_sources [] visited = []"
| "unique_sources ((s, f) # sources) visited =
     (if list_ex (\<lambda>other. same_slice other s) visited then unique_sources sources visited
      else f # unique_sources sources (visited @ [s]))"

definition import_symbol :: "gfunction \<Rightarrow> symbol_disposition \<Rightarrow> 't gsym_builder \<times> nat \<times> nat \<Rightarrow> ('t gsym_builder \<times> nat \<times> nat) result" where
  "import_symbol fn disposition s =
     (case s of (b, imported, rejected) \<Rightarrow>
        (case disposition of
           Import \<Rightarrow> let_ok (add_function fn b) (\<lambda>b. Inr (b, saturating_add imported 1, rejected))
         | Reject \<Rightarrow> Inr (b, imported, saturating_add rejected 1)))"

definition collect_symbol :: "gfunction \<Rightarrow> symbol_disposition \<Rightarrow> gfunction list \<times> gfunction list \<Rightarrow> (gfunction list \<times> gfunction list) result" where
  "collect_symbol fn disposition s =
     (case s of (accepted, skipped) \<Rightarrow>
        (case disposition of Import \<Rightarrow> Inr (accepted @ [fn], skipped) | Reject \<Rightarrow> Inr (accepted, skipped @ [fn])))"

text \<open>The builder, the number of imported functions and the number of rejected ranges. \<open>binary_search\<close> in the sorted list
  of accepted functions is a test for membership.\<close>

definition import_distinct_symbols :: "(slice \<times> elf_file) list \<Rightarrow> address_layout \<Rightarrow> 't gsym_builder \<Rightarrow> nat
    \<Rightarrow> ('t gsym_builder \<times> nat \<times> nat) result" where
  "import_distinct_symbols sources layout b rejected =
     (case unique_sources sources [] of
        [f] \<Rightarrow> visit_symbols f layout import_symbol (b, 0, rejected)
      | unique \<Rightarrow>
          let_ok (fold_ok (\<lambda>f s. visit_symbols f layout collect_symbol s) unique ([], [])) (\<lambda>(accepted, skipped).
          let accepted = dedup (sort_functions accepted);
              skipped = filter (\<lambda>fn. fn \<notin> set accepted) (dedup (sort_functions skipped)) in
          let_ok (fold_ok add_function accepted b) (\<lambda>b.
          Inr (b, length accepted, saturating_add rejected (length skipped)))))"

section \<open>The converter\<close>

record elf_inputs =
  in_image :: slice
  in_debug :: "slice option"
  in_symbols :: "slice option"
  in_supplementary :: "slice option"
  in_dwp :: "slice option"

record dwarf_import_options =
  di_inline_info :: bool
  di_call_sites :: bool

datatype discovery_policy = Disabled | Enabled

record conversion_options =
  co_writer :: writer_options
  co_include_symbols :: bool
  co_dwarf :: "dwarf_import_options option"
  co_discovery :: discovery_policy
  co_debug_directories :: "bytes list"
  co_debuginfod_urls :: "string list"
  co_debuginfod_cache :: bytes
  co_debuginfod_max_download_size :: u64
  co_gnu_debugdata_max_decompressed_size :: u64

record 't conversion_report =
  rp_builder :: "'t gsym_builder"
  rp_stats :: conversion_stats
  rp_warnings :: "conversion_warning list"
  rp_discovered_debug :: "bytes option"
  rp_discovered_supplementary :: "bytes option"
  rp_discovered_dwp :: "bytes option"

definition parse_optional :: "companion_env \<Rightarrow> slice option \<Rightarrow> elf_input_kind \<Rightarrow> elf_file option result" where
  "parse_optional ce given input =
     (case given of None \<Rightarrow> Inr None | Some s \<Rightarrow> let_ok (parse_elf (ce_parse ce) (snd s) input) (\<lambda>f. Inr (Some f)))"

text \<open>The options of the builder, from the image and the caller's.\<close>

definition converter_options :: "conversion_options \<Rightarrow> elf_file \<Rightarrow> address_layout \<Rightarrow> bytes \<Rightarrow> builder_options" where
  "converter_options options img layout build_id =
     (let writer = (co_writer options)\<lparr>wo_endian := (if ef_is_little_endian img then Little else Big),
          wo_base_address := Some (r_start (hd (al_ranges layout)))\<rparr>;
          writer = (if wo_build_id writer = [] then writer\<lparr>wo_build_id := build_id\<rparr> else writer) in
      builder_options_default\<lparr>bo_writer := writer, bo_executable_ranges := al_ranges layout\<rparr>)"

text \<open>The symbols of the symbol file, of a separate debug file and of the image.\<close>

definition convert_symbols :: "companion_env \<Rightarrow> conversion_options \<Rightarrow> elf_inputs \<Rightarrow> elf_file \<Rightarrow> address_layout \<Rightarrow> slice \<Rightarrow> elf_file \<Rightarrow> bool
    \<Rightarrow> 't gsym_builder \<Rightarrow> conversion_stats \<Rightarrow> ('t gsym_builder \<times> conversion_stats) result" where
  "convert_symbols ce options inputs img layout debug_bytes debug separate_debug b stats =
     (if \<not> co_include_symbols options then Inr (b, stats)
      else
        let_ok (parse_optional ce (in_symbols inputs) elf_input_kind.Symbols) (\<lambda>symbol_file.
        let_ok (case symbol_file of None \<Rightarrow> Inr () | Some f \<Rightarrow> cross_check_elf_identity img f elf_input_kind.Symbols) (\<lambda>_.
        let sources = (case (in_symbols inputs, symbol_file) of (Some bs, Some f) \<Rightarrow> [(bs, f)] | _ \<Rightarrow> [])
          @ (if separate_debug then [(debug_bytes, debug)] else []) @ [(in_image inputs, img)] in
        let_ok (import_distinct_symbols sources layout b (st_rejected_ranges stats)) (\<lambda>(b, imported, rejected).
        Inr (b, stats\<lparr>st_symbol_functions := imported, st_rejected_ranges := rejected\<rparr>)))))"

definition convert_dwarf :: "'t file_env \<Rightarrow> ('d, 'v) dwarf_loader \<Rightarrow> ('d, 'v) gimli \<Rightarrow> conversion_options \<Rightarrow> dwarf_request
    \<Rightarrow> 't import_state \<Rightarrow> 't import_state result" where
  "convert_dwarf env L G options request s =
     (case co_dwarf options of
        None \<Rightarrow> Inr s
      | Some dwarf_options \<Rightarrow>
          import_dwarf_request env L G \<lparr>io_executable_ranges = al_ranges (dr_layout request),
            io_include_inlines = di_inline_info dwarf_options, io_include_call_sites = di_call_sites dwarf_options\<rparr> request s)"

definition convert_inner :: "'t file_env \<Rightarrow> ('d, 'v) dwarf_loader \<Rightarrow> ('d, 'v) gimli \<Rightarrow> conversion_options \<Rightarrow> elf_inputs \<Rightarrow> bytes option
    \<Rightarrow> 't conversion_report result" where
  "convert_inner env L G options inputs dwo_base =
     (let ce = dl_companion L in
      let_ok (parse_elf (ce_parse ce) (snd (in_image inputs)) elf_input_kind.Image) (\<lambda>img.
      let_ok (require_supported_kind img) (\<lambda>_.
      let_ok (address_layout_new img) (\<lambda>layout.
      if al_ranges layout = [] then Inl (InvalidModel ''ELF image has no executable sections'')
      else
        let_ok (or_malformed ''ELF build ID'' (ef_build_id img)) (\<lambda>build_id.
        let (mini_debug, warnings) =
            (if in_debug inputs = None \<and> (co_include_symbols options \<or> co_dwarf options \<noteq> None)
             then validated_gnu_debugdata ce img (co_gnu_debugdata_max_decompressed_size options) [] else (None, []));
          debug_bytes = (case in_debug inputs of Some bs \<Rightarrow> bs
            | None \<Rightarrow> (case mini_debug of Some bs \<Rightarrow> (Unpacked, bs) | None \<Rightarrow> in_image inputs));
          separate_debug = (in_debug inputs \<noteq> None \<or> mini_debug \<noteq> None) in
        let_ok (parse_elf (ce_parse ce) (snd debug_bytes) elf_input_kind.Debug) (\<lambda>debug.
        let_ok (if in_debug inputs \<noteq> None then cross_check_elf_identity img debug elf_input_kind.Debug else Inr ()) (\<lambda>_.
        let_ok (parse_optional ce (in_supplementary inputs) elf_input_kind.Supplementary) (\<lambda>supplementary.
        let_ok (parse_optional ce (in_dwp inputs) elf_input_kind.Dwp) (\<lambda>dwp.
        let_ok (case dwp of None \<Rightarrow> Inr () | Some dwp \<Rightarrow> cross_check_elf_architecture img dwp elf_input_kind.Dwp) (\<lambda>_.
        let b = builder_with_options env (converter_options options img layout (case build_id of None \<Rightarrow> [] | Some bs \<Rightarrow> bs)) in
        let_ok (convert_symbols ce options inputs img layout debug_bytes debug separate_debug b conversion_stats_default) (\<lambda>(b, stats).
        let_ok (convert_dwarf env L G options
            \<lparr>dr_file = debug, dr_supplementary = supplementary, dr_dwp = dwp, dr_dwo_base = dwo_base, dr_layout = layout\<rparr>
            \<lparr>im_builder = b, im_stats = stats, im_warnings = warnings\<rparr>) (\<lambda>s.
        Inr \<lparr>rp_builder = im_builder s, rp_stats = im_stats s, rp_warnings = im_warnings s,
          rp_discovered_debug = None, rp_discovered_supplementary = None, rp_discovered_dwp = None\<rparr>))))))))))))"

text \<open>\<open>ElfConverter::convert\<close>: no DWO files are looked for.\<close>

definition convert :: "'t file_env \<Rightarrow> ('d, 'v) dwarf_loader \<Rightarrow> ('d, 'v) gimli \<Rightarrow> conversion_options \<Rightarrow> elf_inputs
    \<Rightarrow> 't conversion_report result" where
  "convert env L G options inputs = convert_inner env L G options inputs None"

end
