(* ===== verification/DieValid.thy ===== *)
theory DieValid
  imports DwarfDies DwarfRows
begin

text \<open>
  What \<open>src/convert/dwarf/dies.rs\<close> extracts is what \<open>src/validation.rs\<close> accepts: the ranges of an inline node are
  sorted, disjoint and inside its parent, the tree respects the depth limit, call sites lie in the function, and
  every file index was given by the builder. The invariant is kept by every step of the traversal, whatever the
  entries are.
\<close>

section \<open>Ranges inside their parents\<close>

lemma separated_iff: "separated rs \<longleftrightarrow> (\<forall>r \<in> set rs. live_range r) \<and> sorted_wrt (\<lambda>r s. r_end r < r_start s) rs"
proof (induction rs rule: separated.induct)
  case (3 r s rest)
  have "r_end r < r_start t" if "separated (s # rest)" "r_end r < r_start s" "t \<in> set rest" for t
  proof -
    have "r_start s < r_end s" "r_end s < r_start t" using that 3 by (auto simp: live_range_def)
    then show ?thesis using that(2) by order
  qed
  then show ?case using 3 by auto
qed auto

lemma separated_gap:
  assumes "separated rs" and "p \<in> set rs" and "q \<in> set rs"
  shows "\<not> range_contains q (r_end p)"
proof
  assume c: "range_contains q (r_end p)"
  have live: "live_range p" "live_range q" and sw: "sorted_wrt (\<lambda>r s. r_end r < r_start s) rs"
    using assms unfolding separated_iff by blast+
  obtain i j where i: "i < length rs" "rs ! i = p" and j: "j < length rs" "rs ! j = q"
    using assms(2,3) unfolding in_set_conv_nth by blast
  have inq: "r_start q \<le> r_end p" "r_end p < r_end q" using c unfolding range_contains_live[OF live(2)] by blast+
  have "i < j \<Longrightarrow> False" using sorted_wrt_nth_less[OF sw, of i j] i j inq(1) by (simp add: not_le)
  moreover have "i = j \<Longrightarrow> False" using i j inq(2) by auto
  moreover have "r_end q < r_start p \<Longrightarrow> False" using inq(2) live(1) unfolding live_range_def by order
  then have "j < i \<Longrightarrow> False" using sorted_wrt_nth_less[OF sw, of j i] i j by auto
  ultimately show False by (metis linorder_less_linear)
qed

lemma contains_range_live: "live_range p \<Longrightarrow> live_range r \<Longrightarrow> contains_range p r \<longleftrightarrow> r_start p \<le> r_start r \<and> r_end r \<le> r_end p"
  by (auto simp: contains_range_def range_is_valid_def live_range_def)

lemma coalesced_inside:
  assumes p: "separated parents" and k: "\<forall>r \<in> set kept. live_range r \<and> (\<exists>parent \<in> set parents. contains_range parent r)"
    and c: "c \<in> set (coalesce_ranges kept)"
  shows "\<exists>parent \<in> set parents. contains_range parent c"
proof -
  have spec: "separated (coalesce_ranges kept)"
      "\<And>a. (\<exists>r \<in> set (coalesce_ranges kept). range_contains r a) \<longleftrightarrow> (\<exists>r \<in> set kept. range_contains r a)"
    using coalesce_ranges_spec[of kept] k by blast+
  have lc: "live_range c" using spec(1) c unfolding separated_iff by blast
  have lp: "\<And>q. q \<in> set parents \<Longrightarrow> live_range q" using p unfolding separated_iff by blast
  have cover: "\<exists>q \<in> set parents. range_contains q a" if a: "range_contains c a" for a
  proof -
    obtain r where r: "r \<in> set kept" "range_contains r a" using spec(2) c a by blast
    obtain q where q: "q \<in> set parents" "contains_range q r" using k r(1) by blast
    have "live_range r" using k r(1) by blast
    then have "range_contains q a" using r(2) q contains_range_live[OF lp[OF q(1)]] range_contains_live[OF lp[OF q(1)]]
      by (auto simp: range_contains_live)
    then show ?thesis using q(1) by blast
  qed
  have "range_contains c (r_start c)" using lc by (simp add: range_contains_live live_range_def)
  then obtain q where q: "q \<in> set parents" "range_contains q (r_start c)" using cover by blast
  note rq = range_contains_live[OF lp[OF q(1)]]
  have "r_end c \<le> r_end q"
  proof (rule ccontr)
    assume "\<not> r_end c \<le> r_end q"
    then have "range_contains c (r_end q)" using q(2) lc unfolding rq range_contains_live[OF lc] by auto
    then show False using cover separated_gap[OF p q(1)] by blast
  qed
  then show ?thesis using q unfolding rq by (intro bexI[of _ q]) (simp_all add: contains_range_live[OF lp[OF q(1)] lc])
qed

section \<open>What the validator accepts\<close>

lemma fold_max_accepts:
  "(\<exists>m. fold_ok (\<lambda>x m. let_ok (f x) (\<lambda>k. Inr (max m k))) xs m0 = Inr (m :: 'm :: linorder)) \<longleftrightarrow> (\<forall>x \<in> set xs. \<exists>k. f x = Inr k)"
  by (induction xs arbitrary: m0) (auto simp: ok_simps)

lemma validate_inline_accepts:
  "(\<exists>m. validate_inline parents depth (InlineNode ranges name cfile cline children) = Inr m) \<longleftrightarrow>
     check_inline_depth depth = Inr () \<and> ranges \<noteq> []
     \<and> (\<exists>e. fold_ok (validate_inline_range parents) ranges None = Inr e)
     \<and> (\<forall>child \<in> set children. \<exists>m. validate_inline ranges (depth + 1) child = Inr m)"
  using fold_max_accepts[of "validate_inline ranges (depth + 1)" children cfile] by (auto simp: ok_simps)

lemma validate_ranges_accepts:
  "separated ranges \<Longrightarrow> \<forall>r \<in> set ranges. \<exists>parent \<in> set parents. contains_range parent r
    \<Longrightarrow> (ranges \<noteq> [] \<longrightarrow> (case previous of None \<Rightarrow> True | Some e \<Rightarrow> e \<le> r_start (hd ranges)))
    \<Longrightarrow> \<exists>e. fold_ok (validate_inline_range parents) ranges previous = Inr e"
proof (induction ranges arbitrary: previous)
  case (Cons r rest)
  have live: "live_range r" "separated rest" "rest \<noteq> [] \<longrightarrow> r_end r < r_start (hd rest)"
    using Cons.prems(1) by (auto simp: separated_iff)
  have "validate_inline_range parents r previous = Inr (Some (r_end r))"
    using live(1) Cons.prems(2,3) by (auto simp: validate_inline_range_def range_is_valid_def range_is_empty_iff live_range_def list_ex_iff
        split: option.splits)
  moreover have "\<exists>e. fold_ok (validate_inline_range parents) rest (Some (r_end r)) = Inr e"
    by (rule Cons.IH) (use live Cons.prems(2) in auto)
  ultimately show ?case by simp
qed simp

section \<open>Nodes and stacks\<close>

definition node_ok :: "nat \<Rightarrow> address_range list \<Rightarrow> nat \<Rightarrow> inline_node \<Rightarrow> bool" where
  "node_ok n parents depth node \<longleftrightarrow> (\<exists>m. validate_inline parents depth node = Inr m)
     \<and> (\<forall>index \<in> set (inline_file_refs node). unat index < n) \<and> separated (node_ranges node)"

lemma node_ok_add_child:
  assumes "node_ok n parents depth node" and "node_ok n (node_ranges node) (Suc depth) child"
  shows "node_ok n parents depth (add_children [child] node)"
proof (cases node)
  case (InlineNode ranges name cfile cline children)
  then show ?thesis using assms unfolding node_ok_def
    by (auto simp: validate_inline_accepts simp del: validate_inline.simps)
qed

fun stack_ok :: "nat \<Rightarrow> ('d, 'v) detail_context \<Rightarrow> inline_stack \<Rightarrow> bool" where
  "stack_ok n ctx [] \<longleftrightarrow> True"
| "stack_ok n ctx ((depth, node) # stack) \<longleftrightarrow> node_ok n (parent_ranges ctx stack) (Suc (length stack)) node \<and> stack_ok n ctx stack"

definition roots_ok :: "nat \<Rightarrow> ('d, 'v) detail_context \<Rightarrow> inline_node list \<Rightarrow> bool" where
  "roots_ok n ctx roots \<longleftrightarrow> (\<forall>node \<in> set roots. node_ok n [dc_range ctx] 1 node)"

lemma add_children_ranges [simp]: "node_ranges (add_children nodes node) = node_ranges node"
  by (cases node) simp

lemma finish_inline_ok:
  "stack_ok n ctx stack \<Longrightarrow> roots_ok n ctx roots \<Longrightarrow> finish_inline stack roots = (stack', roots')
    \<Longrightarrow> stack_ok n ctx stack' \<and> roots_ok n ctx roots'"
  by (cases "(stack, roots)" rule: finish_inline.cases)
    (auto simp: roots_ok_def parent_ranges_def intro: node_ok_add_child)

lemma finish_while_ok:
  "stack_ok n ctx stack \<Longrightarrow> roots_ok n ctx roots \<Longrightarrow> finish_while p stack roots = (stack', roots')
    \<Longrightarrow> stack_ok n ctx stack' \<and> roots_ok n ctx roots'"
proof (induction p stack roots rule: finish_while.induct)
  case (1 p stack roots)
  show ?case
  proof (cases "stack \<noteq> [] \<and> p (fst (hd stack))")
    case True
    obtain st rt where f: "finish_inline stack roots = (st, rt)" by (metis surj_pair)
    have "finish_while p st rt = (stack', roots')" using "1.prems"(3) True f by (subst (asm) finish_while.simps) simp
    then show ?thesis using "1.IH"[OF True] finish_inline_ok[OF "1.prems"(1,2) f] by (simp add: f)
  next
    case False
    then show ?thesis using "1.prems" by (subst (asm) finish_while.simps) auto
  qed
qed

definition site_ok :: "('d, 'v) detail_context \<Rightarrow> call_site \<Rightarrow> bool" where
  "site_ok ctx site \<longleftrightarrow> return_offset site < range_size (dc_range ctx)"

definition descend_ok :: "nat \<Rightarrow> ('d, 'v) detail_context \<Rightarrow> descend_state \<Rightarrow> bool" where
  "descend_ok n ctx s \<longleftrightarrow> stack_ok n ctx (d_inline_stack s) \<and> roots_ok n ctx (d_inlines s)
     \<and> (\<forall>(depth, site) \<in> set (d_site_stack s). site_ok ctx site) \<and> (\<forall>site \<in> set (d_call_sites s). site_ok ctx site)"

lemma finish_call_sites_set:
  "finish_call_sites stack depth outs = (stack', outs') \<Longrightarrow> set stack' \<subseteq> set stack \<and> set outs' \<subseteq> set outs \<union> snd ` set stack"
proof (induction stack depth outs rule: finish_call_sites.induct)
  case (2 d site stack next_depth outs)
  show ?case
  proof (cases "d \<ge> next_depth")
    case True
    then show ?thesis using 2 by auto
  next
    case False
    then show ?thesis using "2.prems" by auto
  qed
qed auto

lemma finish_sites_ok:
  assumes "finish_call_sites (d_site_stack s) depth (d_call_sites s) = (sites, outs)" and "descend_ok n ctx s"
  shows "(\<forall>(d, site) \<in> set sites. site_ok ctx site) \<and> (\<forall>site \<in> set outs. site_ok ctx site)"
  using finish_call_sites_set[OF assms(1)] assms(2) unfolding descend_ok_def by fastforce

lemma close_frames_ok: "descend_ok n ctx s \<Longrightarrow> descend_ok n ctx (close_frames depth s)"
  using finish_while_ok[of n ctx "d_inline_stack s" "d_inlines s"] finish_sites_ok[of s depth _ _ n ctx]
  by (auto simp: close_frames_def descend_ok_def split: prod.splits)

lemma finish_descendants_ok: "descend_ok n ctx s \<Longrightarrow> descend_ok n ctx (finish_descendants depth s)"
  using finish_while_ok[of n ctx "d_inline_stack s" "d_inlines s"] finish_sites_ok[of s depth _ _ n ctx]
  by (auto simp: finish_descendants_def descend_ok_def split: prod.splits)


section \<open>New nodes and call sites\<close>

lemma kept_ranges:
  assumes "for_each (\<lambda>r kept. Inr (keep_range parents r kept)) ranges [] = Inr kept"
  shows "\<forall>r \<in> set kept. live_range r \<and> (\<exists>parent \<in> set parents. contains_range parent r)"
  by (rule for_each_invariant[OF assms, where I = "\<lambda>kept. \<forall>r \<in> set kept. live_range r \<and> (\<exists>parent \<in> set parents. contains_range parent r)"])
    (auto simp: keep_range_def live_range_def list_ex_iff split: if_splits)

lemma call_file_exists:
  assumes "call_file_of G u entry files w = Inr (f, w')" and "indices_exist n files" and "0 < n"
  shows "unat f < n"
proof (cases "file_index_attribute G entry DW_AT_call_file")
  case (Some index)
  then show ?thesis using assms indices_exist_get[OF assms(2), of index]
    by (auto simp: call_file_of_def ok_simps split: option.splits)
qed (use assms in \<open>simp add: call_file_of_def\<close>)

lemma make_inline_node_parts:
  assumes "make_inline_node G dwarf u entry parents files w = Inr (Some node, w')"
  shows "\<exists>name ranges kept f ln w1. for_each (\<lambda>r kept. Inr (keep_range parents r kept)) ranges [] = Inr kept
    \<and> coalesce_ranges kept \<noteq> [] \<and> call_file_of G u entry files w = Inr (f, w1)
    \<and> node = InlineNode (coalesce_ranges kept) name f ln []"
proof -
  obtain found where n: "resolve_name G dwarf u entry 0 = Inr found"
    using assms by (cases "resolve_name G dwarf u entry 0") (simp_all add: make_inline_node_def)
  then obtain name where name: "found = Some name" using assms by (cases found) (simp_all add: make_inline_node_def)
  note step = assms[unfolded make_inline_node_def n name let_ok_Inr option.case]
  obtain ranges where r: "from_gimli (g_die_ranges G dwarf u entry) = Inr ranges" using step by (rule let_ok_InrE)
  obtain kept where k: "for_each (\<lambda>r kept. Inr (keep_range parents r kept)) ranges [] = Inr kept"
    using step[unfolded r let_ok_Inr] by (rule let_ok_InrE)
  note step = step[unfolded r k let_ok_Inr Let_def]
  have ne: "coalesce_ranges kept \<noteq> []" using step by (simp split: if_splits)
  obtain p where "call_file_of G u entry files w = Inr p" using step[unfolded if_not_P[OF ne]] by (rule let_ok_InrE)
  moreover obtain f w1 where "p = (f, w1)" by (cases p)
  ultimately have f: "call_file_of G u entry files w = Inr (f, w1)" by simp
  obtain q where l: "call_line_of G u entry w1 = Inr q" using step[unfolded if_not_P[OF ne] f let_ok_Inr prod.case] by (rule let_ok_InrE)
  have "node = InlineNode (coalesce_ranges kept) name f (fst q) []"
    using step[unfolded if_not_P[OF ne] f l let_ok_Inr prod.case] by (simp split: prod.splits)
  then show ?thesis using k ne f by blast
qed

lemma make_inline_node_ok:
  assumes "make_inline_node G dwarf u entry parents files w = Inr (Some node, w')"
    and "indices_exist n files" and "0 < n" and "separated parents" and "check_inline_depth depth = Inr ()"
  shows "node_ok n parents depth node"
proof -
  obtain name ranges kept f ln w1 where k: "for_each (\<lambda>r kept. Inr (keep_range parents r kept)) ranges [] = Inr kept"
    and ne: "coalesce_ranges kept \<noteq> []" and f: "call_file_of G u entry files w = Inr (f, w1)"
    and node: "node = InlineNode (coalesce_ranges kept) name f ln []"
    using make_inline_node_parts[OF assms(1)] by blast
  note kept = kept_ranges[OF k]
  have sep: "separated (coalesce_ranges kept)" using coalesce_ranges_spec[of kept] kept by blast
  have "\<exists>e. fold_ok (validate_inline_range parents) (coalesce_ranges kept) None = Inr e"
    by (rule validate_ranges_accepts[OF sep]) (use coalesced_inside[OF assms(4) kept] in auto)
  then have "\<exists>m. validate_inline parents depth node = Inr m" using ne assms(5) unfolding node validate_inline_accepts by simp
  then show ?thesis using sep call_file_exists[OF f assms(2,3)] by (simp add: node_ok_def node del: validate_inline.simps)
qed

lemma make_call_site_ok:
  assumes "make_call_site G dwarf u entry r = Inr (Some site)"
  shows "return_offset site < range_size r"
proof -
  obtain v where v: "die_attr entry DW_AT_call_return_pc = Some v" using assms
    by (cases "die_attr entry DW_AT_call_return_pc") (simp_all add: make_call_site_def)
  note step = assms[unfolded make_call_site_def v option.case]
  obtain found where f: "from_gimli (g_attr_address G dwarf u v) = Inr found" using step by (rule let_ok_InrE)
  note step = step[unfolded f let_ok_Inr]
  obtain pc where pc: "found = Some pc" using step by (cases found) simp_all
  note step = step[unfolded pc option.case]
  have c: "range_contains r pc" using step by (simp split: if_splits)
  then have "r_start r \<le> pc" "pc < r_end r" "range_is_valid r" by (auto simp: range_contains_def)
  then have sub: "checked_sub_u64 pc (r_start r) = Some (pc - r_start r)" by (simp add: checked_sub_u64_def)
  have "return_offset site = pc - r_start r"
    using step c unfolding sub by (auto split: option.splits)
  moreover have "pc - r_start r < range_size r"
    using \<open>r_start r \<le> pc\<close> \<open>pc < r_end r\<close> less_imp_le[OF less_le_trans[OF _ less_imp_le]]
    unfolding range_size_valid[OF \<open>range_is_valid r\<close>]
    by (simp add: word_less_nat_alt word_le_nat_alt unat_sub)
  ultimately show ?thesis by simp
qed

section \<open>The traversal keeps the invariant\<close>

lemma parent_ranges_separated:
  "stack_ok n ctx stack \<Longrightarrow> live_range (dc_range ctx) \<Longrightarrow> separated (parent_ranges ctx stack)"
  by (cases "(n, ctx, stack)" rule: stack_ok.cases) (auto simp: parent_ranges_def node_ok_def)

lemma open_call_site_ok:
  assumes "open_call_site G ctx entry s = Inr t" and "descend_ok n ctx s"
  shows "descend_ok n ctx t"
proof (cases "dc_call_sites ctx \<and> die_tag entry = DW_TAG_call_site")
  case True
  then obtain site where site: "make_call_site G (dc_dwarf ctx) (dc_unit ctx) entry (dc_range ctx) = Inr site"
    and t: "t = (case site of None \<Rightarrow> s | Some site \<Rightarrow> s\<lparr>d_site_stack := (die_depth entry, site) # d_site_stack s\<rparr>)"
    using assms(1) by (auto simp: open_call_site_def)
  show ?thesis using assms(2) site t make_call_site_ok[of G "dc_dwarf ctx" "dc_unit ctx" entry "dc_range ctx"]
    by (cases site) (simp_all add: descend_ok_def site_ok_def)
next
  case False
  then have "t = s" using assms(1) by (auto simp: open_call_site_def)
  then show ?thesis using assms(2) by simp
qed

lemma open_inline_ok:
  assumes "open_inline G ctx entry s = Inr t" and "descend_ok n ctx s"
    and "indices_exist n (dc_files ctx)" and "0 < n" and "live_range (dc_range ctx)"
  shows "descend_ok n ctx t"
proof (cases "dc_inlines ctx \<and> die_tag entry = DW_TAG_inlined_subroutine")
  case True
  let ?make = "make_inline_node G (dc_dwarf ctx) (dc_unit ctx) entry (parent_ranges ctx (d_inline_stack s)) (dc_files ctx) (d_warnings s)"
  obtain node w where m: "?make = Inr (node, w)"
    using assms(1) True by (cases ?make) (auto simp: open_inline_def)
  show ?thesis
  proof (cases node)
    case None
    then have "t = s\<lparr>d_warnings := w\<rparr>" using assms(1) True m by (simp add: open_inline_def)
    then show ?thesis using assms(2) by (simp add: descend_ok_def)
  next
    case (Some nd)
    let ?level = "saturating_add (length (d_inline_stack s)) 1"
    have d: "check_inline_depth ?level = Inr ()"
      and t: "t = s\<lparr>d_warnings := w, d_count := saturating_add (d_count s) 1, d_inline_stack := (die_depth entry, nd) # d_inline_stack s\<rparr>"
      using assms(1) True m Some by (auto simp: open_inline_def ok_simps)
    have "?level = Suc (length (d_inline_stack s))"
      using d by (auto simp: check_inline_depth_def saturating_add_def MAX_INLINE_DEPTH_def min_def split: if_splits)
    moreover have "stack_ok n ctx (d_inline_stack s)" using assms(2) by (simp add: descend_ok_def)
    ultimately have "node_ok n (parent_ranges ctx (d_inline_stack s)) (Suc (length (d_inline_stack s))) nd"
      using make_inline_node_ok[OF m[unfolded Some] assms(3,4) parent_ranges_separated[OF _ assms(5)] d] by simp
    then show ?thesis using assms(2) by (simp add: t descend_ok_def)
  qed
next
  case False
  then have "t = s" using assms(1) by (auto simp: open_inline_def)
  then show ?thesis using assms(2) by simp
qed

lemma visit_descendants_ok:
  "visit_descendants G ctx root failure entries s = Inr t \<Longrightarrow> descend_ok n ctx s
    \<Longrightarrow> indices_exist n (dc_files ctx) \<Longrightarrow> 0 < n \<Longrightarrow> live_range (dc_range ctx) \<Longrightarrow> descend_ok n ctx t"
proof (induction entries arbitrary: s)
  case Nil
  then show ?case by (auto split: option.splits)
next
  case (Cons entry entries)
  show ?case
  proof (cases "die_depth entry \<le> root")
    case False
    then have run: "let_ok (visit_descendant G ctx entry s) (visit_descendants G ctx root failure entries) = Inr t"
      using Cons.prems(1) by simp
    obtain s2 where v: "visit_descendant G ctx entry s = Inr s2" using run by (rule let_ok_InrE)
    obtain s1 where o: "open_call_site G ctx entry (close_frames (die_depth entry) s) = Inr s1"
      using v unfolding visit_descendant_def by (rule let_ok_InrE)
    have i: "open_inline G ctx entry s1 = Inr s2" using v unfolding visit_descendant_def o by simp
    have "descend_ok n ctx s2"
      by (rule open_inline_ok[OF i open_call_site_ok[OF o close_frames_ok[OF Cons.prems(2)]] Cons.prems(3-5)])
    then show ?thesis using Cons.IH[of s2] Cons.prems(3-5) run v by simp
  qed (use Cons.prems in simp)
qed

lemma collect_descendants_ok:
  assumes "collect_descendants G ctx offset w = Inr s" and "indices_exist n (dc_files ctx)" and "0 < n" and "live_range (dc_range ctx)"
  shows "descend_ok n ctx s"
proof -
  have new: "descend_ok n ctx (descend_state_new w)" by (simp add: descend_ok_def descend_state_new_def roots_ok_def)
  obtain entries failure where e: "from_gimli (g_entries_at_offset G (dc_unit ctx) offset) = Inr (entries, failure)"
    using assms(1) by (cases "from_gimli (g_entries_at_offset G (dc_unit ctx) offset)") (auto simp: collect_descendants_def)
  note step = assms(1)[unfolded collect_descendants_def e let_ok_Inr prod.case]
  show ?thesis
  proof (cases entries)
    case Nil
    then show ?thesis using step new by (auto split: option.splits)
  next
    case (Cons root rest)
    obtain t where t: "visit_descendants G ctx (die_depth root) failure rest (descend_state_new w) = Inr t"
      using step[unfolded Cons list.case] by (rule let_ok_InrE)
    have "s = finish_descendants (die_depth root) t" using step by (simp add: Cons t)
    then show ?thesis using finish_descendants_ok[OF visit_descendants_ok[OF t new assms(2-4)]] by simp
  qed
qed

lemma extract_details_ok:
  assumes "extract_subprogram_details G ctx offset name w = Inr (inline, sites, k, w')"
    and "indices_exist n (dc_files ctx)" and "0 < n" and "live_range (dc_range ctx)"
  shows "(\<forall>site \<in> set sites. return_offset site < range_size (dc_range ctx))
    \<and> (\<forall>root. inline = Some root \<longrightarrow> (\<exists>m. validate_inline [dc_range ctx] 0 root = Inr m)
        \<and> (\<forall>index \<in> set (inline_file_refs root). unat index < n))"
proof (cases "\<not> dc_inlines ctx \<and> \<not> dc_call_sites ctx")
  case True
  then show ?thesis using assms(1) by (simp add: extract_subprogram_details_def)
next
  case False
  then have c: "let_ok (collect_descendants G ctx offset w) (\<lambda>s.
        Inr (if d_inlines s \<noteq> [] then Some (InlineNode [dc_range ctx] name 0 0 (d_inlines s)) else None,
          d_call_sites s, d_count s, d_warnings s)) = Inr (inline, sites, k, w')"
    using assms(1) by (simp only: extract_subprogram_details_def if_False)
  obtain s where s: "collect_descendants G ctx offset w = Inr s" using c by (rule let_ok_InrE)
  have out: "inline = (if d_inlines s \<noteq> [] then Some (InlineNode [dc_range ctx] name 0 0 (d_inlines s)) else None)" "sites = d_call_sites s"
    using c by (simp_all add: s)
  note ok = collect_descendants_ok[OF s assms(2-4)]
  have roots: "\<forall>node \<in> set (d_inlines s). node_ok n [dc_range ctx] 1 node" using ok by (simp add: descend_ok_def roots_ok_def)
  have "\<exists>m. validate_inline [dc_range ctx] 0 (InlineNode [dc_range ctx] name 0 0 (d_inlines s)) = Inr m"
    unfolding validate_inline_accepts
  proof (intro conjI)
    show "check_inline_depth 0 = Inr ()" by (simp add: check_inline_depth_def)
    show "\<exists>e. fold_ok (validate_inline_range [dc_range ctx]) [dc_range ctx] None = Inr e"
      by (rule validate_ranges_accepts) (use assms(4) in \<open>auto simp: contains_range_live\<close>)
    show "\<forall>child \<in> set (d_inlines s). \<exists>m. validate_inline [dc_range ctx] (0 + 1) child = Inr m"
      using roots by (auto simp: node_ok_def)
  qed simp
  moreover have "\<forall>index \<in> set (inline_file_refs (InlineNode [dc_range ctx] name 0 0 (d_inlines s))). unat index < n"
    using roots assms(3) by (auto simp: node_ok_def)
  moreover have "\<forall>site \<in> set sites. return_offset site < range_size (dc_range ctx)"
    using ok by (auto simp: descend_ok_def site_ok_def out)
  ultimately show ?thesis unfolding out(1) by (auto simp del: validate_inline.simps)
qed

end
