(* ===== verification/ImportSound.thy ===== *)
theory ImportSound
  imports DwarfImport DieValid
begin

text \<open>
  The import of \<open>src/convert/dwarf.rs\<close> against the builder it fills: every function it makes passes the builder's
  validation, every file it mentions is in the table, and every function is named and lies in executable code. A
  converted file therefore satisfies what \<open>Symbolize\<close> assumes of a builder.
\<close>

section \<open>Declaration lines\<close>

definition decl_result :: "'t file_env \<Rightarrow> (gfunction \<Rightarrow> bool) \<Rightarrow> 't gsym_builder \<Rightarrow> line_entry option \<Rightarrow> 't gsym_builder \<Rightarrow> bool" where
  "decl_result env P b row c \<longleftrightarrow> sound_builder env c \<and> grown P b c
     \<and> (\<forall>ln. row = Some ln \<longrightarrow> unat (row_file ln) < length (b_files c))"

definition decl_sound :: "'t file_env \<Rightarrow> (gfunction \<Rightarrow> bool) \<Rightarrow> ('d, 'v, 't) line_resolver \<Rightarrow> bool" where
  "decl_sound env P resolve \<longleftrightarrow> (\<forall>dwarf u entry files source s row t.
     resolve dwarf u entry files source s = Inr (row, t) \<longrightarrow> sound_builder env (ds_builder s)
       \<longrightarrow> indices_exist (length (b_files (ds_builder s))) files \<longrightarrow> decl_result env P (ds_builder s) row (ds_builder t))"

lemma decl_soundD:
  "decl_sound env P resolve \<Longrightarrow> resolve dwarf u entry files source s = Inr (row, t) \<Longrightarrow> sound_builder env (ds_builder s)
    \<Longrightarrow> indices_exist (length (b_files (ds_builder s))) files \<Longrightarrow> decl_result env P (ds_builder s) row (ds_builder t)"
  unfolding decl_sound_def by blast

lemma decl_result_None: "sound_builder env b \<Longrightarrow> decl_result env P b None b"
  by (simp add: decl_result_def)

lemma decl_result_trans: "grown P b c \<Longrightarrow> decl_result env P c row d \<Longrightarrow> decl_result env P b row d"
  by (auto simp: decl_result_def intro: grown_trans)

lemma decl_result_continue: "decl_result env P b found c \<Longrightarrow> decl_result env P c row d \<Longrightarrow> decl_result env P b row d"
  by (rule decl_result_trans[of P b c]) (simp_all only: decl_result_def[of _ _ b found])

lemma declared_here_sound:
  assumes "declared_here G u entry files s = Inr (row, t)" and "sound_builder env (ds_builder s)"
    and "indices_exist (length (b_files (ds_builder s))) files"
  shows "decl_result env P (ds_builder s) row (ds_builder t)"
  using assms indices_exist_get[OF assms(3)]
  by (auto simp: declared_here_def decl_result_def ok_simps split: option.splits)

lemma declaration_absolute_sound:
  assumes "declaration_absolute env G resolve dwarf target source s = Inr (row, t)" and "sound_builder env (ds_builder s)"
    and "decl_sound env P resolve"
  shows "decl_result env P (ds_builder s) row (ds_builder t)"
proof -
  obtain new visited where v: "visited_insert (source, target) (ds_visited s) = (new, visited)" by (metis surj_pair)
  let ?s = "s\<lparr>ds_visited := visited\<rparr>"
  note step = assms(1)[unfolded declaration_absolute_def v Let_def prod.case]
  show ?thesis
  proof (cases "\<not> new")
    case True
    then show ?thesis using step assms(2) by (auto simp: decl_result_None)
  next
    case False
    note step = step[unfolded if_not_P[OF False]]
    obtain found where f: "unit_containing_offset G dwarf target = Inr found" using step by (rule let_ok_InrE)
    note step = step[unfolded f let_ok_Inr]
    show ?thesis
    proof (cases found)
      case None
      then show ?thesis using step assms(2) by (auto simp: decl_result_None)
    next
      case (Some p)
      obtain u offset where p: "p = (u, offset)" by (cases p)
      note step = step[unfolded Some p option.case prod.case]
      obtain referenced where e: "unit_entry G u offset = Inr referenced" using step by (rule let_ok_InrE)
      note step = step[unfolded e let_ok_Inr]
      let ?files = "case u_line_program u of None \<Rightarrow> Inr (file_indices_default, ds_builder ?s)
              | Some program \<Rightarrow> intern_header_files env G dwarf u (lp_header program) (ds_builder ?s)"
      obtain q where q: "?files = Inr q" using step by (rule let_ok_InrE)
      obtain files b where fb: "q = (files, b)" by (cases q)
      have fs: "files_sound env P (ds_builder s) files b"
      proof (cases "u_line_program u")
        case None
        then show ?thesis using q files_sound_default[OF assms(2)] by (simp add: fb)
      next
        case (Some program)
        then have "intern_header_files env G dwarf u (lp_header program) (ds_builder s) = Inr (files, b)" using q by (simp add: fb)
        then show ?thesis by (rule intern_header_files_sound[OF _ assms(2)])
      qed
      have r: "resolve dwarf u referenced files source (s\<lparr>ds_visited := visited, ds_builder := b\<rparr>) = Inr (row, t)"
        by (rule step[unfolded q fb let_ok_Inr prod.case])
      have "decl_result env P b row (ds_builder t)"
        using decl_soundD[OF assms(3) r] fs by (simp add: files_sound_def)
      then show ?thesis using fs by - (rule decl_result_trans[of P _ b], simp_all add: files_sound_def)
    qed
  qed
qed

lemma declaration_unit_sound:
  assumes "declaration_unit G resolve dwarf u offset files source s = Inr (row, t)" and "sound_builder env (ds_builder s)"
    and "indices_exist (length (b_files (ds_builder s))) files" and "decl_sound env P resolve"
  shows "decl_result env P (ds_builder s) row (ds_builder t)"
proof -
  obtain absolute where a: "absolute_entry_offset u offset = Inr absolute"
    using assms(1) unfolding declaration_unit_def by (rule let_ok_InrE)
  obtain new visited where v: "visited_insert (source, absolute) (ds_visited s) = (new, visited)" by (metis surj_pair)
  note step = assms(1)[unfolded declaration_unit_def a let_ok_Inr v Let_def prod.case]
  show ?thesis
  proof (cases "\<not> new")
    case True
    then show ?thesis using step assms(2) by (auto simp: decl_result_None)
  next
    case False
    obtain referenced where "unit_entry G u offset = Inr referenced" using step[unfolded if_not_P[OF False]] by (rule let_ok_InrE)
    then have "resolve dwarf u referenced files source (s\<lparr>ds_visited := visited\<rparr>) = Inr (row, t)" using step False by simp
    from decl_soundD[OF assms(4) this] show ?thesis using assms(2,3) by simp
  qed
qed

lemma declaration_value_sound:
  assumes "declaration_value env G resolve dwarf u files source v s = Inr (row, t)" and "sound_builder env (ds_builder s)"
    and "indices_exist (length (b_files (ds_builder s))) files" and "decl_sound env P resolve"
  shows "decl_result env P (ds_builder s) row (ds_builder t)"
proof (cases v)
  case (Some x)
  show ?thesis
    by (cases x) (use assms(1) declaration_unit_sound[OF _ assms(2-4)] declaration_absolute_sound[OF _ assms(2,4)]
      decl_result_None[OF assms(2)] in \<open>auto simp: Some declaration_value_def split: option.splits\<close>)
qed (use assms(1) decl_result_None[OF assms(2)] in \<open>simp add: declaration_value_def\<close>)

lemma declaration_references_sound:
  "declaration_references env G resolve dwarf u entry files source attributes s = Inr (row, t) \<Longrightarrow> sound_builder env (ds_builder s)
    \<Longrightarrow> indices_exist (length (b_files (ds_builder s))) files \<Longrightarrow> decl_sound env P resolve
    \<Longrightarrow> decl_result env P (ds_builder s) row (ds_builder t)"
proof (induction attributes arbitrary: s)
  case Nil
  then show ?case using decl_result_None by simp
next
  case (Cons attribute attributes)
  obtain p where "declaration_value env G resolve dwarf u files source (die_attr entry attribute) s = Inr p"
    using Cons.prems(1) unfolding declaration_references.simps by (rule let_ok_InrE)
  moreover obtain found s1 where "p = (found, s1)" by (cases p)
  ultimately have v: "declaration_value env G resolve dwarf u files source (die_attr entry attribute) s = Inr (found, s1)" by simp
  note r = declaration_value_sound[OF v Cons.prems(2-4)]
  show ?case
  proof (cases found)
    case None
    have rest: "declaration_references env G resolve dwarf u entry files source attributes s1 = Inr (row, t)"
      using Cons.prems(1) v None by simp
    have d: "decl_result env P (ds_builder s1) row (ds_builder t)"
      by (rule Cons.IH[OF rest]) (use r Cons.prems(3,4) in \<open>auto simp: decl_result_def intro: indices_exist_mono dest: grown_files\<close>)
    show ?thesis by (rule decl_result_continue[OF r d])
  next
    case (Some ln)
    then show ?thesis using Cons.prems(1) v r by simp
  qed
qed

lemma declaration_resolve_sound: "decl_sound env P (declaration_resolve env G left)"
proof (induction left)
  case 0
  then show ?case by (simp add: decl_sound_def decl_result_None)
next
  case (Suc left)
  show ?case unfolding decl_sound_def
  proof (intro allI impI)
    fix dwarf u entry files source s row t
    assume r: "declaration_resolve env G (Suc left) dwarf u entry files source s = Inr (row, t)"
      and sb: "sound_builder env (ds_builder s)" and ix: "indices_exist (length (b_files (ds_builder s))) files"
    obtain p where "declared_here G u entry files s = Inr p" using r unfolding declaration_resolve.simps by (rule let_ok_InrE)
    moreover obtain found s1 where "p = (found, s1)" by (cases p)
    ultimately have h: "declared_here G u entry files s = Inr (found, s1)" by simp
    note here = declared_here_sound[OF h sb ix]
    show "decl_result env P (ds_builder s) row (ds_builder t)"
    proof (cases found)
      case None
      have "declaration_references env G (declaration_resolve env G left) dwarf u entry files source reference_attributes s1 = Inr (row, t)"
        using r h None by simp
      then have d: "decl_result env P (ds_builder s1) row (ds_builder t)"
        by (rule declaration_references_sound) (use here[of P] ix Suc.IH in \<open>auto simp: decl_result_def intro: indices_exist_mono dest: grown_files\<close>)
      show ?thesis by (rule decl_result_continue[OF here d])
    next
      case (Some ln)
      then show ?thesis using r h here by simp
    qed
  qed
qed

lemma resolve_declaration_sound:
  assumes "resolve_declaration_line env G dwarf u entry files b w = Inr (row, c, w')" and "sound_builder env b"
    and "indices_exist (length (b_files b)) files"
  shows "decl_result env P b row c"
proof -
  let ?s = "\<lparr>ds_builder = b, ds_warnings = w, ds_visited = visited_dies_default\<rparr>"
  obtain p where "declaration_resolve env G DEPTH_LIMIT dwarf u entry files MainSource ?s = Inr p"
    using assms(1) unfolding resolve_declaration_line_def by (rule let_ok_InrE)
  moreover obtain found t where "p = (found, t)" by (cases p)
  ultimately have r: "declaration_resolve env G DEPTH_LIMIT dwarf u entry files MainSource ?s = Inr (found, t)" by simp
  have "found = row" "ds_builder t = c" using assms(1) unfolding resolve_declaration_line_def r by auto
  then show ?thesis using decl_soundD[OF declaration_resolve_sound r] assms(2,3) by simp
qed


section \<open>The rows of a function\<close>

definition rows_ok :: "nat \<Rightarrow> address_range \<Rightarrow> line_entry list \<Rightarrow> bool" where
  "rows_ok n r rows \<longleftrightarrow> (\<forall>row \<in> set rows. r_start r \<le> row_address row \<and> row_address row < r_end r \<and> unat (row_file row) < n)"

lemma rows_ok_mono: "rows_ok m r rows \<Longrightarrow> m \<le> n \<Longrightarrow> rows_ok n r rows"
  by (auto simp: rows_ok_def intro: less_le_trans)

text \<open>What the import of a subprogram keeps: the lines and files of its unit are in the builder's table.\<close>

definition unit_ok :: "'t file_env \<Rightarrow> (gfunction \<Rightarrow> bool) \<Rightarrow> 't gsym_builder \<Rightarrow> unit_lines \<Rightarrow> file_indices \<Rightarrow> 't gsym_builder \<Rightarrow> bool" where
  "unit_ok env P b0 ul files b \<longleftrightarrow> lines_sound env P b0 ul b \<and> indices_exist (length (b_files b)) files"

lemma unit_ok_sound: "unit_ok env P b0 ul files b \<Longrightarrow> sound_builder env b \<and> grown P b0 b \<and> indices_exist (length (b_files b)) files"
  by (simp add: unit_ok_def lines_sound_def files_sound_def)

lemma unit_ok_grows:
  assumes "unit_ok env P b0 ul files b" and "sound_builder env c" and "grown P b c"
  shows "unit_ok env P b0 ul files c"
  using assms indices_exist_mono[OF _ grown_files[OF assms(3)]] grown_files[OF assms(3)] grown_trans[OF _ assms(3)]
  by (auto simp: unit_ok_def lines_sound_def files_sound_def intro: less_le_trans)

lemma for_range_rows_ok:
  assumes "lines_sound env P b0 ul b" and "live_range r"
  shows "rows_ok (length (b_files b)) r (fst (for_range ul r requested))"
proof -
  have r: "r_start r < r_end r" and e: "entries_sorted ul" using assms by (simp_all add: live_range_def lines_sound_def)
  show ?thesis unfolding rows_ok_def using for_range_in_range[OF e r] for_range_files[OF assms(1) r] by blast
qed

text \<open>The error for a sequence that was not requested does not occur.\<close>

lemma for_range_invalid_requested: "for_range ul r requested = (rows, True) \<Longrightarrow> requested \<noteq> None"
  by (auto simp: for_range_def Let_def)

lemma sequence_warning_builder:
  "sequence_warning sp requested s = Inr t \<Longrightarrow> im_builder t = im_builder s"
  by (auto simp: sequence_warning_def warn_def split: option.splits)

lemma function_rows_sound:
  assumes "function_rows env G sp r s = Inr (rows, t)" and "unit_ok env P b0 (sp_lines sp) (sp_files sp) (im_builder s)" and "live_range r"
  shows "sound_builder env (im_builder t) \<and> grown P (im_builder s) (im_builder t) \<and> rows_ok (length (b_files (im_builder t))) r rows"
proof -
  define requested where "requested = statement_sequence_offset G (sp_unit sp) (sp_entry sp)"
  obtain found invalid where f: "for_range (sp_lines sp) r requested = (found, invalid)" by (metis surj_pair)
  note step = assms(1)[unfolded function_rows_def Let_def, folded requested_def, unfolded f prod.case]
  obtain s1 where s1: "(if invalid then sequence_warning sp requested s else Inr s) = Inr s1" using step by (rule let_ok_InrE)
  note step = step[unfolded s1 let_ok_Inr]
  have b1: "im_builder s1 = im_builder s" using s1 sequence_warning_builder by (auto split: if_splits)
  have ok: "sound_builder env (im_builder s)" "indices_exist (length (b_files (im_builder s))) (sp_files sp)"
    using unit_ok_sound[OF assms(2)] by blast+
  have found: "rows_ok (length (b_files (im_builder s))) r found"
    using for_range_rows_ok[of env P b0 "sp_lines sp" "im_builder s" r requested] assms(2,3) f by (simp add: unit_ok_def)
  show ?thesis
  proof (cases "found \<noteq> []")
    case True
    then show ?thesis using step ok found b1 by auto
  next
    case False
    note step = step[unfolded if_not_P[OF False] b1]
    obtain p where p: "resolve_declaration_line env G (sp_dwarf sp) (sp_unit sp) (sp_entry sp) (sp_files sp) (im_builder s) (im_warnings s1) = Inr p"
      using step by (rule let_ok_InrE)
    obtain row c w where c: "p = (row, c, w)" by (cases p)
    have d: "decl_result env P (im_builder s) row c"
      by (rule resolve_declaration_sound[OF p[unfolded c] ok])
    have out: "rows = (case row of None \<Rightarrow> [] | Some row \<Rightarrow> [row\<lparr>row_address := r_start r\<rparr>])" "im_builder t = c"
      using step[unfolded p c let_ok_Inr prod.case] by auto
    show ?thesis using d assms(3)
      by (cases row) (auto simp: out decl_result_def rows_ok_def live_range_def)
  qed
qed

section \<open>The builder accepts what is imported\<close>

lemma validate_lines_accepts:
  "rows_ok n r rows \<Longrightarrow> live_range r \<Longrightarrow> \<exists>k. fold_ok (validate_line r) rows m = Inr k"
proof (induction rows arbitrary: m)
  case (Cons row rows)
  have "validate_line r row m = Inr (max m (row_file row))"
    using Cons.prems by (auto simp: validate_line_def rows_ok_def not_less not_le)
  then show ?case using Cons by (simp add: rows_ok_def)
qed simp

lemma imported_function_validates:
  assumes "name \<noteq> []" and "is_live_range r executable" and "rows_ok n r rows"
    and "\<forall>site \<in> set sites. return_offset site < range_size r"
    and "\<forall>root. inline = Some root \<longrightarrow> (\<exists>m. validate_inline [r] 0 root = Inr m)"
  shows "\<exists>m. validate_for_builder (Function r name rows inline [] sites) = Inr m"
proof -
  have live: "live_range r" "range_is_valid r" "unat (range_size r) < 2 ^ 32"
    using assms(2) by (auto simp: is_live_range_def live_range_def range_is_empty_iff range_is_valid_def)
  obtain k where k: "fold_ok (validate_line r) rows 0 = Inr k" using validate_lines_accepts[OF assms(3) live(1)] by blast
  obtain j where j: "(case inline of None \<Rightarrow> Inr k | Some node \<Rightarrow> let_ok (validate_inline [r] 0 node) (\<lambda>m. Inr (max k m))) = Inr j"
    using assms(5) by (cases inline) auto
  have "\<not> list_ex (\<lambda>site. range_size r \<noteq> 0 \<and> return_offset site \<ge> range_size r) sites"
    using assms(4) by (auto simp: list_ex_iff not_le)
  then show ?thesis using assms(1) live(2,3) k j
    by (simp add: validate_for_builder_def check_merged_depth_def Let_def del: validate_inline.simps)
qed

lemma is_live_range_live: "is_live_range r executable \<Longrightarrow> live_range r"
  by (auto simp: is_live_range_def live_range_def range_is_empty_iff)

lemma sound_builder_files: "sound_builder env b \<Longrightarrow> 0 < length (b_files b)"
proof -
  have "built env b \<Longrightarrow> 0 < length (b_files b)"
  proof (induction rule: built.induct)
    case (built_file b f index b')
    then show ?case by (auto simp: add_file_def Let_def ok_simps split: option.splits)
  next
    case (built_function b fn b')
    then show ?case by (auto simp: add_function_def ok_simps)
  qed (simp_all add: builder_new_def Let_def)
  then show "sound_builder env b \<Longrightarrow> 0 < length (b_files b)" by (simp add: sound_builder_def)
qed

text \<open>What is known of an imported function.\<close>

definition imported :: "import_options \<Rightarrow> gfunction \<Rightarrow> bool" where
  "imported options fn \<longleftrightarrow> is_live_range (fn_range fn) (io_executable_ranges options) \<and> fn_name fn \<noteq> [] \<and> fn_merged fn = []"

text \<open>The function made of one range: its rows, its inline tree and call sites, and the builder it is added to.\<close>

definition range_function :: "'t file_env \<Rightarrow> ('d, 'v) gimli \<Rightarrow> import_options \<Rightarrow> ('d, 'v) subprogram \<Rightarrow> address_range
    \<Rightarrow> 't import_state \<Rightarrow> (gfunction \<times> 't import_state) result" where
  "range_function env G options sp candidate s =
     let_ok (function_rows env G sp candidate s) (\<lambda>(rows, s).
     let s = count_line_rows (length rows) s;
         ctx = \<lparr>dc_dwarf = sp_dwarf sp, dc_unit = sp_unit sp, dc_range = candidate, dc_files = sp_files sp,
           dc_inlines = io_include_inlines options, dc_call_sites = io_include_call_sites options\<rparr> in
     let_ok (extract_subprogram_details G ctx (die_offset (sp_entry sp)) (sp_name sp) (im_warnings s))
       (\<lambda>(inline, call_sites, inline_count, warnings).
     Inr (Function candidate (sp_name sp) rows inline [] call_sites, count_inline_nodes inline_count (s\<lparr>im_warnings := warnings\<rparr>))))"

lemma import_function_range:
  "import_function env G options sp candidate s =
    let_ok (range_function env G options sp candidate s) (\<lambda>(fn, s).
    let_ok (add_function fn (im_builder s)) (\<lambda>b. Inr (count_function (s\<lparr>im_builder := b\<rparr>))))"
  by (simp add: import_function_def range_function_def let_ok_assoc case_prod_unfold Let_def)

lemma range_function_accepted:
  assumes "range_function env G options sp r s = Inr (fn, t)" and "unit_ok env P b0 (sp_lines sp) (sp_files sp) (im_builder s)"
    and "is_live_range r (io_executable_ranges options)" and "sp_name sp \<noteq> []"
  shows "sound_builder env (im_builder t) \<and> grown P (im_builder s) (im_builder t) \<and> files_exist (length (b_files (im_builder t))) fn
    \<and> (\<exists>m. validate_for_builder fn = Inr m) \<and> imported options fn"
proof -
  note live = is_live_range_live[OF assms(3)]
  obtain p where p: "function_rows env G sp r s = Inr p" using assms(1) unfolding range_function_def by (rule let_ok_InrE)
  obtain rows s1 where rs: "p = (rows, s1)" by (cases p)
  note fr = function_rows_sound[OF p[unfolded rs] assms(2) live]
  define ctx where "ctx = \<lparr>dc_dwarf = sp_dwarf sp, dc_unit = sp_unit sp, dc_range = r, dc_files = sp_files sp,
           dc_inlines = io_include_inlines options, dc_call_sites = io_include_call_sites options\<rparr>"
  note step = assms(1)[unfolded range_function_def p rs let_ok_Inr prod.case Let_def, folded ctx_def]
  obtain q where q: "extract_subprogram_details G ctx (die_offset (sp_entry sp)) (sp_name sp) (im_warnings (count_line_rows (length rows) s1)) = Inr q"
    using step by (rule let_ok_InrE)
  obtain inline sites k w where iw: "q = (inline, sites, k, w)" by (cases q)
  have fn: "fn = Function r (sp_name sp) rows inline [] sites" and t: "im_builder t = im_builder s1"
    using step[unfolded q iw let_ok_Inr prod.case] by (auto simp: count_inline_nodes_def count_line_rows_def)
  have ix: "indices_exist (length (b_files (im_builder s1))) (sp_files sp)"
    using unit_ok_sound[OF assms(2)] fr indices_exist_mono grown_files by blast
  have pos: "0 < length (b_files (im_builder s1))" using sound_builder_files fr by blast
  have det: "(\<forall>site \<in> set sites. return_offset site < range_size r)"
    "\<And>root. inline = Some root \<Longrightarrow> (\<exists>m. validate_inline [r] 0 root = Inr m)
        \<and> (\<forall>index \<in> set (inline_file_refs root). unat index < length (b_files (im_builder s1)))"
    using extract_details_ok[OF q[unfolded iw], of "length (b_files (im_builder s1))"] ix pos live by (simp_all add: ctx_def del: validate_inline.simps)
  have "\<exists>m. validate_for_builder fn = Inr m"
    unfolding fn by (rule imported_function_validates[OF assms(4,3)]) (use fr det in blast)+
  moreover have "files_exist (length (b_files (im_builder s1))) fn"
    using fr det(2) by (cases inline) (auto simp: fn files_exist_def rows_ok_def)
  ultimately show ?thesis using fr assms(3,4) by (simp add: t imported_def fn)
qed

lemma import_function_sound:
  assumes "import_function env G options sp r s = Inr t" and "unit_ok env (imported options) b0 (sp_lines sp) (sp_files sp) (im_builder s)"
    and "is_live_range r (io_executable_ranges options)" and "sp_name sp \<noteq> []"
  shows "unit_ok env (imported options) b0 (sp_lines sp) (sp_files sp) (im_builder t)"
proof -
  note step = assms(1)[unfolded import_function_range]
  obtain p where p: "range_function env G options sp r s = Inr p" using step by (rule let_ok_InrE)
  obtain fn s1 where fs: "p = (fn, s1)" by (cases p)
  note rf = range_function_accepted[OF p[unfolded fs] assms(2-4)]
  obtain b where b: "add_function fn (im_builder s1) = Inr b" using step[unfolded p fs let_ok_Inr prod.case] by (rule let_ok_InrE)
  have t: "im_builder t = b" using step[unfolded p fs let_ok_Inr prod.case b] by (auto simp: count_function_def)
  have "builder_grows env (imported options) (im_builder s1) b" by (rule add_function_grows[OF b]) (use rf in blast)+
  then have "sound_builder env b" "grown (imported options) (im_builder s) b"
    using rf grown_trans by (auto simp: builder_grows_def)
  then show ?thesis unfolding t by (rule unit_ok_grows[OF assms(2)])
qed

section \<open>Subprograms and units\<close>

lemma warn_builder [simp]: "im_builder (warn warning s) = im_builder s" by (simp add: warn_def)
lemma count_rejected_builder [simp]: "im_builder (count_rejected s) = im_builder s" by (simp add: count_rejected_def)
lemma count_split_unit_builder [simp]: "im_builder (count_split_unit s) = im_builder s" by (simp add: count_split_unit_def)

lemma import_range_sound:
  assumes "import_range env G options sp r s = Inr t" and "unit_ok env (imported options) b0 (sp_lines sp) (sp_files sp) (im_builder s)"
    and "sp_name sp \<noteq> []"
  shows "unit_ok env (imported options) b0 (sp_lines sp) (sp_files sp) (im_builder t)"
proof -
  note step = assms(1)[unfolded import_range_def Let_def]
  show ?thesis
  proof (cases "is_live_range (mk_range (fst r) (snd r)) (io_executable_ranges options)")
    case True
    show ?thesis
      using step import_function_sound[OF _ assms(2) True assms(3)] assms(2) by (auto simp: True split: if_splits)
  next
    case False
    then show ?thesis using step assms(2) by (auto split: if_splits)
  qed
qed

lemma import_subprogram_sound:
  assumes "import_subprogram env G options dwarf u ul files entry s = Inr t" and "unit_ok env (imported options) b0 ul files (im_builder s)"
  shows "unit_ok env (imported options) b0 ul files (im_builder t)"
proof -
  obtain found where n: "resolve_name G dwarf u entry 0 = Inr found" using assms(1) unfolding import_subprogram_def by (rule let_ok_InrE)
  note step = assms(1)[unfolded import_subprogram_def n let_ok_Inr]
  show ?thesis
  proof (cases found)
    case None
    then show ?thesis using step assms(2) by simp
  next
    case (Some name)
    have ne: "name \<noteq> []" using resolve_name_reached[OF n[unfolded Some]] by (simp add: name_reached_def)
    note step = step[unfolded Some option.case]
    show ?thesis
    proof (cases "g_die_ranges G dwarf u entry")
      case (Inl message)
      then show ?thesis using step assms(2) by auto
    next
      case (Inr p)
      obtain ranges failure where p: "p = (ranges, failure)" by (cases p)
      let ?sp = "\<lparr>sp_dwarf = dwarf, sp_unit = u, sp_lines = ul, sp_files = files, sp_entry = entry, sp_name = name\<rparr>"
      note step = step[unfolded Inr p sum.case prod.case Let_def]
      obtain s1 where r: "fold_ok (import_range env G options ?sp) ranges s = Inr s1" using step by (rule let_ok_InrE)
      have "unit_ok env (imported options) b0 ul files (im_builder s1)"
      proof (rule fold_ok_invariant[OF r, where I = "\<lambda>s. unit_ok env (imported options) b0 ul files (im_builder s)"])
        fix range s t
        assume "unit_ok env (imported options) b0 ul files (im_builder s)" "import_range env G options ?sp range s = Inr t"
        then show "unit_ok env (imported options) b0 ul files (im_builder t)"
          using import_range_sound[of env G options ?sp range s t b0] ne by simp
      qed (rule assms(2))
      moreover have "im_builder t = im_builder s1" using step[unfolded r let_ok_Inr] by (auto split: option.splits)
      ultimately show ?thesis by simp
    qed
  qed
qed

lemma import_entries_sound:
  "import_entries env G options dwarf u ul files entries s = Inr t \<Longrightarrow> unit_ok env (imported options) b0 ul files (im_builder s)
    \<Longrightarrow> unit_ok env (imported options) b0 ul files (im_builder t)"
proof (induction entries arbitrary: s rule: length_induct)
  case (1 entries)
  note step = 1(2)[unfolded import_entries.simps[of _ _ _ _ _ _ _ entries]]
  show ?case
  proof (cases "next_subprogram entries")
    case (Inl message)
    then show ?thesis using step by simp
  next
    case (Inr found)
    show ?thesis
    proof (cases found)
      case None
      then show ?thesis using step Inr 1(3) by simp
    next
      case (Some p)
      obtain entry rest where p: "p = (entry, rest)" by (cases p)
      note step = step[unfolded Inr Some p sum.case option.case prod.case]
      obtain s1 where s1: "import_subprogram env G options dwarf u ul files entry s = Inr s1" using step by (rule let_ok_InrE)
      have shorter: "length rest < length entries" by (rule next_subprogram_shorter[OF Inr[unfolded Some p]])
      show ?thesis
        by (rule 1(1)[rule_format, OF shorter step[unfolded s1 let_ok_Inr] import_subprogram_sound[OF s1 1(3)]])
    qed
  qed
qed

lemma import_unit_details_sound:
  assumes "import_unit_details env G options dwarf u ul files s = Inr t" and "unit_ok env (imported options) b0 ul files (im_builder s)"
  shows "unit_ok env (imported options) b0 ul files (im_builder t)"
proof -
  obtain entries where "import_entries env G options dwarf u ul files entries s = Inr t"
    using assms(1) unfolding import_unit_details_def by (auto simp: ok_simps)
  then show ?thesis using assms(2) by (rule import_entries_sound)
qed

text \<open>The invariant of the import: a sound builder that has grown by imported functions.\<close>

definition importing :: "'t file_env \<Rightarrow> import_options \<Rightarrow> 't gsym_builder \<Rightarrow> 't gsym_builder \<Rightarrow> bool" where
  "importing env options b0 b \<longleftrightarrow> sound_builder env b \<and> grown (imported options) b0 b"

lemma importing_refl: "sound_builder env b \<Longrightarrow> importing env options b b"
  by (simp add: importing_def)

lemma importing_unit: "unit_ok env (imported options) b0 ul files b \<Longrightarrow> importing env options b0 b"
  using unit_ok_sound unfolding importing_def by blast

lemma importing_unit_ok: "unit_ok env (imported options) b0 ul files b \<Longrightarrow> importing env options b c
    \<Longrightarrow> unit_ok env (imported options) b0 ul files c"
  unfolding importing_def by (rule unit_ok_grows) blast+

lemma importing_trans: "importing env options b c \<Longrightarrow> importing env options c d \<Longrightarrow> importing env options b d"
  unfolding importing_def using grown_trans by blast

lemma collect_unit_lines_sound:
  assumes "collect_unit_lines env G dwarf u s = Inr (ul, t)" and "sound_builder env (im_builder s)"
  shows "unit_ok env (imported options) (im_builder s) ul (ul_files ul) (im_builder t)"
proof -
  obtain p where "collect_lines env G dwarf u (im_builder s) (im_warnings s) = Inr p"
    using assms(1) unfolding collect_unit_lines_def by (rule let_ok_InrE)
  moreover obtain ul1 b w where p: "p = (ul1, b, w)" by (cases p)
  ultimately have c: "collect_lines env G dwarf u (im_builder s) (im_warnings s) = Inr (ul1, b, w)" by simp
  have "ul1 = ul" "im_builder t = b" using assms(1) unfolding collect_unit_lines_def c by auto
  then show ?thesis using collect_lines_sound[OF c assms(2)] by (auto simp: unit_ok_def lines_sound_def files_sound_def)
qed

lemma import_unit_sound:
  assumes "import_unit env G options dwarf u s = Inr t" and "sound_builder env (im_builder s)"
  shows "importing env options (im_builder s) (im_builder t)"
proof -
  obtain p where "collect_unit_lines env G dwarf u s = Inr p" using assms(1) unfolding import_unit_def by (rule let_ok_InrE)
  moreover obtain ul s1 where "p = (ul, s1)" by (cases p)
  ultimately have c: "collect_unit_lines env G dwarf u s = Inr (ul, s1)" by simp
  note step = assms(1)[unfolded import_unit_def c let_ok_Inr prod.case]
  show ?thesis by (rule importing_unit[OF import_unit_details_sound[OF step collect_unit_lines_sound[OF c assms(2)]]])
qed

text \<open>A split unit uses the lines of its skeleton, which are sound in every later builder.\<close>

definition skeleton_ok :: "'t file_env \<Rightarrow> import_options \<Rightarrow> unit_lines \<Rightarrow> 't gsym_builder \<Rightarrow> bool" where
  "skeleton_ok env options ul b \<longleftrightarrow> unit_ok env (imported options) b ul (ul_files ul) b"

lemma unit_ok_start: "unit_ok env P b0 ul files b \<Longrightarrow> unit_ok env P b ul files b"
  by (simp add: unit_ok_def lines_sound_def files_sound_def)

lemma unit_ok_other_files:
  "unit_ok env P b0 ul files b \<Longrightarrow> unit_ok env P b1 ul' files' b \<Longrightarrow> unit_ok env P b0 ul files' b"
  by (simp add: unit_ok_def)

lemma split_unit_ok:
  assumes "skeleton_ok env options skeleton_lines (im_builder s)" and c: "collect_unit_lines env G dwarf u s = Inr (ul, s1)"
    and el: "el = (if ul_entries skeleton_lines = [] \<and> ul_sequences skeleton_lines = [] then ul else skeleton_lines)"
  shows "unit_ok env (imported options) (im_builder s) el
    (if file_indices_is_empty (ul_files ul) then ul_files el else ul_files ul) (im_builder s1)"
proof -
  have sb: "sound_builder env (im_builder s)" using assms(1) unit_ok_sound unfolding skeleton_ok_def by blast
  have own: "unit_ok env (imported options) (im_builder s) ul (ul_files ul) (im_builder s1)"
    by (rule collect_unit_lines_sound[OF c sb])
  have skel: "unit_ok env (imported options) (im_builder s) skeleton_lines (ul_files skeleton_lines) (im_builder s1)"
    by (rule importing_unit_ok[OF assms(1)[unfolded skeleton_ok_def] importing_unit[OF own]])
  have "unit_ok env (imported options) (im_builder s) el (ul_files el) (im_builder s1)"
    using own skel by (simp add: el)
  then show ?thesis using unit_ok_other_files[OF _ own] by simp
qed

lemma import_split_unit_sound:
  assumes "import_split_unit env G options dwarf u skeleton_lines s = Inr t" and "skeleton_ok env options skeleton_lines (im_builder s)"
  shows "importing env options (im_builder s) (im_builder t)"
proof -
  obtain p where "collect_unit_lines env G dwarf u s = Inr p" using assms(1) unfolding import_split_unit_def by (rule let_ok_InrE)
  moreover obtain ul s1 where "p = (ul, s1)" by (cases p)
  ultimately have c: "collect_unit_lines env G dwarf u s = Inr (ul, s1)" by simp
  note step = assms(1)[unfolded import_split_unit_def c let_ok_Inr prod.case Let_def]
  show ?thesis by (rule importing_unit[OF import_unit_details_sound[OF step split_unit_ok[OF assms(2) c refl]]])
qed

lemma import_split_unit_for_skeleton_sound:
  assumes "import_split_unit_for_skeleton env G options dwarf v u skeleton_lines s = Inr t"
    and "skeleton_ok env options skeleton_lines (im_builder s)"
  shows "importing env options (im_builder s) (im_builder t)"
proof -
  obtain s1 where "import_split_unit env G options dwarf (g_copy_relocated G v u) skeleton_lines s = Inr s1" "im_builder t = im_builder s1"
    using assms(1) unfolding import_split_unit_for_skeleton_def by (auto simp: ok_simps)
  then show ?thesis using import_split_unit_sound[OF _ assms(2)] by simp
qed

lemma try_import_loose_dwo_sound:
  assumes "try_import_loose_dwo env G options sources load_dwo u dwo_id skeleton_lines s = Inr (Imported t)"
    and "skeleton_ok env options skeleton_lines (im_builder s)"
  shows "importing env options (im_builder s) (im_builder t)"
  using assms(1) import_split_unit_for_skeleton_sound[OF _ assms(2)] unfolding try_import_loose_dwo_def
  by (auto simp: ok_simps split: sum.splits option.splits)

lemma import_from_package_sound:
  assumes "import_from_package env G options sources dwarf u dwo_id skeleton_lines failures s = Inr t"
    and "skeleton_ok env options skeleton_lines (im_builder s)"
  shows "importing env options (im_builder s) (im_builder t)"
proof -
  have fallback: "importing env options (im_builder s) (im_builder t)"
    if "import_unit_details env G options dwarf u skeleton_lines (ul_files skeleton_lines) (warn (SplitDwarfUnavailable dwo_id reasons) s) = Inr t" for reasons
    by (rule importing_unit[OF import_unit_details_sound[OF that]]) (use assms(2) in \<open>simp add: skeleton_ok_def\<close>)
  show ?thesis
    using assms(1) fallback import_split_unit_for_skeleton_sound[OF _ assms(2)] unfolding import_from_package_def Let_def
    by (auto simp: ok_simps split: sum.splits option.splits)
qed

lemma import_skeleton_sound:
  assumes "import_skeleton env G options sources dwarf u dwo_id s = Inr t" and "sound_builder env (im_builder s)"
  shows "importing env options (im_builder s) (im_builder t)"
proof -
  obtain p where "collect_unit_lines env G dwarf u s = Inr p" using assms(1) unfolding import_skeleton_def by (rule let_ok_InrE)
  moreover obtain ul s1 where "p = (ul, s1)" by (cases p)
  ultimately have c: "collect_unit_lines env G dwarf u s = Inr (ul, s1)" by simp
  note step = assms(1)[unfolded import_skeleton_def c let_ok_Inr prod.case]
  have own: "unit_ok env (imported options) (im_builder s) ul (ul_files ul) (im_builder s1)"
    by (rule collect_unit_lines_sound[OF c assms(2)])
  have skel: "skeleton_ok env options ul (im_builder s1)" unfolding skeleton_ok_def by (rule unit_ok_start[OF own])
  note package = import_from_package_sound[OF _ skel]
  have "importing env options (im_builder s1) (im_builder t)"
  proof (cases "dwo_filesystem sources")
    case None
    then show ?thesis using step package by simp
  next
    case (Some load_dwo)
    note step = step[unfolded Some option.case]
    obtain loose where l: "try_import_loose_dwo env G options sources load_dwo u dwo_id ul s1 = Inr loose" using step by (rule let_ok_InrE)
    note step = step[unfolded l let_ok_Inr]
    show ?thesis
      by (cases loose) (use step package try_import_loose_dwo_sound[OF _ skel] l in auto)
  qed
  then show ?thesis by (rule importing_trans[OF importing_unit[OF own]])
qed

lemma import_header_sound:
  assumes "import_header env G options sources dwarf header s = Inr t" and "sound_builder env (im_builder s)"
  shows "importing env options (im_builder s) (im_builder t)"
  using assms(1) import_unit_sound[OF _ assms(2)] import_skeleton_sound[OF _ assms(2)] unfolding import_header_def
  by (auto simp: ok_simps split: option.splits)

lemma import_dwarf_importing:
  assumes "import_dwarf env G options sources dwarf s = Inr t" and "sound_builder env (im_builder s)"
  shows "importing env options (im_builder s) (im_builder t)"
proof -
  obtain s1 where h: "for_each (import_header env G options sources dwarf) (g_units G dwarf) s = Inr s1"
    using assms(1) unfolding import_dwarf_def by (rule let_ok_InrE)
  have "im_builder t = im_builder s1" using assms(1) unfolding import_dwarf_def h by auto
  moreover have "importing env options (im_builder s) (im_builder s1)"
  proof (rule for_each_invariant[OF h, where I = "\<lambda>u. importing env options (im_builder s) (im_builder u)"])
    show "importing env options (im_builder s) (im_builder s)" by (rule importing_refl[OF assms(2)])
  next
    fix header u v
    assume i: "importing env options (im_builder s) (im_builder u)" and h: "import_header env G options sources dwarf header u = Inr v"
    have "sound_builder env (im_builder u)" using i by (simp add: importing_def)
    from importing_trans[OF i import_header_sound[OF h this]] show "importing env options (im_builder s) (im_builder v)" .
  qed
  ultimately show ?thesis by simp
qed

lemma sound_builder_references: "sound_builder env b \<Longrightarrow> validate_file_references b = Inr ()"
  by (simp add: validate_file_references_def fold_ok_unit validate_function_files_iff sound_builder_def)

section \<open>Properties\<close>

text \<open>C34: What the import of the debug information leaves in the builder, for every answer gimli can give: the functions that
  were there, then imported functions, each of them live and inside an executable range, named, and with every file index in
  the table, so that the late check of the file references succeeds. This holds through line programs, references,
  split units and their packages.\<close>

theorem import_dwarf_sound:
  assumes "import_dwarf env G options sources dwarf s = Inr t" and "sound_builder env (im_builder s)"
  shows "sound_builder env (im_builder t) \<and> validate_file_references (im_builder t) = Inr ()
    \<and> (\<exists>fns. b_functions (im_builder t) = b_functions (im_builder s) @ fns \<and> (\<forall>fn \<in> set fns. imported options fn))"
  using import_dwarf_importing[OF assms] sound_builder_references unfolding importing_def grown_def by blast

section \<open>A unit with one subprogram\<close>

definition sample_import_options :: import_options where
  "sample_import_options = \<lparr>io_executable_ranges = [mk_range 0x1000 0x2000], io_include_inlines = True, io_include_call_sites = True\<rparr>"

definition sample_sources :: "(nat, bytes) dwo_sources" where
  "sample_sources = \<lparr>dwo_filesystem = None, dwo_package = None, dwo_error_text = \<lambda>_. []\<rparr>"

definition sample_import_state :: "((u64 \<times> file_slot) list) import_state" where
  "sample_import_state = \<lparr>im_builder = builder_new sample_file_env, im_stats = conversion_stats_default, im_warnings = []\<rparr>"

definition sample_function :: gfunction where
  "sample_function = Function (mk_range 0x1000 0x1010) [102] []
     (Some (InlineNode [mk_range 0x1000 0x1010] [102] 0 0 [InlineNode [mk_range 0x1004 0x1008] [103] 0 0 []])) [] []"

lemmas sample_import_eval = sample_entry_eval sample_import_options_def sample_sources_def sample_import_state_def sample_function_def

lemma sample_lines: "collect_unit_lines sample_file_env sample_import 2 (sample_unit 2) s
    = Inr (\<lparr>ul_entries = [], ul_files = file_indices_default, ul_sequences = []\<rparr>, s)"
  by (simp add: collect_unit_lines_def collect_lines_def sample_import_eval)

lemma sound_builder_new: "lawful_table (file_table env) \<Longrightarrow> sound_builder env (builder_new env)"
  using file_invar_new[of env] built_new[of env] by (simp add: sound_builder_def builder_new_def Let_def)

lemma sample_sound: "sound_builder sample_file_env (builder_new sample_file_env)"
  by (rule sound_builder_new) (simp add: sample_file_env_def lawful_list_table)

abbreviation sample_sp :: "(nat, bytes) subprogram" where
  "sample_sp \<equiv> \<lparr>sp_dwarf = 2, sp_unit = sample_unit 2, sp_lines = \<lparr>ul_entries = [], ul_files = file_indices_default, ul_sequences = []\<rparr>,
     sp_files = file_indices_default, sp_entry = sample_subprogram, sp_name = [102]\<rparr>"

lemma sample_range: "range_function sample_file_env sample_import sample_import_options sample_sp (mk_range 0x1000 0x1010) sample_import_state
    = Inr (sample_function, count_inline_nodes 1 (count_line_rows 0 sample_import_state))"
proof -
  have "DEPTH_LIMIT = Suc 63" by (simp add: DEPTH_LIMIT_def)
  then obtain k where left: "DEPTH_LIMIT = Suc k" by blast
  have seq: "statement_sequence_offset sample_import (sample_unit 2) sample_subprogram = None"
    by (simp add: statement_sequence_offset_def sample_import_eval)
  have decl: "resolve_declaration_line sample_file_env sample_import 2 (sample_unit 2) sample_subprogram file_indices_default b w = Inr (None, b, w)" for b w
    by (simp add: resolve_declaration_line_def left declared_here_def declaration_value_def file_index_attribute_def sample_import_eval)
  have off: "die_offset sample_subprogram = 10" by (simp add: sample_import_eval)
  have none: "for_range \<lparr>ul_entries = [], ul_files = file_indices_default, ul_sequences = []\<rparr> r None = ([], False)" for r
    by (simp add: for_range_def rows_in_def Let_def clamped_row_def partition_point_def slice_get_def compact_line_rows_def dedup_by_def
        split: option.splits)
  show ?thesis
    by (simp add: range_function_def function_rows_def seq none decl off sample_details sample_import_options_def count_line_rows_def
        count_inline_nodes_def sample_function_def sample_import_state_def cong: let_ok_weak_cong)
qed

lemma sample_live: "is_live_range (mk_range 0x1000 0x1010) (io_executable_ranges sample_import_options)"
  by (simp add: is_live_range_def sample_import_options_def range_is_empty_iff range_size_def saturating_sub_u64_def contains_range_def range_is_valid_def)

text \<open>The whole import of that unit.\<close>

definition sample_imported :: "((u64 \<times> file_slot) list) import_state" where
  "sample_imported = count_function ((count_inline_nodes 1 (count_line_rows 0 sample_import_state))\<lparr>im_builder :=
     (builder_new sample_file_env)\<lparr>b_functions := [sample_function]\<rparr>\<rparr>)"

lemma sample_added: "add_function sample_function (builder_new sample_file_env) = Inr ((builder_new sample_file_env)\<lparr>b_functions := [sample_function]\<rparr>)"
proof -
  have "validate_for_builder sample_function = Inr 0"
    by (simp add: sample_function_def validate_for_builder_def check_merged_depth_def MAX_MERGED_DEPTH_def validate_inline_range_def
        range_is_valid_def range_size_def saturating_sub_u64_def Let_def MAX_INLINE_DEPTH_def check_inline_depth_def contains_range_def
        range_is_empty_iff cong: let_ok_weak_cong)
  then show ?thesis by (simp add: add_function_def builder_new_def Let_def)
qed

lemma sample_imports: "import_dwarf sample_file_env sample_import sample_import_options sample_sources 2 sample_import_state = Inr sample_imported"
proof -
  have n: "resolve_name sample_import 2 (sample_unit 2) sample_subprogram 0 = Inr (Some [102])"
    unfolding sample_subprogram_def by (rule sample_name)
  have f: "import_function sample_file_env sample_import sample_import_options sample_sp (mk_range 0x1000 0x1010) sample_import_state = Inr sample_imported"
    unfolding import_function_range sample_range
    by (simp add: sample_added sample_imported_def sample_import_state_def count_inline_nodes_def count_line_rows_def)
  have r: "import_range sample_file_env sample_import sample_import_options sample_sp (0x1000, 0x1010) sample_import_state = Inr sample_imported"
    using f sample_live by (simp add: import_range_def sample_import_def sample_gimli_def)
  have s: "import_subprogram sample_file_env sample_import sample_import_options 2 (sample_unit 2)
      \<lparr>ul_entries = [], ul_files = file_indices_default, ul_sequences = []\<rparr> file_indices_default sample_subprogram sample_import_state = Inr sample_imported"
    using r n by (simp add: import_subprogram_def sample_import_def sample_subprogram_def sample_entry_def)
  have u: "import_unit sample_file_env sample_import sample_import_options 2 (sample_unit 2) sample_import_state = Inr sample_imported"
    by (simp add: import_unit_def sample_lines import_unit_details_def)
      (simp add: sample_import_def import_entries.simps s[unfolded sample_import_def])
  have h: "g_unit sample_import 2 (sample_header 2) = Inr (sample_unit 2)" "u_dwo_id (sample_unit 2) = None"
    "g_units sample_import 2 = ([sample_header 2], None)"
    by (simp_all add: sample_import_def sample_gimli_def sample_unit_def)
  have c: "st_inline_nodes (im_stats sample_imported) = 1"
    by (simp add: sample_imported_def count_function_def count_inline_nodes_def count_line_rows_def sample_import_state_def
        conversion_stats_default_def saturating_add_def)
  show ?thesis by (simp add: import_dwarf_def for_each_def import_header_def h u c)
qed

lemma import_dwarf_sound_witness:
  "sound_builder sample_file_env (im_builder sample_imported) \<and> b_functions (im_builder sample_imported) = [sample_function]
    \<and> imported sample_import_options sample_function"
proof -
  have "sound_builder sample_file_env (im_builder sample_import_state)" by (simp add: sample_import_state_def sample_sound)
  from import_dwarf_sound[OF sample_imports this] show ?thesis
    by (auto simp: sample_imported_def count_function_def sample_import_state_def builder_new_def Let_def count_inline_nodes_def count_line_rows_def)
qed

end
