(* ===== verification/ConvertSound.thy ===== *)
theory ConvertSound
  imports Convert ImportSound Symbolize
begin

text \<open>
  The conversion as a whole: whatever the object and gimli crates answer, the builder that a conversion returns is sound and
  holds functions of the executable sections only, so that the file written for it symbolizes as its functions say.
\<close>

section \<open>Functions of executable sections\<close>

definition in_text :: "address_range list \<Rightarrow> gfunction \<Rightarrow> bool" where
  "in_text ranges fn \<longleftrightarrow> (\<exists>r \<in> set ranges. contains_range r (fn_range fn)) \<and> unat (range_size (fn_range fn)) < 2 ^ 32 \<and> fn_name fn \<noteq> []"

lemma grown_mono: "grown P b c \<Longrightarrow> (\<And>fn. P fn \<Longrightarrow> Q fn) \<Longrightarrow> grown Q b c"
  by (auto simp: grown_def)

lemma imported_in_text: "imported options fn \<Longrightarrow> in_text (io_executable_ranges options) fn"
  by (auto simp: imported_def in_text_def is_live_range_def list_ex_iff)

section \<open>Symbols\<close>

definition plain_symbol :: "address_range list \<Rightarrow> gfunction \<Rightarrow> bool" where
  "plain_symbol ranges fn \<longleftrightarrow> in_text ranges fn \<and> (\<exists>r name. fn = function_new r name)"

lemma symbol_function_import:
  assumes "symbol_function f layout symbol = Inr (Some (fn, Import))"
  shows "plain_symbol (al_ranges layout) fn"
proof -
  obtain address where a: "symbol_address f layout symbol = Inr (Some address)"
    and s: "sy_kind symbol = TextSymbol" "sy_is_definition symbol"
    using assms by (auto simp: symbol_function_def ok_simps split: if_splits option.splits)
  obtain c name where n: "sy_name symbol = Inr (c # name)"
    using assms a s by (auto simp: symbol_function_def split: sum.splits list.splits)
  obtain stop where e: "checked_add_u64 address (sy_size symbol) = Some stop"
    using assms a s n by (auto simp: symbol_function_def ok_simps)
  have fn: "fn = function_new (mk_range address stop) (c # name)" "\<not> unat (sy_size symbol) > 2 ^ 32 - 1"
    "list_ex (\<lambda>r. contains_range r (mk_range address stop)) (al_ranges layout)"
    using assms a s n e by (auto simp: symbol_function_def Let_def split: if_splits)
  have "unat stop = unat address + unat (sy_size symbol)" using checked_add_u64_Some[OF e] by blast
  then have "range_size (mk_range address stop) = sy_size symbol"
    by (simp add: range_size_def saturating_sub_u64_def word_le_nat_alt word_less_nat_alt unat_eqI unat_sub_u64)
  then show ?thesis using fn by (auto simp: plain_symbol_def in_text_def function_new_def list_ex_iff)
qed

text \<open>The builder accepts every symbol that is imported.\<close>

lemma plain_symbol_accepted:
  assumes "plain_symbol ranges fn"
  shows "\<exists>c. add_function fn b = Inr c"
proof -
  obtain r name where fn: "fn = function_new r name" using assms by (auto simp: plain_symbol_def)
  have "name \<noteq> []" "range_is_valid r" "unat (range_size r) < 2 ^ 32"
    using assms by (auto simp: plain_symbol_def in_text_def fn function_new_def contains_range_def)
  then have "validate_for_builder fn = Inr 0"
    by (simp add: fn function_new_def validate_for_builder_def check_merged_depth_def Let_def)
  then show ?thesis by (simp add: add_function_def)
qed

lemma plain_symbol_grows:
  assumes "add_function fn b = Inr c" and "plain_symbol ranges fn"
  shows "builder_grows env (in_text ranges) b c"
proof (rule add_function_grows[OF assms(1)])
  show "files_exist (length (b_files b)) fn" using assms(2) by (auto simp: plain_symbol_def function_new_def files_exist_def)
qed (use assms(2) in \<open>simp add: plain_symbol_def\<close>)

lemma visit_symbols_import:
  assumes "visit_symbols f layout import_symbol (b, n, m) = Inr (c, n', m')"
  shows "builder_grows env (in_text (al_ranges layout)) b c"
proof -
  let ?I = "\<lambda>s. builder_grows env (in_text (al_ranges layout)) b (fst s)"
  have "?I (c, n', m')"
  proof (rule fold_ok_invariant[OF assms[unfolded visit_symbols_def], of ?I])
    fix symbol s t
    assume I: "?I s" and step: "visit_symbol f layout import_symbol symbol s = Inr t"
    obtain found where f: "symbol_function f layout symbol = Inr found" using step unfolding visit_symbol_def by (rule let_ok_InrE)
    note step = step[unfolded visit_symbol_def f let_ok_Inr]
    obtain b1 i r where s: "s = (b1, i, r)" by (cases s)
    show "?I t"
    proof (cases found)
      case None
      then show ?thesis using step I by simp
    next
      case (Some p)
      obtain fn disposition where p: "p = (fn, disposition)" by (cases p)
      show ?thesis
      proof (cases disposition)
        case Import
        then obtain b2 where b2: "add_function fn b1 = Inr b2" "fst t = b2"
          using step by (auto simp: Some p s import_symbol_def ok_simps)
        have "builder_grows env (in_text (al_ranges layout)) b1 b2"
          by (rule plain_symbol_grows[OF b2(1) symbol_function_import[OF f[unfolded Some p Import]]])
        then show ?thesis using I b2(2) by (auto simp: s intro: builder_grows_trans)
      next
        case Reject
        then show ?thesis using step I by (auto simp: Some p s import_symbol_def)
      qed
    qed
  qed simp
  then show ?thesis by simp
qed

lemma visit_symbols_collect:
  assumes "visit_symbols f layout collect_symbol s = Inr t" and "\<forall>fn \<in> set (fst s). plain_symbol (al_ranges layout) fn"
  shows "\<forall>fn \<in> set (fst t). plain_symbol (al_ranges layout) fn"
proof (rule fold_ok_invariant[OF assms(1)[unfolded visit_symbols_def], where I = "\<lambda>s. \<forall>fn \<in> set (fst s). plain_symbol (al_ranges layout) fn"])
  fix symbol s t
  assume I: "\<forall>fn \<in> set (fst s). plain_symbol (al_ranges layout) fn" and step: "visit_symbol f layout collect_symbol symbol s = Inr t"
  obtain found where f: "symbol_function f layout symbol = Inr found" using step unfolding visit_symbol_def by (rule let_ok_InrE)
  note step = step[unfolded visit_symbol_def f let_ok_Inr]
  obtain acc skip where s: "s = (acc, skip)" by (cases s)
  show "\<forall>fn \<in> set (fst t). plain_symbol (al_ranges layout) fn"
  proof (cases found)
    case None
    then show ?thesis using step I by simp
  next
    case (Some p)
    obtain fn disposition where p: "p = (fn, disposition)" by (cases p)
    show ?thesis
      using step I symbol_function_import[of f layout symbol fn] f
      by (cases disposition) (auto simp: Some p s collect_symbol_def)
  qed
qed (rule assms(2))

lemma add_functions_grow:
  assumes "fold_ok add_function fns b = Inr c" and "\<forall>fn \<in> set fns. plain_symbol ranges fn"
  shows "builder_grows env (in_text ranges) b c"
  by (rule fold_ok_invariant[OF assms(1), where I = "builder_grows env (in_text ranges) b"])
    (use assms(2) in \<open>auto intro: builder_grows_trans plain_symbol_grows\<close>)

lemma import_distinct_symbols_grows:
  assumes "import_distinct_symbols sources layout b rejected = Inr (c, n, m)"
  shows "builder_grows env (in_text (al_ranges layout)) b c"
proof (cases "\<exists>f. unique_sources sources [] = [f]")
  case True
  then show ?thesis using assms visit_symbols_import by (auto simp: import_distinct_symbols_def)
next
  case False
  let ?unique = "unique_sources sources []"
  have multi: "let_ok (fold_ok (\<lambda>f s. visit_symbols f layout collect_symbol s) ?unique ([], [])) (\<lambda>(accepted, skipped).
          let accepted = dedup (sort_functions accepted);
              skipped = filter (\<lambda>fn. fn \<notin> set accepted) (dedup (sort_functions skipped)) in
          let_ok (fold_ok add_function accepted b) (\<lambda>b.
          Inr (b, length accepted, saturating_add rejected (length skipped)))) = Inr (c, n, m)"
    using assms False by (auto simp: import_distinct_symbols_def split: list.splits)
  obtain p where p: "fold_ok (\<lambda>f s. visit_symbols f layout collect_symbol s) ?unique ([], []) = Inr p" using multi by (rule let_ok_InrE)
  obtain accepted skipped where as: "p = (accepted, skipped)" by (cases p)
  note multi = multi[unfolded p as let_ok_Inr prod.case Let_def]
  obtain b1 where b1: "fold_ok add_function (dedup (sort_functions accepted)) b = Inr b1" using multi by (rule let_ok_InrE)
  have c: "c = b1" using multi[unfolded b1] by simp
  have "\<forall>fn \<in> set (fst p). plain_symbol (al_ranges layout) fn"
    by (rule fold_ok_invariant[OF p, where I = "\<lambda>s. \<forall>fn \<in> set (fst s). plain_symbol (al_ranges layout) fn"])
      (use visit_symbols_collect in auto)
  then have "\<forall>fn \<in> set (dedup (sort_functions accepted)). plain_symbol (al_ranges layout) fn"
    using dedup_subset[of "sort_functions accepted"] by (auto simp: as sort_functions_def)
  then show ?thesis unfolding c by (rule add_functions_grow[OF b1])
qed

section \<open>The conversion\<close>

lemma sound_builder_options:
  assumes "lawful_table (file_table env)"
  shows "sound_builder env (builder_with_options env options)"
proof -
  have b: "builder_with_options env options = (builder_new env)\<lparr>b_options := options, b_function_set :=
      (if bo_merge_equal_address_functions options then MergeEqualRanges else Deduplicate)\<rparr>"
    by (simp add: builder_with_options_def)
  have "built env (builder_with_options env options)" unfolding b by (rule built_options[OF built_new])
  moreover have "file_invar env (builder_with_options env options)" using file_invar_new[OF assms] by (simp add: b file_invar_def)
  moreover have "b_functions (builder_with_options env options) = []" by (simp add: b builder_new_def Let_def)
  ultimately show ?thesis by (simp add: sound_builder_def)
qed

lemma convert_symbols_grows:
  assumes "convert_symbols ce options inputs img layout debug_bytes debug separate_debug b stats = Inr (c, stats')"
  shows "builder_grows env (in_text (al_ranges layout)) b c"
proof (cases "co_include_symbols options")
  case False
  then show ?thesis using assms by (simp add: convert_symbols_def)
next
  case True
  then obtain sources n m where "import_distinct_symbols sources layout b (st_rejected_ranges stats) = Inr (c, n, m)"
    using assms by (auto simp: convert_symbols_def Let_def ok_simps)
  then show ?thesis by (rule import_distinct_symbols_grows)
qed

lemma convert_dwarf_grows:
  assumes "convert_dwarf env L G options request s = Inr t"
  shows "builder_grows env (in_text (al_ranges (dr_layout request))) (im_builder s) (im_builder t)"
proof (cases "co_dwarf options")
  case None
  then show ?thesis using assms by (simp add: convert_dwarf_def)
next
  case (Some d)
  let ?o = "\<lparr>io_executable_ranges = al_ranges (dr_layout request), io_include_inlines = di_inline_info d, io_include_call_sites = di_call_sites d\<rparr>"
  obtain sources dwarf where i: "import_dwarf env G ?o sources dwarf s = Inr t"
    using assms by (auto simp: convert_dwarf_def Some import_dwarf_request_def ok_simps)
  show ?thesis
    unfolding builder_grows_def
  proof
    assume "sound_builder env (im_builder s)"
    then have im: "sound_builder env (im_builder t)" "grown (imported ?o) (im_builder s) (im_builder t)"
      using import_dwarf_importing[OF i] by (simp_all add: importing_def)
    have w: "in_text (al_ranges (dr_layout request)) fn" if "imported ?o fn" for fn using imported_in_text[OF that] by simp
    have "grown (in_text (al_ranges (dr_layout request))) (im_builder s) (im_builder t)" by (rule grown_mono[OF im(2)]) (rule w)
    then show "sound_builder env (im_builder t) \<and> grown (in_text (al_ranges (dr_layout request))) (im_builder s) (im_builder t)"
      using im(1) by blast
  qed
qed

lemma convert_inner_sound:
  assumes "convert_inner env L G options inputs dwo_base = Inr report" and "lawful_table (file_table env)"
  obtains img layout where "ce_parse (dl_companion L) (snd (in_image inputs)) = Inr img" and "address_layout_new img = Inr layout"
    and "sound_builder env (rp_builder report)" and "\<forall>fn \<in> set (b_functions (rp_builder report)). in_text (al_ranges layout) fn"
    and "al_ranges layout \<noteq> []"
proof -
  let ?ce = "dl_companion L"
  note step = assms(1)[unfolded convert_inner_def Let_def]
  obtain img where img: "parse_elf (ce_parse ?ce) (snd (in_image inputs)) elf_input_kind.Image = Inr img" using step by (rule let_ok_InrE)
  note step = step[unfolded img let_ok_Inr]
  obtain u where u: "require_supported_kind img = Inr u" using step by (rule let_ok_InrE)
  note step = step[unfolded u let_ok_Inr]
  obtain layout where layout: "address_layout_new img = Inr layout" using step by (rule let_ok_InrE)
  note step = step[unfolded layout let_ok_Inr]
  have ne: "al_ranges layout \<noteq> []" using step by auto
  note step = step[unfolded if_not_P[OF ne]]
  obtain build_id where b: "or_malformed ''ELF build ID'' (ef_build_id img) = Inr build_id" using step by (rule let_ok_InrE)
  note step = step[unfolded b let_ok_Inr]
  obtain mini warnings where m: "(if in_debug inputs = None \<and> (co_include_symbols options \<or> co_dwarf options \<noteq> None)
       then validated_gnu_debugdata ?ce img (co_gnu_debugdata_max_decompressed_size options) [] else (None, [])) = (mini, warnings)"
    by (metis surj_pair)
  note step = step[unfolded m prod.case]
  define debug_bytes where "debug_bytes = (case in_debug inputs of Some bs \<Rightarrow> bs
      | None \<Rightarrow> (case mini of Some bs \<Rightarrow> (Unpacked, bs) | None \<Rightarrow> in_image inputs))"
  note step = step[folded debug_bytes_def]
  obtain debug where d: "parse_elf (ce_parse ?ce) (snd debug_bytes) elf_input_kind.Debug = Inr debug" using step by (rule let_ok_InrE)
  note step = step[unfolded d let_ok_Inr]
  obtain u1 where u1: "(if in_debug inputs \<noteq> None then cross_check_elf_identity img debug elf_input_kind.Debug else Inr ()) = Inr u1"
    using step by (rule let_ok_InrE)
  note step = step[unfolded u1 let_ok_Inr]
  obtain supplementary where s: "parse_optional ?ce (in_supplementary inputs) elf_input_kind.Supplementary = Inr supplementary"
    using step by (rule let_ok_InrE)
  note step = step[unfolded s let_ok_Inr]
  obtain dwp where p: "parse_optional ?ce (in_dwp inputs) elf_input_kind.Dwp = Inr dwp" using step by (rule let_ok_InrE)
  note step = step[unfolded p let_ok_Inr]
  obtain u2 where u2: "(case dwp of None \<Rightarrow> Inr () | Some dwp \<Rightarrow> cross_check_elf_architecture img dwp elf_input_kind.Dwp) = Inr u2"
    using step by (rule let_ok_InrE)
  note step = step[unfolded u2 let_ok_Inr]
  define b0 where "b0 = builder_with_options env (converter_options options img layout (case build_id of None \<Rightarrow> [] | Some bs \<Rightarrow> bs))"
  note step = step[folded b0_def]
  obtain q where q: "convert_symbols ?ce options inputs img layout debug_bytes debug (in_debug inputs \<noteq> None \<or> mini \<noteq> None) b0 conversion_stats_default = Inr q"
    using step by (rule let_ok_InrE)
  obtain b1 stats where bs: "q = (b1, stats)" by (cases q)
  note step = step[unfolded q bs let_ok_Inr prod.case]
  let ?request = "\<lparr>dr_file = debug, dr_supplementary = supplementary, dr_dwp = dwp, dr_dwo_base = dwo_base, dr_layout = layout\<rparr>"
  obtain s1 where s1: "convert_dwarf env L G options ?request \<lparr>im_builder = b1, im_stats = stats, im_warnings = warnings\<rparr> = Inr s1"
    using step by (rule let_ok_InrE)
  have out: "rp_builder report = im_builder s1" using step[unfolded s1] by auto
  have g: "builder_grows env (in_text (al_ranges layout)) b0 (im_builder s1)"
    using builder_grows_trans[OF convert_symbols_grows[OF q[unfolded bs]] convert_dwarf_grows[OF s1, simplified]] .
  have sb: "sound_builder env b0" unfolding b0_def by (rule sound_builder_options[OF assms(2)])
  have fns: "b_functions b0 = []" by (simp add: b0_def builder_with_options_def builder_new_def Let_def)
  show ?thesis
    using that[OF _ layout _ _ ne] img builder_growsD[OF g sb] fns by (auto simp: out parse_elf_Inr grown_def)
qed

section \<open>A converted image\<close>

text \<open>An image with one text section and one symbol, converted without debug information.\<close>

definition sample_symbol :: elf_symbol where
  "sample_symbol = \<lparr>sy_kind = TextSymbol, sy_is_definition = True, sy_section_index = Some 1, sy_address = 0x1000, sy_size = 0x10,
     sy_name = Inr [97]\<rparr>"

definition sample_text :: elf_section where
  "sample_text = (sample_section 1 TextSection 0x100)\<lparr>sn_address := 0x1000\<rparr>"

definition sample_image_file :: elf_file where
  "sample_image_file = (sample_object Executable [sample_text] [sample_symbol] [])\<lparr>ef_build_id := Inr None\<rparr>"

definition sample_companion :: companion_env where
  "sample_companion = \<lparr>ce_parse = (\<lambda>_. Inr sample_image_file), ce_xz_decompress = (\<lambda>_. ([], None)), ce_xz_write_error = id,
     ce_error_text = (\<lambda>_. []), ce_utf8_lossy = id\<rparr>"

definition sample_loader :: "(nat, bytes) dwarf_loader" where
  "sample_loader = \<lparr>dl_texts = \<lparr>kind_text = (\<lambda>_. []), encoding_text = (\<lambda>_. [])\<rparr>, dl_sections = [], dl_package_sections = [],
     dl_borrow = (\<lambda>_ _. 2), dl_set_sup = (\<lambda>d _. d), dl_make_dwo = (\<lambda>d _. d), dl_package = (\<lambda>_ _. Inl []), dl_dwo_name = (\<lambda>_. Inr None),
     dl_companion = sample_companion, dl_read = (\<lambda>_. FileNotFound), dl_display = path_text\<rparr>"

definition sample_options :: conversion_options where
  "sample_options = \<lparr>co_writer = writer_options_default, co_include_symbols = True, co_dwarf = None, co_discovery = Disabled,
     co_debug_directories = [], co_debuginfod_urls = [], co_debuginfod_cache = [], co_debuginfod_max_download_size = 0,
     co_gnu_debugdata_max_decompressed_size = 0\<rparr>"

definition sample_inputs :: elf_inputs where
  "sample_inputs = \<lparr>in_image = (InputAddress 0, []), in_debug = None, in_symbols = None, in_supplementary = None, in_dwp = None\<rparr>"

definition converted_builder :: "((u64 \<times> file_slot) list) gsym_builder" where
  "converted_builder = sample_builder\<lparr>b_options := builder_options_default\<lparr>bo_writer := writer_options_default\<lparr>wo_base_address := Some 0x1000\<rparr>,
     bo_executable_ranges := [mk_range 0x1000 0x1100]\<rparr>\<rparr>"

lemma sample_layout: "address_layout_new sample_image_file
    = Inr \<lparr>al_ranges = [mk_range 0x1000 0x1100], al_section_bases = Map.empty, al_relocatable = False\<rparr>"
  by (simp add: address_layout_new_def sample_image_file_def sample_object_def sample_text_def sample_section_def lay_text_section_def
      checked_add_u64_def cong: let_ok_weak_cong)

lemma sample_visit: "symbol_function sample_image_file \<lparr>al_ranges = [mk_range 0x1000 0x1100], al_section_bases = Map.empty, al_relocatable = False\<rparr>
    sample_symbol = Inr (Some (function_new (mk_range 0x1000 0x1010) [97], Import))"
  by (simp add: symbol_function_def symbol_address_def sample_symbol_def checked_add_u64_def contains_range_def range_is_valid_def cong: let_ok_weak_cong)

lemma sample_added_symbol: "add_function (function_new (mk_range 0x1000 0x1010) [97]) b
    = Inr (b\<lparr>b_maximum_file_index := max (b_maximum_file_index b) 0, b_functions := b_functions b @ [function_new (mk_range 0x1000 0x1010) [97]]\<rparr>)"
  by (simp add: add_function_def validate_for_builder_def check_merged_depth_def MAX_MERGED_DEPTH_def function_new_def
      range_is_valid_def range_size_def saturating_sub_u64_def Let_def)

lemma sample_converts: "\<exists>report. convert sample_file_env sample_loader sample_import sample_options sample_inputs = Inr report
    \<and> rp_builder report = converted_builder"
proof -
  have p: "parse_elf (ce_parse (dl_companion sample_loader)) bs input = Inr sample_image_file" for bs input
    by (simp add: parse_elf_def sample_loader_def sample_companion_def sample_image_file_def sample_object_def)
  have k: "require_supported_kind sample_image_file = Inr ()" "ef_build_id sample_image_file = Inr None"
    "ef_section_by_name sample_image_file = (\<lambda>_. None)" "ef_is_little_endian sample_image_file"
    "ef_symbols sample_image_file = [sample_symbol]" "ef_dynamic_symbols sample_image_file = []"
    by (simp_all add: require_supported_kind_def sample_image_file_def sample_object_def)
  have v: "validated_gnu_debugdata (dl_companion sample_loader) sample_image_file m [] = (None, [])" for m
    by (simp add: validated_gnu_debugdata_def unpack_gnu_debugdata_def k)
  show ?thesis
    by (simp add: convert_def convert_inner_def Let_def p k v sample_layout or_malformed_def sample_inputs_def parse_optional_def
        sample_options_def convert_symbols_def import_distinct_symbols_def visit_symbols_def visit_symbol_def sample_visit import_symbol_def
        sample_added_symbol convert_dwarf_def converted_builder_def builder_with_options_def converter_options_def sample_builder_def
        builder_new_def builder_options_default_def writer_options_default_def cong: let_ok_weak_cong)
qed

lemma converted_finalized: "finalized converted_builder = [Function (mk_range 0x1000 0x1010) [97] [] None [] []]"
  by (simp add: finalized_def finalize_def converted_builder_def sample_eval sort_by_ordering_key_eq compact_function_lines_def compact_line_rows_def
      dedup_by_def deduplicate_def repair_final_range_def Let_def range_is_empty_iff)

lemma converted_encode: "encode_builder sample_env converted_builder = encode_builder sample_env sample_builder"
proof -
  have f: "finalize (b_functions converted_builder) (b_options converted_builder) (b_function_set converted_builder) =
      [Function (mk_range 0x1000 0x1010) [97] [] None [] []]"
    using converted_finalized by (simp only: finalized_def)
  have o: "bo_writer (b_options converted_builder) = writer_options_default\<lparr>wo_base_address := Some 0x1000\<rparr>"
    by (simp add: converted_builder_def)
  have v: "validate_file_table (b_files sample_builder) = Inr ()" "validate_file_references converted_builder = Inr ()"
    "b_files converted_builder = b_files sample_builder"
    by (simp_all add: converted_builder_def sample_eval validate_file_table_def validate_file_references_def nth_get_def)
  have e: "encode_v1 (writer_options_default\<lparr>wo_base_address := Some 0x1000\<rparr>) = encode_v1 writer_options_default"
    by (intro ext) (simp add: encode_v1_def)
  have w: "wo_version (writer_options_default\<lparr>wo_base_address := Some 0x1000\<rparr>) = V1"
    "wo_base_address (writer_options_default\<lparr>wo_base_address := Some 0x1000\<rparr>) = Some 0x1000"
    by (simp_all add: writer_options_default_def)
  show ?thesis
    unfolding sample_encode
    unfolding encode_builder_def v let_ok_Inr Let_def o w e f sample_files prod.case
    by (simp add: sample_functions[unfolded One_nat_def] nth_get_def address_offset_width_def saturating_sub_u64_def cong: let_ok_weak_cong)
qed

section \<open>Properties\<close>

text \<open>C1: From an ELF image to an answer. Whatever the object crate reads from the inputs and gimli from the debug information: when
  a conversion returns, the image was parsed and laid out, every function of the builder it returns is named, smaller than
  4 GiB and inside an executable section, every file it mentions is in the file table, and if a file is written for that builder, with
  any string table, the reader parses it and every lookup returns, without an error, what those functions and files say. The hash
  tables are parameters with their documented laws.\<close>

theorem converted_image_symbolizes:
  assumes "convert env L G options inputs = Inr report" and "lawful_table (file_table env)"
  shows "(\<exists>img layout. ce_parse (dl_companion L) (snd (in_image inputs)) = Inr img \<and> address_layout_new img = Inr layout
      \<and> (\<forall>fn \<in> set (b_functions (rp_builder report)). in_text (al_ranges layout) fn))
    \<and> validate_file_references (rp_builder report) = Inr ()
    \<and> (\<forall>senv renv native img. lawful_table (string_entries senv) \<longrightarrow> lawful_env renv \<longrightarrow> encode_builder senv (rp_builder report) = Inr img
      \<longrightarrow> length (image_into_bytes img) < 2 ^ 64 \<longrightarrow>
      (\<exists>g. gsym_parse native (image_into_bytes img) = Inr g
        \<and> (\<forall>address options scratch. let_ok (lookup_with_options renv g address options scratch) (\<lambda>(result, _). Inr result)
            = Inr (map_option (symbolize (b_files (rp_builder report)) address options)
                (covering_function (finalized (rp_builder report)) address)))))"
proof -
  obtain img layout where p: "ce_parse (dl_companion L) (snd (in_image inputs)) = Inr img" "address_layout_new img = Inr layout"
    "sound_builder env (rp_builder report)" "\<forall>fn \<in> set (b_functions (rp_builder report)). in_text (al_ranges layout) fn"
    using assms(1) unfolding convert_def by (rule convert_inner_sound[OF _ assms(2)]) (rule that)
  have b: "built env (rp_builder report)" using p(3) by (simp add: sound_builder_def)
  show ?thesis
    using p sound_builder_references[OF p(3)] encoded_builder_symbolizes[OF b] by blast
qed

lemma converted_image_symbolizes_witness:
  "\<exists>img g. encode_builder sample_env converted_builder = Inr img \<and> gsym_parse Big (image_into_bytes img) = Inr g
    \<and> let_ok (lookup_with_options plain_env g 0x1004 lookup_options_default []) (\<lambda>(result, _). Inr result) =
      Inr (Some \<lparr>lookup_address = 0x1004, lookup_function = mk_range 0x1000 0x1010,
        lookup_frames = [\<lparr>frame_name = [97], frame_directory = [], frame_basename = [], frame_line = 0, frame_offset = 4,
          frame_inlined = False\<rparr>], lookup_patterns = []\<rparr>)"
proof -
  obtain report where r: "convert sample_file_env sample_loader sample_import sample_options sample_inputs = Inr report"
    "rp_builder report = converted_builder"
    using sample_converts by blast
  obtain img where img: "encode_builder sample_env converted_builder = Inr img" "length (image_into_bytes img) < 2 ^ 64"
    using sample_image unfolding converted_encode by blast
  have l: "lawful_table (string_entries sample_env)" "lawful_table (file_table sample_file_env)"
    by (simp_all add: sample_env_def sample_file_env_def lawful_list_table)
  from converted_image_symbolizes[OF r(1) l(2)] l(1) lawful_plain_env img
  obtain g where "gsym_parse Big (image_into_bytes img) = Inr g"
    "let_ok (lookup_with_options plain_env g 0x1004 lookup_options_default []) (\<lambda>(result, _). Inr result)
      = Inr (map_option (symbolize (b_files converted_builder) 0x1004 lookup_options_default) (covering_function (finalized converted_builder) 0x1004))"
    unfolding r(2) by blast
  then show ?thesis
    using img(1)
    by (simp add: converted_finalized covering_function_def range_contains_def range_is_valid_def range_is_empty_iff symbolize_def
        last_row_le_def saturating_sub_u64_def)
qed

end
