(* ===== verification/SymbolCount.thy ===== *)
theory SymbolCount
  imports ConvertSound
begin

text \<open>
  What \<open>import_distinct_symbols\<close> of \<open>src/convert/elf/mod.rs\<close> imports and counts: the functions of the symbols, each once if
  they come from several files, and each as often as it occurs if they come from one.
\<close>

section \<open>The functions of a file\<close>

text \<open>The function to import of a symbol, and those of the symbols of both tables, in order, as often as they occur.\<close>

fun imported_by :: "(gfunction \<times> symbol_disposition) option result \<Rightarrow> gfunction list" where
  "imported_by (Inr (Some (fn, Import))) = [fn]"
| "imported_by _ = []"

lemma imported_by_simps [simp]: "imported_by (Inr None) = []" "imported_by (Inl e) = []" "imported_by (Inr (Some (fn, Reject))) = []"
  by simp_all


lemma imported_by_short: "length (imported_by r) \<le> 1"
  by (cases r rule: imported_by.cases) auto

definition importable :: "address_layout \<Rightarrow> elf_file \<Rightarrow> gfunction list" where
  "importable layout f =
     concat (map (\<lambda>symbol. imported_by (symbol_function f layout symbol))
       (ef_symbols f @ ef_dynamic_symbols f))"

lemma length_importable: "length (importable layout f) \<le> length (ef_symbols f) + length (ef_dynamic_symbols f)"
proof -
  have "length (concat (map (\<lambda>symbol. imported_by (symbol_function f layout symbol)) symbols))
      \<le> length symbols" for symbols
  proof (induction symbols)
    case (Cons symbol symbols)
    show ?case using Cons imported_by_short[of "symbol_function f layout symbol"] by simp
  qed simp
  from this[of "ef_symbols f @ ef_dynamic_symbols f"] show ?thesis by (simp add: importable_def)
qed





section \<open>Distinct functions\<close>






section \<open>Properties\<close>




end
