(* ===== verification/ImportErrors.thy ===== *)
theory ImportErrors
  imports ImportSound
begin

text \<open>
  The errors of the import of \<open>src/convert/dwarf.rs\<close>: each comes from reading the debug information or from the limits on
  the number of files and the depth of inlining, and none from the validation of a function by the builder. The lemmas follow
  the functions of the import, bottom up, with the invariants of \<open>ImportSound\<close> for the state in which a function is added.
\<close>

section \<open>Errors of reading\<close>

definition reading_error :: "error \<Rightarrow> bool" where
  "reading_error e \<longleftrightarrow> (\<exists>message. e = Dwarf message) \<or> (\<exists>context detail. e = Malformed context detail)
     \<or> (\<exists>context. e = Overflow context) \<or> (\<exists>n. e = Limit ''file table'' n 0xFFFFFFFF)
     \<or> (\<exists>depth. e = Limit ''inline tree depth'' depth 256)"

definition reads :: "'a result \<Rightarrow> bool" where
  "reads r \<longleftrightarrow> (\<forall>e. r = Inl e \<longrightarrow> reading_error e)"

lemma reading_errors [simp]:
  "reading_error (gimli_error message)" "reading_error (malformed context detail)" "reading_error (Overflow context)"
  "reading_error (Limit ''file table'' n 0xFFFFFFFF)" "reading_error (Limit ''inline tree depth'' depth 256)"
  by (simp_all add: reading_error_def gimli_error_def malformed_def)

lemma reads_Inr [simp]: "reads (Inr x)"
  by (simp add: reads_def)

lemma reads_Inl [simp]: "reads (Inl e) \<longleftrightarrow> reading_error e"
  by (simp add: reads_def)

lemma reads_let_ok: "reads m \<Longrightarrow> (\<And>x. m = Inr x \<Longrightarrow> reads (f x)) \<Longrightarrow> reads (let_ok m f)"
  by (cases m) auto

lemma reads_let_ok_simp: "reads (let_ok m f) \<longleftrightarrow> reads m \<and> (\<forall>x. m = Inr x \<longrightarrow> reads (f x))"
  by (cases m) auto

lemma reads_ok_or [simp]: "reading_error e \<Longrightarrow> reads (ok_or v e)"
  by (cases v) auto

lemma reads_from_gimli [simp]: "reads (from_gimli r)"
  by (cases r) auto

lemma reads_map_err [simp]: "reading_error e \<Longrightarrow> reads (map_err (\<lambda>_. e) r)"
  by (cases r) auto

lemma reads_fold_ok: "(\<And>x s. reads (f x s)) \<Longrightarrow> reads (fold_ok f xs s)"
  by (induction xs arbitrary: s) (auto simp: reads_let_ok_simp)

lemma reads_for_each: "(\<And>x s. reads (f x s)) \<Longrightarrow> reads (for_each f items s)"
  by (auto simp: for_each_def reads_let_ok_simp reads_fold_ok split: option.split)

text \<open>A loop whose body keeps an invariant under which it fails by reading only.\<close>

lemma reads_fold_ok_invariant:
  assumes "I s" and "\<And>x s. I s \<Longrightarrow> reads (f x s)" and "\<And>x s t. I s \<Longrightarrow> f x s = Inr t \<Longrightarrow> I t"
  shows "reads (fold_ok f xs s)"
  using assms(1)
proof (induction xs arbitrary: s)
  case (Cons x xs)
  then show ?case using assms(2,3) by (auto simp: reads_let_ok_simp)
qed simp

lemmas reads_simps = reads_let_ok_simp Let_def

section \<open>Line programs and files\<close>

lemma reads_read_line_byte [simp]: "reads (read_line_byte program cursor)"
  by (simp add: read_line_byte_def reads_simps)

lemma reads_take_line_bytes [simp]: "reads (take_line_bytes program cursor len)"
  by (simp add: take_line_bytes_def reads_simps)

lemma reads_uleb_loop [simp]: "reads (read_line_uleb_loop program shifts v cursor)"
  by (induction shifts arbitrary: v cursor) (auto simp: reads_simps)

lemma reads_uleb [simp]: "reads (read_line_uleb program cursor)"
  by (simp only: read_line_uleb_def reads_uleb_loop)

lemma reads_skip_operands [simp]: "reads (skip_operands program n cursor)"
  by (induction n arbitrary: cursor) (auto simp: reads_simps)

lemma reads_scan_extended [simp]: "reads (scan_extended codes program cursor)"
  by (auto simp: scan_extended_def reads_simps)

lemma reads_scan_standard [simp]: "reads (scan_standard codes program lens opcode cursor)"
  by (simp add: scan_standard_def)

lemma reads_scan_line_loop [simp]: "reads (scan_line_loop codes program lens base off cursor start out)"
proof (induction codes program lens base off cursor start out rule: scan_line_loop.induct)
  case (1 codes program lens base off cursor start out)
  show ?case
    by (subst scan_line_loop.simps) (use 1 in \<open>auto simp: reads_let_ok_simp\<close>)
qed

lemma reads_line_sequence_offsets [simp]: "reads (line_sequence_offsets codes header)"
  by (simp add: line_sequence_offsets_def scan_line_sequence_offsets_def reads_simps)

lemma reads_attribute_reader [simp]: "reads (attribute_reader G dwarf u v)"
  by (simp add: attribute_reader_def reads_simps)

lemma reads_attribute_bytes [simp]: "reads (attribute_bytes G dwarf u v)"
  by (auto simp: attribute_bytes_def reads_simps split: option.split)

lemma reads_optional_slice [simp]: "reads (optional_slice r)"
  by (auto simp: optional_slice_def reads_simps split: option.split)

lemma reads_file_path [simp]: "reads (file_path G dwarf u header f directory)"
  by (auto simp: file_path_def reads_simps split: option.split)

lemma reads_add_file [simp]: "reads (add_file env f b)"
  by (auto simp: add_file_def reads_simps split: option.split)

lemma reads_intern_file [simp]: "reads (intern_file env G dwarf u header f b)"
  by (auto simp: intern_file_def reads_simps split: option.split prod.split)

lemma reads_intern_header_files [simp]: "reads (intern_header_files env G dwarf u header b)"
  by (auto simp: intern_header_files_def intern_header_file_def reads_simps intro!: reads_fold_ok)

lemma reads_resolve_row [simp]: "reads (resolve_row env G dwarf u header offsets row s)"
  by (auto simp: resolve_row_def row_file_index_def reads_simps split: option.split)

lemma reads_resolve_rows [simp]: "reads (resolve_rows env G dwarf u header offsets raw_lines ranges b w)"
  by (auto simp: resolve_rows_def reads_simps reads_fold_ok)

lemma reads_collect_program [simp]: "reads (collect_program env G dwarf u program b w)"
  by (auto simp: collect_program_def reads_simps reads_for_each)

lemma reads_collect_lines [simp]: "reads (collect_lines env G dwarf u b w)"
  by (auto simp: collect_lines_def reads_simps split: option.split)

lemma reads_collect_unit_lines [simp]: "reads (collect_unit_lines env G dwarf u s)"
  by (auto simp: collect_unit_lines_def reads_simps)

section \<open>References\<close>

lemma reads_absolute_entry_offset [simp]: "reads (absolute_entry_offset u offset)"
  by (simp add: absolute_entry_offset_def)

lemma reads_unit_containing [simp]: "reads (unit_containing G dwarf target headers)"
  by (induction headers) (auto simp: reads_simps split: option.split)

lemma reads_unit_containing_offset [simp]: "reads (unit_containing_offset G dwarf target)"
  by (simp add: unit_containing_offset_def)

lemma reads_unit_entry [simp]: "reads (unit_entry G u offset)"
  by (simp add: unit_entry_def reads_simps)

lemma reads_own_name [simp]: "reads (own_name G dwarf u entry attributes)"
  by (induction attributes) (auto simp: reads_simps split: option.split)

text \<open>A function that follows references fails by reading only if the functions it calls do.\<close>

lemma reads_resolve_value:
  assumes "\<And>dwarf u entry source visited. reads (resolve dwarf u entry source visited)"
  shows "reads (resolve_value G resolve dwarf u source v visited)"
  using assms
  by (auto simp: resolve_value_def resolve_unit_name_def resolve_absolute_name_def resolve_sup_name_def reads_simps
      split: option.split attribute_value.split prod.split)

lemma reads_resolve_references:
  assumes "\<And>dwarf u entry source visited. reads (resolve dwarf u entry source visited)"
  shows "reads (resolve_references G resolve dwarf u entry source attributes visited)"
  by (induction attributes arbitrary: visited) (auto simp: reads_simps reads_resolve_value[OF assms] split: option.split)

lemma reads_resolve_name_inner [simp]: "reads (resolve_name_inner G left dwarf u entry source visited)"
  by (induction left arbitrary: dwarf u entry source visited) (auto simp: reads_simps reads_resolve_references split: option.split)

lemma reads_resolve_name [simp]: "reads (resolve_name G dwarf u entry depth)"
  by (auto simp: resolve_name_def reads_simps)

lemma reads_resolve_reference_name [simp]: "reads (resolve_reference_name G dwarf u reference depth visited)"
  by (simp add: resolve_reference_name_def reads_resolve_value)

lemma reads_declared_here [simp]: "reads (declared_here G u entry files s)"
  by (auto simp: declared_here_def reads_simps split: option.split prod.split)

lemma reads_declaration_value:
  assumes "\<And>dwarf u entry files source s. reads (resolve dwarf u entry files source s)"
  shows "reads (declaration_value env G resolve dwarf u files source v s)"
  using assms
  by (auto simp: declaration_value_def declaration_unit_def declaration_absolute_def reads_simps
      split: option.split attribute_value.split prod.split)

lemma reads_declaration_references:
  assumes "\<And>dwarf u entry files source s. reads (resolve dwarf u entry files source s)"
  shows "reads (declaration_references env G resolve dwarf u entry files source attributes s)"
  by (induction attributes arbitrary: s) (auto simp: reads_simps reads_declaration_value[OF assms] split: option.split)

lemma reads_declaration_resolve [simp]: "reads (declaration_resolve env G left dwarf u entry files source s)"
  by (induction left arbitrary: dwarf u entry files source s) (auto simp: reads_simps reads_declaration_references split: option.split)

lemma reads_resolve_declaration_line [simp]: "reads (resolve_declaration_line env G dwarf u entry files b w)"
  by (auto simp: resolve_declaration_line_def reads_simps)

section \<open>Inline nodes and call sites\<close>

lemma reads_check_inline_depth [simp]: "reads (check_inline_depth depth)"
  by (simp add: check_inline_depth_def MAX_INLINE_DEPTH_def)

lemma reads_make_inline_node [simp]: "reads (make_inline_node G dwarf u entry parents files w)"
  by (auto simp: make_inline_node_def call_file_of_def call_line_of_def reads_simps intro!: reads_for_each split: option.split)

lemma reads_make_call_site [simp]: "reads (make_call_site G dwarf u entry r)"
  by (auto simp: make_call_site_def reads_simps split: option.split)

lemma reads_visit_descendant [simp]: "reads (visit_descendant G ctx entry s)"
  by (auto simp: visit_descendant_def open_call_site_def open_inline_def reads_simps split: option.split)

lemma reads_visit_descendants [simp]: "reads (visit_descendants G ctx root_depth failure entries s)"
  by (induction entries arbitrary: s) (auto simp: reads_simps split: option.split)

lemma reads_extract_subprogram_details [simp]: "reads (extract_subprogram_details G ctx offset name w)"
  by (auto simp: extract_subprogram_details_def collect_descendants_def reads_simps split: option.split list.split)

section \<open>The import\<close>

lemma reads_function_rows [simp]: "reads (function_rows env G sp r s)"
proof -
  let ?requested = "statement_sequence_offset G (sp_unit sp) (sp_entry sp)"
  obtain rows invalid where f: "for_range (sp_lines sp) r ?requested = (rows, invalid)" by (metis surj_pair)
  have "reads (if invalid then sequence_warning sp ?requested s else Inr s)"
    using for_range_invalid_requested[of "sp_lines sp" r ?requested rows] f
    by (cases ?requested) (auto simp: sequence_warning_def reads_simps)
  then show ?thesis by (auto simp: function_rows_def f reads_simps split: option.split)
qed

lemma reads_range_function [simp]: "reads (range_function env G options sp r s)"
  by (auto simp: range_function_def reads_simps)

text \<open>A range: a function that is made of a live range is accepted, and no other is made.\<close>

lemma reads_import_range:
  assumes "unit_ok env (imported options) b0 (sp_lines sp) (sp_files sp) (im_builder s)" and "sp_name sp \<noteq> []"
  shows "reads (import_range env G options sp bounds s)"
proof -
  let ?r = "mk_range (fst bounds) (snd bounds)"
  have "reads (import_function env G options sp ?r s)" if live: "is_live_range ?r (io_executable_ranges options)"
    unfolding import_function_range
  proof (rule reads_let_ok)
    fix p assume p: "range_function env G options sp ?r s = Inr p"
    obtain fn s1 where fs: "p = (fn, s1)" by (cases p)
    note accepted = range_function_accepted[OF p[unfolded fs] assms(1) live assms(2)]
    then obtain m where "validate_for_builder fn = Inr m" by blast
    then show "reads (case p of (fn, s) \<Rightarrow>
        let_ok (add_function fn (im_builder s)) (\<lambda>b. Inr (count_function (s\<lparr>im_builder := b\<rparr>))))"
      by (simp add: fs add_function_def)
  qed simp
  then show ?thesis by (simp add: import_range_def Let_def)
qed

lemma reads_import_subprogram:
  assumes "unit_ok env (imported options) b0 ul files (im_builder s)"
  shows "reads (import_subprogram env G options dwarf u ul files entry s)"
  unfolding import_subprogram_def
proof (rule reads_let_ok)
  fix found assume n: "resolve_name G dwarf u entry 0 = Inr found"
  have ne: "name \<noteq> []" if "found = Some name" for name
    using resolve_name_reached[OF n[unfolded that]] by (simp add: name_reached_def)
  have loop: "reads (fold_ok (import_range env G options \<lparr>sp_dwarf = dwarf, sp_unit = u, sp_lines = ul, sp_files = files,
      sp_entry = entry, sp_name = name\<rparr>) ranges s)" if "name \<noteq> []" for name ranges
    by (rule reads_fold_ok_invariant[where I = "\<lambda>s. unit_ok env (imported options) b0 ul files (im_builder s)"], rule assms)
      (use reads_import_range[where sp = "\<lparr>sp_dwarf = dwarf, sp_unit = u, sp_lines = ul, sp_files = files, sp_entry = entry, sp_name = name\<rparr>"]
        import_range_sound[where sp = "\<lparr>sp_dwarf = dwarf, sp_unit = u, sp_lines = ul, sp_files = files, sp_entry = entry, sp_name = name\<rparr>"]
        that in auto)
  show "reads (case found of None \<Rightarrow> Inr s | Some name \<Rightarrow>
     (case g_die_ranges G dwarf u entry of
        Inl message \<Rightarrow> Inr (warn (MalformedRanges False message) (count_rejected s))
      | Inr (ranges, failure) \<Rightarrow>
          let sp = \<lparr>sp_dwarf = dwarf, sp_unit = u, sp_lines = ul, sp_files = files, sp_entry = entry, sp_name = name\<rparr> in
          let_ok (fold_ok (import_range env G options sp) ranges s) (\<lambda>s.
          Inr (case failure of None \<Rightarrow> s | Some message \<Rightarrow> warn (MalformedRanges True message) (count_rejected s)))))"
    using ne loop by (auto simp: reads_simps split: option.split sum.split)
qed simp

lemma reads_import_entries:
  "unit_ok env (imported options) b0 ul files (im_builder s) \<Longrightarrow> reads (import_entries env G options dwarf u ul files entries s)"
proof (induction entries arbitrary: s rule: length_induct)
  case (1 entries)
  show ?case
  proof (cases "next_subprogram entries")
    case (Inl message)
    then show ?thesis by (simp add: import_entries.simps[of _ _ _ _ _ _ _ entries])
  next
    case (Inr found)
    show ?thesis
    proof (cases found)
      case None
      then show ?thesis using Inr by (simp add: import_entries.simps[of _ _ _ _ _ _ _ entries])
    next
      case (Some p)
      obtain entry rest where p: "p = (entry, rest)" by (cases p)
      have shorter: "length rest < length entries" by (rule next_subprogram_shorter[OF Inr[unfolded Some p]])
      have "reads (let_ok (import_subprogram env G options dwarf u ul files entry s)
          (import_entries env G options dwarf u ul files rest))"
      proof (rule reads_let_ok[OF reads_import_subprogram[OF 1(2)]])
        fix t assume "import_subprogram env G options dwarf u ul files entry s = Inr t"
        then show "reads (import_entries env G options dwarf u ul files rest t)"
          by (rule 1(1)[rule_format, OF shorter import_subprogram_sound[OF _ 1(2)]])
      qed
      then show ?thesis using Inr Some p by (simp add: import_entries.simps[of _ _ _ _ _ _ _ entries])
    qed
  qed
qed

lemma reads_import_unit_details:
  "unit_ok env (imported options) b0 ul files (im_builder s) \<Longrightarrow> reads (import_unit_details env G options dwarf u ul files s)"
  by (auto simp: import_unit_details_def reads_simps intro: reads_import_entries)

lemma reads_import_unit:
  assumes "sound_builder env (im_builder s)"
  shows "reads (import_unit env G options dwarf u s)"
  using collect_unit_lines_sound[OF _ assms]
  by (auto simp: import_unit_def reads_simps intro!: reads_import_unit_details)

lemma reads_import_split_unit:
  assumes "skeleton_ok env options skeleton_lines (im_builder s)"
  shows "reads (import_split_unit env G options dwarf u skeleton_lines s)"
  unfolding import_split_unit_def
proof (rule reads_let_ok)
  fix p assume "collect_unit_lines env G dwarf u s = Inr p"
  moreover obtain ul s1 where p: "p = (ul, s1)" by (cases p)
  ultimately have c: "collect_unit_lines env G dwarf u s = Inr (ul, s1)" by simp
  show "reads (case p of (ul, s) \<Rightarrow>
     let executable_lines = (if ul_entries skeleton_lines = [] \<and> ul_sequences skeleton_lines = [] then ul else skeleton_lines);
         files = (if file_indices_is_empty (ul_files ul) then ul_files executable_lines else ul_files ul) in
     import_unit_details env G options dwarf u executable_lines files s)"
    unfolding p prod.case Let_def by (rule reads_import_unit_details[OF split_unit_ok[OF assms c refl]])
qed simp

lemma reads_import_split_unit_for_skeleton:
  "skeleton_ok env options skeleton_lines (im_builder s)
    \<Longrightarrow> reads (import_split_unit_for_skeleton env G options dwarf v u skeleton_lines s)"
  by (simp add: import_split_unit_for_skeleton_def reads_simps reads_import_split_unit)

lemma reads_find_split_unit [simp]: "reads (find_split_unit G dwarf expected_id)"
proof -
  have "reads (find_split_unit_in G dwarf expected_id headers matched)" for headers matched
    by (induction headers arbitrary: matched) (auto simp: reads_simps split: option.split)
  then show ?thesis by (simp add: find_split_unit_def)
qed

lemma reads_import_from_package:
  assumes "skeleton_ok env options skeleton_lines (im_builder s)"
  shows "reads (import_from_package env G options sources dwarf u dwo_id skeleton_lines failures s)"
proof -
  have "reads (import_unit_details env G options dwarf u skeleton_lines (ul_files skeleton_lines) (warn warning s))" for warning
    by (rule reads_import_unit_details) (use assms in \<open>simp add: skeleton_ok_def\<close>)
  then show ?thesis
    using reads_import_split_unit_for_skeleton[OF assms]
    by (auto simp: import_from_package_def reads_simps split: option.split sum.split)
qed

lemma reads_import_skeleton:
  assumes "sound_builder env (im_builder s)"
  shows "reads (import_skeleton env G options sources dwarf u dwo_id s)"
  unfolding import_skeleton_def
proof (rule reads_let_ok)
  fix p assume "collect_unit_lines env G dwarf u s = Inr p"
  moreover obtain ul s1 where p: "p = (ul, s1)" by (cases p)
  ultimately have c: "collect_unit_lines env G dwarf u s = Inr (ul, s1)" by simp
  have skel: "skeleton_ok env options ul (im_builder s1)"
    unfolding skeleton_ok_def by (rule unit_ok_start[OF collect_unit_lines_sound[OF c assms]])
  have "reads (try_import_loose_dwo env G options sources load_dwo u dwo_id ul s1)" for load_dwo
    using reads_import_split_unit_for_skeleton[OF skel]
    by (auto simp: try_import_loose_dwo_def reads_simps split: option.split sum.split)
  then show "reads (case p of (skeleton_lines, s) \<Rightarrow>
     case dwo_filesystem sources of
       None \<Rightarrow> import_from_package env G options sources dwarf u dwo_id skeleton_lines [] s
     | Some load_dwo \<Rightarrow>
         let_ok (try_import_loose_dwo env G options sources load_dwo u dwo_id skeleton_lines s) (\<lambda>loose.
         case loose of
           Imported s \<Rightarrow> Inr s
         | Unavailable \<Rightarrow> import_from_package env G options sources dwarf u dwo_id skeleton_lines [] s
         | Failed reason \<Rightarrow> import_from_package env G options sources dwarf u dwo_id skeleton_lines [reason] s))"
    using reads_import_from_package[OF skel]
    by (auto simp: p reads_simps split: option.split loose_dwo_import.split)
qed simp

lemma reads_import_header:
  "sound_builder env (im_builder s) \<Longrightarrow> reads (import_header env G options sources dwarf header s)"
  by (auto simp: import_header_def reads_simps reads_import_unit reads_import_skeleton split: option.split)

lemma import_dwarf_reads:
  assumes "sound_builder env (im_builder s)"
  shows "reads (import_dwarf env G options sources dwarf s)"
proof -
  have "reads (fold_ok (import_header env G options sources dwarf) headers s)" for headers
    by (rule reads_fold_ok_invariant[where I = "\<lambda>s. sound_builder env (im_builder s)"], rule assms)
      (auto simp: importing_def intro: reads_import_header dest: import_header_sound)
  then show ?thesis by (auto simp: import_dwarf_def for_each_def reads_simps split: option.split)
qed

section \<open>Properties\<close>

text \<open>C35: The import never makes a function the builder rejects. Whatever gimli answers, and for any sound builder to begin
  with, an import that fails fails with an error of reading the debug information (a gimli error, malformed or overflowing
  data), or because there are too many files or too deeply nested inline entries; never with an error of the builder's
  validation, such as an empty or reversed range, a range that is too long, an unnamed function, a line or an inline range
  outside its function, or a call site behind its end. This holds for every subprogram of every unit, through split units
  and packages.\<close>

theorem imported_function_accepted:
  assumes "import_dwarf env G options sources dwarf s = Inl e" and "sound_builder env (im_builder s)"
  shows "((\<exists>message. e = Dwarf message) \<or> (\<exists>context detail. e = Malformed context detail) \<or> (\<exists>context. e = Overflow context)
      \<or> (\<exists>n. e = Limit ''file table'' n 0xFFFFFFFF) \<or> (\<exists>depth. e = Limit ''inline tree depth'' depth 256))
    \<and> (\<forall>message. e \<noteq> InvalidModel message) \<and> (\<forall>n. e \<noteq> Limit ''function size'' n 0xFFFFFFFF)"
  using import_dwarf_reads[OF assms(2), of G options sources dwarf] assms(1) by (auto simp: reading_error_def)

text \<open>The list of the units of the sample ends with an error.\<close>

definition broken_import :: "(nat, bytes) gimli" where
  "broken_import = sample_import\<lparr>g_units := (\<lambda>_. ([], Some ''truncated''))\<rparr>"

lemma imported_function_accepted_witness:
  "\<exists>e. import_dwarf sample_file_env broken_import sample_import_options sample_sources 2 sample_import_state = Inl e
    \<and> (\<forall>message. e \<noteq> InvalidModel message)"
proof -
  have s: "sound_builder sample_file_env (im_builder sample_import_state)" by (simp add: sample_import_state_def sample_sound)
  have e: "import_dwarf sample_file_env broken_import sample_import_options sample_sources 2 sample_import_state
      = Inl (gimli_error ''truncated'')"
    by (simp add: import_dwarf_def for_each_def broken_import_def)
  show ?thesis using imported_function_accepted[OF e s] e by blast
qed

end
