(* ===== verification/Spec2Isabelle.thy ===== *)
theory Spec2Isabelle
  imports Transform LineProgram DieTrees SymbolCount ImportErrors
begin

text \<open>
  The gsym library: a verification development of the GSYM symbolication format, its reader, its writer
  and the conversion of ELF and DWARF files into it.

  The program and its parts

  A GSYM file maps code addresses to functions, source lines, inlined frames and call sites. The crate
  under \<open>src/src\<close> has three parts. The reader (\<open>reader.rs\<close>, \<open>reader/\<close>) parses the fixed tables of a file
  once and answers lookups by decoding the one record that an address selects. The builder and the writer
  (\<open>builder.rs\<close>, \<open>normalize.rs\<close>, \<open>writer/\<close>) take functions and files, validate them, sort and merge them,
  and lay them out in one of the two container versions. The converter (\<open>convert/\<close>) walks the debug
  information and the symbols of an ELF file and its companions and adds what it finds to a builder. The
  format modules (\<open>format/\<close>) hold the codecs that the reader and the writer share.

  Theories, in the order they import each other

  Shared vocabulary. \<open>Prelude\<close>: result monad (\<open>let_ok\<close> is the question-mark operator), checked and
  saturating arithmetic, slices by range. \<open>Errors\<close>: \<open>error.rs\<close>, one constructor for each variant.

  Codecs. \<open>Endian\<close>: \<open>endian.rs\<close>; a \<open>Cursor\<close> is a record of the bytes and an offset and every read returns
  the cursor moved on. \<open>Leb\<close>: \<open>format/leb.rs\<close>. \<open>Line\<close>: \<open>format/line.rs\<close>, the interpreter of line opcodes
  and the encoder with its choice of a delta window. \<open>FunctionInfo\<close>: \<open>format/function.rs\<close>, the
  type-length-value records with inline trees, merged functions and call sites. \<open>V1\<close>, \<open>V2\<close>: headers,
  section layouts and the section directory of \<open>format/mod.rs\<close>, \<open>format/v1.rs\<close> and \<open>format/v2.rs\<close>. Their
  lemmas are round trips (what an encoder writes its decoder reads, with the cursor left behind it), the
  bounds the decoders check, and that decoders never move past the end.

  Reader. \<open>Layout\<close>: \<open>reader/layout.rs\<close>. \<open>Reader\<close>: \<open>reader.rs\<close>, \<open>reader/function.rs\<close>; a \<open>Gsym\<close> is the
  input with its parsed layout. \<open>Lookup\<close>: \<open>reader/lookup.rs\<close>. \<open>Owned\<close>: \<open>reader/owned.rs\<close> and the
  verification. \<open>LookupSpec\<close> states what a lookup has to answer over decoded functions and proves that the
  scan of the encoded record computes it.

  Builder and writer. \<open>Model\<close>: \<open>model.rs\<close>, \<open>version.rs\<close>. \<open>Validation\<close>: \<open>validation.rs\<close>. \<open>Interner\<close>: the
  interface of the two interning tables. \<open>Builder\<close>: \<open>builder.rs\<close>. \<open>Finalize\<close>: \<open>normalize.rs\<close>,
  \<open>writer/finalize.rs\<close>; \<open>FinalizeSpec\<close> shows that the permutation loop is one stable sort, that merging
  equal ranges loses nothing and what the result's order is. \<open>Semantic\<close>: \<open>writer/semantic.rs\<close>. \<open>Encode\<close>:
  \<open>writer/encode.rs\<close>. \<open>Writer\<close>: \<open>writer/mod.rs\<close>. \<open>Transform\<close>: \<open>transform.rs\<close>.

  Writer against reader. \<open>Image\<close>: the statement \<open>image_tables\<close> of what the bytes of a file hold.
  \<open>ImageV1\<close>, \<open>ImageV2\<close>: both encoders write such an image and both parsers read it. \<open>EndToEnd\<close>,
  \<open>Readback\<close>: a written file reads back as the finalized functions. \<open>Symbolize\<close>: what a lookup in a
  written file answers, in terms of the functions a caller added.

  Conversion. \<open>Gimli\<close>: the interface of the gimli crate. \<open>Diagnostics\<close>: \<open>convert/diagnostic.rs\<close>.
  \<open>DwarfLines\<close>, \<open>LineProgram\<close>: \<open>convert/dwarf/lines.rs\<close>, the rows of a unit and the scanner of a line
  program, with \<open>DwarfRows\<close> for the order of rows. \<open>DwarfRefs\<close>: \<open>convert/dwarf/references.rs\<close>.
  \<open>DwarfDies\<close>: \<open>convert/dwarf/dies.rs\<close>; \<open>DieTrees\<close> shows that its stack of open frames computes what a
  recursion over the tree computes, \<open>DieValid\<close> that its inline trees pass the validation. \<open>DwarfImport\<close>:
  \<open>convert/dwarf.rs\<close>; \<open>ImportSound\<close>: every import leaves a sound builder; \<open>ImportErrors\<close>: an import that
  fails has failed in reading, never in the validation of a function. \<open>ObjectFile\<close>: \<open>convert/elf/image.rs\<close>. \<open>Relocations\<close>: \<open>convert/dwarf/sections.rs\<close>. \<open>Discovery\<close>: the part of
  \<open>convert/elf/discovery.rs\<close> that decides without a file system. \<open>Convert\<close>: \<open>convert/elf/mod.rs\<close>,
  with \<open>SymbolCount\<close> for what the import of symbols adds and counts.
  \<open>ConvertSound\<close> composes all of it: the file written for a conversion symbolizes as its functions say.

  Conventions

  Structs are records with the source's fields, enums are datatypes with its variants, and a \<open>Result\<close> is
  a sum with the error on the left. Integers that the code reads, shifts or lets wrap are words of their
  width. A \<open>usize\<close> that counts or indexes memory is a natural number, with the 64-bit bound written where
  the code checks it (\<open>checked_add\<close>, \<open>try_from\<close>); a slice is never longer than that. Mutable
  borrows are state passing: a function that takes \<open>&mut self\<close> returns the record updated. Panics and
  out-of-range slices do not occur on the paths modelled, or are an error value where the code makes one.

  Loops and bounds. Loops over slices are folds or recursion on the list. Loops that advance a cursor are
  \<open>function\<close> definitions whose measure is the number of bytes left. Recursion that the code bounds by a
  depth limit (256 nested inline entries, \<open>MAX_INLINE_DEPTH\<close>; 16 nested merged functions,
  \<open>MAX_MERGED_DEPTH\<close>; 64 references in a row, \<open>DEPTH_LIMIT\<close>) recurses on that depth, with the code's
  own error or answer at zero, so no fuel is added and none can run out. The permutation loop of
  \<open>normalize.rs\<close> may run forever on lists that are no permutations: it is a \<open>partial_function\<close> and that
  it returns is a property.

  Interfaces

  \<open>codec\<close> and its extension \<open>fixed_codec\<close> (\<open>Endian\<close>) are the laws of a value written and read back; they
  are interpreted on the fixed-width integers, on LEB128 values (\<open>Leb\<close>) and on the directory entries of
  \<open>V2\<close>. \<open>interner\<close> (\<open>Interner\<close>) is the contract of the tables that give values an index; it is
  interpreted on the builder's files and on the writer's strings.

  What stands outside, as a parameter

  The tables of hashbrown are a record of functions under \<open>lawful_table\<close>; the slices of zerocopy and the
  search of memchr are an environment under \<open>lawful_env\<close>; the native byte order is an argument. gimli
  enters as the record \<open>gimli\<close>, whose fields are the answers the sources ask for, with the opcodes of a
  line program as gimli names them; the object crate enters as records of the sections, symbols and
  relocations it hands out; companion files and DWO files as functions from a path to their contents.
  Nothing is assumed of gimli, the object crate or the contents of files: the properties of the
  conversion hold whatever these answer.

  Not modelled

  Display texts of errors and the source chain; \<open>patch_uint\<close>, which only the tests use; writing
  to an \<open>io::Write\<close>; \<open>mapped.rs\<close>; \<open>convert_path\<close> and the searches of \<open>discovery.rs\<close> in the file system and on
  debuginfod servers; the symbol cache and the command line tool.
\<close>

end
